(* ===== verification/KernelPrelude.thy ===== *)
theory KernelPrelude
  imports Main "HOL-Library.Word" "HOL-Library.Signed_Division"
begin

text \<open>
  What the drivers share: C integer arithmetic at its width, the two ways a kernel function
  ends (an errno or a value; or an abnormal stop), the inputs that stand for the rest of the
  kernel, and the list lemmas the components use.

  \<^item> The kernel is compiled with \<open>-fno-strict-overflow\<close>, so signed arithmetic wraps: \<open>s16\<close>,
    \<open>s32\<close> and \<open>s64\<close> read an integer as a two's complement \<open>s16\<close> / \<open>int\<close> / \<open>loff_t\<close>, \<open>u32\<close> and \<open>u64\<close> as
    an \<open>unsigned int\<close> / \<open>size_t\<close>.  C's \<open>/\<close> and \<open>%\<close> are \<open>sdiv\<close> and \<open>smod\<close>.
  \<^item> \<open>'a res\<close> is what a system call hands back: \<open>Inl e\<close> is the return value \<open>-e\<close>.
  \<^item> \<open>'a run\<close> is how the call ends: \<open>Inl s\<close> says that it does not return normally, because
    of undefined behaviour (a kernel oops or worse), because its loop never ends, or because
    the task sleeps on a lock that is not released.
  \<^item> Decisions of the kernel around the driver are inputs: a \<open>bool list\<close> answers the
    successive allocations (past its end they succeed), a \<open>bool\<close> says whether a signal is
    pending in an interruptible wait, and a user buffer is the list of the bytes (or the
    number of bytes) that are mapped, so that a copy faults when it asks for more.
\<close>

named_theorems c_int \<open>facts that remove a wrap-around\<close>

subsection \<open>C integers\<close>

definition s32 :: "int \<Rightarrow> int" where
  "s32 x = (x + 2 ^ 31) mod 2 ^ 32 - 2 ^ 31"

definition s16 :: "int \<Rightarrow> int" where
  "s16 x = (x + 2 ^ 15) mod 2 ^ 16 - 2 ^ 15"

definition s64 :: "int \<Rightarrow> int" where
  "s64 x = (x + 2 ^ 63) mod 2 ^ 64 - 2 ^ 63"

definition u32 :: "int \<Rightarrow> int" where
  "u32 x = x mod 2 ^ 32"

definition u64 :: "int \<Rightarrow> int" where
  "u64 x = x mod 2 ^ 64"

lemma s32_id [c_int]: "- (2 ^ 31) \<le> x \<Longrightarrow> x < 2 ^ 31 \<Longrightarrow> s32 x = x"
  by (simp add: s32_def)

lemma s16_id [c_int]: "- (2 ^ 15) \<le> x \<Longrightarrow> x < 2 ^ 15 \<Longrightarrow> s16 x = x"
  by (simp add: s16_def)

lemma s64_id [c_int]: "- (2 ^ 63) \<le> x \<Longrightarrow> x < 2 ^ 63 \<Longrightarrow> s64 x = x"
  by (simp add: s64_def)

lemma u32_id [c_int]: "0 \<le> x \<Longrightarrow> x < 2 ^ 32 \<Longrightarrow> u32 x = x"
  by (simp add: u32_def)

lemma u64_id [c_int]: "0 \<le> x \<Longrightarrow> x < 2 ^ 64 \<Longrightarrow> u64 x = x"
  by (simp add: u64_def)

lemma s32_range: "- (2 ^ 31) \<le> s32 x \<and> s32 x < 2 ^ 31"
  by (simp add: s32_def)

lemma sdiv_nonneg: "0 \<le> (a::int) \<Longrightarrow> 0 \<le> b \<Longrightarrow> a sdiv b = a div b"
  by (simp add: signed_divide_int_def sgn_if)

lemma smod_nonneg: "0 \<le> (a::int) \<Longrightarrow> 0 \<le> b \<Longrightarrow> a smod b = a mod b"
  by (simp add: signed_modulo_int_def sgn_if)

lemma div_less_int:
  assumes "0 < b" and "a < c * b"
  shows "a div b < (c::int)"
proof (rule ccontr)
  assume "\<not> a div b < c"
  then have "c * b \<le> (a div b) * b" using assms(1) by (intro mult_right_mono) auto
  also have "\<dots> \<le> a"
    using div_mult_mod_eq [of a b] pos_mod_sign [of b a] assms(1) by linarith
  finally show False using assms(2) by simp
qed

subsection \<open>Errors and abnormal ends\<close>

datatype errno = ENOMEM | EFAULT | EINVAL | ENOTTY | EPERM | EBUSY | EAGAIN | ERESTARTSYS
  | EIO | ENODEV | EEXIST | ENOENT | ETIMEDOUT | EBADF | EACCES

datatype stop =
    DivByZero      \<comment> \<open>a C division by zero\<close>
  | NullDeref      \<comment> \<open>a load or store through a null pointer\<close>
  | UninitRead     \<comment> \<open>a local variable is read before it is written\<close>
  | OutOfBounds    \<comment> \<open>an access outside its object\<close>
  | Diverges       \<comment> \<open>a loop that makes no progress\<close>
  | Sleeps         \<comment> \<open>the task sleeps until another one acts\<close>
  | BadConversion  \<comment> \<open>a floating value converted to an integer type that cannot hold it\<close>

type_synonym 'a res = "errno + 'a"
type_synonym 'a run = "stop + 'a"

type_synonym byte = "8 word"

subsection \<open>Inputs from the kernel\<close>

fun kalloc :: "bool list \<Rightarrow> bool \<times> bool list" where
  "kalloc [] = (True, [])"
| "kalloc (b # bs) = (b, bs)"

text \<open>
  A copy from user space of \<open>n\<close> bytes when only \<open>ubuf\<close> is mapped: the missing tail is
  padded with zeros, as \<open>copy_from_user\<close> documents, and the call reports a fault.
\<close>

definition user_bytes :: "byte list \<Rightarrow> nat \<Rightarrow> byte list" where
  "user_bytes ubuf n = take n ubuf @ replicate (n - length ubuf) 0"

lemma length_user_bytes [simp]: "length (user_bytes ubuf n) = n"
  by (simp add: user_bytes_def)

lemma user_bytes_mapped: "n \<le> length ubuf \<Longrightarrow> user_bytes ubuf n = take n ubuf"
  by (simp add: user_bytes_def)

text \<open>\<open>simple_read_from_buffer\<close>: the bytes delivered and the new position.\<close>

definition simple_read_from_buffer :: "nat \<Rightarrow> nat \<Rightarrow> int \<Rightarrow> 'a list \<Rightarrow> 'a list res \<times> int" where
  "simple_read_from_buffer ulen count pos from =
     (if pos < 0 then (Inl EINVAL, pos)
      else if int (length from) \<le> pos \<or> count = 0 then (Inr [], pos)
      else let n = min count (length from - nat pos); m = min n ulen in
        if m = 0 then (Inl EFAULT, pos) else (Inr (take m (drop (nat pos) from)), pos + int m))"

subsection \<open>Pages\<close>

definition PAGE_SHIFT :: nat where "PAGE_SHIFT = 12"
definition PAGE_SIZE :: nat where "PAGE_SIZE = 2 ^ PAGE_SHIFT"

lemma PAGE_SIZE_eq: "PAGE_SIZE = 4096"
  by (simp add: PAGE_SIZE_def PAGE_SHIFT_def)

subsection \<open>Ioctl numbers: \<open>_IOC(dir, type, nr, size)\<close>\<close>

definition IOC :: "nat \<Rightarrow> nat \<Rightarrow> nat \<Rightarrow> nat \<Rightarrow> nat" where
  "IOC dir typ nr sz = dir * 2 ^ 30 + sz * 2 ^ 16 + typ * 2 ^ 8 + nr"

definition IOC_NR :: "nat \<Rightarrow> nat" where "IOC_NR cmd = cmd mod 2 ^ 8"
definition IOC_TYPE :: "nat \<Rightarrow> nat" where "IOC_TYPE cmd = cmd div 2 ^ 8 mod 2 ^ 8"
definition IOC_DIR :: "nat \<Rightarrow> nat" where "IOC_DIR cmd = cmd div 2 ^ 30 mod 4"

subsection \<open>Overwriting a part of a buffer\<close>

definition overwrite :: "'a list \<Rightarrow> nat \<Rightarrow> 'a list \<Rightarrow> 'a list" where
  "overwrite xs i ys = take i xs @ ys @ drop (i + length ys) xs"

lemma length_overwrite [simp]: "i + length ys \<le> length xs \<Longrightarrow> length (overwrite xs i ys) = length xs"
  by (simp add: overwrite_def)

lemma overwrite_Nil [simp]: "overwrite xs i [] = xs"
  by (simp add: overwrite_def)

lemma nth_overwrite:
  assumes "i + length ys \<le> length xs" and "j < length xs"
  shows "overwrite xs i ys ! j = (if i \<le> j \<and> j < i + length ys then ys ! (j - i) else xs ! j)"
proof (cases "j < i")
  case True
  with assms show ?thesis by (simp add: overwrite_def nth_append)
next
  case False
  with assms show ?thesis by (auto simp: overwrite_def nth_append)
qed

lemma take_drop_overwrite: "i + length ys \<le> length xs \<Longrightarrow> take (length ys) (drop i (overwrite xs i ys)) = ys"
  by (simp add: overwrite_def)

lemma overwrite_append:
  "i + length ys \<le> length xs \<Longrightarrow> overwrite (overwrite xs i ys) (i + length ys) zs = overwrite xs i (ys @ zs)"
  by (simp add: overwrite_def ac_simps)

lemma length_filter_update:
  "i < length xs \<Longrightarrow> length (filter P (xs[i := x])) + (if P (xs ! i) then 1 else 0) = length (filter P xs) + (if P x then 1 else 0)"
proof (induction xs arbitrary: i)
  case (Cons y ys)
  then show ?case by (cases i) auto
qed simp

subsection \<open>Formatting\<close>

text \<open>A number in decimal, and the line \<open>"%u\<newline>"\<close>.\<close>

fun decimal :: "nat \<Rightarrow> byte list" where
  "decimal n = (if n < 10 then [word_of_nat (48 + n)] else decimal (n div 10) @ [word_of_nat (48 + n mod 10)])"

declare decimal.simps [simp del]

definition line_of :: "nat \<Rightarrow> byte list" where
  "line_of ns = decimal ns @ [10]"

text \<open>\<open>scnprintf\<close> into \<open>sz\<close> bytes: the characters it writes before the terminating zero.\<close>

definition scnprintf :: "nat \<Rightarrow> byte list \<Rightarrow> byte list" where
  "scnprintf sz text = take (sz - 1) text"

definition int_text :: "int \<Rightarrow> byte list" where
  "int_text k = (if k < 0 then 45 # decimal (nat (- k)) else decimal (nat k))"

lemma length_decimal_step: "10 \<le> n \<Longrightarrow> length (decimal n) = Suc (length (decimal (n div 10)))"
  by (simp add: decimal.simps [of n])

lemma length_decimal:
  assumes "10 ^ k \<le> n" and "n < 10 ^ Suc k"
  shows "length (decimal n) = Suc k"
  using assms
proof (induction k arbitrary: n)
  case 0
  then show ?case by (simp add: decimal.simps [of n])
next
  case (Suc k)
  have "10 \<le> (10 :: nat) ^ Suc k" by simp
  then have "10 \<le> n" using Suc.prems(1) by linarith
  moreover have "10 ^ k \<le> n div 10" "n div 10 < 10 ^ Suc k" using Suc.prems by (simp_all add: less_eq_div_iff_mult_less_eq div_less_iff_less_mult)
  ultimately show ?case using Suc.IH [of "n div 10"] length_decimal_step by simp
qed

subsection \<open>C strings\<close>

definition text_of :: "string \<Rightarrow> byte list" where
  "text_of s = map of_char s"

lemma length_text_of [simp]: "length (text_of s) = length s"
  by (simp add: text_of_def)

definition cstr :: "byte list \<Rightarrow> byte list" where
  "cstr buf = takeWhile (\<lambda>c. c \<noteq> 0) buf"

definition sysfs_streq :: "byte list \<Rightarrow> byte list \<Rightarrow> bool" where
  "sysfs_streq s t \<longleftrightarrow> (let a = cstr s; b = cstr t in a = b \<or> b = a @ [10] \<or> a = b @ [10])"

subsection \<open>Counting the tasks in a state\<close>

definition tasks_in :: "('a \<Rightarrow> bool) \<Rightarrow> 'a list \<Rightarrow> nat" where
  "tasks_in p ts = length (filter p ts)"

lemma tasks_in_update:
  "t < length ts \<Longrightarrow> tasks_in p (ts[t := x]) + of_bool (p (ts ! t)) = tasks_in p ts + of_bool (p x)"
  unfolding tasks_in_def
proof (induction ts arbitrary: t)
  case (Cons y ts)
  then show ?case by (cases t) auto
qed simp

lemma tasks_in_pos: "t < length ts \<Longrightarrow> p (ts ! t) \<Longrightarrow> 0 < tasks_in p ts"
  by (auto simp: tasks_in_def filter_empty_conv length_greater_0_conv simp del: length_greater_0_conv
      intro!: Nat.gr0I dest!: nth_mem)

lemma tasks_in_replicate [simp]: "tasks_in p (replicate n x) = (if p x then n else 0)"
  by (simp add: tasks_in_def)

lemma tasks_in_map: "(\<And>x. p (f x) = p x) \<Longrightarrow> tasks_in p (map f ts) = tasks_in p ts"
  by (simp add: tasks_in_def filter_map comp_def)

end
