(* ===== verification/ModuleLife.thy ===== *)
theory ModuleLife
  imports KernelPrelude
begin

text \<open>
  The contract of loading and unloading, which the modules of the repository share: \<open>load\<close> and
  \<open>unload\<close> over what a module holds, and any sequence of them as the kernel lets them happen.  The
  locale \<open>loadable\<close> is what every module has to promise, \<open>unwinding\<close> adds that a failed load leaves
  nothing behind.  The components interpret them.
\<close>

subsection \<open>Sequences of loads and unloads\<close>

text \<open>A load with the kernel's answers, which happens only while the module is not loaded, and an unload.\<close>

datatype 'e life_event = Insmod 'e | Rmmod

text \<open>The state: what the loaded module holds, and what every failed load and every unload left.\<close>

definition life_step :: "('e \<Rightarrow> (unit res \<times> 'm) run) \<Rightarrow> ('m \<Rightarrow> 'm run) \<Rightarrow> 'e life_event \<Rightarrow> 'm option \<times> 'm list \<Rightarrow> ('m option \<times> 'm list) run" where
  "life_step load unload ev s = (case (ev, s) of
     (Insmod e, None, left) \<Rightarrow> (case load e of Inl x \<Rightarrow> Inl x
       | Inr (Inl _, m) \<Rightarrow> Inr (None, m # left) | Inr (Inr _, m) \<Rightarrow> Inr (Some m, left))
   | (Insmod e, Some m, left) \<Rightarrow> Inr (Some m, left)
   | (Rmmod, Some m, left) \<Rightarrow> (case unload m of Inl x \<Rightarrow> Inl x | Inr m' \<Rightarrow> Inr (None, m' # left))
   | (Rmmod, None, left) \<Rightarrow> Inr (None, left))"

fun module_life :: "('e \<Rightarrow> (unit res \<times> 'm) run) \<Rightarrow> ('m \<Rightarrow> 'm run) \<Rightarrow> 'e life_event list \<Rightarrow> 'm option \<times> 'm list \<Rightarrow> ('m option \<times> 'm list) run" where
  "module_life load unload [] s = Inr s"
| "module_life load unload (ev # evs) s = (case life_step load unload ev s of Inl x \<Rightarrow> Inl x | Inr s' \<Rightarrow> module_life load unload evs s')"

text \<open>The answers are those that \<open>good\<close> admits; how many of the loads fail.\<close>

definition answers :: "('e \<Rightarrow> bool) \<Rightarrow> 'e life_event list \<Rightarrow> bool" where
  "answers good evs \<longleftrightarrow> (\<forall>e. Insmod e \<in> set evs \<longrightarrow> good e)"

fun failed_load :: "('e \<Rightarrow> (unit res \<times> 'm) run) \<Rightarrow> 'e life_event \<Rightarrow> bool" where
  "failed_load load (Insmod e) = (case load e of Inl _ \<Rightarrow> True | Inr (r, _) \<Rightarrow> r \<noteq> Inr ())"
| "failed_load load Rmmod = False"

definition leaves_nothing :: "('e \<Rightarrow> (unit res \<times> 'm) run) \<Rightarrow> ('m \<Rightarrow> 'm run) \<Rightarrow> ('m \<Rightarrow> bool) \<Rightarrow> ('e \<Rightarrow> bool) \<Rightarrow> bool" where
  "leaves_nothing load unload clean good \<longleftrightarrow> (\<forall>evs. answers good evs \<longrightarrow>
     (\<exists>cur left. module_life load unload evs (None, []) = Inr (cur, left) \<and> (\<forall>m\<in>set left. clean m)))"

definition leaves_failures :: "('e \<Rightarrow> (unit res \<times> 'm) run) \<Rightarrow> ('m \<Rightarrow> 'm run) \<Rightarrow> ('m \<Rightarrow> bool) \<Rightarrow> ('e \<Rightarrow> bool) \<Rightarrow> bool" where
  "leaves_failures load unload clean good \<longleftrightarrow> (\<forall>evs. answers good evs \<longrightarrow>
     (\<exists>cur left. module_life load unload evs (None, []) = Inr (cur, left) \<and>
       length (filter (\<lambda>m. \<not> clean m) left) \<le> length (filter (failed_load load) evs)))"

lemma answers_simps [simp]:
  "answers good []" "answers good (Rmmod # evs) = answers good evs"
  "answers good (Insmod e # evs) \<longleftrightarrow> good e \<and> answers good evs"
  by (auto simp: answers_def)

definition from_load :: "('e \<Rightarrow> (unit res \<times> 'm) run) \<Rightarrow> ('e \<Rightarrow> bool) \<Rightarrow> 'm option \<Rightarrow> bool" where
  "from_load load good cur \<longleftrightarrow> (case cur of None \<Rightarrow> True | Some m \<Rightarrow> \<exists>e. good e \<and> load e = Inr (Inr (), m))"

lemma from_load_simps [simp]:
  "from_load load good None" "from_load load good (Some m) \<longleftrightarrow> (\<exists>e. good e \<and> load e = Inr (Inr (), m))"
  by (simp_all add: from_load_def)

subsection \<open>The contracts\<close>

locale loadable =
  fixes load :: "'e \<Rightarrow> (unit res \<times> 'm) run" and unload :: "'m \<Rightarrow> 'm run" and clean :: "'m \<Rightarrow> bool" and good :: "'e \<Rightarrow> bool"
  assumes returns: "good e \<Longrightarrow> \<exists>r m. load e = Inr (r, m)"
    and unloads: "good e \<Longrightarrow> load e = Inr (Inr (), m) \<Longrightarrow> \<exists>m'. unload m = Inr m' \<and> clean m'"
begin

lemma step_returns:
  assumes "answers good [ev]" and "from_load load good cur"
  obtains cur' left' where "life_step load unload ev (cur, left) = Inr (cur', left')" and "from_load load good cur'"
    and "left' = left \<or> (\<exists>m. left' = m # left \<and> (clean m \<or> failed_load load ev \<and> cur' = None \<and>
      (\<exists>e x. ev = Insmod e \<and> good e \<and> load e = Inr (Inl x, m))))"
proof (cases ev)
  case (Insmod e)
  show thesis
  proof (cases cur)
    case None
    have "good e" using Insmod assms(1) by simp
    from returns [OF this] obtain r m where "load e = Inr (r, m)" by blast
    with None Insmod assms(1) that show thesis by (cases r) (fastforce simp: life_step_def)+
  qed (use Insmod assms that in \<open>simp add: life_step_def\<close>)
next
  case Rmmod
  show thesis
  proof (cases cur)
    case (Some m)
    with assms(2) unloads obtain m' where "unload m = Inr m'" "clean m'" by auto
    with Some Rmmod that show thesis by (simp add: life_step_def)
  qed (use Rmmod that in \<open>simp add: life_step_def\<close>)
qed

lemma life_bounded:
  "answers good evs \<Longrightarrow> from_load load good cur \<Longrightarrow> \<exists>cur' left'. module_life load unload evs (cur, left) = Inr (cur', left') \<and>
    length (filter (\<lambda>m. \<not> clean m) left') \<le> length (filter (\<lambda>m. \<not> clean m) left) + length (filter (failed_load load) evs)"
proof (induction evs arbitrary: cur left)
  case (Cons ev evs)
  from Cons.prems have "answers good [ev]" "answers good evs" by (auto simp: answers_def)
  with step_returns [of ev cur left] Cons.prems(2) obtain cur1 left1 where s: "life_step load unload ev (cur, left) = Inr (cur1, left1)"
    "from_load load good cur1" and l: "left1 = left \<or> (\<exists>m. left1 = m # left \<and> (clean m \<or> failed_load load ev))" by metis
  from Cons.IH [OF \<open>answers good evs\<close> s(2), of left1] obtain cur' left' where "module_life load unload evs (cur1, left1) = Inr (cur', left')"
    "length (filter (\<lambda>m. \<not> clean m) left') \<le> length (filter (\<lambda>m. \<not> clean m) left1) + length (filter (failed_load load) evs)" by blast
  with s(1) l show ?case by (auto split: if_splits)
qed simp

lemma leaves_only_failures: "leaves_failures load unload clean good"
  unfolding leaves_failures_def using life_bounded [of _ None "[]"] by simp

end

locale unwinding = loadable +
  assumes fails: "good e \<Longrightarrow> load e = Inr (Inl x, m) \<Longrightarrow> clean m"
begin

lemma life_clean:
  "answers good evs \<Longrightarrow> from_load load good cur \<Longrightarrow> \<forall>m\<in>set left. clean m \<Longrightarrow>
    \<exists>cur' left'. module_life load unload evs (cur, left) = Inr (cur', left') \<and> (\<forall>m\<in>set left'. clean m)"
proof (induction evs arbitrary: cur left)
  case (Cons ev evs)
  from Cons.prems have a: "answers good [ev]" "answers good evs" by (auto simp: answers_def)
  obtain cur1 left1 where s: "life_step load unload ev (cur, left) = Inr (cur1, left1)" "from_load load good cur1"
    and l: "left1 = left \<or> (\<exists>m. left1 = m # left \<and> (clean m \<or> (\<exists>e x. good e \<and> load e = Inr (Inl x, m))))"
    by (rule step_returns [OF a(1) Cons.prems(2), of left]) blast
  have "\<forall>m\<in>set left1. clean m" using l Cons.prems(3) fails by auto
  from Cons.IH [OF a(2) s(2) this] s(1) show ?case by simp
qed simp

lemma nothing_left: "leaves_nothing load unload clean good"
  unfolding leaves_nothing_def using life_clean [of _ None "[]"] by simp

end

subsection \<open>Introduction\<close>

text \<open>From what the components show of one load and one unload.\<close>

lemma loadableI:
  assumes "\<And>e. good e \<Longrightarrow> (case load e of Inl _ \<Rightarrow> False
    | Inr (Inl _, m) \<Rightarrow> True | Inr (Inr _, m) \<Rightarrow> (case unload m of Inl _ \<Rightarrow> False | Inr m' \<Rightarrow> clean m'))"
  shows "loadable load unload clean good"
  by unfold_locales (drule assms, fastforce split: sum.splits prod.splits)+

lemma unwindingI:
  assumes "\<And>e. good e \<Longrightarrow> (case load e of Inl _ \<Rightarrow> False
    | Inr (Inl _, m) \<Rightarrow> clean m | Inr (Inr _, m) \<Rightarrow> (case unload m of Inl _ \<Rightarrow> False | Inr m' \<Rightarrow> clean m'))"
  shows "unwinding load unload clean good"
  by unfold_locales (drule assms, fastforce split: sum.splits prod.splits)+

end
