(* ===== verification/ScullStore.thy ===== *)
theory ScullStore
  imports KernelPrelude
begin

text \<open>
  The storage of a scull device (\<open>common_scull/scull.h\<close>, \<open>common_scull/scull_core.c\<close>): a linked
  list of quantum sets, each an array of \<open>qset\<close> pointers to buffers of \<open>quantum\<close> bytes.
  The five scull drivers of the repository share this code word for word except for the
  function that allocates a quantum, so \<open>scull_write_gen\<close> takes it as an argument and the
  locale \<open>quantum_allocator\<close> states what a write relies on; the drivers interpret it.

  The list \<open>struct scull_qset *data\<close> is a HOL list (the nodes are never shared), a null
  \<open>void **data\<close> or quantum pointer is \<open>None\<close>, and the semaphore is its count.
\<close>

subsection \<open>Data\<close>

datatype scull_qset = QSet (qs_data: "byte list option list option")

record scull_dev =
  sd_data :: "scull_qset list"
  sd_quantum :: int
  sd_qset :: int
  sd_size :: nat
  sd_access_key :: nat
  sd_sem :: nat
  sd_vmas :: int

text \<open>The module's variables \<open>scull_quantum\<close> and \<open>scull_qset\<close>, which an ioctl can change.\<close>

record scull_globals =
  g_quantum :: int
  g_qset :: int

definition SCULL_QSET :: int where "SCULL_QSET = 1000"
definition SCULL_QUANTUM :: int where "SCULL_QUANTUM = 4096"

definition sem_down :: "scull_dev \<Rightarrow> scull_dev" where
  "sem_down d = d\<lparr>sd_sem := sd_sem d - 1\<rparr>"

definition sem_up :: "scull_dev \<Rightarrow> scull_dev" where
  "sem_up d = d\<lparr>sd_sem := sd_sem d + 1\<rparr>"

subsection \<open>\<open>scull_dev_reset\<close>: free the list\<close>

text \<open>
  The loop \<open>for (curr = dev->data; curr; curr = next)\<close> assigns \<open>next\<close> only for a node that
  has an array.  At the first node without one, \<open>next\<close> is not initialised; at a later one it
  still holds the node itself, and the loop does not advance.  The result counts the calls
  of \<open>kfree\<close>.
\<close>

fun reset_nodes :: "bool \<Rightarrow> int \<Rightarrow> scull_qset list \<Rightarrow> nat run" where
  "reset_nodes first n [] = Inr 0"
| "reset_nodes first n (QSet None # ns) = Inl (if first then UninitRead else Diverges)"
| "reset_nodes first n (QSet (Some arr) # ns) =
     (if int (length arr) < n then Inl OutOfBounds
      else case reset_nodes False n ns of
          Inl e \<Rightarrow> Inl e
        | Inr freed \<Rightarrow> Inr (length (filter (\<lambda>q. q \<noteq> None) (take (nat n) arr)) + 1 + freed))"

definition scull_dev_reset :: "scull_globals \<Rightarrow> scull_dev \<Rightarrow> (nat \<times> scull_dev) run" where
  "scull_dev_reset g d =
     (case reset_nodes True (sd_qset d) (sd_data d) of
        Inl e \<Rightarrow> Inl e
      | Inr freed \<Rightarrow> Inr (freed, d\<lparr>sd_size := 0, sd_quantum := g_quantum g,
          sd_qset := g_qset g, sd_data := []\<rparr>))"

subsection \<open>\<open>scull_find_item\<close>: follow the list, adding nodes\<close>

text \<open>
  \<open>while (--n > 0)\<close> makes \<open>n - 1\<close> steps.  \<open>find_from\<close> makes \<open>k\<close> steps from the head of its
  argument, adding a zeroed node where the list ends; the result is the index of the node
  reached (\<open>None\<close> for a failed allocation), the list and the unused allocation answers.
\<close>

fun find_from :: "bool list \<Rightarrow> nat \<Rightarrow> scull_qset list \<Rightarrow>
    nat option \<times> scull_qset list \<times> bool list" where
  "find_from al 0 ns = (Some 0, ns, al)"
| "find_from al (Suc k) [] = (None, [], al)"
| "find_from al (Suc k) [n] =
     (case kalloc al of
        (False, al') \<Rightarrow> (None, [n], al')
      | (True, al') \<Rightarrow> (case find_from al' k [QSet None] of
          (r, ns, al'') \<Rightarrow> (map_option Suc r, n # ns, al'')))"
| "find_from al (Suc k) (n # m # ns) =
     (case find_from al k (m # ns) of (r, ns', al') \<Rightarrow> (map_option Suc r, n # ns', al'))"

definition find_steps :: "int \<Rightarrow> nat" where
  "find_steps item = nat (s32 (item - 1))"

definition scull_find_item :: "bool list \<Rightarrow> scull_dev \<Rightarrow> int \<Rightarrow>
    nat option \<times> scull_dev \<times> bool list" where
  "scull_find_item al d item =
     (if sd_data d = [] then
        (case kalloc al of
           (False, al') \<Rightarrow> (None, d, al')
         | (True, al') \<Rightarrow> (case find_from al' (find_steps item) [QSet None] of
             (r, ns, al'') \<Rightarrow> (r, d\<lparr>sd_data := ns\<rparr>, al'')))
      else (case find_from al (find_steps item) (sd_data d) of
              (r, ns, al') \<Rightarrow> (r, d\<lparr>sd_data := ns\<rparr>, al')))"

subsection \<open>The position of a file offset: item, quantum index, offset in the quantum\<close>

definition scull_locate :: "scull_dev \<Rightarrow> int \<Rightarrow> (int \<times> int \<times> int) run" where
  "scull_locate d pos =
     (let itemsize = s32 (sd_quantum d * sd_qset d) in
      if itemsize = 0 then Inl DivByZero
      else let item = s32 (pos sdiv itemsize); rest = s32 (pos smod itemsize)
           in Inr (item, rest sdiv sd_quantum d, rest smod sd_quantum d))"

text \<open>\<open>if (count > quantum - q_pos) count = quantum - q_pos\<close>, compared as \<open>size_t\<close>.\<close>

definition clip_quantum :: "scull_dev \<Rightarrow> int \<Rightarrow> int \<Rightarrow> nat" where
  "clip_quantum d q_pos cnt =
     (let lim = u64 (s32 (sd_quantum d - q_pos)) in nat (if cnt > lim then lim else cnt))"

subsection \<open>\<open>scull_read\<close>\<close>

text \<open>\<open>if (*f_pos + count > dev->size) count = dev->size - *f_pos\<close>, in \<open>unsigned long\<close>.\<close>

definition clip_eof :: "scull_dev \<Rightarrow> int \<Rightarrow> nat \<Rightarrow> int" where
  "clip_eof d pos count =
     (if u64 (pos + int count) > int (sd_size d) then u64 (int (sd_size d) - pos) else int count)"

text \<open>
  The copy to user space at the end of \<open>scull_read\<close>: \<open>ulen\<close> bytes of the user's buffer are
  writable.  \<open>Inr bs\<close> is the return value \<open>length bs\<close> with \<open>bs\<close> copied out.
\<close>

definition read_quantum :: "byte list \<Rightarrow> nat \<Rightarrow> int \<Rightarrow> nat \<Rightarrow> int \<Rightarrow> scull_dev \<Rightarrow>
    (byte list res \<times> int \<times> scull_dev) run" where
  "read_quantum q ulen q_pos cnt pos d =
     (if q_pos < 0 \<or> length q < nat q_pos + cnt then Inl OutOfBounds
      else if ulen < cnt then Inr (Inl EFAULT, pos, sem_up d)
      else Inr (Inr (take cnt (drop (nat q_pos) q)), pos + int cnt, sem_up d))"

definition scull_read :: "bool \<Rightarrow> bool list \<Rightarrow> nat \<Rightarrow> nat \<Rightarrow> int \<Rightarrow> scull_dev \<Rightarrow>
    (byte list res \<times> int \<times> scull_dev) run" where
  "scull_read sig al ulen count pos d0 =
     (if sig then Inr (Inl ERESTARTSYS, pos, d0)
      else if sd_sem d0 = 0 then Inl Sleeps
      else let d = sem_down d0 in
      if u64 pos \<ge> int (sd_size d) then Inr (Inr [], pos, sem_up d)
      else case scull_locate d pos of
        Inl e \<Rightarrow> Inl e
      | Inr (item, s_pos, q_pos) \<Rightarrow>
         (case scull_find_item al d item of
            (None, d1, _) \<Rightarrow> Inr (Inr [], pos, sem_up d1)
          | (Some k, d1, _) \<Rightarrow>
             (case qs_data (sd_data d1 ! k) of
                None \<Rightarrow> Inr (Inr [], pos, sem_up d1)
              | Some arr \<Rightarrow>
                 (if s_pos < 0 \<or> int (length arr) \<le> s_pos then Inl OutOfBounds
                  else case arr ! nat s_pos of
                     None \<Rightarrow> Inr (Inr [], pos, sem_up d1)
                   | Some q \<Rightarrow> read_quantum q ulen q_pos (clip_quantum d q_pos (clip_eof d pos count)) pos d1))))"

subsection \<open>\<open>scull_write\<close>\<close>

definition set_qset_data :: "nat \<Rightarrow> byte list option list \<Rightarrow> scull_dev \<Rightarrow> scull_dev" where
  "set_qset_data k arr d = d\<lparr>sd_data := (sd_data d)[k := QSet (Some arr)]\<rparr>"

text \<open>\<open>if (!qptr->data) qptr->data = kcalloc(qset, ...)\<close>; a negative \<open>qset\<close> is a huge size.\<close>

definition write_array :: "bool list \<Rightarrow> nat \<Rightarrow> scull_dev \<Rightarrow>
    byte list option list option \<times> scull_dev \<times> bool list" where
  "write_array al k d =
     (case qs_data (sd_data d ! k) of
        Some arr \<Rightarrow> (Some arr, d, al)
      | None \<Rightarrow> (case kalloc al of (ok, al') \<Rightarrow>
          (if ok \<and> 0 \<le> sd_qset d
           then let arr = replicate (nat (sd_qset d)) None in (Some arr, set_qset_data k arr d, al')
           else (None, d, al'))))"

text \<open>The rest of the write, once the array of node \<open>k\<close> is there.\<close>

definition write_quantum :: "nat \<Rightarrow> byte list option list \<Rightarrow> int \<Rightarrow> byte list \<Rightarrow> int \<Rightarrow>
    byte list \<Rightarrow> nat \<Rightarrow> int \<Rightarrow> scull_dev \<Rightarrow> (nat res \<times> int \<times> scull_dev) run" where
  "write_quantum k arr s_pos q q_pos ubuf cnt pos d =
     (if q_pos < 0 \<or> length q < nat q_pos + cnt then Inl OutOfBounds
      else let q' = overwrite q (nat q_pos) (user_bytes ubuf cnt);
               d1 = set_qset_data k (arr[nat s_pos := Some q']) d in
      if length ubuf < cnt then Inr (Inl EFAULT, pos, sem_up d1)
      else let pos' = pos + int cnt;
               d2 = (if int (sd_size d1) < u64 pos' then d1\<lparr>sd_size := nat (u64 pos')\<rparr> else d1)
           in Inr (Inr cnt, pos', sem_up d2))"

text \<open>\<open>scull_write\<close> from the node \<open>qptr\<close> (index \<open>k\<close>) on.\<close>

definition write_node :: "(int \<Rightarrow> bool list \<Rightarrow> (byte list option \<times> bool list) run) \<Rightarrow>
    bool list \<Rightarrow> nat \<Rightarrow> int \<Rightarrow> int \<Rightarrow> byte list \<Rightarrow> nat \<Rightarrow> int \<Rightarrow> scull_dev \<Rightarrow>
    (nat res \<times> int \<times> scull_dev) run" where
  "write_node alloc_q al k s_pos q_pos ubuf cnt pos d =
     (case write_array al k d of
        (None, d1, _) \<Rightarrow> Inr (Inl ENOMEM, pos, sem_up d1)
      | (Some arr, d1, al1) \<Rightarrow>
         (if s_pos < 0 \<or> int (length arr) \<le> s_pos then Inl OutOfBounds
          else case arr ! nat s_pos of
             Some q \<Rightarrow> write_quantum k arr s_pos q q_pos ubuf cnt pos d1
           | None \<Rightarrow> (case alloc_q (sd_quantum d) al1 of
               Inl e \<Rightarrow> Inl e
             | Inr (None, _) \<Rightarrow> Inr (Inl ENOMEM, pos, sem_up d1)
             | Inr (Some q, _) \<Rightarrow> write_quantum k arr s_pos q q_pos ubuf cnt pos d1)))"

definition scull_write_gen :: "(int \<Rightarrow> bool list \<Rightarrow> (byte list option \<times> bool list) run) \<Rightarrow>
    bool \<Rightarrow> bool list \<Rightarrow> byte list \<Rightarrow> nat \<Rightarrow> int \<Rightarrow> scull_dev \<Rightarrow>
    (nat res \<times> int \<times> scull_dev) run" where
  "scull_write_gen alloc_q sig al ubuf count pos d0 =
     (if sig then Inr (Inl ERESTARTSYS, pos, d0)
      else if sd_sem d0 = 0 then Inl Sleeps
      else let d = sem_down d0 in
      case scull_locate d pos of
        Inl e \<Rightarrow> Inl e
      | Inr (item, s_pos, q_pos) \<Rightarrow>
         (case scull_find_item al d item of
            (None, d1, _) \<Rightarrow> Inr (Inl ENOMEM, pos, sem_up d1)
          | (Some k, d1, al1) \<Rightarrow>
              write_node alloc_q al1 k s_pos q_pos ubuf (clip_quantum d q_pos (int count)) pos d1))"

subsection \<open>What is stored: the quantum at a node and index\<close>

definition quanta :: "scull_qset list \<Rightarrow> nat \<times> nat \<rightharpoonup> byte list" where
  "quanta ns = (\<lambda>(k, s). if k < length ns then
      (case qs_data (ns ! k) of None \<Rightarrow> None
       | Some arr \<Rightarrow> if s < length arr then arr ! s else None) else None)"

lemma quanta_Nil [simp]: "quanta [] = Map.empty"
  by (auto simp: quanta_def)

lemma quanta_append_empty [simp]: "quanta (ns @ replicate m (QSet None)) = quanta ns"
  by (rule ext) (auto simp: quanta_def nth_append split: option.splits)

lemma quanta_outside: "length ns \<le> k \<Longrightarrow> quanta ns (k, s) = None"
  by (simp add: quanta_def)

lemma quanta_update:
  assumes "k < length ns" and "s < length arr"
    and "\<And>t. t < length arr \<Longrightarrow> t \<noteq> s \<Longrightarrow> arr ! t = quanta ns (k, t)"
    and "\<And>t. length arr \<le> t \<Longrightarrow> quanta ns (k, t) = None"
  shows "quanta (ns[k := QSet (Some (arr[s := Some q]))]) = (quanta ns)((k, s) \<mapsto> q)"
proof (rule ext)
  fix x :: "nat \<times> nat"
  obtain j t where x: "x = (j, t)" by (cases x)
  show "quanta (ns[k := QSet (Some (arr[s := Some q]))]) x = ((quanta ns)((k, s) \<mapsto> q)) x"
  proof (cases "j = k")
    case True
    with assms show ?thesis
      by (cases "t < length arr") (auto simp: x quanta_def nth_list_update)
  next
    case False
    then show ?thesis by (simp add: x quanta_def)
  qed
qed

subsection \<open>Well-formed devices\<close>

definition wf_qset :: "int \<Rightarrow> int \<Rightarrow> scull_qset \<Rightarrow> bool" where
  "wf_qset qu qs n = (case qs_data n of None \<Rightarrow> True
     | Some arr \<Rightarrow> length arr = nat qs \<and>
        (\<forall>q\<in>set arr. case q of None \<Rightarrow> True | Some b \<Rightarrow> nat qu \<le> length b))"

definition scull_wf :: "scull_dev \<Rightarrow> bool" where
  "scull_wf d \<longleftrightarrow> 0 < sd_quantum d \<and> 0 < sd_qset d \<and> sd_quantum d * sd_qset d < 2 ^ 31 \<and>
     sd_size d < 2 ^ 63 \<and> (\<forall>n\<in>set (sd_data d). wf_qset (sd_quantum d) (sd_qset d) n)"

text \<open>The file offsets whose item number fits the \<open>int item\<close> of the code.\<close>

definition pos_ok :: "scull_dev \<Rightarrow> int \<Rightarrow> bool" where
  "pos_ok d pos \<longleftrightarrow> 0 \<le> pos \<and> pos < 2 ^ 31 * (sd_quantum d * sd_qset d)"

lemma wf_qset_None [simp]: "wf_qset qu qs (QSet None)"
  by (simp add: wf_qset_def)

lemma wf_qset_nth:
  "n < length ns \<Longrightarrow> \<forall>x\<in>set ns. wf_qset qu qs x \<Longrightarrow> wf_qset qu qs (ns ! n)"
  by simp

lemma wf_quanta_len:
  assumes "scull_wf d" and "quanta (sd_data d) (k, s) = Some q"
  shows "nat (sd_quantum d) \<le> length q" and "k < length (sd_data d)" and "s < nat (sd_qset d)"
proof -
  from assms(2) show k: "k < length (sd_data d)"
    by (auto simp: quanta_def split: if_splits)
  with assms(1) have wf: "wf_qset (sd_quantum d) (sd_qset d) (sd_data d ! k)"
    by (simp add: scull_wf_def)
  from assms(2) k obtain arr where arr: "qs_data (sd_data d ! k) = Some arr"
      and s: "s < length arr" and q: "arr ! s = Some q"
    by (auto simp: quanta_def split: option.splits if_splits)
  from s q have "Some q \<in> set arr" by (metis nth_mem)
  with wf arr s show "nat (sd_quantum d) \<le> length q" and "s < nat (sd_qset d)"
    by (auto simp: wf_qset_def)
qed

lemma pos_ok_less:
  assumes "scull_wf d" and "pos_ok d pos"
  shows "0 \<le> pos \<and> pos < 2 ^ 62"
proof -
  define p where "p = sd_quantum d * sd_qset d"
  have "p < 2 ^ 31" and "0 \<le> pos" and "pos < 2 ^ 31 * p"
    using assms by (simp_all add: scull_wf_def pos_ok_def p_def)
  then show ?thesis by simp
qed

subsection \<open>\<open>scull_find_item\<close> and \<open>scull_locate\<close>, specified\<close>

lemma find_from_spec:
  assumes "find_from al k ns = (r, ns', al')" and "ns \<noteq> []"
  shows "(\<exists>m. ns' = ns @ replicate m (QSet None)) \<and>
    (r = None \<and> length ns \<le> k \<or> r = Some k \<and> k < length ns')"
  using assms
proof (induction k arbitrary: al ns r ns' al')
  case 0
  then show ?case by auto
next
  case (Suc k)
  show ?case
  proof (cases "tl ns = []")
    case True
    with Suc.prems(2) obtain n where ns: "ns = [n]" by (cases ns) auto
    show ?thesis
    proof (cases "fst (kalloc al)")
      case True
      then obtain al1 where al1: "kalloc al = (True, al1)" by (cases "kalloc al") auto
      obtain r2 ns2 al2 where f: "find_from al1 k [QSet None] = (r2, ns2, al2)"
        by (metis prod_cases3)
      from Suc.IH [OF f] obtain m where m: "ns2 = replicate (Suc m) (QSet None)"
        and r2: "r2 = None \<and> 1 \<le> k \<or> r2 = Some k \<and> k < length ns2" by auto
      have "r = map_option Suc r2" and ns': "ns' = [n] @ replicate (Suc m) (QSet None)"
        using Suc.prems(1) ns al1 f m by auto
      moreover have "\<exists>m. ns' = ns @ replicate m (QSet None)" using ns ns' by blast
      ultimately show ?thesis using r2 m ns by auto
    next
      case False
      then obtain al1 where "kalloc al = (False, al1)" by (cases "kalloc al") auto
      with Suc.prems(1) ns show ?thesis by (auto intro!: exI [of _ 0])
    qed
  next
    case False
    then obtain n n' ms where ns: "ns = n # n' # ms" by (cases ns; cases "tl ns") auto
    obtain r2 ns2 al2 where f: "find_from al k (n' # ms) = (r2, ns2, al2)"
      by (metis prod_cases3)
    from Suc.IH [OF f] Suc.prems(1) ns f show ?thesis by auto
  qed
qed

lemma find_from_total: "ns \<noteq> [] \<Longrightarrow> fst (find_from [] k ns) = Some k"
proof (induction k arbitrary: ns)
  case (Suc k)
  show ?case
  proof (cases "tl ns = []")
    case True
    with Suc.prems obtain n where "ns = [n]" by (cases ns) auto
    with Suc.IH [of "[QSet None]"] show ?thesis by (auto split: prod.splits)
  next
    case False
    then obtain n n' ms where "ns = n # n' # ms" by (cases ns; cases "tl ns") auto
    with Suc.IH [of "n' # ms"] show ?thesis by (auto split: prod.splits)
  qed
qed auto

lemma scull_find_item_spec:
  assumes "scull_find_item al d item = (r, d', al')"
  shows "(\<exists>m. d' = d\<lparr>sd_data := sd_data d @ replicate m (QSet None)\<rparr>) \<and>
    (r = None \<and> length (sd_data d) \<le> find_steps item \<or>
     r = Some (find_steps item) \<and> find_steps item < length (sd_data d'))"
proof (cases "sd_data d = []")
  case empty: True
  show ?thesis
  proof (cases "fst (kalloc al)")
    case True
    then obtain al1 where al1: "kalloc al = (True, al1)" by (cases "kalloc al") auto
    obtain r2 ns2 al2 where f: "find_from al1 (find_steps item) [QSet None] = (r2, ns2, al2)"
      by (metis prod_cases3)
    from find_from_spec [OF f] obtain m where "ns2 = replicate (Suc m) (QSet None)"
      and "r2 = None \<and> 1 \<le> find_steps item \<or>
           r2 = Some (find_steps item) \<and> find_steps item < length ns2" by auto
    with assms al1 empty f show ?thesis by (auto simp: scull_find_item_def intro!: exI [of _ "Suc m"])
  next
    case False
    then obtain al1 where "kalloc al = (False, al1)" by (cases "kalloc al") auto
    with assms empty show ?thesis by (auto simp: scull_find_item_def intro!: exI [of _ 0])
  qed
next
  case False
  obtain r2 ns2 al2 where f: "find_from al (find_steps item) (sd_data d) = (r2, ns2, al2)"
    by (metis prod_cases3)
  from find_from_spec [OF f False] assms False f show ?thesis
    by (auto simp: scull_find_item_def)
qed

lemma scull_find_item_total: "fst (scull_find_item [] d item) = Some (find_steps item)"
  using find_from_total [of "[QSet None]" "find_steps item"] find_from_total [of "sd_data d" "find_steps item"]
  by (auto simp: scull_find_item_def split: prod.splits)

text \<open>
  On a well-formed device \<open>scull_locate\<close> is the positional decomposition of the offset.
\<close>

lemma scull_locate_wf:
  assumes "scull_wf d" and "pos_ok d pos"
  shows "scull_locate d pos = Inr (pos div (sd_quantum d * sd_qset d),
      pos mod (sd_quantum d * sd_qset d) div sd_quantum d,
      pos mod (sd_quantum d * sd_qset d) mod sd_quantum d)"
proof -
  define p where "p = sd_quantum d * sd_qset d"
  have p: "0 < p" "p < 2 ^ 31" and pos: "0 \<le> pos" "pos < 2 ^ 31 * p"
    using assms by (auto simp: scull_wf_def pos_ok_def p_def)
  have i: "0 \<le> pos div p" "pos div p < 2 ^ 31"
    using p pos by (simp_all add: pos_imp_zdiv_nonneg_iff div_less_int)
  have r: "0 \<le> pos mod p" "pos mod p < 2 ^ 31"
    using p by (auto intro: order.strict_trans [OF pos_mod_bound])
  have "s32 p = p" "s32 (pos div p) = pos div p" "s32 (pos mod p) = pos mod p"
    using p i r by (simp_all only: s32_id)
  with assms(1) p pos show ?thesis
    by (simp add: scull_locate_def Let_def p_def [symmetric] sdiv_nonneg smod_nonneg scull_wf_def)
qed

lemma locate_bounds:
  assumes "scull_wf d"
  shows "0 \<le> pos mod (sd_quantum d * sd_qset d) div sd_quantum d"
    and "pos mod (sd_quantum d * sd_qset d) div sd_quantum d < sd_qset d"
    and "0 \<le> pos mod (sd_quantum d * sd_qset d) mod sd_quantum d"
    and "pos mod (sd_quantum d * sd_qset d) mod sd_quantum d < sd_quantum d"
proof -
  have q: "0 < sd_quantum d" "0 < sd_quantum d * sd_qset d"
    using assms by (simp_all add: scull_wf_def)
  define r where "r = pos mod (sd_quantum d * sd_qset d)"
  have r: "0 \<le> r" "r < sd_quantum d * sd_qset d" using q by (simp_all add: r_def)
  show "0 \<le> pos mod (sd_quantum d * sd_qset d) div sd_quantum d"
    and "pos mod (sd_quantum d * sd_qset d) div sd_quantum d < sd_qset d"
    using q r by (simp_all add: r_def [symmetric] pos_imp_zdiv_nonneg_iff div_less_int mult.commute)
  show "0 \<le> pos mod (sd_quantum d * sd_qset d) mod sd_quantum d"
    and "pos mod (sd_quantum d * sd_qset d) mod sd_quantum d < sd_quantum d"
    using q by simp_all
qed

lemma clip_quantum_wf:
  assumes "0 \<le> q_pos" and "q_pos < sd_quantum d" and "sd_quantum d < 2 ^ 31" and "0 \<le> cnt"
  shows "clip_quantum d q_pos cnt = min (nat cnt) (nat (sd_quantum d - q_pos))"
  using assms by (auto simp: clip_quantum_def Let_def c_int min_def)

subsection \<open>Reading is a lookup in \<open>quanta\<close>\<close>

text \<open>The node and index that hold a file offset, and the offset in that quantum.\<close>

definition scull_slot :: "scull_dev \<Rightarrow> int \<Rightarrow> nat \<times> nat" where
  "scull_slot d pos = (find_steps (pos div (sd_quantum d * sd_qset d)),
     nat (pos mod (sd_quantum d * sd_qset d) div sd_quantum d))"

definition slot_off :: "scull_dev \<Rightarrow> int \<Rightarrow> nat" where
  "slot_off d pos = nat (pos mod (sd_quantum d * sd_qset d) mod sd_quantum d)"

definition add_nodes :: "nat \<Rightarrow> scull_dev \<Rightarrow> scull_dev" where
  "add_nodes m d = d\<lparr>sd_data := sd_data d @ replicate m (QSet None)\<rparr>"

lemma add_nodes_simps [simp]:
  "sd_quantum (add_nodes m d) = sd_quantum d" "sd_qset (add_nodes m d) = sd_qset d"
  "sd_size (add_nodes m d) = sd_size d" "sd_sem (add_nodes m d) = sd_sem d"
  "quanta (sd_data (add_nodes m d)) = quanta (sd_data d)"
  "scull_wf (add_nodes m d) = scull_wf d"
  "add_nodes 0 d = d"
  by (auto simp: add_nodes_def scull_wf_def)

lemma sem_updates [simp]:
  "sd_data (sem_up d) = sd_data d" "sd_data (sem_down d) = sd_data d"
  "sd_quantum (sem_up d) = sd_quantum d" "sd_quantum (sem_down d) = sd_quantum d"
  "sd_qset (sem_up d) = sd_qset d" "sd_qset (sem_down d) = sd_qset d"
  "sd_size (sem_up d) = sd_size d" "sd_size (sem_down d) = sd_size d"
  "sd_sem (sem_up d) = sd_sem d + 1" "sd_sem (sem_down d) = sd_sem d - 1"
  "scull_wf (sem_up d) = scull_wf d" "scull_wf (sem_down d) = scull_wf d"
  by (simp_all add: sem_up_def sem_down_def scull_wf_def)

lemma sem_up_inject [simp]: "sem_up a = sem_up b \<longleftrightarrow> a = b"
  by (cases a; cases b) (simp add: sem_up_def)

lemma sem_up_down:
  "0 < sd_sem d \<Longrightarrow> sem_up (sem_down d) = d"
  "0 < sd_sem d \<Longrightarrow> sem_up (add_nodes m (sem_down d)) = add_nodes m d"
  by (simp_all add: sem_up_def sem_down_def add_nodes_def)

lemma scull_find_item_cases:
  obtains (none) m al' where "scull_find_item al d item = (None, add_nodes m d, al')"
      "length (sd_data d) \<le> find_steps item"
  | (some) m al' where "scull_find_item al d item = (Some (find_steps item), add_nodes m d, al')"
      "find_steps item < length (sd_data (add_nodes m d))"
proof -
  obtain r d' al' where f: "scull_find_item al d item = (r, d', al')" by (metis prod_cases3)
  from scull_find_item_spec [OF f] f that show thesis by (auto simp: add_nodes_def)
qed

lemma slot_off_bound:
  assumes "scull_wf d"
  shows "slot_off d pos < nat (sd_quantum d)"
    and "int (slot_off d pos) = pos mod (sd_quantum d * sd_qset d) mod sd_quantum d"
  using locate_bounds [OF assms, of pos] by (simp_all add: slot_off_def)

definition read_count :: "scull_dev \<Rightarrow> nat \<Rightarrow> int \<Rightarrow> nat" where
  "read_count d count pos =
     min (min count (nat (int (sd_size d) - pos))) (nat (sd_quantum d) - slot_off d pos)"

lemma read_count_le:
  "read_count d count pos \<le> count"
  "pos \<le> int (sd_size d) \<Longrightarrow> pos + int (read_count d count pos) \<le> int (sd_size d)"
proof -
  show "read_count d count pos \<le> count"
    unfolding read_count_def by (rule order_trans [OF min.cobounded1 min.cobounded1])
  have "read_count d count pos \<le> nat (int (sd_size d) - pos)"
    unfolding read_count_def by (rule order_trans [OF min.cobounded1 min.cobounded2])
  then show "pos \<le> int (sd_size d) \<Longrightarrow> pos + int (read_count d count pos) \<le> int (sd_size d)"
    by linarith
qed

lemma read_room: "scull_wf d \<Longrightarrow> slot_off d pos + read_count d count pos \<le> nat (sd_quantum d)"
  using slot_off_bound(1) [of d pos] by (auto simp: read_count_def min_def)

lemma wf_quantum_range:
  assumes "scull_wf d"
  shows "0 < sd_quantum d \<and> sd_quantum d < 2 ^ 31"
proof -
  have "0 < sd_quantum d" "1 \<le> sd_qset d" "sd_quantum d * sd_qset d < 2 ^ 31"
    using assms by (simp_all add: scull_wf_def)
  moreover from this have "sd_quantum d \<le> sd_quantum d * sd_qset d"
    using mult_left_mono [of 1 "sd_qset d" "sd_quantum d"] by simp
  ultimately show ?thesis by linarith
qed

lemma wf_node_array:
  assumes "scull_wf d" and "k < length (sd_data d)" and "qs_data (sd_data d ! k) = Some arr"
  shows "length arr = nat (sd_qset d)" and "s < length arr \<Longrightarrow> arr ! s = quanta (sd_data d) (k, s)"
    and "length arr \<le> s \<Longrightarrow> quanta (sd_data d) (k, s) = None"
  using assms wf_qset_nth [of k "sd_data d" "sd_quantum d" "sd_qset d"]
  by (auto simp: scull_wf_def wf_qset_def quanta_def)

lemma scull_read_eq:
  assumes wf: "scull_wf d" and pos: "pos_ok d pos" and sem: "0 < sd_sem d" and cnt: "count < 2 ^ 62"
  shows "\<exists>m. scull_read False al ulen count pos d =
    (if int (sd_size d) \<le> pos then Inr (Inr [], pos, d)
     else case quanta (sd_data d) (scull_slot d pos) of
         None \<Rightarrow> Inr (Inr [], pos, add_nodes m d)
       | Some q \<Rightarrow>
          (if ulen < read_count d count pos then Inr (Inl EFAULT, pos, add_nodes m d)
           else Inr (Inr (take (read_count d count pos) (drop (slot_off d pos) q)),
                     pos + int (read_count d count pos), add_nodes m d)))"
proof (cases "int (sd_size d) \<le> pos")
  case True
  then have "u64 pos = pos" using pos_ok_less [OF wf pos] by (simp add: c_int)
  with True sem show ?thesis by (simp add: scull_read_def sem_up_down)
next
  case eof: False
  define p item s_pos q_pos where "p = sd_quantum d * sd_qset d" and "item = pos div p"
    and "s_pos = pos mod p div sd_quantum d" and "q_pos = pos mod p mod sd_quantum d"
  define D where "D = sem_down d"
  have wfD: "scull_wf D" and posD: "pos_ok D pos" using wf pos by (simp_all add: D_def pos_ok_def)
  have sizeD: "sd_size D = sd_size d" by (simp add: D_def)
  have size: "sd_size d < 2 ^ 63" using wf by (simp add: scull_wf_def)
  have pos62: "0 \<le> pos" "pos < 2 ^ 62" using pos_ok_less [OF wf pos] by auto
  have upos: "u64 pos = pos" "u64 (pos + int count) = pos + int count"
      "u64 (int (sd_size d) - pos) = int (sd_size d) - pos"
    using pos62 cnt size eof by (simp_all add: c_int)
  have loc: "scull_locate D pos = Inr (item, s_pos, q_pos)"
    using scull_locate_wf [OF wfD posD] by (simp add: D_def p_def item_def s_pos_def q_pos_def)
  have b: "0 \<le> s_pos" "s_pos < sd_qset d" "0 \<le> q_pos" "q_pos < sd_quantum d"
    using locate_bounds [OF wf, of pos] by (simp_all add: p_def s_pos_def q_pos_def)
  have slot: "scull_slot d pos = (find_steps item, nat s_pos)" and off: "slot_off d pos = nat q_pos"
    by (simp_all add: scull_slot_def slot_off_def p_def item_def s_pos_def q_pos_def)
  define c where "c = clip_eof D pos count"
  have c: "0 \<le> c" "nat c = min count (nat (int (sd_size d) - pos))"
    using eof upos sizeD by (auto simp: c_def clip_eof_def)
  have rc: "clip_quantum D q_pos c = read_count d count pos"
    using clip_quantum_wf [of q_pos D c] b c wf_quantum_range [OF wf]
    by (simp add: D_def read_count_def off nat_diff_distrib)
  have run: "scull_read False al ulen count pos d =
     (case scull_find_item al D item of
            (None, d1, _) \<Rightarrow> Inr (Inr [], pos, sem_up d1)
          | (Some k, d1, _) \<Rightarrow>
             (case qs_data (sd_data d1 ! k) of
                None \<Rightarrow> Inr (Inr [], pos, sem_up d1)
              | Some arr \<Rightarrow>
                 (if s_pos < 0 \<or> int (length arr) \<le> s_pos then Inl OutOfBounds
                  else case arr ! nat s_pos of
                     None \<Rightarrow> Inr (Inr [], pos, sem_up d1)
                   | Some q \<Rightarrow> read_quantum q ulen q_pos (clip_quantum D q_pos c) pos d1)))"
    using eof sem upos loc sizeD unfolding c_def
    by (simp add: scull_read_def Let_def D_def [symmetric])
  from scull_find_item_cases [of al D item] show ?thesis
  proof cases
    case (none m al')
    then have "quanta (sd_data d) (scull_slot d pos) = None"
      by (simp add: slot quanta_outside D_def)
    with none eof run sem show ?thesis by (auto simp: D_def sem_up_down)
  next
    case (some m al')
    define E where "E = add_nodes m D"
    have wfE: "scull_wf E" and k: "find_steps item < length (sd_data E)"
      and qE: "quanta (sd_data E) = quanta (sd_data d)"
      using wfD some by (simp_all add: E_def D_def)
    have up: "sem_up E = add_nodes m d" using sem by (simp add: E_def D_def sem_up_down)
    have f: "scull_find_item al D item = (Some (find_steps item), E, al')" using some by (simp add: E_def)
    show ?thesis
    proof (cases "qs_data (sd_data E ! find_steps item)")
      case None
      then have "quanta (sd_data d) (scull_slot d pos) = None"
        unfolding slot qE [symmetric] using k by (simp add: quanta_def)
      with None f eof run up show ?thesis by auto
    next
      case (Some arr)
      note arr = wf_node_array [OF wfE k Some]
      have len: "int (length arr) > s_pos" using arr(1) b by (simp add: E_def D_def)
      have nth: "arr ! nat s_pos = quanta (sd_data d) (scull_slot d pos)"
        using arr(2) [of "nat s_pos"] len b by (simp add: slot qE)
      show ?thesis
      proof (cases "quanta (sd_data d) (scull_slot d pos)")
        case None
        with Some nth f eof run up len b show ?thesis by auto
      next
        case (Some q)
        have "nat (sd_quantum d) \<le> length q"
          using wf_quanta_len(1) [OF wf] Some slot by simp
        moreover have "nat q_pos + read_count d count pos \<le> nat (sd_quantum d)"
          using b by (simp add: read_count_def off)
        ultimately have "\<not> (q_pos < 0 \<or> length q < nat q_pos + read_count d count pos)"
          using b by simp
        with Some \<open>qs_data (sd_data E ! find_steps item) = Some arr\<close> nth f eof run up len b rc off
        show ?thesis by (auto simp: read_quantum_def)
      qed
    qed
  qed
qed

subsection \<open>Writing is an update of \<open>quanta\<close>\<close>

definition write_count :: "scull_dev \<Rightarrow> nat \<Rightarrow> int \<Rightarrow> nat" where
  "write_count d count pos = min count (nat (sd_quantum d) - slot_off d pos)"

lemma write_room: "scull_wf d \<Longrightarrow> slot_off d pos + write_count d count pos \<le> nat (sd_quantum d)"
  using slot_off_bound(1) [of d pos] by (auto simp: write_count_def min_def)

text \<open>The fields no file operation but a reset changes.\<close>

definition same_geometry :: "scull_dev \<Rightarrow> scull_dev \<Rightarrow> bool" where
  "same_geometry d d' \<longleftrightarrow> sd_quantum d' = sd_quantum d \<and> sd_qset d' = sd_qset d \<and>
     sd_access_key d' = sd_access_key d \<and> sd_sem d' = sd_sem d \<and> sd_vmas d' = sd_vmas d"

text \<open>
  What a write may do: fail for lack of memory with the contents unchanged, or store a piece
  of the user's bytes at the slot of the position, in the quantum that was there or in a new
  zeroed one.
\<close>

definition write_delta :: "nat \<times> nat \<Rightarrow> nat \<Rightarrow> byte list \<Rightarrow> nat \<Rightarrow> int \<Rightarrow> scull_dev \<Rightarrow>
    nat res \<Rightarrow> int \<Rightarrow> scull_dev \<Rightarrow> bool" where
  "write_delta slot off ubuf n pos d r pos' d' \<longleftrightarrow>
    (r = Inl ENOMEM \<and> pos' = pos \<and> sd_size d' = sd_size d \<and>
        quanta (sd_data d') = quanta (sd_data d)) \<or>
    (\<exists>q. (quanta (sd_data d) slot = Some q \<or>
          quanta (sd_data d) slot = None \<and> nat (sd_quantum d) \<le> length q \<and>
            take (nat (sd_quantum d)) q = replicate (nat (sd_quantum d)) 0) \<and>
        quanta (sd_data d') = (quanta (sd_data d))(slot \<mapsto> overwrite q off (user_bytes ubuf n)) \<and>
        (if length ubuf < n then r = Inl EFAULT \<and> pos' = pos \<and> sd_size d' = sd_size d
         else r = Inr n \<and> pos' = pos + int n \<and> sd_size d' = max (sd_size d) (nat (pos + int n))))"

definition write_effect :: "byte list \<Rightarrow> nat \<Rightarrow> int \<Rightarrow> scull_dev \<Rightarrow> nat res \<Rightarrow> int \<Rightarrow> scull_dev \<Rightarrow> bool" where
  "write_effect ubuf count pos d r pos' d' \<longleftrightarrow> same_geometry d d' \<and>
     write_delta (scull_slot d pos) (slot_off d pos) ubuf (write_count d count pos) pos d r pos' d'"

lemma write_delta_simps [simp]:
  "write_delta sl o' ub n pos d r pos' (sem_up d') = write_delta sl o' ub n pos d r pos' d'"
  "write_delta sl o' ub n pos (sem_down d) r pos' d' = write_delta sl o' ub n pos d r pos' d'"
  "write_delta sl o' ub n pos (add_nodes m d) r pos' d' = write_delta sl o' ub n pos d r pos' d'"
  by (simp_all add: write_delta_def)

lemma write_array_spec:
  assumes wf: "scull_wf d" and k: "k < length (sd_data d)" and w: "write_array al k d = (r, d', al')"
  shows "scull_wf d' \<and> same_geometry d d' \<and> sd_size d' = sd_size d \<and>
    quanta (sd_data d') = quanta (sd_data d) \<and> length (sd_data d') = length (sd_data d) \<and>
    (\<forall>arr. r = Some arr \<longrightarrow> qs_data (sd_data d' ! k) = Some arr)"
proof (cases "qs_data (sd_data d ! k)")
  case (Some arr)
  with w wf show ?thesis by (auto simp: write_array_def same_geometry_def)
next
  case None
  obtain ok al1 where al: "kalloc al = (ok, al1)" by (cases "kalloc al")
  show ?thesis
  proof (cases "ok \<and> 0 \<le> sd_qset d")
    case True
    define arr where "arr = replicate (nat (sd_qset d)) (None :: byte list option)"
    have d': "d' = set_qset_data k arr d" and r: "r = Some arr"
      using w None al True by (auto simp: write_array_def Let_def arr_def)
    have q: "quanta (sd_data d') = quanta (sd_data d)"
      using None k by (intro ext) (auto simp: d' quanta_def set_qset_data_def arr_def nth_list_update)
    have "\<forall>n\<in>set (sd_data d'). wf_qset (sd_quantum d) (sd_qset d) n"
      using wf set_update_subset_insert [of "sd_data d" k "QSet (Some arr)"]
      by (auto simp: d' set_qset_data_def scull_wf_def wf_qset_def arr_def)
    then have "scull_wf d'" using wf by (simp add: scull_wf_def d' set_qset_data_def)
    with q r k show ?thesis by (simp add: d' set_qset_data_def same_geometry_def)
  next
    case False
    with w None al wf show ?thesis by (auto simp: write_array_def same_geometry_def)
  qed
qed

lemma write_quantum_spec:
  assumes wf: "scull_wf d" and k: "k < length (sd_data d)"
    and arr: "qs_data (sd_data d ! k) = Some arr" and s: "0 \<le> s_pos" "s_pos < int (length arr)"
    and q: "nat (sd_quantum d) \<le> length q"
    and o: "0 \<le> q_pos" "nat q_pos + cnt \<le> nat (sd_quantum d)" and pos: "0 \<le> pos" "pos < 2 ^ 62"
  shows "\<exists>r pos' d'. write_quantum k arr s_pos q q_pos ubuf cnt pos d = Inr (r, pos', sem_up d') \<and>
    scull_wf d' \<and> same_geometry d d' \<and>
    quanta (sd_data d') = (quanta (sd_data d))((k, nat s_pos) \<mapsto> overwrite q (nat q_pos) (user_bytes ubuf cnt)) \<and>
    (if length ubuf < cnt then r = Inl EFAULT \<and> pos' = pos \<and> sd_size d' = sd_size d
     else r = Inr cnt \<and> pos' = pos + int cnt \<and> sd_size d' = max (sd_size d) (nat (pos + int cnt)))"
proof -
  define q' where "q' = overwrite q (nat q_pos) (user_bytes ubuf cnt)"
  define d1 where "d1 = set_qset_data k (arr[nat s_pos := Some q']) d"
  note a = wf_node_array [OF wf k arr]
  have ns: "nat s_pos < length arr" using s by linarith
  have lq': "length q' = length q" using o q by (simp add: q'_def)
  have quanta1: "quanta (sd_data d1) = (quanta (sd_data d))((k, nat s_pos) \<mapsto> q')"
    unfolding d1_def set_qset_data_def by simp (rule quanta_update [OF k ns a(2) a(3)])
  have "wf_qset (sd_quantum d) (sd_qset d) (sd_data d ! k)" using wf k by (simp add: scull_wf_def)
  then have "wf_qset (sd_quantum d) (sd_qset d) (QSet (Some (arr[nat s_pos := Some q'])))"
    using arr lq' q set_update_subset_insert [of arr "nat s_pos" "Some q'"] by (auto simp: wf_qset_def)
  then have "\<forall>n\<in>set (sd_data d1). wf_qset (sd_quantum d) (sd_qset d) n"
    using wf set_update_subset_insert [of "sd_data d" k "QSet (Some (arr[nat s_pos := Some q']))"]
    by (auto simp: d1_def set_qset_data_def scull_wf_def)
  then have wf1: "scull_wf d1" using wf by (simp add: scull_wf_def d1_def set_qset_data_def)
  have geo1: "same_geometry d d1" "sd_size d1 = sd_size d"
    by (simp_all add: same_geometry_def d1_def set_qset_data_def)
  have "int cnt < 2 ^ 31" using o(2) wf_quantum_range [OF wf] by linarith
  then have u: "u64 (pos + int cnt) = pos + int cnt" "pos + int cnt < 2 ^ 63"
    using pos by (simp_all add: c_int)
  have inb: "\<not> (q_pos < 0 \<or> length q < nat q_pos + cnt)" using o q by simp
  show ?thesis
  proof (cases "length ubuf < cnt")
    case True
    with inb wf1 geo1 quanta1 show ?thesis
      by (auto simp: write_quantum_def Let_def q'_def [symmetric] d1_def [symmetric])
  next
    case False
    define d2 where "d2 = (if int (sd_size d1) < pos + int cnt then d1\<lparr>sd_size := nat (pos + int cnt)\<rparr> else d1)"
    have "scull_wf d2" using wf1 u pos by (auto simp: d2_def scull_wf_def)
    moreover have "same_geometry d d2" "quanta (sd_data d2) = quanta (sd_data d1)"
      using geo1 by (simp_all add: d2_def same_geometry_def)
    moreover have "sd_size d2 = max (sd_size d) (nat (pos + int cnt))"
      using geo1(2) pos by (auto simp: d2_def max_def)
    moreover have "write_quantum k arr s_pos q q_pos ubuf cnt pos d = Inr (Inr cnt, pos + int cnt, sem_up d2)"
      using inb False u unfolding d2_def d1_def q'_def by (simp add: write_quantum_def Let_def)
    ultimately show ?thesis using False quanta1 by (auto simp: q'_def)
  qed
qed

lemma write_node_other:
  assumes "write_node alloc_q al k s_pos q_pos ubuf cnt pos d = Inr (r, pos', d')" and "j \<noteq> k"
  shows "sd_data d' ! j = sd_data d ! j \<and> length (sd_data d') = length (sd_data d)"
  using assms
  by (auto simp: write_node_def write_array_def write_quantum_def set_qset_data_def Let_def
      split: option.splits sum.splits prod.splits if_splits)

subsection \<open>What a write relies on: the quantum allocator\<close>

text \<open>
  The contract of \<open>scullX_alloc_quantum\<close>: for the quantum sizes it \<open>fits\<close>, it returns, a
  buffer it hands out has room for a quantum and starts with a quantum of zeros, and it
  hands one out when the kernel has memory.
\<close>

locale quantum_allocator =
  fixes alloc_q :: "int \<Rightarrow> bool list \<Rightarrow> (byte list option \<times> bool list) run"
    and fits :: "int \<Rightarrow> bool"
  assumes alloc_returns: "fits qu \<Longrightarrow> \<exists>r. alloc_q qu al = Inr r"
    and alloc_room: "fits qu \<Longrightarrow> alloc_q qu al = Inr (Some b, al') \<Longrightarrow> nat qu \<le> length b"
    and alloc_zeroed: "fits qu \<Longrightarrow> alloc_q qu al = Inr (Some b, al') \<Longrightarrow>
      take (nat qu) b = replicate (nat qu) 0"
    and alloc_succeeds: "fits qu \<Longrightarrow> 0 \<le> qu \<Longrightarrow> \<exists>b al'. alloc_q qu [] = Inr (Some b, al')"
begin

lemma write_node_correct:
  assumes wf: "scull_wf d" and k: "k < length (sd_data d)" and fit: "fits (sd_quantum d)"
    and s: "0 \<le> s_pos" "s_pos < sd_qset d"
    and o: "0 \<le> q_pos" "nat q_pos + cnt \<le> nat (sd_quantum d)" and pos: "0 \<le> pos" "pos < 2 ^ 62"
  shows "\<exists>r pos' d'. write_node alloc_q al k s_pos q_pos ubuf cnt pos d = Inr (r, pos', sem_up d') \<and>
    scull_wf d' \<and> same_geometry d d' \<and> write_delta (k, nat s_pos) (nat q_pos) ubuf cnt pos d r pos' d'"
proof -
  obtain r1 d1 al1 where w: "write_array al k d = (r1, d1, al1)" by (metis prod_cases3)
  note d1 = write_array_spec [OF wf k w]
  have geo: "same_geometry d d' = same_geometry d1 d'" for d'
    using d1 by (auto simp: same_geometry_def)
  show ?thesis
  proof (cases r1)
    case None
    with w d1 show ?thesis by (auto simp: write_node_def write_delta_def)
  next
    case (Some arr)
    have wf1: "scull_wf d1" and k1: "k < length (sd_data d1)" and arr: "qs_data (sd_data d1 ! k) = Some arr"
      and same: "sd_quantum d1 = sd_quantum d" "sd_qset d1 = sd_qset d" "sd_size d1 = sd_size d"
        "quanta (sd_data d1) = quanta (sd_data d)"
      using d1 k Some by (auto simp: same_geometry_def)
    note a = wf_node_array [OF wf1 k1 arr]
    have inb: "s_pos < int (length arr)" using a(1) same s by simp
    have nth: "arr ! nat s_pos = quanta (sd_data d) (k, nat s_pos)"
      using a(2) [of "nat s_pos"] inb s same by simp
    note wq = write_quantum_spec [OF wf1 k1 arr s(1) inb _ o(1) _ pos, of _ cnt ubuf]
    show ?thesis
    proof (cases "quanta (sd_data d) (k, nat s_pos)")
      case (Some q)
      then have "nat (sd_quantum d1) \<le> length q" using wf_quanta_len(1) [OF wf] same by simp
      from wq [OF this] o same w \<open>r1 = Some arr\<close> inb s nth Some geo
      show ?thesis by (cases "length ubuf < cnt") (auto simp: write_node_def write_delta_def)
    next
      case None
      from alloc_returns [OF fit] obtain r2 al2 where r2: "alloc_q (sd_quantum d) al1 = Inr (r2, al2)"
        by (metis surj_pair)
      show ?thesis
      proof (cases r2)
        case None
        with r2 \<open>quanta (sd_data d) (k, nat s_pos) = None\<close> w \<open>r1 = Some arr\<close> inb s nth d1
        show ?thesis by (auto simp: write_node_def write_delta_def)
      next
        case (Some q)
        have len: "nat (sd_quantum d1) \<le> length q" and z: "take (nat (sd_quantum d)) q = replicate (nat (sd_quantum d)) 0"
          using alloc_room [OF fit] alloc_zeroed [OF fit] r2 Some same by auto
        from wq [OF len] o same w \<open>r1 = Some arr\<close> inb s nth None r2 Some geo z len
        show ?thesis by (cases "length ubuf < cnt") (auto simp: write_node_def write_delta_def)
      qed
    qed
  qed
qed

lemma write_correct:
  assumes wf: "scull_wf d" and pos: "pos_ok d pos" and sem: "0 < sd_sem d" and cnt: "count < 2 ^ 62"
    and fit: "fits (sd_quantum d)"
  shows "\<exists>r pos' d'. scull_write_gen alloc_q False al ubuf count pos d = Inr (r, pos', d') \<and>
    scull_wf d' \<and> write_effect ubuf count pos d r pos' d'"
proof -
  define p item s_pos q_pos where "p = sd_quantum d * sd_qset d" and "item = pos div p"
    and "s_pos = pos mod p div sd_quantum d" and "q_pos = pos mod p mod sd_quantum d"
  define D where "D = sem_down d"
  define n where "n = write_count d count pos"
  have wfD: "scull_wf D" and posD: "pos_ok D pos" using wf pos by (simp_all add: D_def pos_ok_def)
  have pos62: "0 \<le> pos" "pos < 2 ^ 62" using pos_ok_less [OF wf pos] by auto
  have loc: "scull_locate D pos = Inr (item, s_pos, q_pos)"
    using scull_locate_wf [OF wfD posD] by (simp add: D_def p_def item_def s_pos_def q_pos_def)
  have b: "0 \<le> s_pos" "s_pos < sd_qset d" "0 \<le> q_pos" "q_pos < sd_quantum d"
    using locate_bounds [OF wf, of pos] by (simp_all add: p_def s_pos_def q_pos_def)
  have slot: "scull_slot d pos = (find_steps item, nat s_pos)" and off: "slot_off d pos = nat q_pos"
    by (simp_all add: scull_slot_def slot_off_def p_def item_def s_pos_def q_pos_def)
  have clip: "clip_quantum D q_pos (int count) = n"
    using clip_quantum_wf [of q_pos D "int count"] b wf_quantum_range [OF wf]
    by (simp add: D_def n_def write_count_def off nat_diff_distrib)
  have o: "nat q_pos + n \<le> nat (sd_quantum d)" using b by (simp add: n_def write_count_def off)
  have geoD: "same_geometry d (sem_up x) = same_geometry D x" for x
    using sem by (auto simp: same_geometry_def D_def sem_up_def sem_down_def)
  have run: "scull_write_gen alloc_q False al ubuf count pos d =
     (case scull_find_item al D item of
        (None, d1, _) \<Rightarrow> Inr (Inl ENOMEM, pos, sem_up d1)
      | (Some k, d1, al1) \<Rightarrow> write_node alloc_q al1 k s_pos q_pos ubuf n pos d1)"
    unfolding clip [symmetric] using sem loc
    by (simp add: scull_write_gen_def Let_def D_def [symmetric])
  from scull_find_item_cases [of al D item] show ?thesis
  proof cases
    case (none m al')
    moreover have "same_geometry D (add_nodes m D)" by (simp add: same_geometry_def add_nodes_def)
    ultimately show ?thesis using run wfD geoD by (auto simp: write_effect_def write_delta_def D_def)
  next
    case (some m al1)
    have wfE: "scull_wf (add_nodes m D)" and fitE: "fits (sd_quantum (add_nodes m D))"
      and sE: "s_pos < sd_qset (add_nodes m D)" and oE: "nat q_pos + n \<le> nat (sd_quantum (add_nodes m D))"
      using wfD fit b o by (simp_all add: D_def)
    from write_node_correct [OF wfE some(2) fitE b(1) sE b(3) oE pos62, of al1 ubuf]
    obtain r pos' d' where w: "write_node alloc_q al1 (find_steps item) s_pos q_pos ubuf n pos (add_nodes m D)
        = Inr (r, pos', sem_up d')" and wf': "scull_wf d'" and geo: "same_geometry (add_nodes m D) d'"
      and eff: "write_delta (find_steps item, nat s_pos) (nat q_pos) ubuf n pos d r pos' d'"
      by (auto simp: D_def)
    have "same_geometry d (sem_up d')" unfolding geoD
      using geo by (simp add: same_geometry_def add_nodes_def)
    with eff have "write_effect ubuf count pos d r pos' (sem_up d')"
      by (simp add: write_effect_def slot off n_def)
    with w wf' some(1) run show ?thesis by auto
  qed
qed

text \<open>
  Read after write: what a successful write stored is what a read at the same position
  returns, whatever the allocations of the read do.
\<close>

lemma read_after_write_gen:
  assumes wf: "scull_wf d" and pos: "pos_ok d pos" and sem: "0 < sd_sem d" and cnt: "count < 2 ^ 62"
    and fit: "fits (sd_quantum d)"
    and w: "scull_write_gen alloc_q False al ubuf count pos d = Inr (Inr n, pos', d')" and n: "0 < n"
  shows "\<exists>d''. scull_read False al' n n pos d' = Inr (Inr (take n ubuf), pos + int n, d'')"
proof -
  from write_correct [OF wf pos sem cnt fit, of al ubuf] w
  have wf': "scull_wf d'" and eff: "write_effect ubuf count pos d (Inr n) pos' d'" by auto
  have nc: "n = write_count d count pos" and geo: "same_geometry d d'" and len: "n \<le> length ubuf"
    and size: "sd_size d' = max (sd_size d) (nat (pos + int n))"
    and ex: "\<exists>q. (quanta (sd_data d) (scull_slot d pos) = Some q \<or> nat (sd_quantum d) \<le> length q) \<and>
      quanta (sd_data d') (scull_slot d pos) = Some (overwrite q (slot_off d pos) (user_bytes ubuf n))"
    using eff by (auto simp: write_effect_def write_delta_def split: if_splits)
  from ex obtain q where q: "quanta (sd_data d) (scull_slot d pos) = Some q \<or> nat (sd_quantum d) \<le> length q"
    and up: "quanta (sd_data d') (scull_slot d pos) = Some (overwrite q (slot_off d pos) (user_bytes ubuf n))"
    by blast
  have pos': "pos_ok d' pos" and sem': "0 < sd_sem d'" and slot': "scull_slot d' pos = scull_slot d pos"
    and off': "slot_off d' pos = slot_off d pos" and qu: "sd_quantum d' = sd_quantum d"
    using pos sem geo by (simp_all add: same_geometry_def pos_ok_def scull_slot_def slot_off_def)
  have pos0: "0 \<le> pos" using pos by (simp add: pos_ok_def)
  have n62: "n < 2 ^ 62" using cnt nc by (simp add: write_count_def)
  have room: "slot_off d pos + n \<le> nat (sd_quantum d)"
    using slot_off_bound(1) [OF wf, of pos] nc by (simp add: write_count_def)
  have "nat (sd_quantum d) \<le> length q"
    using q wf_quanta_len(1) [OF wf, of "fst (scull_slot d pos)" "snd (scull_slot d pos)"] by auto
  then have tk: "take n (drop (slot_off d pos) (overwrite q (slot_off d pos) (user_bytes ubuf n))) = take n ubuf"
    using room len take_drop_overwrite [of "slot_off d pos" "user_bytes ubuf n" q]
    by (simp add: user_bytes_mapped)
  have neof: "\<not> int (sd_size d') \<le> pos" using size n pos0 by simp
  have rc: "read_count d' n pos = n"
    using size room n pos0 by (simp add: read_count_def off' qu)
  from scull_read_eq [OF wf' pos' sem' n62, of al' n] neof up tk rc show ?thesis
    by (auto simp: slot' off')
qed

end

subsection \<open>Where \<open>scull_find_item\<close> goes\<close>

lemma find_steps_item: "0 \<le> item \<Longrightarrow> item < 2 ^ 31 \<Longrightarrow> find_steps item = nat (item - 1)"
  by (simp add: find_steps_def c_int)

text \<open>
  \<open>while (--n > 0)\<close> makes one step less than the item number, so the first two items of the
  file share the first node; from the second on every item has its own.
\<close>

lemma find_steps_eq_iff:
  assumes "0 \<le> i" "i < 2 ^ 31" "0 \<le> j" "j < 2 ^ 31"
  shows "find_steps i = find_steps j \<longleftrightarrow> i = j \<or> {i, j} = {0, 1}"
  using assms by (auto simp: find_steps_item doubleton_eq_iff)

end
