(* ===== verification/ScullCells.thy ===== *)
theory ScullCells
  imports ScullStore
begin

text \<open>
  The bytes of a scull device as a function of the file offset: which offsets share a byte,
  what a write leaves alone, and when \<open>scull_dev_reset\<close> returns.
\<close>

subsection \<open>The cells of a file\<close>

text \<open>
  The byte at a file offset, if its quantum exists.  Two offsets are stored in the same byte
  exactly when they are equal or are the same offset in the first and the second item.
\<close>

definition byte_at :: "scull_dev \<Rightarrow> int \<Rightarrow> byte option" where
  "byte_at d pos = (case quanta (sd_data d) (scull_slot d pos) of
     None \<Rightarrow> None | Some q \<Rightarrow> Some (q ! slot_off d pos))"

definition scull_cell :: "scull_dev \<Rightarrow> int \<Rightarrow> (nat \<times> nat) \<times> nat" where
  "scull_cell d pos = (scull_slot d pos, slot_off d pos)"

definition aliased :: "scull_dev \<Rightarrow> int \<Rightarrow> int \<Rightarrow> bool" where
  "aliased d x y \<longleftrightarrow> (let p = sd_quantum d * sd_qset d in
     x < p \<and> y = x + p \<or> y < p \<and> x = y + p)"

lemma mod_mod_eq_div_mod:
  assumes "0 < (a::int)" and "0 \<le> x" "0 \<le> y"
  shows "x div a = y div a \<and> x mod a = y mod a \<longleftrightarrow> x = y"
  by (metis div_mult_mod_eq)

lemma next_item_iff:
  assumes "0 < (p::int)" and "0 \<le> x"
  shows "x < p \<and> y = x + p \<longleftrightarrow> x div p = 0 \<and> y div p = 1 \<and> x mod p = y mod p"
proof
  assume "x < p \<and> y = x + p"
  with assms show "x div p = 0 \<and> y div p = 1 \<and> x mod p = y mod p"
    by (simp add: div_add_self2)
next
  assume a: "x div p = 0 \<and> y div p = 1 \<and> x mod p = y mod p"
  moreover have "x = x div p * p + x mod p" "y = y div p * p + y mod p" by simp_all
  ultimately have "x = x mod p" "y = p + x mod p" by simp_all
  then show "x < p \<and> y = x + p" using assms(1) pos_mod_bound [of p x] by linarith
qed

lemma shifted_iff:
  assumes "0 < (p::int)" and "0 \<le> x" and "0 \<le> y"
  shows "x < p \<and> y = x + p \<or> y < p \<and> x = y + p \<longleftrightarrow>
    {x div p, y div p} = {0, 1} \<and> x mod p = y mod p"
  unfolding next_item_iff [OF assms(1,2), of y] next_item_iff [OF assms(1,3), of x] doubleton_eq_iff
  by metis

lemma scull_cell_eq_iff:
  assumes wf: "scull_wf d" and x: "pos_ok d x" and y: "pos_ok d y"
  shows "scull_cell d x = scull_cell d y \<longleftrightarrow> x = y \<or> aliased d x y"
proof -
  define p where "p = sd_quantum d * sd_qset d"
  have p: "0 < p" and q: "0 < sd_quantum d" and pos: "0 \<le> x" "x < 2 ^ 31 * p" "0 \<le> y" "y < 2 ^ 31 * p"
    using wf x y by (auto simp: scull_wf_def pos_ok_def p_def)
  have i: "0 \<le> x div p" "x div p < 2 ^ 31" "0 \<le> y div p" "y div p < 2 ^ 31"
    using p pos by (simp_all add: pos_imp_zdiv_nonneg_iff div_less_int)
  have bx: "0 \<le> x mod p div sd_quantum d" "0 \<le> x mod p mod sd_quantum d"
    and by': "0 \<le> y mod p div sd_quantum d" "0 \<le> y mod p mod sd_quantum d"
    using locate_bounds [OF wf] by (simp_all add: p_def)
  have "scull_cell d x = scull_cell d y \<longleftrightarrow> find_steps (x div p) = find_steps (y div p) \<and>
      x mod p div sd_quantum d = y mod p div sd_quantum d \<and> x mod p mod sd_quantum d = y mod p mod sd_quantum d"
    using bx by' by (auto simp: scull_cell_def scull_slot_def slot_off_def p_def [symmetric] eq_nat_nat_iff)
  also have "\<dots> \<longleftrightarrow> find_steps (x div p) = find_steps (y div p) \<and> x mod p = y mod p"
    using mod_mod_eq_div_mod [OF q, of "x mod p" "y mod p"] p by auto
  also have "\<dots> \<longleftrightarrow> (x div p = y div p \<or> {x div p, y div p} = {0, 1}) \<and> x mod p = y mod p"
    using find_steps_eq_iff i by simp
  also have "\<dots> \<longleftrightarrow> x = y \<or> aliased d x y"
  proof -
    have "x div p * p + x mod p = x" "y div p * p + y mod p = y" by simp_all
    then have "x = y \<longleftrightarrow> x div p = y div p \<and> x mod p = y mod p" by metis
    moreover have "aliased d x y \<longleftrightarrow> {x div p, y div p} = {0, 1} \<and> x mod p = y mod p"
      using shifted_iff [OF p pos(1,3)] by (simp add: aliased_def Let_def p_def [symmetric])
    ultimately show ?thesis by auto
  qed
  finally show ?thesis .
qed

text \<open>A write changes the byte at another offset only if a written offset is stored there.\<close>

lemma write_effect_frame:
  assumes wf: "scull_wf d" and eff: "write_effect ubuf count pos d r pos' d'"
    and x: "byte_at d x = Some v"
    and other: "\<not> (scull_slot d x = scull_slot d pos \<and> slot_off d pos \<le> slot_off d x \<and>
       slot_off d x < slot_off d pos + write_count d count pos)"
  shows "byte_at d' x = Some v"
proof -
  have geo: "scull_slot d' x = scull_slot d x" "slot_off d' x = slot_off d x"
    using eff by (simp_all add: write_effect_def same_geometry_def scull_slot_def slot_off_def)
  define n where "n = write_count d count pos"
  from x obtain q where q: "quanta (sd_data d) (scull_slot d x) = Some q" and v: "v = q ! slot_off d x"
    by (auto simp: byte_at_def split: option.splits)
  have len: "nat (sd_quantum d) \<le> length q"
    using wf_quanta_len(1) [OF wf, of "fst (scull_slot d x)" "snd (scull_slot d x)"] q by simp
  have o: "slot_off d x < length q" "slot_off d pos + n \<le> length q"
    using slot_off_bound(1) [OF wf] len by (auto simp: n_def write_count_def intro: less_le_trans)
      (metis add_le_cancel_left diff_le_self le_add_diff_inverse le_trans less_or_eq_imp_le min.cobounded2)
  have q': "quanta (sd_data d') (scull_slot d x) = Some q \<or>
      scull_slot d x = scull_slot d pos \<and>
      quanta (sd_data d') (scull_slot d x) = Some (overwrite q (slot_off d pos) (user_bytes ubuf n))"
    using eff q unfolding write_effect_def write_delta_def n_def [symmetric]
    by (cases "scull_slot d x = scull_slot d pos") auto
  then show ?thesis
    using o v other n_def nth_overwrite [of "slot_off d pos" "user_bytes ubuf n" q "slot_off d x"]
    by (auto simp: byte_at_def geo)
qed

text \<open>Within a quantum, the next offset is stored in the next byte.\<close>

lemma div_mod_shift:
  assumes "0 < (p::int)" and "0 \<le> i" and "x mod p + i < p"
  shows "(x + i) div p = x div p" and "(x + i) mod p = x mod p + i"
proof -
  define r k where "r = x mod p" and "k = x div p"
  have r: "0 \<le> r + i" "r + i < p" using assms pos_mod_sign [of p x] by (simp_all add: r_def)
  have e: "x + i = (r + i) + k * p" by (simp add: r_def k_def)
  have "(x + i) div p = k" unfolding e using assms(1) r by simp
  then show "(x + i) div p = x div p" by (simp add: k_def)
  have "(x + i) mod p = r + i" unfolding e using assms(1) r by simp
  then show "(x + i) mod p = x mod p + i" by (simp add: r_def)
qed

lemma slot_shift:
  assumes wf: "scull_wf d" and i: "slot_off d x + i < nat (sd_quantum d)"
  shows "scull_slot d (x + int i) = scull_slot d x" and "slot_off d (x + int i) = slot_off d x + i"
    and "pos_ok d x \<Longrightarrow> pos_ok d (x + int i)"
proof -
  define p q r where "p = sd_quantum d * sd_qset d" and "q = sd_quantum d" and "r = x mod p"
  have q: "0 < q" "0 < p" using wf by (simp_all add: scull_wf_def p_def q_def)
  have o: "int (slot_off d x) = r mod q" using slot_off_bound(2) [OF wf] by (simp add: p_def q_def r_def)
  then have i: "r mod q + int i < q" using i by (simp add: q_def)
  have "r div q < sd_qset d" using locate_bounds(2) [OF wf, of x] by (simp add: p_def q_def r_def)
  then have "(r div q + 1) * q \<le> sd_qset d * q" using q by (intro mult_right_mono) auto
  moreover have "r + int i < r div q * q + q" using i div_mult_mod_eq [of r q] by linarith
  ultimately have "r + int i < p" by (simp add: p_def q_def algebra_simps)
  then have 1: "(x + int i) div p = x div p" "(x + int i) mod p = r + int i"
    using div_mod_shift [of p "int i" x] q by (simp_all add: r_def)
  have 2: "(r + int i) div q = r div q" "(r + int i) mod q = r mod q + int i"
    using div_mod_shift [of q "int i" r] q i by simp_all
  show "scull_slot d (x + int i) = scull_slot d x"
    using 1 2 by (simp add: scull_slot_def p_def q_def r_def)
  show "pos_ok d x \<Longrightarrow> pos_ok d (x + int i)"
  proof -
    assume x: "pos_ok d x"
    have "(x + int i) div p < 2 ^ 31" using x q unfolding 1 by (simp add: pos_ok_def p_def div_less_int)
    then have "(x + int i) div p + 1 \<le> 2 ^ 31" by simp
    then have "((x + int i) div p + 1) * p \<le> 2 ^ 31 * p" using q by (intro mult_right_mono) auto
    moreover have "x + int i < ((x + int i) div p + 1) * p"
      using div_mult_mod_eq [of "x + int i" p] pos_mod_bound [OF q(2), of "x + int i"]
      by (simp only: distrib_right mult_1)
    ultimately have "x + int i < 2 ^ 31 * p" by linarith
    then show ?thesis using x by (simp add: pos_ok_def p_def)
  qed
  have "0 \<le> r mod q" using q by simp
  then show "slot_off d (x + int i) = slot_off d x + i"
    using 1 2 by (simp add: slot_off_def p_def q_def r_def nat_add_distrib)
qed

text \<open>The bytes a write stores, at every offset kept in a written cell.\<close>

lemma write_effect_stores:
  assumes wf: "scull_wf d" and eff: "write_effect ubuf count pos d (Inr n) pos' d'" and i: "i < n"
    and x: "scull_cell d x = scull_cell d (pos + int i)"
  shows "byte_at d' x = Some (ubuf ! i)"
proof -
  have n: "n = write_count d count pos" "n \<le> length ubuf" and geo: "same_geometry d d'"
    and ex: "\<exists>q. (quanta (sd_data d) (scull_slot d pos) = Some q \<or> nat (sd_quantum d) \<le> length q) \<and>
      quanta (sd_data d') (scull_slot d pos) = Some (overwrite q (slot_off d pos) (user_bytes ubuf n))"
    using eff by (auto simp: write_effect_def write_delta_def split: if_splits)
  from ex obtain q where q: "quanta (sd_data d) (scull_slot d pos) = Some q \<or> nat (sd_quantum d) \<le> length q"
    and up: "quanta (sd_data d') (scull_slot d pos) = Some (overwrite q (slot_off d pos) (user_bytes ubuf n))"
    by blast
  have len: "nat (sd_quantum d) \<le> length q"
    using q wf_quanta_len(1) [OF wf, of "fst (scull_slot d pos)" "snd (scull_slot d pos)"] by auto
  have off: "slot_off d pos + n \<le> nat (sd_quantum d)"
    using write_room [OF wf] n(1) by simp
  note shift = slot_shift [OF wf, of pos i]
  have cell: "scull_slot d x = scull_slot d pos" "slot_off d x = slot_off d pos + i"
    using x shift i off by (auto simp: scull_cell_def)
  have "scull_slot d' x = scull_slot d x" "slot_off d' x = slot_off d x"
    using geo by (simp_all add: same_geometry_def scull_slot_def slot_off_def)
  then show ?thesis
    using cell up len off i n nth_overwrite [of "slot_off d pos" "user_bytes ubuf n" q "slot_off d x"]
    by (simp add: byte_at_def user_bytes_mapped)
qed

lemma write_effect_keeps:
  assumes wf: "scull_wf d" and eff: "write_effect ubuf count pos d r pos' d'"
    and x: "byte_at d x = Some v"
    and other: "\<forall>i<write_count d count pos. scull_cell d x \<noteq> scull_cell d (pos + int i)"
  shows "byte_at d' x = Some v"
proof (rule write_effect_frame [OF wf eff x], rule notI)
  assume a: "scull_slot d x = scull_slot d pos \<and> slot_off d pos \<le> slot_off d x \<and>
    slot_off d x < slot_off d pos + write_count d count pos"
  define i where "i = slot_off d x - slot_off d pos"
  have i: "i < write_count d count pos" and "slot_off d pos + i < nat (sd_quantum d)"
    using a slot_off_bound(1) [OF wf] by (auto simp: i_def)
  with slot_shift [OF wf, of pos i] a have "scull_cell d x = scull_cell d (pos + int i)"
    by (simp add: scull_cell_def i_def)
  with other i show False by blast
qed

text \<open>The bytes a read returns.\<close>

lemma read_bytes:
  assumes wf: "scull_wf d" and pos: "pos_ok d pos" and sem: "0 < sd_sem d" and cnt: "count < 2 ^ 62"
    and r: "scull_read False al ulen count pos d = Inr (Inr bs, pos', d')"
  shows "pos' = pos + int (length bs) \<and> length bs \<le> count \<and>
    (bs \<noteq> [] \<longrightarrow> pos' \<le> int (sd_size d)) \<and>
    (\<forall>i<length bs. byte_at d (pos + int i) = Some (bs ! i)) \<and> (\<exists>m. d' = add_nodes m d)"
proof -
  from scull_read_eq [OF wf pos sem cnt, of al ulen] obtain m where e:
    "scull_read False al ulen count pos d = (if int (sd_size d) \<le> pos then Inr (Inr [], pos, d)
     else case quanta (sd_data d) (scull_slot d pos) of
         None \<Rightarrow> Inr (Inr [], pos, add_nodes m d)
       | Some q \<Rightarrow>
          (if ulen < read_count d count pos then Inr (Inl EFAULT, pos, add_nodes m d)
           else Inr (Inr (take (read_count d count pos) (drop (slot_off d pos) q)),
                     pos + int (read_count d count pos), add_nodes m d)))" by blast
  have room: "slot_off d pos + read_count d count pos \<le> nat (sd_quantum d)"
    by (rule read_room [OF wf])
  show ?thesis
  proof (cases "int (sd_size d) \<le> pos \<or> quanta (sd_data d) (scull_slot d pos) = None")
    case True
    with r e show ?thesis by (auto split: if_splits intro: exI [of _ m] exI [of _ 0])
  next
    case False
    then obtain q where eof: "pos < int (sd_size d)" and q: "quanta (sd_data d) (scull_slot d pos) = Some q"
      by auto
    with r e have bs: "bs = take (read_count d count pos) (drop (slot_off d pos) q)"
      and p': "pos' = pos + int (read_count d count pos)" and d': "d' = add_nodes m d"
      by (auto split: if_splits)
    have len: "nat (sd_quantum d) \<le> length q"
      using wf_quanta_len(1) [OF wf, of "fst (scull_slot d pos)" "snd (scull_slot d pos)"] q by simp
    have lb: "length bs = read_count d count pos" using bs room len by simp
    have "byte_at d (pos + int i) = Some (bs ! i)" if "i < length bs" for i
      using slot_shift [OF wf, of pos i] that room len q lb by (simp add: byte_at_def bs)
    moreover have "length bs \<le> count" "pos' \<le> int (sd_size d)"
      using lb p' eof read_count_le by auto
    ultimately show ?thesis using lb p' d' by auto
  qed
qed

subsection \<open>When a reset returns\<close>

definition all_arrays :: "scull_qset list \<Rightarrow> bool" where
  "all_arrays ns \<longleftrightarrow> (\<forall>n\<in>set ns. qs_data n \<noteq> None)"

definition stored :: "scull_qset \<Rightarrow> nat" where
  "stored n = (case qs_data n of None \<Rightarrow> 0 | Some arr \<Rightarrow> length (filter (\<lambda>q. q \<noteq> None) arr))"

lemma stored_simps [simp]:
  "stored (QSet None) = 0" "stored (QSet (Some arr)) = length (filter (\<lambda>q. q \<noteq> None) arr)"
  by (simp_all add: stored_def)

lemma reset_nodes_eq:
  assumes "\<forall>n\<in>set ns. wf_qset qu qs n" and "0 \<le> qs"
  shows "reset_nodes b qs ns =
    (if all_arrays ns then Inr (length ns + sum_list (map stored ns))
     else Inl (if b \<and> qs_data (hd ns) = None then UninitRead else Diverges))"
  using assms(1)
proof (induction ns arbitrary: b)
  case Nil
  then show ?case by (simp add: all_arrays_def)
next
  case (Cons n ns)
  show ?case
  proof (cases n)
    case (QSet arr)
    show ?thesis
    proof (cases arr)
      case None
      with QSet show ?thesis by (simp add: all_arrays_def)
    next
      case (Some a)
      then have "length a = nat qs" using Cons.prems QSet by (simp add: wf_qset_def)
      with Cons QSet Some assms(2) show ?thesis by (auto simp: all_arrays_def)
    qed
  qed
qed

lemma scull_dev_reset_eq:
  assumes "scull_wf d"
  shows "scull_dev_reset g d =
    (if all_arrays (sd_data d)
     then Inr (length (sd_data d) + sum_list (map stored (sd_data d)),
       d\<lparr>sd_size := 0, sd_quantum := g_quantum g, sd_qset := g_qset g, sd_data := []\<rparr>)
     else Inl (if qs_data (hd (sd_data d)) = None then UninitRead else Diverges))"
  using assms reset_nodes_eq [of "sd_data d" "sd_quantum d" "sd_qset d" True]
  by (auto simp: scull_dev_reset_def scull_wf_def)

subsection \<open>Files without holes\<close>

text \<open>
  A device whose nodes all have their array and cover the size: the state that a file written
  from its start on reaches, and the one in which a reset returns.
\<close>

definition dense :: "scull_dev \<Rightarrow> bool" where
  "dense d \<longleftrightarrow> all_arrays (sd_data d) \<and> int (sd_size d) \<le> 2 ^ 31 * (sd_quantum d * sd_qset d) \<and>
     (0 < sd_size d \<longrightarrow> find_steps ((int (sd_size d) - 1) div (sd_quantum d * sd_qset d)) < length (sd_data d))"

lemma find_from_length:
  "find_from al k ns = (Some j, ns', al') \<Longrightarrow> ns \<noteq> [] \<Longrightarrow> length ns' = max (length ns) (Suc k)"
  by (induction al k ns arbitrary: j ns' al' rule: find_from.induct)
     (auto split: prod.splits bool.splits simp: max_def le_Suc_eq split: if_splits)

lemma scull_find_item_length:
  "scull_find_item al d item = (Some j, d', al') \<Longrightarrow>
     length (sd_data d') = max (length (sd_data d)) (Suc (find_steps item))"
  by (auto simp: scull_find_item_def split: if_splits prod.splits bool.splits dest!: find_from_length)

lemma write_node_array:
  assumes "write_node alloc_q al k s_pos q_pos ubuf cnt pos d = Inr (Inr n, pos', d')"
    and "k < length (sd_data d)"
  shows "qs_data (sd_data d' ! k) \<noteq> None"
  using assms
  by (auto simp: write_node_def write_array_def write_quantum_def set_qset_data_def Let_def
      split: option.splits sum.splits prod.splits if_splits)

lemma write_gen_nodes:
  assumes wf: "scull_wf d" and pos: "pos_ok d pos"
    and w: "scull_write_gen alloc_q False al ubuf count pos d = Inr (Inr n, pos', d')"
  shows "length (sd_data d') = max (length (sd_data d)) (Suc (fst (scull_slot d pos)))"
    and "qs_data (sd_data d' ! fst (scull_slot d pos)) \<noteq> None"
    and "j < length (sd_data d) \<Longrightarrow> j \<noteq> fst (scull_slot d pos) \<Longrightarrow> sd_data d' ! j = sd_data d ! j"
    and "length (sd_data d) \<le> j \<Longrightarrow> j < fst (scull_slot d pos) \<Longrightarrow> sd_data d' ! j = QSet None"
proof -
  define D where "D = sem_down d"
  define k where "k = fst (scull_slot d pos)"
  define item where "item = pos div (sd_quantum d * sd_qset d)"
  have k: "k = find_steps item" by (simp add: k_def item_def scull_slot_def)
  have wfD: "scull_wf D" and posD: "pos_ok D pos" using wf pos by (simp_all add: D_def pos_ok_def)
  from scull_locate_wf [OF wfD posD] obtain s_pos q_pos
    where loc: "scull_locate D pos = Inr (item, s_pos, q_pos)" by (simp add: D_def item_def)
  have w': "(case scull_find_item al D item of
        (None, d1, _) \<Rightarrow> Inr (Inl ENOMEM, pos, sem_up d1)
      | (Some k, d1, al1) \<Rightarrow>
          write_node alloc_q al1 k s_pos q_pos ubuf (clip_quantum D q_pos (int count)) pos d1) = Inr (Inr n, pos', d')"
    using w loc by (simp add: scull_write_gen_def Let_def D_def [symmetric] split: if_splits)
  from scull_find_item_cases [of al D item]
  have "length (sd_data d') = max (length (sd_data d)) (Suc k) \<and> qs_data (sd_data d' ! k) \<noteq> None \<and>
    (\<forall>j. j \<noteq> k \<longrightarrow> j < length (sd_data d) \<longrightarrow> sd_data d' ! j = sd_data d ! j) \<and>
    (\<forall>j<k. length (sd_data d) \<le> j \<longrightarrow> sd_data d' ! j = QSet None)"
  proof cases
    case none
    with w' show ?thesis by simp
  next
    case (some m al1)
    define E where "E = add_nodes m D"
    have len: "length (sd_data E) = max (length (sd_data d)) (Suc k)"
      using scull_find_item_length [OF some(1)] by (simp add: E_def D_def k)
    have old: "j < length (sd_data d) \<Longrightarrow> sd_data E ! j = sd_data d ! j"
      and new: "length (sd_data d) \<le> j \<Longrightarrow> j < length (sd_data E) \<Longrightarrow> sd_data E ! j = QSet None" for j
      by (auto simp: E_def D_def add_nodes_def nth_append)
    have wn: "write_node alloc_q al1 k s_pos q_pos ubuf (clip_quantum D q_pos (int count)) pos E = Inr (Inr n, pos', d')"
      using w' some(1) by (simp add: E_def k)
    have oth: "j \<noteq> k \<Longrightarrow> sd_data d' ! j = sd_data E ! j \<and> length (sd_data d') = length (sd_data E)" for j
      by (rule write_node_other [OF wn])
    from oth [of "Suc k"] len have "length (sd_data d') = max (length (sd_data d)) (Suc k)" by simp
    moreover have "qs_data (sd_data d' ! k) \<noteq> None" using write_node_array [OF wn] len by simp
    ultimately show ?thesis using oth old new len by auto
  qed
  then show "length (sd_data d') = max (length (sd_data d)) (Suc (fst (scull_slot d pos)))"
    and "qs_data (sd_data d' ! fst (scull_slot d pos)) \<noteq> None"
    and "j < length (sd_data d) \<Longrightarrow> j \<noteq> fst (scull_slot d pos) \<Longrightarrow> sd_data d' ! j = sd_data d ! j"
    and "length (sd_data d) \<le> j \<Longrightarrow> j < fst (scull_slot d pos) \<Longrightarrow> sd_data d' ! j = QSet None"
    by (simp_all add: k_def)
qed

lemma find_steps_mono: "0 \<le> i \<Longrightarrow> i \<le> j \<Longrightarrow> j < 2 ^ 31 \<Longrightarrow> find_steps i \<le> find_steps j"
  by (simp add: find_steps_item)

lemma all_arrays_nth: "all_arrays ns \<longleftrightarrow> (\<forall>j<length ns. qs_data (ns ! j) \<noteq> None)"
  by (simp add: all_arrays_def all_set_conv_all_nth)

lemma dense_reach:
  assumes wf: "scull_wf d" and pos: "pos_ok d pos" and dense: "dense d" and le: "pos \<le> int (sd_size d)"
  shows "fst (scull_slot d pos) \<le> length (sd_data d)"
proof -
  define p where "p = sd_quantum d * sd_qset d"
  have p: "0 < p" using wf by (simp add: p_def scull_wf_def)
  have 0: "0 \<le> pos" using pos by (simp add: pos_ok_def)
  show ?thesis
  proof (cases "sd_size d = 0")
    case True
    with le 0 have "pos = 0" by simp
    then show ?thesis by (simp add: scull_slot_def find_steps_item find_steps_def s32_def)
  next
    case False
    define a where "a = (int (sd_size d) - 1) div p"
    have a: "0 \<le> a" "a < 2 ^ 31"
      using False dense p by (simp_all add: a_def dense_def p_def pos_imp_zdiv_nonneg_iff div_less_int)
    have "pos div p \<le> (int (sd_size d) - 1 + p) div p" using le p by (intro zdiv_mono1) auto
    then have "pos div p \<le> a + 1" using p div_add_self2 [of p "int (sd_size d) - 1"] by (simp only: a_def)
    moreover have "0 \<le> pos div p" "pos div p < 2 ^ 31"
      using 0 pos p by (simp_all add: pos_imp_zdiv_nonneg_iff div_less_int pos_ok_def p_def)
    ultimately have "find_steps (pos div p) \<le> Suc (find_steps a)"
      using a by (simp add: find_steps_item)
    moreover have "find_steps a < length (sd_data d)" using dense False by (simp add: dense_def a_def p_def)
    ultimately show ?thesis by (simp add: scull_slot_def p_def)
  qed
qed

lemma write_gen_dense:
  assumes wf: "scull_wf d" and pos: "pos_ok d pos" and dense: "dense d" and le: "pos \<le> int (sd_size d)"
    and w: "scull_write_gen alloc_q False al ubuf count pos d = Inr (Inr n, pos', d')"
    and eff: "write_effect ubuf count pos d (Inr n) pos' d'"
  shows "dense d'"
proof -
  define k where "k = fst (scull_slot d pos)"
  define p where "p = sd_quantum d * sd_qset d"
  note nodes = write_gen_nodes [OF wf pos w, folded k_def]
  have reach: "k \<le> length (sd_data d)" unfolding k_def by (rule dense_reach [OF wf pos dense le])
  have geo: "sd_quantum d' * sd_qset d' = p" and size: "sd_size d' = max (sd_size d) (nat (pos + int n))"
    and n: "n = write_count d count pos"
    using eff by (auto simp: write_effect_def same_geometry_def write_delta_def p_def split: if_splits)
  have old: "int (sd_size d) \<le> 2 ^ 31 * p" "0 < sd_size d \<Longrightarrow> find_steps ((int (sd_size d) - 1) div p) < length (sd_data d)"
    "\<forall>j<length (sd_data d). qs_data (sd_data d ! j) \<noteq> None"
    using dense by (simp_all add: dense_def p_def all_arrays_nth)
  have 0: "0 \<le> pos" using pos by (simp add: pos_ok_def)
  have "qs_data (sd_data d' ! j) \<noteq> None" if "j < length (sd_data d')" for j
    using nodes(1,2) nodes(3) [of j] old(3) reach that by (cases "j = k") auto
  then have arrays: "all_arrays (sd_data d')" by (simp add: all_arrays_nth)
  show ?thesis
  proof (cases "sd_size d' = sd_size d")
    case True
    with arrays old nodes(1) geo show ?thesis by (auto simp: dense_def)
  next
    case False
    then have n0: "0 < n" and size': "int (sd_size d') = pos + int n" using size le 0 by auto
    have "slot_off d pos + (n - 1) < nat (sd_quantum d)" using write_room [OF wf, of pos count] n n0 by simp
    from slot_shift [OF wf this] have last: "scull_slot d (pos + int (n - 1)) = scull_slot d pos"
      and bound: "pos + int (n - 1) < 2 ^ 31 * p" using pos by (simp_all add: pos_ok_def p_def)
    have e: "int (sd_size d') - 1 = pos + int (n - 1)" using size' n0 by simp
    have "find_steps ((int (sd_size d') - 1) div p) = k"
      using last by (simp add: e k_def scull_slot_def p_def)
    then show ?thesis using arrays nodes(1) geo bound e by (auto simp: dense_def)
  qed
qed

subsection \<open>A write that needs a new quantum\<close>

lemma find_from_nil: "snd (snd (find_from [] k ns)) = []"
proof (induction k arbitrary: ns)
  case (Suc k)
  consider "ns = []" | n where "ns = [n]" | n m ms where "ns = n # m # ms" by (metis list.exhaust)
  then show ?case
  proof cases
    case 2
    with Suc.IH [of "[QSet None]"] show ?thesis by (auto split: prod.splits)
  next
    case 3
    with Suc.IH show ?thesis by (auto split: prod.splits) (metis snd_conv)
  qed simp
qed simp

lemma scull_find_item_nil:
  "\<exists>m. scull_find_item [] d item = (Some (find_steps item), add_nodes m d, [])"
proof -
  obtain r d' al' where f: "scull_find_item [] d item = (r, d', al')" by (metis prod_cases3)
  have "al' = []"
    using f find_from_nil [of "find_steps item"] by (auto simp: scull_find_item_def split: if_splits prod.splits)
       (metis snd_conv)+
  moreover have "r = Some (find_steps item)" using f scull_find_item_total [of d item] by simp
  ultimately show ?thesis using f scull_find_item_spec [OF f] by (auto simp: add_nodes_def)
qed

lemma write_gen_fresh_stop:
  assumes wf: "scull_wf d" and pos: "pos_ok d pos" and sem: "0 < sd_sem d"
    and fresh: "quanta (sd_data d) (scull_slot d pos) = None"
    and stop: "alloc_q (sd_quantum d) [] = Inl e \<or>
      e = OutOfBounds \<and> (\<exists>b al. alloc_q (sd_quantum d) [] = Inr (Some b, al) \<and>
         length b < slot_off d pos + write_count d count pos)"
  shows "scull_write_gen alloc_q False [] ubuf count pos d = Inl e"
proof -
  define p item s_pos q_pos where "p = sd_quantum d * sd_qset d" and "item = pos div p"
    and "s_pos = pos mod p div sd_quantum d" and "q_pos = pos mod p mod sd_quantum d"
  define D where "D = sem_down d"
  define k where "k = find_steps item"
  have wfD: "scull_wf D" and posD: "pos_ok D pos" using wf pos by (simp_all add: D_def pos_ok_def)
  have loc: "scull_locate D pos = Inr (item, s_pos, q_pos)"
    using scull_locate_wf [OF wfD posD] by (simp add: D_def p_def item_def s_pos_def q_pos_def)
  have b: "0 \<le> s_pos" "s_pos < sd_qset d" "0 \<le> q_pos" "q_pos < sd_quantum d"
    using locate_bounds [OF wf, of pos] by (simp_all add: p_def s_pos_def q_pos_def)
  have slot: "scull_slot d pos = (k, nat s_pos)" and off: "slot_off d pos = nat q_pos"
    by (simp_all add: scull_slot_def slot_off_def p_def item_def s_pos_def q_pos_def k_def)
  have clip: "clip_quantum D q_pos (int count) = write_count d count pos"
    using clip_quantum_wf [of q_pos D "int count"] b wf_quantum_range [OF wf]
    by (simp add: D_def write_count_def off nat_diff_distrib)
  from scull_find_item_nil [of D item] obtain m where f: "scull_find_item [] D item = (Some k, add_nodes m D, [])"
    by (auto simp: k_def)
  have k: "k < length (sd_data (add_nodes m D))" using scull_find_item_spec [OF f] by (simp add: k_def)
  have wfE: "scull_wf (add_nodes m D)" using wfD by simp
  obtain r1 d1 al1 where w: "write_array [] k (add_nodes m D) = (r1, d1, al1)" by (metis prod_cases3)
  have "0 \<le> sd_qset D" using wf by (simp add: D_def scull_wf_def)
  with w have al1: "al1 = []" and "r1 \<noteq> None" 
    by (cases "qs_data (sd_data (add_nodes m D) ! k)"; auto simp: write_array_def Let_def)+
  then obtain arr where r1: "r1 = Some arr" by blast
  note d1 = write_array_spec [OF wfE k w]
  have wf1: "scull_wf d1" and k1: "k < length (sd_data d1)" and arr: "qs_data (sd_data d1 ! k) = Some arr"
    and same: "sd_quantum d1 = sd_quantum d" "sd_qset d1 = sd_qset d" "quanta (sd_data d1) = quanta (sd_data d)"
    using d1 k r1 by (auto simp: same_geometry_def D_def)
  note a = wf_node_array [OF wf1 k1 arr]
  have inb: "\<not> (s_pos < 0 \<or> int (length arr) \<le> s_pos)" using a(1) same b by simp
  then have "nat s_pos < length arr" by linarith
  then have nth: "arr ! nat s_pos = None" using a(2) [of "nat s_pos"] same fresh slot by simp
  have "scull_write_gen alloc_q False [] ubuf count pos d =
      write_node alloc_q [] k s_pos q_pos ubuf (write_count d count pos) pos (add_nodes m D)"
    using sem loc f by (simp add: scull_write_gen_def Let_def D_def [symmetric] clip)
  also have "\<dots> = Inl e"
    using stop inb nth w r1 al1 b off by (auto simp: write_node_def write_quantum_def D_def)
  finally show ?thesis .
qed

end
