(* ===== verification/ScullCore.thy ===== *)
theory ScullCore
  imports ScullCells
begin

text \<open>
  The bare scull driver (\<open>common_scull/scull_core.c\<close>): its allocation of a quantum, the file
  operations over the storage of \<open>ScullStore\<close>, and its ioctl.
\<close>

subsection \<open>File operations\<close>

text \<open>\<open>kmalloc(quantum)\<close> (a negative quantum is a huge size), then \<open>memset\<close> of the quantum.\<close>

definition scull_alloc_quantum :: "int \<Rightarrow> bool list \<Rightarrow> (byte list option \<times> bool list) run" where
  "scull_alloc_quantum qu al = (case kalloc al of (ok, al') \<Rightarrow>
     Inr (if ok \<and> 0 \<le> qu then Some (replicate (nat qu) 0) else None, al'))"

definition scull_write :: "bool \<Rightarrow> bool list \<Rightarrow> byte list \<Rightarrow> nat \<Rightarrow> int \<Rightarrow> scull_dev \<Rightarrow>
    (nat res \<times> int \<times> scull_dev) run" where
  "scull_write = scull_write_gen scull_alloc_quantum"

definition O_ACCMODE :: nat where "O_ACCMODE = 3"
definition O_WRONLY :: nat where "O_WRONLY = 1"
definition O_NONBLOCK :: nat where "O_NONBLOCK = 2048"

definition write_only :: "nat \<Rightarrow> bool" where
  "write_only f_flags \<longleftrightarrow> and f_flags O_ACCMODE = O_WRONLY"

text \<open>An open for writing only resets the device; \<open>reset\<close> is the driver's \<open>scull_dev_reset\<close>.\<close>

definition scull_open_gen :: "(scull_dev \<Rightarrow> (nat \<times> scull_dev) run) \<Rightarrow> bool \<Rightarrow> nat \<Rightarrow> scull_dev \<Rightarrow>
    (unit res \<times> scull_dev) run" where
  "scull_open_gen reset sig f_flags d =
     (if write_only f_flags then
        (if sig then Inr (Inl ERESTARTSYS, d)
         else if sd_sem d = 0 then Inl Sleeps
         else case reset (sem_down d) of
             Inl e \<Rightarrow> Inl e
           | Inr (_, d') \<Rightarrow> Inr (Inr (), sem_up d'))
      else Inr (Inr (), d))"

definition scull_open :: "scull_globals \<Rightarrow> bool \<Rightarrow> nat \<Rightarrow> scull_dev \<Rightarrow> (unit res \<times> scull_dev) run" where
  "scull_open g = scull_open_gen (scull_dev_reset g)"

definition scull_release :: "scull_dev \<Rightarrow> unit res \<times> scull_dev" where
  "scull_release d = (Inr (), d)"

definition SEEK_SET :: int where "SEEK_SET = 0"
definition SEEK_CUR :: int where "SEEK_CUR = 1"
definition SEEK_END :: int where "SEEK_END = 2"

text \<open>The result and the new \<open>filp->f_pos\<close>.\<close>

definition scull_llseek :: "scull_dev \<Rightarrow> int \<Rightarrow> int \<Rightarrow> int \<Rightarrow> int res \<times> int" where
  "scull_llseek d f_pos off whence =
     (let seek = (\<lambda>newpos. if newpos < 0 then (Inl EINVAL, f_pos) else (Inr newpos, newpos)) in
      if whence = SEEK_SET then seek off
      else if whence = SEEK_CUR then seek (s64 (f_pos + off))
      else if whence = SEEK_END then seek (s64 (int (sd_size d)))
      else (Inl EINVAL, f_pos))"

subsection \<open>The ioctl commands (\<open>scull.h\<close>)\<close>

definition IO_NONE :: nat where "IO_NONE = 0"
definition IO_WRITE :: nat where "IO_WRITE = 1"
definition IO_READ :: nat where "IO_READ = 2"

definition SCULL_IOC_MAGIC :: nat where "SCULL_IOC_MAGIC = 107"
definition SCULL_IOC_MAXNR :: nat where "SCULL_IOC_MAXNR = 14"

definition SCULL_IOCRESET :: nat where "SCULL_IOCRESET = IOC IO_NONE SCULL_IOC_MAGIC 0 0"
definition SCULL_IOCSQUANTUM :: nat where "SCULL_IOCSQUANTUM = IOC IO_WRITE SCULL_IOC_MAGIC 1 4"
definition SCULL_IOCSQSET :: nat where "SCULL_IOCSQSET = IOC IO_WRITE SCULL_IOC_MAGIC 2 4"
definition SCULL_IOCTQUANTUM :: nat where "SCULL_IOCTQUANTUM = IOC IO_NONE SCULL_IOC_MAGIC 3 0"
definition SCULL_IOCTQSET :: nat where "SCULL_IOCTQSET = IOC IO_NONE SCULL_IOC_MAGIC 4 0"
definition SCULL_IOCGQUANTUM :: nat where "SCULL_IOCGQUANTUM = IOC IO_READ SCULL_IOC_MAGIC 5 4"
definition SCULL_IOCGQSET :: nat where "SCULL_IOCGQSET = IOC IO_READ SCULL_IOC_MAGIC 6 4"
definition SCULL_IOCQQUANTUM :: nat where "SCULL_IOCQQUANTUM = IOC IO_NONE SCULL_IOC_MAGIC 7 0"
definition SCULL_IOCQQSET :: nat where "SCULL_IOCQQSET = IOC IO_NONE SCULL_IOC_MAGIC 8 0"
definition SCULL_IOCXQUANTUM :: nat where "SCULL_IOCXQUANTUM = IOC 3 SCULL_IOC_MAGIC 9 4"
definition SCULL_IOCXQSET :: nat where "SCULL_IOCXQSET = IOC 3 SCULL_IOC_MAGIC 10 4"
definition SCULL_IOCHQUANTUM :: nat where "SCULL_IOCHQUANTUM = IOC IO_NONE SCULL_IOC_MAGIC 11 0"
definition SCULL_IOCHQSET :: nat where "SCULL_IOCHQSET = IOC IO_NONE SCULL_IOC_MAGIC 12 0"

lemmas ioc_defs = IOC_def IO_NONE_def IO_WRITE_def IO_READ_def SCULL_IOC_MAGIC_def
  SCULL_IOC_MAXNR_def SCULL_IOCRESET_def SCULL_IOCSQUANTUM_def SCULL_IOCSQSET_def
  SCULL_IOCTQUANTUM_def SCULL_IOCTQSET_def SCULL_IOCGQUANTUM_def SCULL_IOCGQSET_def
  SCULL_IOCQQUANTUM_def SCULL_IOCQQSET_def SCULL_IOCXQUANTUM_def SCULL_IOCXQSET_def
  SCULL_IOCHQUANTUM_def SCULL_IOCHQSET_def IOC_TYPE_def IOC_NR_def IOC_DIR_def

text \<open>
  The kernel's side of one call: \<open>capable(CAP_SYS_ADMIN)\<close>, \<open>access_ok\<close>, the \<open>int\<close> that the
  user has at the address (\<open>None\<close> when \<open>__get_user\<close> faults; it then stores 0 in its target, as
  it documents) and whether \<open>__put_user\<close> succeeds.
\<close>

record ioctl_env =
  ie_cap :: bool
  ie_access_ok :: bool
  ie_user :: "int option"
  ie_put_ok :: bool

definition get_user_int :: "ioctl_env \<Rightarrow> int res \<times> int" where
  "get_user_int e = (case ie_user e of None \<Rightarrow> (Inl EFAULT, 0) | Some v \<Rightarrow> (Inr 0, v))"

definition put_user_int :: "ioctl_env \<Rightarrow> int \<Rightarrow> int res \<times> int option" where
  "put_user_int e v = (if ie_put_ok e then (Inr 0, Some v) else (Inl EFAULT, None))"

text \<open>
  The result: the return value, the variables \<open>scull_quantum\<close> and \<open>scull_qset\<close>, and the
  \<open>int\<close> stored at the user's address.
\<close>

definition scull_ioctl :: "ioctl_env \<Rightarrow> nat \<Rightarrow> nat \<Rightarrow> scull_globals \<Rightarrow>
    int res \<times> scull_globals \<times> int option" where
  "scull_ioctl e cmd arg g =
   (if IOC_TYPE cmd \<noteq> SCULL_IOC_MAGIC \<or> IOC_NR cmd > SCULL_IOC_MAXNR then (Inl ENOTTY, g, None)
    else if IOC_DIR cmd \<noteq> 0 \<and> \<not> ie_access_ok e then (Inl EFAULT, g, None)
    else if cmd = SCULL_IOCRESET then
      (Inl EINVAL, g\<lparr>g_qset := SCULL_QSET, g_quantum := SCULL_QUANTUM\<rparr>, None)
    else if cmd = SCULL_IOCSQUANTUM then
      (if \<not> ie_cap e then (Inl EPERM, g, None)
       else case get_user_int e of (r, q) \<Rightarrow> (r, g\<lparr>g_quantum := q\<rparr>, None))
    else if cmd = SCULL_IOCSQSET then
      (if \<not> ie_cap e then (Inl EPERM, g, None)
       else case get_user_int e of (r, q) \<Rightarrow> (r, g\<lparr>g_qset := q\<rparr>, None))
    else if cmd = SCULL_IOCTQUANTUM then
      (if \<not> ie_cap e then (Inl EPERM, g, None)
       else (Inl EINVAL, g\<lparr>g_quantum := s32 (int arg)\<rparr>, None))
    else if cmd = SCULL_IOCTQSET then
      (if \<not> ie_cap e then (Inl EPERM, g, None)
       else (Inl EINVAL, g\<lparr>g_qset := s32 (int arg)\<rparr>, None))
    else if cmd = SCULL_IOCGQUANTUM then
      (case put_user_int e (g_quantum g) of (r, out) \<Rightarrow> (r, g, out))
    else if cmd = SCULL_IOCGQSET then
      (case put_user_int e (g_qset g) of (r, out) \<Rightarrow> (r, g, out))
    else if cmd = SCULL_IOCQQUANTUM then (Inr (g_quantum g), g, None)
    else if cmd = SCULL_IOCQQSET then (Inr (g_qset g), g, None)
    else if cmd = SCULL_IOCXQUANTUM then
      (if \<not> ie_cap e then (Inl EPERM, g, None)
       else case get_user_int e of (r, q) \<Rightarrow>
         (case r of
            Inl err \<Rightarrow> (Inl err, g\<lparr>g_quantum := q\<rparr>, None)
          | Inr _ \<Rightarrow> (case put_user_int e (g_quantum g) of (r', out) \<Rightarrow>
              (r', g\<lparr>g_quantum := q\<rparr>, out))))
    else if cmd = SCULL_IOCXQSET then
      (if \<not> ie_cap e then (Inl EPERM, g, None)
       else case get_user_int e of (r, q) \<Rightarrow>
         (case r of
            Inl err \<Rightarrow> (Inl err, g\<lparr>g_qset := q\<rparr>, None)
          | Inr _ \<Rightarrow> (case put_user_int e (g_qset g) of (r', out) \<Rightarrow>
              (r', g\<lparr>g_qset := q\<rparr>, out))))
    else if cmd = SCULL_IOCHQUANTUM then
      (if \<not> ie_cap e then (Inl EPERM, g, None)
       else (Inr (g_quantum g), g\<lparr>g_quantum := s32 (int arg)\<rparr>, None))
    else if cmd = SCULL_IOCHQSET then
      (if \<not> ie_cap e then (Inl EPERM, g, None)
       else (Inr (g_quantum g), g\<lparr>g_quantum := s32 (int arg)\<rparr>, None))
    else (Inl EINVAL, g, None))"

subsection \<open>The allocator keeps the contract\<close>

interpretation scull: quantum_allocator scull_alloc_quantum "\<lambda>_. True"
  by unfold_locales (auto simp: scull_alloc_quantum_def split: prod.splits if_splits)

text \<open>A small device, for the concrete instances below.\<close>

definition example_dev :: scull_dev where
  "example_dev = \<lparr>sd_data = [], sd_quantum = 4, sd_qset = 2, sd_size = 0,
     sd_access_key = 0, sd_sem = 1, sd_vmas = 0\<rparr>"

lemma example_dev_ok:
  "scull_wf example_dev" "0 < sd_sem example_dev"
  "pos_ok example_dev 0" "pos_ok example_dev 5" "pos_ok example_dev 8" "pos_ok example_dev 16"
  by (simp_all add: example_dev_def scull_wf_def pos_ok_def)

lemma example_write:
  "scull_write False [] [7, 8, 9] 3 5 example_dev = Inr (Inr 3, 8, example_dev
     \<lparr>sd_data := [QSet (Some [None, Some [0, 7, 8, 9]])], sd_size := 8\<rparr>)"
  by code_simp

subsection \<open>Properties of reads and writes\<close>

text \<open>C1: on a well-formed device whose semaphore is free, \<open>scull_write\<close> always returns (no
  null dereference, no access outside a quantum or an array, no division by zero), leaves the
  device well formed with the semaphore released, and either fails with \<open>ENOMEM\<close> and the
  contents unchanged, or stores at the position's slot, in the quantum that was there or in a
  fresh zeroed one, the first \<open>min(count, rest of the quantum)\<close> bytes of the user.\<close>

theorem scull_write_correct:
  assumes "scull_wf d" and "pos_ok d pos" and "0 < sd_sem d" and "count < 2 ^ 62"
  shows "\<exists>r pos' d'. scull_write False al ubuf count pos d = Inr (r, pos', d') \<and>
    scull_wf d' \<and> write_effect ubuf count pos d r pos' d'"
  unfolding scull_write_def by (rule scull.write_correct [OF assms TrueI])

theorem scull_write_correct_witness:
  "\<exists>r pos' d'. scull_write False [True, False] [1, 2, 3] 3 5 example_dev = Inr (r, pos', d') \<and>
    scull_wf d' \<and> write_effect [1, 2, 3] 3 5 example_dev r pos' d'"
  by (rule scull_write_correct [OF example_dev_ok(1,4,2)]) simp

text \<open>C9: what \<open>scull_write\<close> stored is what \<open>scull_read\<close> at the same position returns.\<close>

theorem scull_read_after_write:
  assumes "scull_wf d" and "pos_ok d pos" and "0 < sd_sem d" and "count < 2 ^ 62"
    and "scull_write False al ubuf count pos d = Inr (Inr n, pos', d')" and "0 < n"
  shows "\<exists>d''. scull_read False al' n n pos d' = Inr (Inr (take n ubuf), pos + int n, d'')"
  using scull.read_after_write_gen [OF assms(1-4) TrueI] assms(5,6) unfolding scull_write_def by blast

theorem scull_read_after_write_witness:
  "\<exists>d' d''. scull_write False [] [7, 8, 9] 3 5 example_dev = Inr (Inr 3, 8, d') \<and>
     scull_read False [] 3 3 5 d' = Inr (Inr [7, 8, 9], 8, d'')"
proof -
  obtain d' where w: "scull_write False [] [7, 8, 9] 3 5 example_dev = Inr (Inr 3, 8, d')"
    using example_write by blast
  then show ?thesis
    using scull_read_after_write [OF example_dev_ok(1,4,2) _ w, of "[]"] by auto
qed

text \<open>C7: as a file, a successful write of \<open>n\<close> bytes advances the position by \<open>n\<close>, extends the
  size to it, stores byte \<open>i\<close> of the user at offset \<open>pos + i\<close>, and keeps the byte at every
  other offset that is not the alias of a written one.\<close>

theorem scull_write_file:
  assumes wf: "scull_wf d" and pos: "pos_ok d pos" and sem: "0 < sd_sem d" and cnt: "count < 2 ^ 62"
    and w: "scull_write False al ubuf count pos d = Inr (Inr n, pos', d')"
  shows "n = write_count d count pos \<and> pos' = pos + int n \<and>
    sd_size d' = max (sd_size d) (nat (pos + int n)) \<and>
    (\<forall>i<n. byte_at d' (pos + int i) = Some (ubuf ! i)) \<and>
    (\<forall>x v. pos_ok d x \<and> byte_at d x = Some v \<and>
       (\<forall>i<n. x \<noteq> pos + int i \<and> \<not> aliased d x (pos + int i)) \<longrightarrow> byte_at d' x = Some v)"
proof -
  from scull_write_correct [OF wf pos sem cnt, of al ubuf] w
  have eff: "write_effect ubuf count pos d (Inr n) pos' d'" by auto
  then have n: "n = write_count d count pos" "pos' = pos + int n"
      "sd_size d' = max (sd_size d) (nat (pos + int n))"
    by (auto simp: write_effect_def write_delta_def split: if_splits)
  have "byte_at d' (pos + int i) = Some (ubuf ! i)" if "i < n" for i
    by (rule write_effect_stores [OF wf eff that refl])
  moreover have "byte_at d' x = Some v"
    if x: "pos_ok d x" "byte_at d x = Some v"
      and other: "\<forall>i<n. x \<noteq> pos + int i \<and> \<not> aliased d x (pos + int i)" for x v
  proof (rule write_effect_keeps [OF wf eff x(2)], intro allI impI)
    fix i assume i: "i < write_count d count pos"
    then have "pos_ok d (pos + int i)" using slot_shift(3) [OF wf, of pos i] write_room [OF wf, of pos count] pos
      by simp
    with other i n show "scull_cell d x \<noteq> scull_cell d (pos + int i)"
      by (simp add: scull_cell_eq_iff [OF wf x(1)])
  qed
  ultimately show ?thesis using n by blast
qed

theorem scull_write_file_witness:
  "\<exists>d'. scull_write False [] [7, 8, 9] 3 5 example_dev = Inr (Inr 3, 8, d') \<and>
     sd_size d' = 8 \<and> byte_at d' 6 = Some 8"
proof -
  obtain d' where w: "scull_write False [] [7, 8, 9] 3 5 example_dev = Inr (Inr 3, 8, d')"
    using example_write by blast
  from scull_write_file [OF example_dev_ok(1,4,2) _ w]
  have size: "sd_size d' = 8" and bytes: "\<forall>i<3. byte_at d' (5 + int i) = Some ([7, 8, 9] ! i)"
    by (simp_all add: example_dev_def)
  from bytes [rule_format, of 1] have "byte_at d' 6 = Some 8" by simp
  with w size show ?thesis by blast
qed

text \<open>C8: a read returns bytes that are in the file, from the position on, never past the size,
  advances the position by their number, and changes nothing but the length of the node list.\<close>

theorem scull_read_file:
  assumes "scull_wf d" and "pos_ok d pos" and "0 < sd_sem d" and "count < 2 ^ 62"
    and "scull_read False al ulen count pos d = Inr (Inr bs, pos', d')"
  shows "pos' = pos + int (length bs) \<and> length bs \<le> count \<and>
    (bs \<noteq> [] \<longrightarrow> pos' \<le> int (sd_size d)) \<and>
    (\<forall>i<length bs. byte_at d (pos + int i) = Some (bs ! i)) \<and> (\<exists>m. d' = add_nodes m d)"
  by (rule read_bytes [OF assms])

definition example_file :: scull_dev where
  "example_file = example_dev\<lparr>sd_data := [QSet (Some [None, Some [0, 7, 8, 9]])], sd_size := 8\<rparr>"

lemma example_file_ok:
  "scull_wf example_file" "0 < sd_sem example_file" "pos_ok example_file 5" "pos_ok example_file 8"
  by (auto simp: example_file_def example_dev_def scull_wf_def pos_ok_def wf_qset_def)

theorem scull_read_file_witness:
  "scull_read False [] 9 9 6 example_file = Inr (Inr [8, 9], 8, example_file) \<and>
   byte_at example_file 7 = Some 9"
proof -
  have r: "scull_read False [] 9 9 6 example_file = Inr (Inr [8, 9], 8, example_file)" by code_simp
  have "pos_ok example_file 6" by (simp add: example_file_def example_dev_def pos_ok_def)
  from scull_read_file [OF example_file_ok(1) this example_file_ok(2) _ r]
  have "\<forall>i<length [8, 9 :: byte]. byte_at example_file (6 + int i) = Some ([8, 9] ! i)" by simp
  from this [rule_format, of 1] r show ?thesis by simp
qed

text \<open>The first two items of the file are the same memory: a write at an offset of the second
  item changes the byte at the corresponding offset of the first.\<close>

lemma scull_items_aliased:
  assumes wf: "scull_wf d" and sem: "0 < sd_sem d" and cnt: "count < 2 ^ 62"
    and x: "0 \<le> x" "x < sd_quantum d * sd_qset d"
    and w: "scull_write False al ubuf count (x + sd_quantum d * sd_qset d) d = Inr (Inr n, pos', d')"
    and n: "0 < n"
  shows "byte_at d' x = Some (ubuf ! 0) \<and> byte_at d' (x + sd_quantum d * sd_qset d) = Some (ubuf ! 0)"
proof -
  define y where "y = x + sd_quantum d * sd_qset d"
  define p where "p = sd_quantum d * sd_qset d"
  have ok: "pos_ok d x" "pos_ok d y" using x by (simp_all add: pos_ok_def y_def p_def [symmetric])
  from scull_write_correct [OF wf ok(2) sem cnt, of al ubuf] w
  have eff: "write_effect ubuf count y d (Inr n) pos' d'" by (auto simp: y_def)
  have "scull_cell d x = scull_cell d y"
    using scull_cell_eq_iff [OF wf ok] x by (simp add: aliased_def y_def)
  with write_effect_stores [OF wf eff n, of x] write_effect_stores [OF wf eff n, of y] show ?thesis
    by (simp add: y_def)
qed

lemma scull_items_aliased_witness:
  "byte_at example_file 5 = Some 7 \<and>
   (\<exists>d'. scull_write False [] [1] 1 13 example_file = Inr (Inr 1, 14, d') \<and> byte_at d' 5 = Some 1)"
proof -
  obtain d' where w: "scull_write False [] [1] 1 (5 + sd_quantum example_file * sd_qset example_file) example_file
      = Inr (Inr 1, 14, d')"
    by (rule that) code_simp
  have "byte_at example_file 5 = Some 7" by code_simp
  with w scull_items_aliased [OF example_file_ok(1,2) _ _ _ w] show ?thesis
    by (simp add: example_file_def example_dev_def)
qed

text \<open>On a file without holes, a successful write at or before its end leaves a file
  without holes, and the next reset of such a device returns, with every node and quantum freed.\<close>

lemma scull_dense_write:
  assumes wf: "scull_wf d" and pos: "pos_ok d pos" and sem: "0 < sd_sem d" and cnt: "count < 2 ^ 62"
    and dense: "dense d" and le: "pos \<le> int (sd_size d)"
    and w: "scull_write False al ubuf count pos d = Inr (Inr n, pos', d')"
  shows "dense d' \<and> scull_dev_reset g d' =
    Inr (length (sd_data d') + sum_list (map stored (sd_data d')),
      d'\<lparr>sd_size := 0, sd_quantum := g_quantum g, sd_qset := g_qset g, sd_data := []\<rparr>)"
proof -
  from scull_write_correct [OF wf pos sem cnt, of al ubuf] w
  have wf': "scull_wf d'" and eff: "write_effect ubuf count pos d (Inr n) pos' d'" by auto
  have "dense d'"
    using write_gen_dense [OF wf pos dense le w [unfolded scull_write_def] eff] .
  then show ?thesis using scull_dev_reset_eq [OF wf'] by (simp add: dense_def)
qed

lemma scull_dense_write_witness:
  "\<exists>d'. scull_write False [] [1] 1 8 example_file = Inr (Inr 1, 9, d') \<and>
     dense d' \<and> (\<exists>r. scull_dev_reset \<lparr>g_quantum = 4, g_qset = 2\<rparr> d' = Inr r)"
proof -
  obtain d' where w: "scull_write False [] [1] 1 8 example_file = Inr (Inr 1, 9, d')"
    by (rule that) code_simp
  have "dense example_file" "8 \<le> int (sd_size example_file)"
    by (simp_all add: example_file_def example_dev_def dense_def all_arrays_def find_steps_def s32_def)
  from scull_dense_write [OF example_file_ok(1,4,2) _ this w] w show ?thesis by auto
qed

text \<open>A write that leaves a hole of an item (to an offset at or after the third item of an
  empty device) succeeds, and the next reset reads an uninitialised variable.\<close>

lemma scull_sparse_write_reset:
  assumes wf: "scull_wf d" and pos: "pos_ok d pos" and empty: "sd_data d = []"
    and hole: "2 * (sd_quantum d * sd_qset d) \<le> pos"
    and w: "scull_write False al ubuf count pos d = Inr (Inr n, pos', d')"
  shows "scull_dev_reset g d' = Inl UninitRead"
proof -
  define p k where "p = sd_quantum d * sd_qset d" and "k = fst (scull_slot d pos)"
  have p: "0 < p" "2 * p \<le> pos" "pos < 2 ^ 31 * p" using wf pos hole by (auto simp: scull_wf_def pos_ok_def p_def)
  have "2 * p div p \<le> pos div p" using p by (intro zdiv_mono1) auto
  then have "2 \<le> pos div p" "pos div p < 2 ^ 31" using p by (simp_all add: div_less_int)
  then have "0 < k" by (simp add: k_def scull_slot_def p_def [symmetric] find_steps_item)
  with write_gen_nodes(1) [OF wf pos w [unfolded scull_write_def]]
    write_gen_nodes(4) [OF wf pos w [unfolded scull_write_def], of 0] empty
  have "length (sd_data d') = Suc k" "sd_data d' ! 0 = QSet None" by (simp_all add: k_def)
  then obtain ns where "sd_data d' = QSet None # ns" by (cases "sd_data d'") auto
  then show ?thesis by (simp add: scull_dev_reset_def)
qed

lemma scull_sparse_write_reset_witness:
  "\<exists>d'. scull_write False [] [1] 1 16 example_dev = Inr (Inr 1, 17, d') \<and>
     scull_dev_reset \<lparr>g_quantum = 4, g_qset = 2\<rparr> d' = Inl UninitRead"
proof -
  obtain d' where w: "scull_write False [] [1] 1 16 example_dev = Inr (Inr 1, 17, d')"
    by (rule that) code_simp
  have "sd_data example_dev = []" "2 * (sd_quantum example_dev * sd_qset example_dev) \<le> 16"
    by (simp_all add: example_dev_def)
  from scull_sparse_write_reset [OF example_dev_ok(1,6) this w] w show ?thesis by blast
qed

subsection \<open>Properties of the ioctl\<close>

text \<open>The commands as numbers, to tell them apart, and the commands that change a variable.\<close>

lemma ioctl_numbers:
  "SCULL_IOCRESET = 27392"
  "SCULL_IOCSQUANTUM = 1074031361"
  "SCULL_IOCSQSET = 1074031362"
  "SCULL_IOCTQUANTUM = 27395"
  "SCULL_IOCTQSET = 27396"
  "SCULL_IOCGQUANTUM = 2147773189"
  "SCULL_IOCGQSET = 2147773190"
  "SCULL_IOCQQUANTUM = 27399"
  "SCULL_IOCQQSET = 27400"
  "SCULL_IOCXQUANTUM = 3221515017"
  "SCULL_IOCXQSET = 3221515018"
  "SCULL_IOCHQUANTUM = 27403"
  "SCULL_IOCHQSET = 27404"
  by (simp_all add: ioc_defs)

lemmas ioctl_simps = scull_ioctl_def ioctl_numbers IOC_TYPE_def IOC_NR_def IOC_DIR_def
  SCULL_IOC_MAGIC_def SCULL_IOC_MAXNR_def

lemma ioctl_set_quantum:
  "scull_ioctl e SCULL_IOCSQUANTUM arg g =
     (if \<not> ie_access_ok e then (Inl EFAULT, g, None) else if \<not> ie_cap e then (Inl EPERM, g, None)
      else (fst (get_user_int e), g\<lparr>g_quantum := snd (get_user_int e)\<rparr>, None))"
  "scull_ioctl e SCULL_IOCTQUANTUM arg g =
     (if \<not> ie_cap e then (Inl EPERM, g, None) else (Inl EINVAL, g\<lparr>g_quantum := s32 (int arg)\<rparr>, None))"
  "scull_ioctl e SCULL_IOCHQUANTUM arg g =
     (if \<not> ie_cap e then (Inl EPERM, g, None) else (Inr (g_quantum g), g\<lparr>g_quantum := s32 (int arg)\<rparr>, None))"
  "scull_ioctl e SCULL_IOCHQSET arg g = scull_ioctl e SCULL_IOCHQUANTUM arg g"
  by (simp_all add: ioctl_simps split: prod.split)

lemma ioctl_set_qset:
  "scull_ioctl e SCULL_IOCSQSET arg g =
     (if \<not> ie_access_ok e then (Inl EFAULT, g, None) else if \<not> ie_cap e then (Inl EPERM, g, None)
      else (fst (get_user_int e), g\<lparr>g_qset := snd (get_user_int e)\<rparr>, None))"
  "scull_ioctl e SCULL_IOCTQSET arg g =
     (if \<not> ie_cap e then (Inl EPERM, g, None) else (Inl EINVAL, g\<lparr>g_qset := s32 (int arg)\<rparr>, None))"
  "scull_ioctl e SCULL_IOCRESET arg g = (Inl EINVAL, g\<lparr>g_qset := SCULL_QSET, g_quantum := SCULL_QUANTUM\<rparr>, None)"
  by (simp_all add: ioctl_simps split: prod.split)

lemma ioctl_exchange:
  "fst (snd (scull_ioctl e SCULL_IOCXQUANTUM arg g)) =
     (if ie_access_ok e \<and> ie_cap e then g\<lparr>g_quantum := snd (get_user_int e)\<rparr> else g)"
  "fst (snd (scull_ioctl e SCULL_IOCXQSET arg g)) =
     (if ie_access_ok e \<and> ie_cap e then g\<lparr>g_qset := snd (get_user_int e)\<rparr> else g)"
  by (simp_all add: ioctl_simps split: prod.split sum.split)

lemma ioctl_keeps:
  assumes "cmd \<notin> {SCULL_IOCRESET, SCULL_IOCSQUANTUM, SCULL_IOCTQUANTUM, SCULL_IOCXQUANTUM, SCULL_IOCHQUANTUM,
    SCULL_IOCHQSET, SCULL_IOCSQSET, SCULL_IOCTQSET, SCULL_IOCXQSET}"
  shows "fst (snd (scull_ioctl e cmd arg g)) = g"
  using assms unfolding scull_ioctl_def put_user_int_def by (simp split: if_split)

text \<open>C36: an ioctl changes the module's quantum and qset only for a caller with
  \<open>CAP_SYS_ADMIN\<close>, except for \<open>SCULL_IOCRESET\<close>, which anyone may call and which reports
  \<open>EINVAL\<close> although it has set both to their defaults; and only \<open>SCULL_IOCSQSET\<close>,
  \<open>SCULL_IOCTQSET\<close> and \<open>SCULL_IOCXQSET\<close> ever change the qset (\<open>SCULL_IOCHQSET\<close> does not).\<close>

theorem scull_ioctl_privilege:
  assumes "scull_ioctl e cmd arg g = (r, g', out)" and "g' \<noteq> g"
  shows "cmd = SCULL_IOCRESET \<and> r = Inl EINVAL \<and> g' = \<lparr>g_quantum = SCULL_QUANTUM, g_qset = SCULL_QSET\<rparr> \<or>
    ie_cap e \<and> cmd \<in> {SCULL_IOCSQUANTUM, SCULL_IOCTQUANTUM, SCULL_IOCXQUANTUM, SCULL_IOCHQUANTUM, SCULL_IOCHQSET} \<and>
      g_qset g' = g_qset g \<or>
    ie_cap e \<and> cmd \<in> {SCULL_IOCSQSET, SCULL_IOCTQSET, SCULL_IOCXQSET} \<and> g_quantum g' = g_quantum g"
proof -
  have g': "g' = fst (snd (scull_ioctl e cmd arg g))" using assms(1) by simp
  with ioctl_keeps [of cmd e arg g] assms(2)
  have "cmd \<in> {SCULL_IOCRESET, SCULL_IOCSQUANTUM, SCULL_IOCTQUANTUM, SCULL_IOCXQUANTUM, SCULL_IOCHQUANTUM,
    SCULL_IOCHQSET, SCULL_IOCSQSET, SCULL_IOCTQSET, SCULL_IOCXQSET}" by metis
  then show ?thesis using assms g'
    by (elim insertE emptyE) (simp_all add: ioctl_set_quantum ioctl_set_qset ioctl_exchange split: if_splits)
qed

theorem scull_ioctl_privilege_witness:
  "(case scull_ioctl \<lparr>ie_cap = True, ie_access_ok = True, ie_user = Some 5, ie_put_ok = True\<rparr> SCULL_IOCXQUANTUM 0
      \<lparr>g_quantum = 4, g_qset = 2\<rparr> of (r, g', out) \<Rightarrow>
    r = Inr 0 \<and> out = Some 4 \<and> g_quantum g' = 5 \<and> g_qset g' = 2)"
proof -
  have c: "scull_ioctl \<lparr>ie_cap = True, ie_access_ok = True, ie_user = Some 5, ie_put_ok = True\<rparr> SCULL_IOCXQUANTUM 0
      \<lparr>g_quantum = 4, g_qset = 2\<rparr> = (Inr 0, \<lparr>g_quantum = 5, g_qset = 2\<rparr>, Some 4)"
    by (simp add: ioctl_simps get_user_int_def put_user_int_def)
  from scull_ioctl_privilege [OF c] show ?thesis by (simp add: c)
qed

text \<open>Setting the quantum with a bad address fails with \<open>EFAULT\<close>, but the quantum is then 0:
  every later reset gives it to the device, and the next write divides by zero.\<close>

lemma scull_ioctl_fault_divides:
  assumes "ie_cap e" and "ie_access_ok e" and "ie_user e = None"
    and "scull_ioctl e SCULL_IOCSQUANTUM arg g = (r, g', out)"
    and "scull_dev_reset g' d = Inr (freed, d')" and "0 < sd_sem d"
  shows "r = Inl EFAULT \<and> scull_write False al ubuf count pos d' = Inl DivByZero"
proof -
  have r: "r = Inl EFAULT" and "g_quantum g' = 0"
    using assms(1-4) by (auto simp: ioctl_set_quantum get_user_int_def)
  with assms(5,6) have "sd_quantum d' = 0" "sd_sem d' \<noteq> 0"
    by (auto simp: scull_dev_reset_def split: sum.splits)
  with r show ?thesis
    by (simp add: scull_write_def scull_write_gen_def scull_locate_def sem_down_def s32_def)
qed

lemma scull_ioctl_fault_divides_witness:
  "\<exists>g' d'. scull_ioctl \<lparr>ie_cap = True, ie_access_ok = True, ie_user = None, ie_put_ok = True\<rparr> SCULL_IOCSQUANTUM 0
      \<lparr>g_quantum = 4, g_qset = 2\<rparr> = (Inl EFAULT, g', None) \<and>
    scull_dev_reset g' example_file = Inr (2, d') \<and> scull_write False [] [1] 1 0 d' = Inl DivByZero"
proof -
  define e :: ioctl_env where "e = \<lparr>ie_cap = True, ie_access_ok = True, ie_user = None, ie_put_ok = True\<rparr>"
  have c: "scull_ioctl e SCULL_IOCSQUANTUM 0 \<lparr>g_quantum = 4, g_qset = 2\<rparr> =
      (Inl EFAULT, \<lparr>g_quantum = 0, g_qset = 2\<rparr>, None)"
    by (simp add: e_def ioctl_set_quantum get_user_int_def)
  obtain d' where d': "scull_dev_reset \<lparr>g_quantum = 0, g_qset = 2\<rparr> example_file = Inr (2, d')"
    by (rule that) code_simp
  from scull_ioctl_fault_divides [OF _ _ _ c d' example_file_ok(2), of "[]" "[1]" 1 0] c d' show ?thesis
    by (auto simp: e_def)
qed

subsection \<open>Enough memory\<close>

text \<open>If no allocation fails, a write does not fail for lack of memory.\<close>

lemma write_gen_memory:
  assumes wf: "scull_wf d" and pos: "pos_ok d pos" and al: "\<exists>q. alloc_q (sd_quantum d) [] = Inr (Some q, [])"
  shows "scull_write_gen alloc_q False [] ubuf count pos d \<noteq> Inr (Inl ENOMEM, pos', d')"
proof -
  define D where "D = sem_down d"
  have wfD: "scull_wf D" and posD: "pos_ok D pos" using wf pos by (simp_all add: D_def pos_ok_def)
  from scull_locate_wf [OF wfD posD] obtain item s_pos q_pos where loc: "scull_locate D pos = Inr (item, s_pos, q_pos)" by blast
  from scull_find_item_nil [of D item] obtain m where f: "scull_find_item [] D item = (Some (find_steps item), add_nodes m D, [])" by blast
  have q: "0 \<le> sd_qset D" using wf by (simp add: D_def scull_wf_def)
  from al have "\<exists>q. alloc_q (sd_quantum D) [] = Inr (Some q, [])" by (simp add: D_def)
  with q have "write_node alloc_q [] k s_pos q_pos ubuf cnt pos (add_nodes m D) \<noteq> Inr (Inl ENOMEM, pos', d')" for k cnt
    by (auto simp: write_node_def write_array_def write_quantum_def set_qset_data_def Let_def split: option.splits if_splits)
  then show ?thesis by (simp add: scull_write_gen_def loc f Let_def D_def [symmetric])
qed

end
