(* ===== verification/ScullVariants.thy ===== *)
theory ScullVariants
  imports ScullCore
begin

text \<open>
  The drivers \<open>ch08_memory/scullc.c\<close> (a slab cache), \<open>scullp.c\<close> (whole pages), \<open>scullv.c\<close>
  (\<open>vmalloc\<close>) and the mmap-capable \<open>ch15_mmap_dma/scullv.c\<close>.  Each repeats the text of
  \<open>scull_core.c\<close> with its own allocation of a quantum, which is no longer told the quantum of
  the device; so each repeated function is here the function of \<open>ScullCore\<close>, and the contract
  of the allocator holds only for the quanta that fit its buffers.
\<close>

subsection \<open>scullc: a slab cache\<close>

text \<open>
  \<open>obj\<close> is the object that \<open>kmem_cache_alloc\<close> returns, with the bytes its former user left;
  its length is the object size fixed when the cache was created.  The \<open>memset\<close> uses the
  variable \<open>scull_quantum\<close> of the moment.
\<close>

definition scullc_alloc_quantum :: "byte list \<Rightarrow> scull_globals \<Rightarrow> int \<Rightarrow> bool list \<Rightarrow>
    (byte list option \<times> bool list) run" where
  "scullc_alloc_quantum obj g qu al = (case kalloc al of (ok, al') \<Rightarrow>
     (if \<not> ok then Inr (None, al')
      else if g_quantum g < 0 \<or> int (length obj) < g_quantum g then Inl OutOfBounds
      else Inr (Some (overwrite obj 0 (replicate (nat (g_quantum g)) 0)), al')))"

definition scullc_dev_reset :: "scull_globals \<Rightarrow> scull_dev \<Rightarrow> (nat \<times> scull_dev) run" where
  "scullc_dev_reset = scull_dev_reset"

definition scullc_open :: "scull_globals \<Rightarrow> bool \<Rightarrow> nat \<Rightarrow> scull_dev \<Rightarrow> (unit res \<times> scull_dev) run" where
  "scullc_open g = scull_open_gen (scullc_dev_reset g)"

definition scullc_find_item :: "bool list \<Rightarrow> scull_dev \<Rightarrow> int \<Rightarrow> nat option \<times> scull_dev \<times> bool list" where
  "scullc_find_item = scull_find_item"

definition scullc_read :: "bool \<Rightarrow> bool list \<Rightarrow> nat \<Rightarrow> nat \<Rightarrow> int \<Rightarrow> scull_dev \<Rightarrow>
    (byte list res \<times> int \<times> scull_dev) run" where
  "scullc_read = scull_read"

definition scullc_write :: "byte list \<Rightarrow> scull_globals \<Rightarrow> bool \<Rightarrow> bool list \<Rightarrow> byte list \<Rightarrow> nat \<Rightarrow>
    int \<Rightarrow> scull_dev \<Rightarrow> (nat res \<times> int \<times> scull_dev) run" where
  "scullc_write obj g = scull_write_gen (scullc_alloc_quantum obj g)"

definition scullc_llseek :: "scull_dev \<Rightarrow> int \<Rightarrow> int \<Rightarrow> int \<Rightarrow> int res \<times> int" where
  "scullc_llseek = scull_llseek"

definition scullc_ioctl :: "ioctl_env \<Rightarrow> nat \<Rightarrow> nat \<Rightarrow> scull_globals \<Rightarrow>
    int res \<times> scull_globals \<times> int option" where
  "scullc_ioctl = scull_ioctl"

definition scullc_fits :: "byte list \<Rightarrow> scull_globals \<Rightarrow> int \<Rightarrow> bool" where
  "scullc_fits obj g qu \<longleftrightarrow> 0 \<le> g_quantum g \<and> g_quantum g \<le> int (length obj) \<and> qu \<le> g_quantum g"

interpretation scullc: quantum_allocator "scullc_alloc_quantum obj g" "scullc_fits obj g" for obj g
  by unfold_locales (auto simp: scullc_alloc_quantum_def scullc_fits_def overwrite_def min_def
      split: prod.splits if_splits)

subsection \<open>scullp: whole pages\<close>

definition SCULLP_ORDER :: nat where "SCULLP_ORDER = 0"

definition scullp_alloc_quantum :: "nat \<Rightarrow> int \<Rightarrow> bool list \<Rightarrow> (byte list option \<times> bool list) run" where
  "scullp_alloc_quantum order qu al = (case kalloc al of (ok, al') \<Rightarrow>
     Inr (if ok then Some (replicate (PAGE_SIZE * 2 ^ order) 0) else None, al'))"

definition scullp_dev_reset :: "scull_globals \<Rightarrow> scull_dev \<Rightarrow> (nat \<times> scull_dev) run" where
  "scullp_dev_reset = scull_dev_reset"

definition scullp_open :: "scull_globals \<Rightarrow> bool \<Rightarrow> nat \<Rightarrow> scull_dev \<Rightarrow> (unit res \<times> scull_dev) run" where
  "scullp_open g = scull_open_gen (scullp_dev_reset g)"

definition scullp_find_item :: "bool list \<Rightarrow> scull_dev \<Rightarrow> int \<Rightarrow> nat option \<times> scull_dev \<times> bool list" where
  "scullp_find_item = scull_find_item"

definition scullp_read :: "bool \<Rightarrow> bool list \<Rightarrow> nat \<Rightarrow> nat \<Rightarrow> int \<Rightarrow> scull_dev \<Rightarrow>
    (byte list res \<times> int \<times> scull_dev) run" where
  "scullp_read = scull_read"

definition scullp_write :: "bool \<Rightarrow> bool list \<Rightarrow> byte list \<Rightarrow> nat \<Rightarrow> int \<Rightarrow> scull_dev \<Rightarrow>
    (nat res \<times> int \<times> scull_dev) run" where
  "scullp_write = scull_write_gen (scullp_alloc_quantum SCULLP_ORDER)"

definition scullp_llseek :: "scull_dev \<Rightarrow> int \<Rightarrow> int \<Rightarrow> int \<Rightarrow> int res \<times> int" where
  "scullp_llseek = scull_llseek"

definition scullp_ioctl :: "ioctl_env \<Rightarrow> nat \<Rightarrow> nat \<Rightarrow> scull_globals \<Rightarrow>
    int res \<times> scull_globals \<times> int option" where
  "scullp_ioctl = scull_ioctl"

text \<open>The quanta that a buffer of \<open>2 ^ order\<close> pages holds.\<close>

definition pages_hold :: "nat \<Rightarrow> int \<Rightarrow> bool" where
  "pages_hold order qu \<longleftrightarrow> nat qu \<le> PAGE_SIZE * 2 ^ order"

interpretation scullp: quantum_allocator "scullp_alloc_quantum order"
    "pages_hold order" for order
  by unfold_locales (auto simp: scullp_alloc_quantum_def pages_hold_def min_def split: prod.splits if_splits)

subsection \<open>scullv: \<open>vmalloc\<close>\<close>

definition SCULLV_ORDER :: nat where "SCULLV_ORDER = 4"

definition scullv_alloc_quantum :: "nat \<Rightarrow> int \<Rightarrow> bool list \<Rightarrow> (byte list option \<times> bool list) run" where
  "scullv_alloc_quantum order qu al = (case kalloc al of (ok, al') \<Rightarrow>
     Inr (if ok then Some (replicate (PAGE_SIZE * 2 ^ order) 0) else None, al'))"

definition scullv_dev_reset :: "scull_globals \<Rightarrow> scull_dev \<Rightarrow> (nat \<times> scull_dev) run" where
  "scullv_dev_reset = scull_dev_reset"

definition scullv_open :: "scull_globals \<Rightarrow> bool \<Rightarrow> nat \<Rightarrow> scull_dev \<Rightarrow> (unit res \<times> scull_dev) run" where
  "scullv_open g = scull_open_gen (scullv_dev_reset g)"

definition scullv_find_item :: "bool list \<Rightarrow> scull_dev \<Rightarrow> int \<Rightarrow> nat option \<times> scull_dev \<times> bool list" where
  "scullv_find_item = scull_find_item"

definition scullv_read :: "bool \<Rightarrow> bool list \<Rightarrow> nat \<Rightarrow> nat \<Rightarrow> int \<Rightarrow> scull_dev \<Rightarrow>
    (byte list res \<times> int \<times> scull_dev) run" where
  "scullv_read = scull_read"

definition scullv_write :: "bool \<Rightarrow> bool list \<Rightarrow> byte list \<Rightarrow> nat \<Rightarrow> int \<Rightarrow> scull_dev \<Rightarrow>
    (nat res \<times> int \<times> scull_dev) run" where
  "scullv_write = scull_write_gen (scullv_alloc_quantum SCULLV_ORDER)"

definition scullv_llseek :: "scull_dev \<Rightarrow> int \<Rightarrow> int \<Rightarrow> int \<Rightarrow> int res \<times> int" where
  "scullv_llseek = scull_llseek"

definition scullv_ioctl :: "ioctl_env \<Rightarrow> nat \<Rightarrow> nat \<Rightarrow> scull_globals \<Rightarrow>
    int res \<times> scull_globals \<times> int option" where
  "scullv_ioctl = scull_ioctl"

lemma scullv_alloc_same: "scullv_alloc_quantum = scullp_alloc_quantum"
  by (intro ext) (simp add: scullv_alloc_quantum_def scullp_alloc_quantum_def)

interpretation scullv: quantum_allocator "scullv_alloc_quantum order"
    "pages_hold order" for order
  by (simp add: scullv_alloc_same scullp.quantum_allocator_axioms)

subsection \<open>scullv with mmap (\<open>ch15_mmap_dma/scullv.c\<close>)\<close>

definition scullm_alloc_quantum :: "nat \<Rightarrow> int \<Rightarrow> bool list \<Rightarrow> (byte list option \<times> bool list) run" where
  "scullm_alloc_quantum order qu al = (case kalloc al of (ok, al') \<Rightarrow>
     Inr (if ok then Some (replicate (PAGE_SIZE * 2 ^ order) 0) else None, al'))"

text \<open>The return value, the number of objects freed, the device.\<close>

definition scullm_dev_reset :: "scull_globals \<Rightarrow> scull_dev \<Rightarrow> (unit res \<times> nat \<times> scull_dev) run" where
  "scullm_dev_reset g d =
     (if sd_vmas d \<noteq> 0 then Inr (Inl EBUSY, 0, d)
      else case scull_dev_reset g d of
          Inl e \<Rightarrow> Inl e
        | Inr (freed, d') \<Rightarrow> Inr (Inr (), freed, d'))"

text \<open>\<open>scull_open\<close> ignores the return value of the reset.\<close>

definition scullm_open :: "scull_globals \<Rightarrow> bool \<Rightarrow> nat \<Rightarrow> scull_dev \<Rightarrow> (unit res \<times> scull_dev) run" where
  "scullm_open g = scull_open_gen (\<lambda>d. case scullm_dev_reset g d of
     Inl e \<Rightarrow> Inl e | Inr (_, freed, d') \<Rightarrow> Inr (freed, d'))"

definition scullm_find_item :: "bool list \<Rightarrow> scull_dev \<Rightarrow> int \<Rightarrow> nat option \<times> scull_dev \<times> bool list" where
  "scullm_find_item = scull_find_item"

definition scullm_read :: "bool \<Rightarrow> bool list \<Rightarrow> nat \<Rightarrow> nat \<Rightarrow> int \<Rightarrow> scull_dev \<Rightarrow>
    (byte list res \<times> int \<times> scull_dev) run" where
  "scullm_read = scull_read"

definition scullm_write :: "bool \<Rightarrow> bool list \<Rightarrow> byte list \<Rightarrow> nat \<Rightarrow> int \<Rightarrow> scull_dev \<Rightarrow>
    (nat res \<times> int \<times> scull_dev) run" where
  "scullm_write = scull_write_gen (scullm_alloc_quantum SCULLV_ORDER)"

definition scullm_llseek :: "scull_dev \<Rightarrow> int \<Rightarrow> int \<Rightarrow> int \<Rightarrow> int res \<times> int" where
  "scullm_llseek = scull_llseek"

definition scullm_ioctl :: "ioctl_env \<Rightarrow> nat \<Rightarrow> nat \<Rightarrow> scull_globals \<Rightarrow>
    int res \<times> scull_globals \<times> int option" where
  "scullm_ioctl = scull_ioctl"

lemma scullm_alloc_same: "scullm_alloc_quantum = scullp_alloc_quantum"
  by (intro ext) (simp add: scullm_alloc_quantum_def scullp_alloc_quantum_def)

interpretation scullm: quantum_allocator "scullm_alloc_quantum order"
    "pages_hold order" for order
  by (simp add: scullm_alloc_same scullp.quantum_allocator_axioms)

text \<open>Mappings are counted in \<open>dev->vmas\<close>.\<close>

definition scullv_vma_open :: "scull_dev \<Rightarrow> scull_dev" where
  "scullv_vma_open d = d\<lparr>sd_vmas := s32 (sd_vmas d + 1)\<rparr>"

definition scullv_vma_close :: "scull_dev \<Rightarrow> scull_dev" where
  "scullv_vma_close d = d\<lparr>sd_vmas := s32 (sd_vmas d - 1)\<rparr>"

definition scullv_mmap :: "scull_dev \<Rightarrow> unit res \<times> scull_dev" where
  "scullv_mmap d = (Inr (), scullv_vma_open d)"

text \<open>
  The page fault: the loop subtracts the \<open>qset\<close> (as an \<open>unsigned\<close>) for each node it leaves;
  the result is the node reached, or none, with the offset that is left.
\<close>

fun fault_walk :: "int \<Rightarrow> nat \<Rightarrow> int \<Rightarrow> scull_qset list \<Rightarrow> (nat \<times> scull_qset) option \<times> int" where
  "fault_walk qs k off [] = (None, off)"
| "fault_walk qs k off (n # ns) =
     (if u32 qs \<le> off then fault_walk qs (Suc k) (u32 (off - qs)) ns else (Some (k, n), off))"

datatype vm_fault = VM_FAULT_SIGBUS | VM_FAULT_NOPAGE

text \<open>
  \<open>vmf_address\<close> and \<open>vm_start\<close> are addresses, \<open>vm_pgoff\<close> the page offset of the mapping.  The
  second component says where the page that is installed comes from: the first page of the
  quantum at this node and index.
\<close>

definition no_page_fault :: "nat \<Rightarrow> nat \<Rightarrow> nat \<Rightarrow> scull_dev \<Rightarrow>
    (vm_fault \<times> (nat \<times> nat) option \<times> scull_dev) run" where
  "no_page_fault vmf_address vm_start vm_pgoff d0 =
     (let offset = u32 (u64 (int vmf_address - int vm_start + int vm_pgoff * 2 ^ PAGE_SHIFT)) in
      if sd_sem d0 = 0 then Inl Sleeps
      else let d = sem_down d0 in
      if offset \<ge> int (sd_size d) then Inr (VM_FAULT_SIGBUS, None, sem_up d)
      else case fault_walk (sd_qset d) 0 (offset div 2 ^ PAGE_SHIFT) (sd_data d) of
          (None, _) \<Rightarrow> Inr (VM_FAULT_SIGBUS, None, sem_up d)
        | (Some (k, n), off) \<Rightarrow>
           (case qs_data n of
              None \<Rightarrow> Inl NullDeref
            | Some arr \<Rightarrow>
               (if int (length arr) \<le> off then Inl OutOfBounds
                else case arr ! nat off of
                    None \<Rightarrow> Inr (VM_FAULT_SIGBUS, None, sem_up d)
                  | Some q \<Rightarrow> Inr (VM_FAULT_NOPAGE, Some (k, nat off), sem_up d))))"

subsection \<open>Which page a fault installs\<close>

lemma fault_walk_eq:
  assumes "0 < qs" and "qs < 2 ^ 31" and "0 \<le> off" and "off < 2 ^ 32"
  shows "fault_walk qs k off ns =
    (if nat (off div qs) < length ns
     then (Some (k + nat (off div qs), ns ! nat (off div qs)), off mod qs)
     else (None, off - qs * int (length ns)))"
  using assms(3,4)
proof (induction ns arbitrary: k off)
  case Nil
  then show ?case by simp
next
  case (Cons n ns)
  have u: "u32 qs = qs" using assms by (simp add: c_int)
  show ?case
  proof (cases "qs \<le> off")
    case False
    with Cons u show ?thesis by simp
  next
    case True
    then have u2: "u32 (off - qs) = off - qs" using Cons.prems assms by (simp add: c_int)
    have d: "off div qs = (off - qs) div qs + 1" "(off - qs) mod qs = off mod qs"
      using div_pos_geq [OF assms(1) True] mod_pos_geq [OF assms(1) True] by (simp_all only:)
    have "0 \<le> (off - qs) div qs" using True assms(1) by (simp add: pos_imp_zdiv_nonneg_iff)
    then have n: "nat (off div qs) = Suc (nat ((off - qs) div qs))" by (simp add: d)
    have "fault_walk qs k off (n # ns) = fault_walk qs (Suc k) (off - qs) ns" using True u u2 by simp
    also have "\<dots> = (if nat ((off - qs) div qs) < length ns
        then (Some (Suc k + nat ((off - qs) div qs), ns ! nat ((off - qs) div qs)), (off - qs) mod qs)
        else (None, off - qs - qs * int (length ns)))"
      by (rule Cons.IH) (use True Cons.prems assms in simp_all)
    finally show ?thesis by (simp add: n d(2) algebra_simps)
  qed
qed

lemma page_of_offset:
  assumes "0 < qs" and "0 \<le> (x::int)"
  shows "x div 2 ^ PAGE_SHIFT div qs = x div (int PAGE_SIZE * qs)"
    and "x div 2 ^ PAGE_SHIFT mod qs = x mod (int PAGE_SIZE * qs) div int PAGE_SIZE"
proof -
  have p: "int PAGE_SIZE = 2 ^ PAGE_SHIFT" by (simp add: PAGE_SIZE_def)
  show "x div 2 ^ PAGE_SHIFT div qs = x div (int PAGE_SIZE * qs)"
    using assms by (simp add: p zdiv_zmult2_eq)
  have "x mod (2 ^ PAGE_SHIFT * qs) = 2 ^ PAGE_SHIFT * (x div 2 ^ PAGE_SHIFT mod qs) + x mod 2 ^ PAGE_SHIFT"
    using assms by (intro zmod_zmult2_eq) auto
  then show "x div 2 ^ PAGE_SHIFT mod qs = x mod (int PAGE_SIZE * qs) div int PAGE_SIZE"
    by (simp add: p)
qed

lemma no_page_fault_eq:
  assumes wf: "scull_wf d" and sem: "0 < sd_sem d" and page: "sd_quantum d = int PAGE_SIZE"
    and off: "off < sd_size d" "off < 2 ^ 32"
    and node: "k = nat (int off div (sd_quantum d * sd_qset d))"
    and idx: "s = nat (int off mod (sd_quantum d * sd_qset d) div sd_quantum d)"
  shows "no_page_fault (vm_start + off) vm_start 0 d =
    (if length (sd_data d) \<le> k then Inr (VM_FAULT_SIGBUS, None, d)
     else if qs_data (sd_data d ! k) = None then Inl NullDeref
     else if quanta (sd_data d) (k, s) = None then Inr (VM_FAULT_SIGBUS, None, d)
     else Inr (VM_FAULT_NOPAGE, Some (k, s), d))"
proof -
  define pg where "pg = int off div 2 ^ PAGE_SHIFT"
  have qs: "0 < sd_qset d" "sd_qset d < 2 ^ 31"
  proof -
    show q: "0 < sd_qset d" using wf by (simp add: scull_wf_def)
    have "sd_qset d \<le> sd_quantum d * sd_qset d"
      using q wf mult_right_mono [of 1 "sd_quantum d" "sd_qset d"] by (simp add: scull_wf_def)
    then show "sd_qset d < 2 ^ 31" using wf unfolding scull_wf_def by linarith
  qed
  have pg: "0 \<le> pg" "pg < 2 ^ 32" using off(2) by (simp_all add: pg_def PAGE_SHIFT_def)
  have u: "u32 (u64 (int (vm_start + off) - int vm_start + int 0 * 2 ^ PAGE_SHIFT)) = int off"
    using off by (simp add: c_int)
  have k: "k = nat (pg div sd_qset d)" and s: "s = nat (pg mod sd_qset d)"
    using page_of_offset [OF qs(1), of "int off"] by (simp_all add: node idx page pg_def)
  have s0: "int s = pg mod sd_qset d" "s < nat (sd_qset d)"
    using qs(1) pos_mod_bound [OF qs(1), of pg] by (simp_all add: s)
  define run where "run = (case fault_walk (sd_qset d) 0 pg (sd_data d) of
          (None, _) \<Rightarrow> Inr (VM_FAULT_SIGBUS, None, sem_up (sem_down d))
        | (Some (k, n), off) \<Rightarrow>
           (case qs_data n of
              None \<Rightarrow> Inl NullDeref
            | Some arr \<Rightarrow>
               (if int (length arr) \<le> off then Inl OutOfBounds
                else case arr ! nat off of
                    None \<Rightarrow> Inr (VM_FAULT_SIGBUS, None, sem_up (sem_down d))
                  | Some q \<Rightarrow> Inr (VM_FAULT_NOPAGE, Some (k, nat off), sem_up (sem_down d)))))"
  have run: "no_page_fault (vm_start + off) vm_start 0 d = run"
    unfolding no_page_fault_def u Let_def run_def
    using off(1) sem by (simp add: pg_def)
  note sud = sem_up_down(1) [OF sem]
  show ?thesis
  proof (cases "length (sd_data d) \<le> k")
    case True
    then show ?thesis using fault_walk_eq [OF qs pg, of 0 "sd_data d"] by (simp add: run run_def k sud)
  next
    case False
    then have walk: "fault_walk (sd_qset d) 0 pg (sd_data d) = (Some (k, sd_data d ! k), int s)"
      using fault_walk_eq [OF qs pg, of 0 "sd_data d"] by (simp add: k s0(1))
    show ?thesis
    proof (cases "qs_data (sd_data d ! k)")
      case None
      with False walk show ?thesis by (simp add: run run_def sud)
    next
      case (Some arr)
      have "length arr = nat (sd_qset d)" "s < length arr \<Longrightarrow> arr ! s = quanta (sd_data d) (k, s)"
        using wf_node_array [OF wf _ Some] False by simp_all
      moreover have "s < length arr" "\<not> int (length arr) \<le> int s" using \<open>length arr = _\<close> s0(2) by linarith+
      ultimately show ?thesis using False walk Some by (simp add: run run_def sud split: option.splits)
    qed
  qed
qed

subsection \<open>Properties of the variants\<close>

definition variant_ok :: "byte list \<Rightarrow> nat \<Rightarrow> int \<Rightarrow> scull_dev \<Rightarrow> (nat res \<times> int \<times> scull_dev) run \<Rightarrow> bool" where
  "variant_ok ubuf count pos d w \<longleftrightarrow>
     (case w of Inl _ \<Rightarrow> False | Inr (r, pos', d') \<Rightarrow> scull_wf d' \<and> write_effect ubuf count pos d r pos' d')"

text \<open>C15: in each variant a write to a well-formed device whose quantum fits the buffers of its
  allocator returns, keeps the device well formed and stores the bytes at the slot of the position.\<close>

theorem variants_write_correct:
  assumes "scull_wf d" and "pos_ok d pos" and "0 < sd_sem d" and "count < 2 ^ 62"
  shows "(scullc_fits obj g (sd_quantum d) \<longrightarrow>
      variant_ok ubuf count pos d (scullc_write obj g False al ubuf count pos d)) \<and>
    (pages_hold SCULLP_ORDER (sd_quantum d) \<longrightarrow>
      variant_ok ubuf count pos d (scullp_write False al ubuf count pos d)) \<and>
    (pages_hold SCULLV_ORDER (sd_quantum d) \<longrightarrow>
      variant_ok ubuf count pos d (scullv_write False al ubuf count pos d) \<and>
      variant_ok ubuf count pos d (scullm_write False al ubuf count pos d))"
  using scullc.write_correct [OF assms, of obj g al ubuf] scullp.write_correct [OF assms, of SCULLP_ORDER al ubuf]
    scullv.write_correct [OF assms, of SCULLV_ORDER al ubuf] scullm.write_correct [OF assms, of SCULLV_ORDER al ubuf]
  by (auto simp: variant_ok_def scullc_write_def scullp_write_def scullv_write_def scullm_write_def)

theorem variants_write_correct_witness:
  "variant_ok [1, 2] 2 5 example_dev
     (scullc_write [9, 9, 9, 9] \<lparr>g_quantum = 4, g_qset = 2\<rparr> False [] [1, 2] 2 5 example_dev) \<and>
   variant_ok [1, 2] 2 5 example_dev (scullp_write False [] [1, 2] 2 5 example_dev) \<and>
   variant_ok [1, 2] 2 5 example_dev (scullm_write False [] [1, 2] 2 5 example_dev)"
proof -
  have "scullc_fits [9, 9, 9, 9] \<lparr>g_quantum = 4, g_qset = 2\<rparr> (sd_quantum example_dev)"
    "pages_hold SCULLP_ORDER (sd_quantum example_dev)" "pages_hold SCULLV_ORDER (sd_quantum example_dev)"
    by (simp_all add: scullc_fits_def pages_hold_def example_dev_def PAGE_SIZE_eq)
  with variants_write_correct [OF example_dev_ok(1,4,2), of 2] show ?thesis by simp
qed

text \<open>The page drivers do not look at the quantum of the device: when it is larger than the
  buffer, a write that creates a quantum and reaches past the buffer writes out of bounds.\<close>

lemma page_quantum_overflow:
  assumes wf: "scull_wf d" and pos: "pos_ok d pos" and sem: "0 < sd_sem d"
    and fresh: "quanta (sd_data d) (scull_slot d pos) = None"
    and past: "PAGE_SIZE * 2 ^ order < slot_off d pos + write_count d count pos"
  shows "(order = SCULLP_ORDER \<longrightarrow> scullp_write False [] ubuf count pos d = Inl OutOfBounds) \<and>
    (order = SCULLV_ORDER \<longrightarrow> scullv_write False [] ubuf count pos d = Inl OutOfBounds \<and>
      scullm_write False [] ubuf count pos d = Inl OutOfBounds)"
proof -
  have "scullp_alloc_quantum order (sd_quantum d) [] = Inr (Some (replicate (PAGE_SIZE * 2 ^ order) 0), [])"
    by (simp add: scullp_alloc_quantum_def)
  with past have "scull_write_gen (scullp_alloc_quantum order) False [] ubuf count pos d = Inl OutOfBounds"
    by (intro write_gen_fresh_stop [OF wf pos sem fresh]) auto
  then show ?thesis
    by (auto simp: scullp_write_def scullv_write_def scullm_write_def scullv_alloc_same scullm_alloc_same)
qed

lemma page_quantum_overflow_witness:
  "\<exists>g d. scull_ioctl \<lparr>ie_cap = True, ie_access_ok = True, ie_user = Some 8192, ie_put_ok = True\<rparr>
        SCULL_IOCSQUANTUM 0 \<lparr>g_quantum = 4096, g_qset = 1000\<rparr> = (Inr 0, g, None) \<and>
     scullp_open g False O_WRONLY (example_dev\<lparr>sd_quantum := 4096, sd_qset := 1000\<rparr>) = Inr (Inr (), d) \<and>
     scullp_write False [] [1] 5000 0 d = Inl OutOfBounds"
proof -
  define d where "d = example_dev\<lparr>sd_quantum := 8192, sd_qset := 1000\<rparr>"
  have "scull_wf d" "pos_ok d 0" "0 < sd_sem d" "quanta (sd_data d) (scull_slot d 0) = None"
    "PAGE_SIZE * 2 ^ SCULLP_ORDER < slot_off d 0 + write_count d 5000 0"
    by (simp_all add: d_def example_dev_def scull_wf_def pos_ok_def slot_off_def write_count_def PAGE_SIZE_eq SCULLP_ORDER_def)
  from page_quantum_overflow [OF this] have "scullp_write False [] [1] 5000 0 d = Inl OutOfBounds" by simp
  moreover have "scullp_open \<lparr>g_quantum = 8192, g_qset = 1000\<rparr> False O_WRONLY
      (example_dev\<lparr>sd_quantum := 4096, sd_qset := 1000\<rparr>) = Inr (Inr (), d)"
    by (simp add: scullp_open_def scull_open_gen_def write_only_def O_WRONLY_def O_ACCMODE_def
        scullp_dev_reset_def scull_dev_reset_def sem_down_def sem_up_def d_def example_dev_def)
  moreover have "scull_ioctl \<lparr>ie_cap = True, ie_access_ok = True, ie_user = Some 8192, ie_put_ok = True\<rparr>
        SCULL_IOCSQUANTUM 0 \<lparr>g_quantum = 4096, g_qset = 1000\<rparr> = (Inr 0, \<lparr>g_quantum = 8192, g_qset = 1000\<rparr>, None)"
    by (simp add: scull_ioctl_def ioc_defs get_user_int_def)
  ultimately show ?thesis by blast
qed

text \<open>The slab driver clears \<open>scull_quantum\<close> bytes of an object whose size was fixed at load
  time: once the variable is larger than that (or negative), the first write to a new quantum
  clears memory behind the object.\<close>

lemma scullc_memset_overflow:
  assumes wf: "scull_wf d" and pos: "pos_ok d pos" and sem: "0 < sd_sem d"
    and fresh: "quanta (sd_data d) (scull_slot d pos) = None"
    and big: "g_quantum g < 0 \<or> int (length obj) < g_quantum g"
  shows "scullc_write obj g False [] ubuf count pos d = Inl OutOfBounds"
proof -
  have "scullc_alloc_quantum obj g (sd_quantum d) [] = Inl OutOfBounds"
    using big by (auto simp: scullc_alloc_quantum_def)
  then show ?thesis unfolding scullc_write_def by (intro write_gen_fresh_stop [OF wf pos sem fresh]) simp
qed

lemma scullc_memset_overflow_witness:
  "scullc_write [0, 0, 0, 0] \<lparr>g_quantum = 5, g_qset = 2\<rparr> False [] [1] 1 5 example_dev = Inl OutOfBounds"
  by (rule scullc_memset_overflow [OF example_dev_ok(1,4,2)]) (simp_all add: example_dev_def)

text \<open>A page fault of a mapping with offset 0 takes the page from the quantum at node
  \<open>offset / itemsize\<close>; \<open>scull_read\<close> finds the offset at the slot \<open>scull_slot\<close>, so the mapping
  shows the file exactly for the offsets in its first item.\<close>

lemma fault_installs_slot:
  assumes wf: "scull_wf d" and sem: "0 < sd_sem d" and page: "sd_quantum d = int PAGE_SIZE"
    and off: "off < sd_size d" "off < 2 ^ 32" and pos: "pos_ok d (int off)"
    and fault: "no_page_fault (vm_start + off) vm_start 0 d = Inr (r, Some loc, d')"
  shows "d' = d \<and> r = VM_FAULT_NOPAGE \<and> quanta (sd_data d) loc \<noteq> None \<and>
    snd loc = snd (scull_slot d (int off)) \<and>
    (loc = scull_slot d (int off) \<longleftrightarrow> int off < sd_quantum d * sd_qset d)"
proof -
  define p where "p = sd_quantum d * sd_qset d"
  have p: "0 < p" "int off < 2 ^ 31 * p" using wf pos by (simp_all add: p_def scull_wf_def pos_ok_def)
  have i: "0 \<le> int off div p" "int off div p < 2 ^ 31" using p by (simp_all add: pos_imp_zdiv_nonneg_iff div_less_int)
  have loc: "loc = (nat (int off div p), nat (int off mod p div sd_quantum d))"
    and rest: "d' = d \<and> r = VM_FAULT_NOPAGE \<and> quanta (sd_data d) loc \<noteq> None"
    using fault no_page_fault_eq [OF wf sem page off refl refl, of vm_start]
    by (auto simp: p_def split: if_splits)
  have "nat (int off div p) = find_steps (int off div p) \<longleftrightarrow> int off div p = 0"
    using i by (auto simp: find_steps_item)
  moreover have "int off div p = 0 \<longleftrightarrow> int off < p" using p by (auto simp: zdiv_eq_0_iff)
  ultimately show ?thesis using rest by (simp add: loc scull_slot_def p_def [symmetric])
qed

definition mapped_dev :: scull_dev where
  "mapped_dev = example_dev\<lparr>sd_quantum := 4096, sd_qset := 1, sd_size := 12288,
     sd_data := [QSet (Some [Some (replicate 4096 0)]), QSet (Some [Some (replicate 4096 1)])]\<rparr>"

lemma fault_installs_slot_witness:
  "no_page_fault 4096 0 0 mapped_dev = Inr (VM_FAULT_NOPAGE, Some (1, 0), mapped_dev) \<and>
   scull_slot mapped_dev 4096 \<noteq> (1, 0)"
proof -
  have wf: "scull_wf mapped_dev" "0 < sd_sem mapped_dev" "sd_quantum mapped_dev = int PAGE_SIZE"
    "4096 < sd_size mapped_dev" "pos_ok mapped_dev (int 4096)"
    by (simp_all add: mapped_dev_def example_dev_def scull_wf_def wf_qset_def pos_ok_def PAGE_SIZE_eq)
  have f: "no_page_fault (0 + 4096) 0 0 mapped_dev = Inr (VM_FAULT_NOPAGE, Some (1, 0), mapped_dev)"
    using no_page_fault_eq [OF wf(1-4) _ refl refl, of 0]
    by (simp add: mapped_dev_def example_dev_def quanta_def)
  from fault_installs_slot [OF wf(1-4) _ wf(5) this] f show ?thesis
    by (auto simp: mapped_dev_def example_dev_def)
qed

text \<open>Mappings block a reset, and nothing in it: while \<open>vmas\<close> is not zero the device keeps
  its contents (an open for writing included), and with it zero the reset is that of the bare
  driver.\<close>

lemma scullm_reset_guard:
  "(sd_vmas d \<noteq> 0 \<longrightarrow> scullm_dev_reset g d = Inr (Inl EBUSY, 0, d) \<and>
     (0 < sd_sem d \<longrightarrow> scullm_open g False fl d = Inr (Inr (), d))) \<and>
   (sd_vmas d = 0 \<longrightarrow> scullm_open g sig fl d = scull_open g sig fl d)"
  by (auto simp: scullm_dev_reset_def scullm_open_def scull_open_def scull_open_gen_def sem_down_def sem_up_def
      split: sum.splits prod.splits)

lemma scullm_reset_guard_witness:
  "scullm_open g False O_WRONLY (example_file\<lparr>sd_vmas := 1\<rparr>) = Inr (Inr (), example_file\<lparr>sd_vmas := 1\<rparr>)"
  using scullm_reset_guard [of "example_file\<lparr>sd_vmas := 1\<rparr>" g O_WRONLY]
  by (simp add: example_file_def example_dev_def)

end
