(* ===== verification/BoundedQueue.thy ===== *)
theory BoundedQueue
  imports KernelPrelude
begin

text \<open>
  The contract of a bounded first-in first-out buffer: its contents are a list, a \<open>put\<close>
  appends a prefix of what it is given, a \<open>get\<close> removes a prefix, and both make progress when
  there is room or data.  \<open>ScullPipe\<close> interprets it on the pipe device, \<open>ImpairRing\<close> on the
  packet ring.
\<close>

datatype 'a queue_op = Put "'a list" | Get nat

locale bounded_queue =
  fixes inv :: "'s \<Rightarrow> bool" and contents :: "'s \<Rightarrow> 'a list" and capacity :: "'s \<Rightarrow> nat"
    and put :: "'a list \<Rightarrow> 's \<Rightarrow> nat \<times> 's" and get :: "nat \<Rightarrow> 's \<Rightarrow> 'a list \<times> 's"
  assumes bounded: "inv s \<Longrightarrow> length (contents s) \<le> capacity s"
    and put_ok: "inv s \<Longrightarrow> put xs s = (n, s') \<Longrightarrow>
      inv s' \<and> capacity s' = capacity s \<and> n \<le> length xs \<and> contents s' = contents s @ take n xs"
    and put_progress: "inv s \<Longrightarrow> put xs s = (n, s') \<Longrightarrow> xs \<noteq> [] \<Longrightarrow>
      length (contents s) < capacity s \<Longrightarrow> 0 < n"
    and get_ok: "inv s \<Longrightarrow> get m s = (ys, s') \<Longrightarrow>
      inv s' \<and> capacity s' = capacity s \<and> length ys \<le> m \<and> contents s = ys @ contents s'"
    and get_progress: "inv s \<Longrightarrow> get m s = (ys, s') \<Longrightarrow> 0 < m \<Longrightarrow> contents s \<noteq> [] \<Longrightarrow> ys \<noteq> []"
begin

text \<open>A run of operations: what the puts accepted and what the gets delivered, in order.\<close>

fun run_ops :: "'a queue_op list \<Rightarrow> 's \<Rightarrow> 'a list \<times> 'a list \<times> 's" where
  "run_ops [] s = ([], [], s)"
| "run_ops (Put xs # ops) s = (case put xs s of (n, s1) \<Rightarrow>
     (case run_ops ops s1 of (i, out, s2) \<Rightarrow> (take n xs @ i, out, s2)))"
| "run_ops (Get m # ops) s = (case get m s of (ys, s1) \<Rightarrow>
     (case run_ops ops s1 of (i, out, s2) \<Rightarrow> (i, ys @ out, s2)))"

lemma run_ops_fifo:
  "inv s \<Longrightarrow> run_ops ops s = (i, out, s') \<Longrightarrow>
     inv s' \<and> capacity s' = capacity s \<and> contents s @ i = out @ contents s'"
proof (induction ops arbitrary: s i out s')
  case (Cons op ops)
  show ?case
  proof (cases op)
    case (Put xs)
    obtain n s1 where p: "put xs s = (n, s1)" by (cases "put xs s")
    obtain j o' s2 where r: "run_ops ops s1 = (j, o', s2)" by (metis prod_cases3)
    from put_ok [OF Cons.prems(1) p] Cons.IH [OF _ r] Cons.prems(2) p r Put show ?thesis by auto
  next
    case (Get m)
    obtain ys s1 where g: "get m s = (ys, s1)" by (cases "get m s")
    obtain j o' s2 where r: "run_ops ops s1 = (j, o', s2)" by (metis prod_cases3)
    from get_ok [OF Cons.prems(1) g] Cons.IH [OF _ r] Cons.prems(2) g r Get show ?thesis by auto
  qed
qed simp

text \<open>What was delivered is a prefix of what was there and was accepted; the rest fits.\<close>

lemma delivered_prefix:
  "inv s \<Longrightarrow> run_ops ops s = (i, out, s') \<Longrightarrow>
     out = take (length out) (contents s @ i) \<and> length (contents s @ i) \<le> length out + capacity s"
proof -
  assume a: "inv s" "run_ops ops s = (i, out, s')"
  from run_ops_fifo [OF a] have "inv s'" "capacity s' = capacity s" "contents s @ i = out @ contents s'" by auto
  with bounded [of s'] show ?thesis by simp
qed

text \<open>As many non-empty gets as there are elements drain the buffer, in order.\<close>

lemma drain:
  assumes "inv s" and "0 < m" and "length (contents s) \<le> k"
  shows "\<exists>s'. run_ops (replicate k (Get m)) s = ([], contents s, s') \<and> inv s' \<and> contents s' = []"
  using assms(1,3)
proof (induction k arbitrary: s)
  case (Suc k)
  obtain ys s1 where g: "get m s = (ys, s1)" by (cases "get m s")
  note ok = get_ok [OF Suc.prems(1) g]
  have "length (contents s1) \<le> k"
    using ok Suc.prems(2) get_progress [OF Suc.prems(1) g assms(2)]
    by (cases "contents s = []") (auto simp: Suc_le_eq length_greater_0_conv [symmetric] simp del: length_greater_0_conv)
  with Suc.IH [of s1] ok g show ?case by auto
qed simp

end

end
