(* ===== verification/ScullPipe.thy ===== *)
theory ScullPipe
  imports BoundedQueue ScullCore
begin

text \<open>
  The pipe device (\<open>ch06_advanced_char/scull_pipe.c\<close>): a circular buffer with blocking reads
  and writes.  Pointers into the buffer are offsets from \<open>start\<close>; a null \<open>start\<close> is \<open>None\<close>.
  Every access but the wait conditions is made under the semaphore, so a call is a sequence of
  critical sections: \<open>p_read_cs\<close> and \<open>p_write_cs\<close> run from \<open>down\<close> to \<open>up\<close> and either return
  or leave to sleep.
\<close>

subsection \<open>State\<close>

record scull_pipe =
  sp_buf :: "byte list option"
  sp_buffersize :: nat
  sp_rp :: nat
  sp_wp :: nat
  sp_nreaders :: int
  sp_nwriters :: int
  sp_fasync :: "nat list"

definition scull_p_buffer :: nat where "scull_p_buffer = 100"

text \<open>The zeroed structure that \<open>scull_pipe_init\<close> sets up.\<close>

definition pipe_zero :: scull_pipe where
  "pipe_zero = \<lparr>sp_buf = None, sp_buffersize = 0, sp_rp = 0, sp_wp = 0, sp_nreaders = 0,
     sp_nwriters = 0, sp_fasync = []\<rparr>"

subsection \<open>Read\<close>

text \<open>A critical section returns from the call, or gives up the semaphore to sleep.\<close>

datatype 'a pcall = Ret "'a res" | Sleep

text \<open>\<open>dev->rp += count; if (dev->rp == dev->end) dev->rp = dev->start;\<close> and the same for \<open>wp\<close>.\<close>

definition advance :: "scull_pipe \<Rightarrow> nat \<Rightarrow> nat \<Rightarrow> nat" where
  "advance d p n = (if p + n = sp_buffersize d then 0 else p + n)"

definition read_len :: "scull_pipe \<Rightarrow> nat \<Rightarrow> nat" where
  "read_len d count = (if sp_rp d < sp_wp d then min count (sp_wp d - sp_rp d)
     else min count (sp_buffersize d - sp_rp d))"

definition p_read_cs :: "bool \<Rightarrow> nat \<Rightarrow> nat \<Rightarrow> scull_pipe \<Rightarrow> (byte list pcall \<times> scull_pipe) run" where
  "p_read_cs nonblock ulen count d =
     (if sp_rp d = sp_wp d then
        (if sp_nwriters d = 0 then Inr (Ret (Inr []), d)
         else if nonblock then Inr (Ret (Inl EAGAIN), d)
         else Inr (Sleep, d))
      else case sp_buf d of
          None \<Rightarrow> Inl NullDeref
        | Some buf \<Rightarrow>
            (if length buf < sp_rp d + read_len d count then Inl OutOfBounds
             else if ulen < read_len d count then Inr (Ret (Inl EFAULT), d)
             else Inr (Ret (Inr (take (read_len d count) (drop (sp_rp d) buf))),
               d\<lparr>sp_rp := advance d (sp_rp d) (read_len d count)\<rparr>)))"

subsection \<open>Write\<close>

definition get_spacefree :: "scull_pipe \<Rightarrow> int" where
  "get_spacefree d =
     (if sp_rp d = sp_wp d then int (sp_buffersize d) - 1
      else (int (sp_rp d) - int (sp_wp d) + int (sp_buffersize d)) smod int (sp_buffersize d) - 1)"

text \<open>The comparisons of \<open>scull_p_write\<close> are between \<open>size_t\<close> values.\<close>

definition write_len :: "scull_pipe \<Rightarrow> nat \<Rightarrow> nat" where
  "write_len d count =
     (let c = min count (nat (u64 (get_spacefree d))) in
      if sp_rp d \<le> sp_wp d then
        (let bytes_to_end = sp_buffersize d - sp_wp d in
         if 0 < bytes_to_end then min c bytes_to_end else c)
      else min c (nat (u64 (int (sp_rp d) - int (sp_wp d) - 1))))"

definition p_write_cs :: "bool \<Rightarrow> byte list \<Rightarrow> nat \<Rightarrow> scull_pipe \<Rightarrow> (nat pcall \<times> scull_pipe) run" where
  "p_write_cs nonblock ubuf count d =
     (if get_spacefree d = 0 then
        (if nonblock then Inr (Ret (Inl EAGAIN), d) else Inr (Sleep, d))
      else case sp_buf d of
          None \<Rightarrow> Inl NullDeref
        | Some buf \<Rightarrow>
            (let n = write_len d count in
             if length buf < sp_wp d + n then Inl OutOfBounds
             else let d1 = d\<lparr>sp_buf := Some (overwrite buf (sp_wp d) (user_bytes ubuf n))\<rparr> in
             if length ubuf < n then Inr (Ret (Inl EFAULT), d1)
             else Inr (Ret (Inr n), d1\<lparr>sp_wp := advance d (sp_wp d) n\<rparr>)))"

subsection \<open>Poll, fasync, open and release\<close>

definition POLLIN :: nat where "POLLIN = 1"
definition POLLOUT :: nat where "POLLOUT = 4"
definition POLLHUP :: nat where "POLLHUP = 16"
definition POLLRDNORM :: nat where "POLLRDNORM = 64"
definition POLLWRNORM :: nat where "POLLWRNORM = 256"

definition scull_p_poll :: "scull_pipe \<Rightarrow> nat" where
  "scull_p_poll d =
     (let m1 = (if sp_rp d \<noteq> sp_wp d then or POLLIN POLLRDNORM else 0);
          m2 = (if get_spacefree d \<noteq> 0 then or m1 (or POLLOUT POLLWRNORM) else m1)
      in if sp_rp d = sp_wp d \<and> sp_nwriters d = 0 then or m2 (or POLLHUP POLLIN) else m2)"

text \<open>
  \<open>fasync_helper\<close> adds or removes the file in the list of those to be signalled; it returns 0
  when nothing changed and a positive number otherwise.
\<close>

definition scull_p_fasync :: "nat \<Rightarrow> bool \<Rightarrow> scull_pipe \<Rightarrow> int \<times> scull_pipe" where
  "scull_p_fasync filp on d =
     (if on then (if filp \<in> set (sp_fasync d) then (0, d) else (1, d\<lparr>sp_fasync := filp # sp_fasync d\<rparr>))
      else (if filp \<in> set (sp_fasync d) then (1, d\<lparr>sp_fasync := filter (\<lambda>f. f \<noteq> filp) (sp_fasync d)\<rparr>)
            else (0, d)))"

text \<open>\<open>ok\<close> answers the allocation of the buffer, which holds the bytes \<open>junk\<close>.\<close>

definition scull_p_open :: "bool \<Rightarrow> bool \<Rightarrow> byte list \<Rightarrow> bool \<Rightarrow> bool \<Rightarrow> scull_pipe \<Rightarrow> unit res \<times> scull_pipe" where
  "scull_p_open sig ok junk fmode_write fmode_read d =
     (let opened = (\<lambda>d. d\<lparr>sp_nwriters := (if fmode_write then sp_nwriters d + 1 else sp_nwriters d),
            sp_nreaders := (if fmode_read then sp_nreaders d + 1 else sp_nreaders d)\<rparr>) in
      if sig then (Inl ERESTARTSYS, d)
      else case sp_buf d of
          Some _ \<Rightarrow> (Inr (), opened d)
        | None \<Rightarrow>
            (if \<not> ok then (Inl ENOMEM, d)
             else (Inr (), opened (d\<lparr>sp_buf := Some (take scull_p_buffer (junk @ replicate scull_p_buffer 0)),
               sp_buffersize := scull_p_buffer, sp_rp := 0, sp_wp := 0\<rparr>))))"

text \<open>The second component says whether the readers are woken.\<close>

definition scull_p_release :: "nat \<Rightarrow> bool \<Rightarrow> bool \<Rightarrow> scull_pipe \<Rightarrow> bool \<times> scull_pipe" where
  "scull_p_release filp fmode_write fmode_read d0 =
     (let d1 = snd (scull_p_fasync filp False d0);
          d2 = (if fmode_write then d1\<lparr>sp_nwriters := sp_nwriters d1 - 1\<rparr> else d1);
          wake = (fmode_write \<and> sp_nwriters d2 = 0);
          d3 = (if fmode_read then d2\<lparr>sp_nreaders := sp_nreaders d2 - 1\<rparr> else d2)
      in (wake, if sp_nreaders d3 = 0 \<and> sp_nwriters d3 = 0 then d3\<lparr>sp_buf := None\<rparr> else d3))"

subsection \<open>The buffer as a queue\<close>

definition pipe_ok :: "scull_pipe \<Rightarrow> bool" where
  "pipe_ok d \<longleftrightarrow> (case sp_buf d of None \<Rightarrow> False
     | Some buf \<Rightarrow> length buf = sp_buffersize d \<and> 0 < sp_buffersize d \<and> sp_buffersize d < 2 ^ 31 \<and>
         sp_rp d < sp_buffersize d \<and> sp_wp d < sp_buffersize d)"

definition pipe_contents :: "scull_pipe \<Rightarrow> byte list" where
  "pipe_contents d = (case sp_buf d of None \<Rightarrow> []
     | Some buf \<Rightarrow> (if sp_rp d \<le> sp_wp d then take (sp_wp d - sp_rp d) (drop (sp_rp d) buf)
         else drop (sp_rp d) buf @ take (sp_wp d) buf))"

definition pipe_capacity :: "scull_pipe \<Rightarrow> nat" where
  "pipe_capacity d = sp_buffersize d - 1"

lemma pipe_okE:
  assumes "pipe_ok d"
  obtains buf where "sp_buf d = Some buf" "length buf = sp_buffersize d" "0 < sp_buffersize d"
    "sp_buffersize d < 2 ^ 31" "sp_rp d < sp_buffersize d" "sp_wp d < sp_buffersize d"
  using assms by (auto simp: pipe_ok_def split: option.splits)

lemma pipe_contents_length:
  assumes "pipe_ok d"
  shows "length (pipe_contents d) =
    (if sp_rp d \<le> sp_wp d then sp_wp d - sp_rp d else sp_buffersize d - sp_rp d + sp_wp d)"
  using assms by (elim pipe_okE) (simp add: pipe_contents_def)

lemma pipe_empty_iff: "pipe_ok d \<Longrightarrow> pipe_contents d = [] \<longleftrightarrow> sp_rp d = sp_wp d"
  using pipe_contents_length [of d] by (auto elim!: pipe_okE simp: length_0_conv [symmetric] simp del: length_0_conv)

text \<open>The free space is what is left to the capacity: one byte less than the buffer.\<close>

lemma get_spacefree_eq:
  assumes "pipe_ok d"
  shows "get_spacefree d = int (pipe_capacity d) - int (length (pipe_contents d))"
    and "length (pipe_contents d) \<le> pipe_capacity d"
proof -
  define b r w where "b = int (sp_buffersize d)" and "r = int (sp_rp d)" and "w = int (sp_wp d)"
  have o: "0 < b" "0 \<le> r" "r < b" "0 \<le> w" "w < b"
    using assms by (auto elim!: pipe_okE simp: b_def r_def w_def)
  have m: "(r - w + b) smod b = (if w < r then r - w else r - w + b)" if "r \<noteq> w"
  proof -
    have "(r - w + b) smod b = (r - w + b) mod b" using o by (simp add: smod_nonneg)
    also have "\<dots> = (if w < r then r - w else r - w + b)"
    proof (cases "w < r")
      case True
      have "(r - w + b) mod b = (r - w) mod b" by simp
      also have "\<dots> = r - w" by (rule mod_pos_pos_trivial) (use o True in auto)
      finally show ?thesis using True by simp
    next
      case False
      have "(r - w + b) mod b = r - w + b" by (rule mod_pos_pos_trivial) (use o False that in auto)
      with False show ?thesis by simp
    qed
    finally show ?thesis .
  qed
  show "get_spacefree d = int (pipe_capacity d) - int (length (pipe_contents d))"
    using m o pipe_contents_length [OF assms]
    by (auto simp: get_spacefree_def pipe_capacity_def b_def r_def w_def)
  show "length (pipe_contents d) \<le> pipe_capacity d"
    using o pipe_contents_length [OF assms] by (auto simp: pipe_capacity_def b_def r_def w_def)
qed

lemma pipe_full_iff: "pipe_ok d \<Longrightarrow> get_spacefree d = 0 \<longleftrightarrow> length (pipe_contents d) = pipe_capacity d"
  using get_spacefree_eq by fastforce

text \<open>A read takes a prefix of the contents.\<close>

lemma read_len_le: "read_len d count \<le> count"
  by (simp add: read_len_def)

lemma p_read_spec:
  assumes ok: "pipe_ok d" and ne: "sp_rp d \<noteq> sp_wp d"
  obtains d' where "p_read_cs nonblock ulen count d =
      (if ulen < read_len d count then Inr (Ret (Inl EFAULT), d)
       else Inr (Ret (Inr (take (read_len d count) (pipe_contents d))), d'))"
    and "d' = d\<lparr>sp_rp := advance d (sp_rp d) (read_len d count)\<rparr>"
    and "pipe_ok d'" and "pipe_contents d' = drop (read_len d count) (pipe_contents d)"
    and "read_len d count \<le> length (pipe_contents d)" and "0 < count \<Longrightarrow> 0 < read_len d count"
proof -
  from ok obtain buf where b: "sp_buf d = Some buf" "length buf = sp_buffersize d" "0 < sp_buffersize d"
    "sp_buffersize d < 2 ^ 31" "sp_rp d < sp_buffersize d" "sp_wp d < sp_buffersize d" by (rule pipe_okE)
  define n where "n = read_len d count"
  define d' where "d' = d\<lparr>sp_rp := advance d (sp_rp d) n\<rparr>"
  have le: "n \<le> (if sp_rp d < sp_wp d then sp_wp d - sp_rp d else sp_buffersize d - sp_rp d)"
    by (simp add: n_def read_len_def)
  have len: "n \<le> length (pipe_contents d)" using le ne by (auto simp: pipe_contents_length [OF ok])
  have t: "take n (drop (sp_rp d) buf) = take n (pipe_contents d)"
    using b le ne by (auto simp: pipe_contents_def min_def)
  have run: "p_read_cs nonblock ulen count d =
      (if ulen < n then Inr (Ret (Inl EFAULT), d) else Inr (Ret (Inr (take n (pipe_contents d))), d'))"
    using ne b le by (auto simp: p_read_cs_def n_def [symmetric] d'_def t split: if_splits)
  have ok': "pipe_ok d'" using b le by (auto simp: d'_def pipe_ok_def advance_def split: if_splits)
  have "pipe_contents d' = drop n (pipe_contents d)"
  proof (cases "sp_rp d < sp_wp d")
    case True
    with b le show ?thesis by (auto simp: d'_def pipe_contents_def advance_def drop_take add.commute)
  next
    case False
    with b le ne show ?thesis
      by (auto simp: d'_def pipe_contents_def advance_def add.commute split: if_splits)
  qed
  moreover have "0 < count \<Longrightarrow> 0 < n" using b ne by (simp add: n_def read_len_def)
  ultimately show thesis using that [of d'] run ok' len d'_def unfolding n_def by blast
qed

text \<open>A write appends a prefix of the user's bytes, never more than the free space.\<close>

lemma write_len_bound:
  assumes ok: "pipe_ok d"
  shows "write_len d count \<le> count" and "write_len d count \<le> nat (get_spacefree d)"
    and "sp_wp d + write_len d count \<le> sp_buffersize d"
    and "sp_wp d < sp_rp d \<Longrightarrow> sp_wp d + write_len d count < sp_rp d"
    and "0 < count \<Longrightarrow> get_spacefree d \<noteq> 0 \<Longrightarrow> 0 < write_len d count"
proof -
  from ok obtain buf where b: "0 < sp_buffersize d" "sp_buffersize d < 2 ^ 31"
    "sp_rp d < sp_buffersize d" "sp_wp d < sp_buffersize d" by (rule pipe_okE)
  have f: "0 \<le> get_spacefree d" "get_spacefree d < 2 ^ 31"
    using get_spacefree_eq [OF ok] b(2) by (auto simp: pipe_capacity_def)
  then have u: "u64 (get_spacefree d) = get_spacefree d" by (simp add: c_int)
  have v: "sp_wp d < sp_rp d \<Longrightarrow> nat (u64 (int (sp_rp d) - int (sp_wp d) - 1)) = sp_rp d - sp_wp d - 1"
    using b by (simp add: u64_id nat_diff_distrib)
  have sp: "sp_wp d < sp_rp d \<Longrightarrow> get_spacefree d = int (sp_rp d - sp_wp d - 1)"
    using get_spacefree_eq [OF ok] pipe_contents_length [OF ok] b by (simp add: pipe_capacity_def of_nat_diff)
  have wl: "write_len d count = (if sp_rp d \<le> sp_wp d
      then min (min count (nat (get_spacefree d))) (sp_buffersize d - sp_wp d)
      else min (min count (nat (get_spacefree d))) (sp_rp d - sp_wp d - 1))"
    using b v by (auto simp: write_len_def Let_def u)
  show "write_len d count \<le> count" and "write_len d count \<le> nat (get_spacefree d)"
    by (auto simp: wl)
  show "sp_wp d + write_len d count \<le> sp_buffersize d"
    and "sp_wp d < sp_rp d \<Longrightarrow> sp_wp d + write_len d count < sp_rp d"
    using b by (auto simp: wl min_def)
  show "0 < count \<Longrightarrow> get_spacefree d \<noteq> 0 \<Longrightarrow> 0 < write_len d count"
    using b f sp by (auto simp: wl)
qed

lemma write_contents:
  assumes ok: "pipe_ok d" and len: "length xs \<le> nat (get_spacefree d)"
    and fit: "sp_wp d + length xs \<le> sp_buffersize d" "sp_wp d < sp_rp d \<Longrightarrow> sp_wp d + length xs < sp_rp d"
    and buf: "sp_buf d = Some buf"
  shows "pipe_ok (d\<lparr>sp_buf := Some (overwrite buf (sp_wp d) xs)\<rparr>)"
    and "pipe_contents (d\<lparr>sp_buf := Some (overwrite buf (sp_wp d) xs)\<rparr>) = pipe_contents d"
    and "pipe_ok (d\<lparr>sp_buf := Some (overwrite buf (sp_wp d) xs), sp_wp := advance d (sp_wp d) (length xs)\<rparr>)"
    and "pipe_contents (d\<lparr>sp_buf := Some (overwrite buf (sp_wp d) xs), sp_wp := advance d (sp_wp d) (length xs)\<rparr>)
      = pipe_contents d @ xs"
proof -
  from ok buf have b: "length buf = sp_buffersize d" "0 < sp_buffersize d" "sp_buffersize d < 2 ^ 31"
    "sp_rp d < sp_buffersize d" "sp_wp d < sp_buffersize d" by (auto elim: pipe_okE)
  have free: "int (length xs) \<le> int (sp_buffersize d) - 1 - int (length (pipe_contents d))"
    using len get_spacefree_eq [OF ok] b by (simp add: pipe_capacity_def)
  have not_full: "sp_rp d \<le> sp_wp d \<Longrightarrow> sp_wp d + length xs = sp_buffersize d \<Longrightarrow> 0 < sp_rp d"
    using free b by (simp add: pipe_contents_length [OF ok])
  show "pipe_ok (d\<lparr>sp_buf := Some (overwrite buf (sp_wp d) xs)\<rparr>)"
    and "pipe_ok (d\<lparr>sp_buf := Some (overwrite buf (sp_wp d) xs), sp_wp := advance d (sp_wp d) (length xs)\<rparr>)"
    using b fit by (auto simp: pipe_ok_def advance_def)
  have o: "overwrite buf (sp_wp d) xs = take (sp_wp d) buf @ xs @ drop (sp_wp d + length xs) buf"
    by (simp add: overwrite_def)
  show "pipe_contents (d\<lparr>sp_buf := Some (overwrite buf (sp_wp d) xs)\<rparr>) = pipe_contents d"
    using b fit buf by (auto simp: pipe_contents_def o not_le drop_take)
  show "pipe_contents (d\<lparr>sp_buf := Some (overwrite buf (sp_wp d) xs), sp_wp := advance d (sp_wp d) (length xs)\<rparr>)
      = pipe_contents d @ xs"
  proof (cases "sp_rp d \<le> sp_wp d")
    case True
    show ?thesis
    proof (cases "sp_wp d + length xs = sp_buffersize d")
      case wrap: True
      with True b buf not_full show ?thesis
        by (auto simp: pipe_contents_def o advance_def drop_take)
    next
      case False
      with True b buf fit show ?thesis
        by (auto simp: pipe_contents_def o advance_def drop_take)
    qed
  next
    case False
    with b buf fit show ?thesis
      by (auto simp: pipe_contents_def o advance_def)
  qed
qed

lemma p_write_spec:
  assumes ok: "pipe_ok d" and room: "get_spacefree d \<noteq> 0"
  obtains d' where "p_write_cs nonblock ubuf count d =
      Inr (Ret (if length ubuf < write_len d count then Inl EFAULT else Inr (write_len d count)), d')"
    and "pipe_ok d'" and "sp_rp d' = sp_rp d"
    and "sp_nreaders d' = sp_nreaders d" "sp_nwriters d' = sp_nwriters d"
      "sp_buffersize d' = sp_buffersize d" "sp_fasync d' = sp_fasync d"
    and "pipe_contents d' = pipe_contents d @
      (if length ubuf < write_len d count then [] else take (write_len d count) ubuf)"
    and "length ubuf < write_len d count \<Longrightarrow> sp_wp d' = sp_wp d"
proof -
  from ok obtain buf where buf: "sp_buf d = Some buf" "length buf = sp_buffersize d" by (rule pipe_okE)
  define n where "n = write_len d count"
  define xs where "xs = user_bytes ubuf n"
  note bound = write_len_bound [OF ok, of count, folded n_def]
  have l: "length xs = n" by (simp add: xs_def)
  note wc = write_contents [OF ok _ _ _ buf(1), of xs, unfolded l, OF bound(2,3)]
  have in_bounds: "\<not> length buf < sp_wp d + n" using bound(3) buf(2) by simp
  show thesis
  proof (cases "length ubuf < n")
    case True
    show thesis
    proof (rule that)
      show "p_write_cs nonblock ubuf count d =
        Inr (Ret (if length ubuf < write_len d count then Inl EFAULT else Inr (write_len d count)),
             d\<lparr>sp_buf := Some (overwrite buf (sp_wp d) xs)\<rparr>)"
        using True room buf in_bounds by (simp add: p_write_cs_def Let_def xs_def n_def [symmetric])
    qed (use True wc bound(4) in \<open>simp_all add: n_def [symmetric]\<close>)
  next
    case False
    then have xs: "xs = take n ubuf" by (simp add: xs_def user_bytes_mapped)
    show thesis
    proof (rule that)
      show "p_write_cs nonblock ubuf count d =
        Inr (Ret (if length ubuf < write_len d count then Inl EFAULT else Inr (write_len d count)),
             d\<lparr>sp_buf := Some (overwrite buf (sp_wp d) xs), sp_wp := advance d (sp_wp d) n\<rparr>)"
        using False room buf in_bounds by (simp add: p_write_cs_def Let_def xs_def n_def [symmetric] advance_def)
    qed (use False wc bound(4) xs in \<open>simp_all add: n_def [symmetric]\<close>)
  qed
qed

text \<open>The non-blocking calls as the operations of a queue.\<close>

definition pipe_put :: "byte list \<Rightarrow> scull_pipe \<Rightarrow> nat \<times> scull_pipe" where
  "pipe_put xs d = (case p_write_cs True xs (length xs) d of
     Inr (Ret (Inr n), d') \<Rightarrow> (n, d') | _ \<Rightarrow> (0, d))"

definition pipe_get :: "nat \<Rightarrow> scull_pipe \<Rightarrow> byte list \<times> scull_pipe" where
  "pipe_get m d = (case p_read_cs True m m d of
     Inr (Ret (Inr ys), d') \<Rightarrow> (ys, d') | _ \<Rightarrow> ([], d))"

lemma pipe_put_spec:
  assumes ok: "pipe_ok d" and p: "pipe_put xs d = (n, d')"
  shows "pipe_ok d' \<and> pipe_capacity d' = pipe_capacity d \<and> n \<le> length xs \<and>
    pipe_contents d' = pipe_contents d @ take n xs \<and>
    (xs \<noteq> [] \<longrightarrow> length (pipe_contents d) < pipe_capacity d \<longrightarrow> 0 < n)"
proof (cases "get_spacefree d = 0")
  case True
  with p ok pipe_full_iff [OF ok] show ?thesis by (auto simp: pipe_put_def p_write_cs_def)
next
  case False
  note b = write_len_bound [OF ok, of "length xs"]
  from p_write_spec [OF ok False, of True xs "length xs"] show ?thesis
    by (rule) (use p b False in \<open>auto simp: pipe_put_def pipe_capacity_def not_less split: if_splits\<close>)
qed

lemma pipe_get_spec:
  assumes ok: "pipe_ok d" and g: "pipe_get m d = (ys, d')"
  shows "pipe_ok d' \<and> pipe_capacity d' = pipe_capacity d \<and> length ys \<le> m \<and>
    pipe_contents d = ys @ pipe_contents d' \<and> (0 < m \<longrightarrow> pipe_contents d \<noteq> [] \<longrightarrow> ys \<noteq> [])"
proof (cases "sp_rp d = sp_wp d")
  case True
  with g ok pipe_empty_iff [OF ok] show ?thesis by (auto simp: pipe_get_def p_read_cs_def split: if_splits)
next
  case False
  from p_read_spec [OF ok False, of True m m] show ?thesis
    by (rule) (use g read_len_le [of d m] in \<open>auto simp: pipe_get_def pipe_capacity_def not_less split: if_splits\<close>)
qed

interpretation pipe: bounded_queue pipe_ok pipe_contents pipe_capacity pipe_put pipe_get
  by unfold_locales (use pipe_put_spec pipe_get_spec get_spacefree_eq(2) in \<open>blast+\<close>)

end
