(* ===== verification/ScullAccess.thy ===== *)
theory ScullAccess
  imports ScullCore
begin

text \<open>
  The access-controlled scull devices (\<open>ch06_advanced_char/scull_access_control.c\<close>): one opener
  at a time (\<open>scullsingle\<close>), one user at a time (\<open>sculluid\<close>, and \<open>scullwuid\<close> which waits), and a
  private device for each terminal (\<open>scullpriv\<close>).  Reads, writes, seeks and ioctls are those of
  \<open>ScullCore\<close>.
\<close>

text \<open>The end of each open: an open for writing only resets the device, without its semaphore.\<close>

definition open_reset :: "scull_globals \<Rightarrow> nat \<Rightarrow> scull_dev \<Rightarrow> scull_dev run" where
  "open_reset g f_flags d = (if write_only f_flags then
     (case scull_dev_reset g d of Inl e \<Rightarrow> Inl e | Inr (_, d') \<Rightarrow> Inr d') else Inr d)"

subsection \<open>scullsingle\<close>

text \<open>\<open>atomic_dec_and_test\<close>: decrement, and whether the result is zero.\<close>

definition atomic_dec_and_test :: "int \<Rightarrow> bool \<times> int" where
  "atomic_dec_and_test v = (v - 1 = 0, v - 1)"

text \<open>The open when nothing runs in between.\<close>

definition scull_single_open :: "scull_globals \<Rightarrow> nat \<Rightarrow> int \<Rightarrow> scull_dev \<Rightarrow> (unit res \<times> int \<times> scull_dev) run" where
  "scull_single_open g f_flags flag d =
     (case atomic_dec_and_test flag of
        (False, flag') \<Rightarrow> Inr (Inl EBUSY, flag' + 1, d)
      | (True, flag') \<Rightarrow> (case open_reset g f_flags d of Inl e \<Rightarrow> Inl e | Inr d' \<Rightarrow> Inr (Inr (), flag', d')))"

definition scull_single_release :: "int \<Rightarrow> int" where
  "scull_single_release flag = flag + 1"

text \<open>
  The interleaving of openers: each atomic operation is a step.  \<open>SBackoff\<close> has decremented the
  flag in vain and is about to increment it again.
\<close>

datatype single_task = SIdle | SBackoff | SOpen

inductive single_step :: "int \<times> single_task list \<Rightarrow> int \<times> single_task list \<Rightarrow> bool" where
  dec_ok: "t < length ts \<Longrightarrow> ts ! t = SIdle \<Longrightarrow> atomic_dec_and_test flag = (True, flag') \<Longrightarrow>
     single_step (flag, ts) (flag', ts[t := SOpen])"
| dec_busy: "t < length ts \<Longrightarrow> ts ! t = SIdle \<Longrightarrow> atomic_dec_and_test flag = (False, flag') \<Longrightarrow>
     single_step (flag, ts) (flag', ts[t := SBackoff])"
| inc_back: "t < length ts \<Longrightarrow> ts ! t = SBackoff \<Longrightarrow> single_step (flag, ts) (flag + 1, ts[t := SIdle])"
| release: "t < length ts \<Longrightarrow> ts ! t = SOpen \<Longrightarrow>
     single_step (flag, ts) (scull_single_release flag, ts[t := SIdle])"

inductive single_reach :: "int \<times> single_task list \<Rightarrow> bool" where
  init: "single_reach (1, replicate n SIdle)"
| step: "single_reach s \<Longrightarrow> single_step s s' \<Longrightarrow> single_reach s'"

inductive_cases single_stepE: "single_step s s'"

subsection \<open>sculluid\<close>

record cred =
  cr_uid :: nat
  cr_euid :: nat
  cr_dac_override :: bool

record uid_gate =
  ug_owner :: nat
  ug_count :: int

text \<open>The two critical sections under \<open>scull_uid_lock\<close>.\<close>

definition uid_enter :: "cred \<Rightarrow> uid_gate \<Rightarrow> unit res \<times> uid_gate" where
  "uid_enter c u =
     (if ug_count u \<noteq> 0 \<and> ug_owner u \<noteq> cr_uid c \<and> ug_owner u \<noteq> cr_euid c \<and> \<not> cr_dac_override c
      then (Inl EBUSY, u)
      else (Inr (), (if ug_count u = 0 then u\<lparr>ug_owner := cr_uid c\<rparr> else u)\<lparr>ug_count := ug_count u + 1\<rparr>))"

definition scull_uid_open :: "scull_globals \<Rightarrow> nat \<Rightarrow> cred \<Rightarrow> uid_gate \<Rightarrow> scull_dev \<Rightarrow>
    (unit res \<times> uid_gate \<times> scull_dev) run" where
  "scull_uid_open g f_flags c u d =
     (case uid_enter c u of
        (Inl e, u') \<Rightarrow> Inr (Inl e, u', d)
      | (Inr _, u') \<Rightarrow> (case open_reset g f_flags d of Inl e \<Rightarrow> Inl e | Inr d' \<Rightarrow> Inr (Inr (), u', d')))"

definition scull_uid_release :: "uid_gate \<Rightarrow> uid_gate" where
  "scull_uid_release u = u\<lparr>ug_count := ug_count u - 1\<rparr>"

subsection \<open>scullwuid\<close>

definition scull_wuid_available :: "cred \<Rightarrow> uid_gate \<Rightarrow> bool" where
  "scull_wuid_available c u \<longleftrightarrow> ug_count u = 0 \<or> ug_owner u = cr_uid c \<or> ug_owner u = cr_euid c \<or> cr_dac_override c"

text \<open>The critical section of the open once the device is available.\<close>

definition wuid_take :: "cred \<Rightarrow> uid_gate \<Rightarrow> uid_gate" where
  "wuid_take c u = (if ug_count u = 0 then u\<lparr>ug_owner := cr_uid c\<rparr> else u)\<lparr>ug_count := ug_count u + 1\<rparr>"

text \<open>What the loop head of the open does under the lock.\<close>

datatype wuid_result = WEnter uid_gate | WAgain | WSleep

definition wuid_enter :: "bool \<Rightarrow> cred \<Rightarrow> uid_gate \<Rightarrow> wuid_result" where
  "wuid_enter nonblock c u = (if scull_wuid_available c u then WEnter (wuid_take c u)
     else if nonblock then WAgain else WSleep)"

text \<open>The second component says whether the waiters are woken.\<close>

definition scull_wuid_release :: "uid_gate \<Rightarrow> uid_gate \<times> bool" where
  "scull_wuid_release u = (let u' = u\<lparr>ug_count := ug_count u - 1\<rparr> in (u', ug_count u' = 0))"

text \<open>
  The tasks: \<open>UTest\<close> is about to test the condition of \<open>wait_event_interruptible\<close>, \<open>UWait\<close> is
  asleep in it, \<open>URetry\<close> takes the lock again, \<open>UHolds\<close> has the device open.
\<close>

datatype uid_task = UIdle | UTest cred | UWait cred | URetry cred | UHolds cred

fun wake_uid :: "uid_task \<Rightarrow> uid_task" where
  "wake_uid (UWait c) = UTest c"
| "wake_uid t = t"

inductive wuid_step :: "uid_gate \<times> uid_task list \<Rightarrow> uid_gate \<times> uid_task list \<Rightarrow> bool" where
  enter: "t < length ts \<Longrightarrow> ts ! t = UIdle \<or> ts ! t = URetry c \<Longrightarrow> wuid_enter nb c u = WEnter u' \<Longrightarrow>
     wuid_step (u, ts) (u', ts[t := UHolds c])"
| again: "t < length ts \<Longrightarrow> ts ! t = UIdle \<Longrightarrow> wuid_enter True c u = WAgain \<Longrightarrow>
     wuid_step (u, ts) (u, ts[t := UIdle])"
| sleep: "t < length ts \<Longrightarrow> ts ! t = UIdle \<or> ts ! t = URetry c \<Longrightarrow> wuid_enter False c u = WSleep \<Longrightarrow>
     wuid_step (u, ts) (u, ts[t := UTest c])"
| test: "t < length ts \<Longrightarrow> ts ! t = UTest c \<Longrightarrow>
     wuid_step (u, ts) (u, ts[t := (if scull_wuid_available c u then URetry c else UWait c)])"
| signal: "t < length ts \<Longrightarrow> ts ! t = UTest c \<or> ts ! t = UWait c \<Longrightarrow> wuid_step (u, ts) (u, ts[t := UIdle])"
| release: "t < length ts \<Longrightarrow> ts ! t = UHolds c \<Longrightarrow> scull_wuid_release u = (u', wake) \<Longrightarrow>
     wuid_step (u, ts) (u', (if wake then map wake_uid (ts[t := UIdle]) else ts[t := UIdle]))"

inductive wuid_reach :: "uid_gate \<times> uid_task list \<Rightarrow> bool" where
  init: "wuid_reach (\<lparr>ug_owner = 2 ^ 32 - 1, ug_count = 0\<rparr>, replicate n UIdle)"
| step: "wuid_reach s \<Longrightarrow> wuid_step s s' \<Longrightarrow> wuid_reach s'"

subsection \<open>scullpriv\<close>

type_synonym priv_list = "(nat \<times> scull_dev) list"

text \<open>The device that \<open>memset\<close> leaves.\<close>

definition zero_dev :: scull_dev where
  "zero_dev = \<lparr>sd_data = [], sd_quantum = 0, sd_qset = 0, sd_size = 0, sd_access_key = 0, sd_sem = 0, sd_vmas = 0\<rparr>"

text \<open>The result is the key of the item found or added at the head of the list.\<close>

definition scull_find_listitem :: "scull_globals \<Rightarrow> bool \<Rightarrow> nat \<Rightarrow> priv_list \<Rightarrow> (nat option \<times> priv_list) run" where
  "scull_find_listitem g ok key l =
     (if map_of l key \<noteq> None then Inr (Some key, l)
      else if \<not> ok then Inr (None, l)
      else case scull_dev_reset g zero_dev of
          Inl e \<Rightarrow> Inl e
        | Inr (_, d) \<Rightarrow> Inr (Some key, (key, d\<lparr>sd_sem := 1\<rparr>) # l))"

text \<open>Replace the device of a key (the first item with it, as the list walk finds it).\<close>

fun set_item :: "nat \<Rightarrow> scull_dev \<Rightarrow> priv_list \<Rightarrow> priv_list" where
  "set_item key d [] = []"
| "set_item key d ((k, d0) # l) = (if k = key then (k, d) # l else (k, d0) # set_item key d l)"

definition scull_priv_open :: "scull_globals \<Rightarrow> bool \<Rightarrow> nat \<Rightarrow> nat option \<Rightarrow> priv_list \<Rightarrow>
    (nat res \<times> priv_list) run" where
  "scull_priv_open g ok f_flags tty l =
     (case tty of
        None \<Rightarrow> Inr (Inl EINVAL, l)
      | Some key \<Rightarrow>
          (case scull_find_listitem g ok key l of
             Inl e \<Rightarrow> Inl e
           | Inr (None, l') \<Rightarrow> Inr (Inl ENOMEM, l')
           | Inr (Some k, l') \<Rightarrow>
               (case open_reset g f_flags (the (map_of l' k)) of
                  Inl e \<Rightarrow> Inl e
                | Inr d \<Rightarrow> Inr (Inr k, set_item k d l'))))"

definition scull_priv_release :: "priv_list \<Rightarrow> unit res \<times> priv_list" where
  "scull_priv_release l = (Inr (), l)"

subsection \<open>Properties\<close>

text \<open>Whatever the interleaving of the atomic operations, at most one task has
  \<open>scullsingle\<close> open, and the flag counts the tasks that have it or are backing off.\<close>

lemma single_exclusive:
  assumes "single_reach (flag, ts)"
  shows "tasks_in (\<lambda>t. t = SOpen) ts \<le> 1 \<and>
    flag = 1 - int (tasks_in (\<lambda>t. t = SOpen) ts) - int (tasks_in (\<lambda>t. t = SBackoff) ts)"
  using assms
proof (induction "(flag, ts)" arbitrary: flag ts rule: single_reach.induct)
  case (init n)
  then show ?case by simp
next
  case (step s flag' ts')
  obtain flag ts where s: "s = (flag, ts)" by (cases s)
  note IH = step.hyps(2) [OF s]
  note upd = tasks_in_update [of _ ts "\<lambda>t. t = SOpen"] tasks_in_update [of _ ts "\<lambda>t. t = SBackoff"]
  from step.hyps(3) show ?case unfolding s
  proof (cases rule: single_step.cases)
    case (dec_ok t)
    with IH upd [OF dec_ok(2), of SOpen] show ?thesis by (simp add: atomic_dec_and_test_def)
  next
    case (dec_busy t)
    with IH upd [OF dec_busy(2), of SBackoff] show ?thesis by (simp add: atomic_dec_and_test_def)
  next
    case (inc_back t)
    with IH upd [OF inc_back(3), of SIdle] show ?thesis by simp
  next
    case (release t)
    with IH upd [OF release(3), of SIdle] show ?thesis by (simp add: scull_single_release_def)
  qed
qed

lemma single_exclusive_witness:
  "single_reach (-1, [SOpen, SBackoff]) \<and> tasks_in (\<lambda>t. t = SOpen) [SOpen, SBackoff] \<le> 1"
proof -
  have 0: "single_reach (1, [SIdle, SIdle])" using single_reach.init [of 2] by (simp add: numeral_2_eq_2)
  have 1: "single_step (1, [SIdle, SIdle]) (0, [SOpen, SIdle])"
    using single_step.dec_ok [of 0 "[SIdle, SIdle]" 1] by (simp add: atomic_dec_and_test_def)
  have 2: "single_step (0, [SOpen, SIdle]) (-1, [SOpen, SBackoff])"
    using single_step.dec_busy [of 1 "[SOpen, SIdle]" 0] by (simp add: atomic_dec_and_test_def)
  have r: "single_reach (-1, [SOpen, SBackoff])"
    by (rule single_reach.step [OF single_reach.step [OF 0 1] 2])
  from r single_exclusive [OF r] show ?thesis by blast
qed

text \<open>Who may share a gate: the owner's processes and the privileged ones.\<close>

definition shares :: "uid_gate \<Rightarrow> cred \<Rightarrow> bool" where
  "shares u c \<longleftrightarrow> cr_uid c = ug_owner u \<or> cr_euid c = ug_owner u \<or> cr_dac_override c"

inductive uid_reach :: "uid_gate \<times> cred list \<Rightarrow> bool" where
  init: "uid_reach (\<lparr>ug_owner = 0, ug_count = 0\<rparr>, [])"
| enter: "uid_reach (u, cs) \<Longrightarrow> uid_enter c u = (Inr (), u') \<Longrightarrow> uid_reach (u', c # cs)"
| refused: "uid_reach (u, cs) \<Longrightarrow> uid_enter c u = (Inl e, u') \<Longrightarrow> uid_reach (u', cs)"
| release: "uid_reach (u, cs @ c # cs') \<Longrightarrow> uid_reach (scull_uid_release u, cs @ cs')"

text \<open>After any sequence of opens and releases of \<open>sculluid\<close>, the count is the number of
  opens, and all those who have it open are the owner's processes or privileged; an open is
  refused exactly when the device is open and the opener is neither.\<close>

lemma uid_exclusive:
  assumes "uid_reach (u, cs)"
  shows "ug_count u = int (length cs) \<and> (\<forall>c\<in>set cs. shares u c) \<and>
    (\<forall>c. fst (uid_enter c u) = Inl EBUSY \<longleftrightarrow> cs \<noteq> [] \<and> \<not> shares u c)"
proof -
  have "ug_count u = int (length cs) \<and> (\<forall>c\<in>set cs. shares u c)"
    using assms
  proof (induction "(u, cs)" arbitrary: u cs rule: uid_reach.induct)
    case (enter u cs c u')
    then show ?case by (auto simp: uid_enter_def shares_def split: if_splits)
  next
    case (refused u cs c e u')
    then show ?case by (auto simp: uid_enter_def split: if_splits)
  next
    case (release u cs c cs')
    then show ?case by (auto simp: scull_uid_release_def shares_def)
  qed simp
  then show ?thesis by (auto simp: uid_enter_def shares_def)
qed

lemma uid_exclusive_witness:
  "fst (uid_enter \<lparr>cr_uid = 2, cr_euid = 3, cr_dac_override = False\<rparr> \<lparr>ug_owner = 1, ug_count = 1\<rparr>) = Inl EBUSY"
proof -
  define c where "c = \<lparr>cr_uid = 1, cr_euid = 1, cr_dac_override = False\<rparr>"
  have "uid_reach (\<lparr>ug_owner = 1, ug_count = 1\<rparr>, [c])"
    by (rule uid_reach.enter [OF uid_reach.init]) (simp add: uid_enter_def c_def)
  from uid_exclusive [OF this] show ?thesis by (simp add: shares_def)
qed

text \<open>C11: for \<open>scullwuid\<close> under any interleaving, the count is the number of tasks that have it
  open, these are the owner's processes or privileged, and no task sleeps while the device is
  available to it: no wake-up is lost.\<close>

theorem wuid_exclusive:
  assumes "wuid_reach (u, ts)"
  shows "ug_count u = int (tasks_in (\<lambda>t. \<exists>c. t = UHolds c) ts) \<and>
    (\<forall>c. UHolds c \<in> set ts \<longrightarrow> shares u c) \<and> (\<forall>c. UWait c \<in> set ts \<longrightarrow> \<not> scull_wuid_available c u)"
  using assms
proof (induction "(u, ts)" arbitrary: u ts rule: wuid_reach.induct)
  case (init n)
  then show ?case by auto
next
  case (step s u' ts')
  obtain u ts where s: "s = (u, ts)" by (cases s)
  note IH = step.hyps(2) [OF s]
  have upd: "t < length ts \<Longrightarrow> tasks_in (\<lambda>t. \<exists>c. t = UHolds c) (ts[t := x]) + of_bool (\<exists>c. ts ! t = UHolds c) =
      tasks_in (\<lambda>t. \<exists>c. t = UHolds c) ts + of_bool (\<exists>c. x = UHolds c)" for t x
    using tasks_in_update [of t ts "\<lambda>t. \<exists>c. t = UHolds c" x] by simp
  have sub: "set (ts[t := x]) \<subseteq> insert x (set ts)" for t x by (rule set_update_subset_insert)
  from step.hyps(3) show ?case unfolding s
  proof (cases rule: wuid_step.cases)
    case (enter t c nb)
    then have nh: "\<not> (\<exists>c. ts ! t = UHolds c)" and av: "scull_wuid_available c u" and u': "u' = wuid_take c u"
      by (auto simp: wuid_enter_def split: if_splits)
    have empty: "ug_count u = 0 \<Longrightarrow> UHolds c' \<notin> set ts" for c'
    proof
      assume "ug_count u = 0" "UHolds c' \<in> set ts"
      then obtain i where "i < length ts" "ts ! i = UHolds c'" by (auto simp: in_set_conv_nth)
      with tasks_in_pos [of i ts "\<lambda>t. \<exists>c. t = UHolds c"] IH \<open>ug_count u = 0\<close> show False by simp
    qed
    have shares: "shares u' c" using av by (auto simp: u' wuid_take_def shares_def scull_wuid_available_def)
    have keep: "shares u' c'" if "UHolds c' \<in> set ts" for c'
      using IH that empty by (auto simp: u' wuid_take_def shares_def)
    have waits: "\<not> scull_wuid_available c' u'" if "UWait c' \<in> set ts" for c'
    proof -
      have "\<not> scull_wuid_available c' u" "0 \<le> ug_count u" using IH that by auto
      then show ?thesis by (auto simp: u' wuid_take_def scull_wuid_available_def)
    qed
    show ?thesis using upd [OF enter(2), of "UHolds c"] IH nh shares keep waits sub [of t "UHolds c"] enter(1)
      by (auto simp: u' wuid_take_def)
  next
    case (again t c)
    with IH upd [OF again(3), of UIdle] sub [of t UIdle] show ?thesis by auto
  next
    case (sleep t c)
    with IH upd [OF sleep(3), of "UTest c"] sub [of t "UTest c"] show ?thesis by auto
  next
    case (test t c)
    with IH upd [OF test(3), of "if scull_wuid_available c u then URetry c else UWait c"]
      sub [of t "if scull_wuid_available c u then URetry c else UWait c"]
    show ?thesis by (auto split: if_splits)
  next
    case (signal t c)
    with IH upd [OF signal(3), of UIdle] sub [of t UIdle] show ?thesis by auto
  next
    case (release t c wake)
    then have u': "u' = u\<lparr>ug_count := ug_count u - 1\<rparr>" and w: "wake = (ug_count u' = 0)"
      by (auto simp: scull_wuid_release_def Let_def)
    define ts1 where "ts1 = ts[t := UIdle]"
    have n: "ug_count u' = int (tasks_in (\<lambda>t. \<exists>c. t = UHolds c) ts1)"
      using upd [OF release(2), of UIdle] IH release(3) by (simp add: ts1_def u')
    have holds: "UHolds c' \<in> set ts1 \<Longrightarrow> shares u' c'" for c'
      using IH sub [of t UIdle] by (auto simp: ts1_def u' shares_def)
    show ?thesis
    proof (cases wake)
      case False
      have "\<not> scull_wuid_available c' u'" if "UWait c' \<in> set ts1" for c'
        using that IH sub [of t UIdle] False w by (auto simp: ts1_def u' scull_wuid_available_def)
      with n holds False release(1) show ?thesis by (simp add: ts1_def)
    next
      case True
      have wk: "wake_uid x = UHolds c' \<longleftrightarrow> x = UHolds c'" "wake_uid x \<noteq> UWait c'" for x c' by (cases x; simp)+
      have "tasks_in (\<lambda>t. \<exists>c. t = UHolds c) (map wake_uid ts1) = tasks_in (\<lambda>t. \<exists>c. t = UHolds c) ts1"
        by (rule tasks_in_map) (simp add: wk)
      moreover have "UHolds c' \<in> set (map wake_uid ts1) \<longleftrightarrow> UHolds c' \<in> set ts1"
        "UWait c' \<notin> set (map wake_uid ts1)" for c'
        unfolding set_map image_iff using wk by metis+
      ultimately show ?thesis using n holds True release(1) by (simp add: ts1_def)
    qed
  qed
qed

theorem wuid_exclusive_witness:
  "\<exists>u. wuid_reach (u, [UHolds \<lparr>cr_uid = 1, cr_euid = 1, cr_dac_override = False\<rparr>,
         UWait \<lparr>cr_uid = 2, cr_euid = 2, cr_dac_override = False\<rparr>]) \<and> ug_count u = 1"
proof -
  define c c' where "c = \<lparr>cr_uid = 1, cr_euid = 1, cr_dac_override = False\<rparr>"
    and "c' = \<lparr>cr_uid = 2, cr_euid = 2, cr_dac_override = False\<rparr>"
  define u where "u = \<lparr>ug_owner = 1, ug_count = 1\<rparr>"
  have 0: "wuid_reach (\<lparr>ug_owner = 2 ^ 32 - 1, ug_count = 0\<rparr>, [UIdle, UIdle])"
    using wuid_reach.init [of 2] by (simp add: numeral_2_eq_2)
  have 1: "wuid_step (\<lparr>ug_owner = 2 ^ 32 - 1, ug_count = 0\<rparr>, [UIdle, UIdle]) (u, [UHolds c, UIdle])"
    using wuid_step.enter [of 0 "[UIdle, UIdle]" c False "\<lparr>ug_owner = 2 ^ 32 - 1, ug_count = 0\<rparr>" u]
    by (simp add: wuid_enter_def scull_wuid_available_def wuid_take_def u_def c_def)
  have 2: "wuid_step (u, [UHolds c, UIdle]) (u, [UHolds c, UTest c'])"
    using wuid_step.sleep [of 1 "[UHolds c, UIdle]" c' u]
    by (simp add: wuid_enter_def scull_wuid_available_def u_def c'_def)
  have 3: "wuid_step (u, [UHolds c, UTest c']) (u, [UHolds c, UWait c'])"
    using wuid_step.test [of 1 "[UHolds c, UTest c']" c' u]
    by (simp add: scull_wuid_available_def u_def c'_def)
  have r: "wuid_reach (u, [UHolds c, UWait c'])"
    by (rule wuid_reach.step [OF wuid_reach.step [OF wuid_reach.step [OF 0 1] 2] 3])
  from wuid_exclusive [OF r] have "ug_count u = 1" by (simp add: tasks_in_def)
  with r show ?thesis unfolding c_def c'_def by blast
qed

lemma map_of_set_item: "map_of l key \<noteq> None \<Longrightarrow> map_of (set_item key d l) = (map_of l)(key \<mapsto> d)"
  by (induction key d l rule: set_item.induct) (auto split: if_splits)

lemma keys_set_item: "map fst (set_item key d l) = map fst l"
  by (induction key d l rule: set_item.induct) auto

lemma zero_dev_reset: "scull_dev_reset g zero_dev =
    Inr (0, zero_dev\<lparr>sd_quantum := g_quantum g, sd_qset := g_qset g\<rparr>)"
  by (simp add: scull_dev_reset_def zero_dev_def)

text \<open>\<open>scullpriv\<close> keeps one device for each terminal: a successful open returns the device
  of the opener's terminal, a new one being empty with its semaphore free, and leaves the device
  of every other terminal as it was.\<close>

lemma priv_isolated:
  assumes "distinct (map fst l)" and "scull_priv_open g ok f_flags (Some key) l = Inr (r, l')"
  shows "distinct (map fst l') \<and> (\<forall>k. k \<noteq> key \<longrightarrow> map_of l' k = map_of l k) \<and>
    (case r of Inl e \<Rightarrow> l' = l \<and> e = ENOMEM \<and> map_of l key = None \<and> \<not> ok
     | Inr k \<Rightarrow> k = key \<and>
        (case map_of l key of
           None \<Rightarrow> map_of l' key = Some (zero_dev\<lparr>sd_quantum := g_quantum g, sd_qset := g_qset g, sd_sem := 1\<rparr>)
         | Some d \<Rightarrow> \<exists>d'. map_of l' key = Some d' \<and> open_reset g f_flags d = Inr d'))"
proof (cases "map_of l key")
  case (Some d)
  with assms(2) obtain d' where o: "open_reset g f_flags d = Inr d'" and l': "l' = set_item key d' l" and r: "r = Inr key"
    by (auto simp: scull_priv_open_def scull_find_listitem_def split: sum.splits)
  have m: "map_of l' = (map_of l)(key \<mapsto> d')" unfolding l' using Some by (intro map_of_set_item) simp
  with Some o r assms(1) show ?thesis by (simp add: l' keys_set_item)
next
  case None
  define d where "d = zero_dev\<lparr>sd_quantum := g_quantum g, sd_qset := g_qset g, sd_sem := 1\<rparr>"
  have o: "open_reset g f_flags d = Inr d"
    by (simp add: open_reset_def d_def scull_dev_reset_def zero_dev_def)
  have "key \<notin> fst ` set l" using None by (simp add: map_of_eq_None_iff)
  with None assms o show ?thesis
    by (auto simp: scull_priv_open_def scull_find_listitem_def zero_dev_reset d_def [symmetric]
        simp del: One_nat_def split: if_splits)
qed

lemma priv_isolated_witness:
  "\<exists>l'. scull_priv_open \<lparr>g_quantum = 4, g_qset = 2\<rparr> True 0 (Some 9) [(5, example_file)] = Inr (Inr 9, l') \<and>
     map_of l' 5 = Some example_file"
proof -
  obtain l' where o: "scull_priv_open \<lparr>g_quantum = 4, g_qset = 2\<rparr> True 0 (Some 9) [(5, example_file)] = Inr (Inr 9, l')"
    by (rule that) (simp add: scull_priv_open_def scull_find_listitem_def zero_dev_reset open_reset_def write_only_def O_WRONLY_def)
  from priv_isolated [OF _ this] o show ?thesis by simp
qed

text \<open>The resets of these opens do not wait for the semaphore: while another task is inside a
  read or a write (the semaphore is 0), \<open>scull_open\<close> sleeps but \<open>scull_uid_open\<close> and
  \<open>scull_single_open\<close> free the data of a device without holes under it.\<close>

lemma open_reset_unlocked:
  assumes "scull_wf d" and "all_arrays (sd_data d)" and "sd_sem d = 0"
  shows "scull_open g False O_WRONLY d = Inl Sleeps \<and>
    (\<exists>u' d'. scull_uid_open g O_WRONLY c \<lparr>ug_owner = cr_uid c, ug_count = 1\<rparr> d = Inr (Inr (), u', d') \<and> sd_data d' = []) \<and>
    (\<exists>d'. scull_single_open g O_WRONLY 1 d = Inr (Inr (), 0, d') \<and> sd_data d' = [])"
  using assms scull_dev_reset_eq [OF assms(1), of g]
  by (simp add: scull_open_def scull_open_gen_def scull_uid_open_def uid_enter_def open_reset_def
      scull_single_open_def atomic_dec_and_test_def write_only_def O_WRONLY_def O_ACCMODE_def)

lemma open_reset_unlocked_witness:
  "scull_open \<lparr>g_quantum = 4, g_qset = 2\<rparr> False O_WRONLY (example_file\<lparr>sd_sem := 0\<rparr>) = Inl Sleeps"
  using open_reset_unlocked [of "example_file\<lparr>sd_sem := 0\<rparr>" "\<lparr>g_quantum = 4, g_qset = 2\<rparr>"] example_file_ok(1)
  by (simp add: example_file_def example_dev_def all_arrays_def scull_wf_def)

end
