(* ===== verification/ScullModule.thy ===== *)
theory ScullModule
  imports ModuleLife ScullVariants ScullPipe ScullAccess
begin

text \<open>
  Loading and unloading the scull modules: \<open>short_init\<close> and \<open>_scull_cleanup_module\<close> of
  \<open>ch03_scull/main.c\<close>, \<open>ch06_advanced_char/main.c\<close>, \<open>ch08_memory/scullc.c\<close>, \<open>scullp.c\<close>, \<open>scullv.c\<close>
  and \<open>ch15_mmap_dma/scullv.c\<close>, and the initialisation of the pipe and access devices that the
  second one calls.  The state is what a module has registered with the kernel.
\<close>

subsection \<open>What a module holds\<close>

text \<open>\<open>ms_cdevs\<close> and \<open>ms_nodes\<close> list the minors (from the first on) with a cdev and with a node.\<close>

record mod_state =
  ms_major :: int
  ms_region :: bool
  ms_devices :: "scull_dev list option"
  ms_class :: bool
  ms_cdevs :: "nat list"
  ms_nodes :: "nat list"
  ms_cache :: bool

definition mod_unloaded :: "int \<Rightarrow> mod_state" where
  "mod_unloaded major = \<lparr>ms_major = major, ms_region = False, ms_devices = None, ms_class = False,
     ms_cdevs = [], ms_nodes = [], ms_cache = False\<rparr>"

text \<open>
  The kernel's answers: the registration of the region (with the major when it is allocated),
  the allocation of the devices and the bytes it holds, whether \<open>cdev_add\<close> succeeds for a
  minor, and the creation of the slab cache.
\<close>

record mod_env =
  me_register :: "unit res"
  me_alloc_region :: "int res"
  me_kmalloc :: bool
  me_junk :: "scull_dev list"
  me_cdev_add :: "nat \<Rightarrow> bool"
  me_cache :: bool

subsection \<open>\<open>short_init\<close>\<close>

definition scull_setup_cdev :: "mod_env \<Rightarrow> nat \<Rightarrow> mod_state \<Rightarrow> mod_state" where
  "scull_setup_cdev e i s = (if me_cdev_add e i then s\<lparr>ms_cdevs := i # ms_cdevs s\<rparr> else s)"

text \<open>The fields that the loop sets; the others keep what the memory held.\<close>

definition init_dev :: "scull_globals \<Rightarrow> scull_dev \<Rightarrow> scull_dev" where
  "init_dev g d = d\<lparr>sd_quantum := g_quantum g, sd_qset := g_qset g, sd_size := 0, sd_data := [], sd_sem := 1\<rparr>"

fun init_loop :: "mod_env \<Rightarrow> nat \<Rightarrow> nat \<Rightarrow> mod_state \<Rightarrow> mod_state" where
  "init_loop e i 0 s = s"
| "init_loop e i (Suc n) s =
     (let s1 = scull_setup_cdev e i s in init_loop e (Suc i) n (s1\<lparr>ms_nodes := i # ms_nodes s1\<rparr>))"

text \<open>From the registration of the region to the end of the loop; \<open>Inl\<close> jumps to \<open>fail\<close> or returns.\<close>

definition init_region :: "mod_env \<Rightarrow> mod_state \<Rightarrow> unit res \<times> mod_state" where
  "init_region e s =
     (if ms_major s \<noteq> 0 then
        (case me_register e of Inl x \<Rightarrow> (Inl x, s) | Inr _ \<Rightarrow> (Inr (), s\<lparr>ms_region := True\<rparr>))
      else (case me_alloc_region e of
          Inl x \<Rightarrow> (Inl x, s)
        | Inr major \<Rightarrow> (Inr (), s\<lparr>ms_major := major, ms_region := True\<rparr>)))"

definition init_devices :: "mod_env \<Rightarrow> scull_globals \<Rightarrow> int \<Rightarrow> mod_state \<Rightarrow> unit res \<times> mod_state" where
  "init_devices e g nr_devs s =
     (if \<not> me_kmalloc e \<or> nr_devs < 0 then (Inl ENOMEM, s)
      else let devs = map (init_dev g) (take (nat nr_devs) (me_junk e))
           in (Inr (), init_loop e 0 (nat nr_devs) (s\<lparr>ms_devices := Some devs, ms_class := True\<rparr>)))"

subsection \<open>\<open>_scull_cleanup_module\<close>\<close>

text \<open>The loop over the devices: reset (its return value is ignored), \<open>cdev_del\<close>, \<open>device_destroy\<close>.\<close>

fun cleanup_loop :: "(scull_dev \<Rightarrow> (nat \<times> scull_dev) run) \<Rightarrow> nat \<Rightarrow> scull_dev list \<Rightarrow> mod_state \<Rightarrow> mod_state run" where
  "cleanup_loop reset i [] s = Inr s"
| "cleanup_loop reset i (d # ds) s = (case reset d of
     Inl x \<Rightarrow> Inl x
   | Inr _ \<Rightarrow> cleanup_loop reset (Suc i) ds
       (s\<lparr>ms_cdevs := filter (\<lambda>j. j \<noteq> i) (ms_cdevs s), ms_nodes := filter (\<lambda>j. j \<noteq> i) (ms_nodes s)\<rparr>))"

definition cleanup_module :: "(scull_dev \<Rightarrow> (nat \<times> scull_dev) run) \<Rightarrow> mod_state \<Rightarrow> mod_state run" where
  "cleanup_module reset s =
     (case (case ms_devices s of None \<Rightarrow> Inr s
        | Some ds \<Rightarrow> (case cleanup_loop reset 0 ds s of Inl x \<Rightarrow> Inl x | Inr s' \<Rightarrow> Inr (s'\<lparr>ms_devices := None\<rparr>))) of
        Inl x \<Rightarrow> Inl x
      | Inr s' \<Rightarrow> Inr (s'\<lparr>ms_region := False, ms_class := False\<rparr>))"

text \<open>The modules without a cache.\<close>

definition init_module :: "(scull_dev \<Rightarrow> (nat \<times> scull_dev) run) \<Rightarrow> mod_env \<Rightarrow> scull_globals \<Rightarrow> int \<Rightarrow> mod_state \<Rightarrow>
    (unit res \<times> mod_state) run" where
  "init_module reset e g nr_devs s =
     (case init_region e s of
        (Inl x, s1) \<Rightarrow> Inr (Inl x, s1)
      | (Inr _, s1) \<Rightarrow> (case init_devices e g nr_devs s1 of
          (Inr _, s2) \<Rightarrow> Inr (Inr (), s2)
        | (Inl x, s2) \<Rightarrow> (case cleanup_module reset s2 of Inl st \<Rightarrow> Inl st | Inr s3 \<Rightarrow> Inr (Inl x, s3))))"

definition ch03_init :: "mod_env \<Rightarrow> scull_globals \<Rightarrow> int \<Rightarrow> mod_state \<Rightarrow> (unit res \<times> mod_state) run" where
  "ch03_init e g = init_module (scull_dev_reset g) e g"

definition ch03_cleanup :: "scull_globals \<Rightarrow> mod_state \<Rightarrow> mod_state run" where
  "ch03_cleanup g = cleanup_module (scull_dev_reset g)"

definition scullp_init :: "mod_env \<Rightarrow> scull_globals \<Rightarrow> int \<Rightarrow> mod_state \<Rightarrow> (unit res \<times> mod_state) run" where
  "scullp_init e g = init_module (scullp_dev_reset g) e g"

definition scullp_cleanup :: "scull_globals \<Rightarrow> mod_state \<Rightarrow> mod_state run" where
  "scullp_cleanup g = cleanup_module (scullp_dev_reset g)"

definition scullv_init :: "mod_env \<Rightarrow> scull_globals \<Rightarrow> int \<Rightarrow> mod_state \<Rightarrow> (unit res \<times> mod_state) run" where
  "scullv_init e g = init_module (scullv_dev_reset g) e g"

definition scullv_cleanup :: "scull_globals \<Rightarrow> mod_state \<Rightarrow> mod_state run" where
  "scullv_cleanup g = cleanup_module (scullv_dev_reset g)"

definition scullm_reset :: "scull_globals \<Rightarrow> scull_dev \<Rightarrow> (nat \<times> scull_dev) run" where
  "scullm_reset g d = (case scullm_dev_reset g d of Inl x \<Rightarrow> Inl x | Inr (_, freed, d') \<Rightarrow> Inr (freed, d'))"

definition scullm_init :: "mod_env \<Rightarrow> scull_globals \<Rightarrow> int \<Rightarrow> mod_state \<Rightarrow> (unit res \<times> mod_state) run" where
  "scullm_init e g = init_module (scullm_reset g) e g"

definition scullm_cleanup :: "scull_globals \<Rightarrow> mod_state \<Rightarrow> mod_state run" where
  "scullm_cleanup g = cleanup_module (scullm_reset g)"

text \<open>scullc destroys its cache last, and creates it after its devices are visible.\<close>

definition scullc_cleanup :: "scull_globals \<Rightarrow> mod_state \<Rightarrow> mod_state run" where
  "scullc_cleanup g s = (case cleanup_module (scullc_dev_reset g) s of
     Inl x \<Rightarrow> Inl x | Inr s' \<Rightarrow> Inr (s'\<lparr>ms_cache := False\<rparr>))"

definition scullc_init :: "mod_env \<Rightarrow> scull_globals \<Rightarrow> int \<Rightarrow> mod_state \<Rightarrow> (unit res \<times> mod_state) run" where
  "scullc_init e g nr_devs s =
     (case init_region e s of
        (Inl x, s1) \<Rightarrow> Inr (Inl x, s1)
      | (Inr _, s1) \<Rightarrow> (case init_devices e g nr_devs s1 of
          (Inl x, s2) \<Rightarrow> (case scullc_cleanup g s2 of Inl st \<Rightarrow> Inl st | Inr s3 \<Rightarrow> Inr (Inl x, s3))
        | (Inr _, s2) \<Rightarrow>
            (if me_cache e then Inr (Inr (), s2\<lparr>ms_cache := True\<rparr>)
             else case scullc_cleanup g s2 of Inl st \<Rightarrow> Inl st | Inr s3 \<Rightarrow> Inr (Inl ENOMEM, s3))))"

subsection \<open>The pipe devices (\<open>scull_pipe.c\<close>)\<close>

definition scull_p_nr_devs :: nat where "scull_p_nr_devs = 4"

record pipe_mod =
  pm_debugfs :: bool
  pm_devices :: "scull_pipe list option"
  pm_region :: bool
  pm_class :: bool
  pm_cdevs :: "nat list"
  pm_nodes :: "nat list"

definition pipe_mod_none :: pipe_mod where
  "pipe_mod_none = \<lparr>pm_debugfs = False, pm_devices = None, pm_region = False, pm_class = False,
     pm_cdevs = [], pm_nodes = []\<rparr>"

record pipe_env =
  pe_debugfs :: bool
  pe_kmalloc :: bool
  pe_register :: "unit res"
  pe_cdev_add :: "nat \<Rightarrow> unit res"

fun pipe_init_loop :: "pipe_env \<Rightarrow> nat \<Rightarrow> nat \<Rightarrow> pipe_mod \<Rightarrow> unit res \<times> pipe_mod" where
  "pipe_init_loop e i 0 m = (Inr (), m)"
| "pipe_init_loop e i (Suc n) m = (case pe_cdev_add e i of
     Inl x \<Rightarrow> (Inl x, m)
   | Inr _ \<Rightarrow> pipe_init_loop e (Suc i) n (m\<lparr>pm_cdevs := i # pm_cdevs m, pm_nodes := i # pm_nodes m\<rparr>))"

text \<open>The number of devices, or the error; nothing is undone on an error.\<close>

definition scull_pipe_init :: "pipe_env \<Rightarrow> pipe_mod \<Rightarrow> nat res \<times> pipe_mod" where
  "scull_pipe_init e m =
     (if \<not> pe_debugfs e then (Inl ENOMEM, m)
      else let m1 = m\<lparr>pm_debugfs := True\<rparr> in
      if \<not> pe_kmalloc e then (Inl ENOMEM, m1)
      else let m2 = m1\<lparr>pm_devices := Some (replicate scull_p_nr_devs pipe_zero)\<rparr> in
      case pe_register e of
        Inl x \<Rightarrow> (Inl x, m2)
      | Inr _ \<Rightarrow> (case pipe_init_loop e 0 scull_p_nr_devs (m2\<lparr>pm_region := True, pm_class := True\<rparr>) of
          (Inl x, m3) \<Rightarrow> (Inl x, m3)
        | (Inr _, m3) \<Rightarrow> (Inr scull_p_nr_devs, m3)))"

definition scull_pipe_exit :: "pipe_mod \<Rightarrow> pipe_mod" where
  "scull_pipe_exit m =
     (let m1 = m\<lparr>pm_debugfs := False\<rparr>;
          m2 = (case pm_devices m1 of None \<Rightarrow> m1
            | Some _ \<Rightarrow> m1\<lparr>pm_cdevs := filter (\<lambda>i. scull_p_nr_devs \<le> i) (pm_cdevs m1),
                 pm_nodes := filter (\<lambda>i. scull_p_nr_devs \<le> i) (pm_nodes m1)\<rparr>)
      in m2\<lparr>pm_region := False, pm_devices := None, pm_class := False\<rparr>)"

subsection \<open>The access devices (\<open>scull_access_control.c\<close>)\<close>

text \<open>\<open>am_devs\<close> are the four static devices of \<open>scull_access_devs\<close>.\<close>

record access_mod =
  am_class :: bool
  am_region :: bool
  am_cdevs :: "nat list"
  am_nodes :: "nat list"
  am_devs :: "scull_dev list"
  am_priv :: priv_list

definition access_mod_none :: access_mod where
  "access_mod_none = \<lparr>am_class = False, am_region = False, am_cdevs = [], am_nodes = [],
     am_devs = replicate 4 zero_dev, am_priv = []\<rparr>"

definition scull_access_setup :: "scull_globals \<Rightarrow> (nat \<Rightarrow> bool) \<Rightarrow> nat \<Rightarrow> access_mod \<Rightarrow> access_mod" where
  "scull_access_setup g cdev_ok i m =
     (let m1 = m\<lparr>am_nodes := i # am_nodes m,
            am_devs := (am_devs m)[i := (am_devs m ! i)\<lparr>sd_quantum := g_quantum g, sd_qset := g_qset g, sd_sem := 1\<rparr>]\<rparr>
      in if cdev_ok i then m1\<lparr>am_cdevs := i # am_cdevs m1\<rparr> else m1)"

definition scull_access_init :: "scull_globals \<Rightarrow> unit res \<Rightarrow> (nat \<Rightarrow> bool) \<Rightarrow> access_mod \<Rightarrow> nat \<times> access_mod" where
  "scull_access_init g reg cdev_ok m =
     (let m1 = m\<lparr>am_class := True\<rparr> in
      case reg of
        Inl _ \<Rightarrow> (0, m1)
      | Inr _ \<Rightarrow> (4, fold (scull_access_setup g cdev_ok) [0, 1, 2, 3] (m1\<lparr>am_region := True\<rparr>)))"

fun reset_all :: "scull_globals \<Rightarrow> scull_dev list \<Rightarrow> scull_dev list run" where
  "reset_all g [] = Inr []"
| "reset_all g (d # ds) = (case scull_dev_reset g d of
     Inl x \<Rightarrow> Inl x
   | Inr (_, d') \<Rightarrow> (case reset_all g ds of Inl x \<Rightarrow> Inl x | Inr ds' \<Rightarrow> Inr (d' # ds')))"

definition scull_access_cleanup :: "scull_globals \<Rightarrow> access_mod \<Rightarrow> access_mod run" where
  "scull_access_cleanup g m =
     (case reset_all g (am_devs m) of
        Inl x \<Rightarrow> Inl x
      | Inr ds \<Rightarrow> (case reset_all g (map snd (am_priv m)) of
          Inl x \<Rightarrow> Inl x
        | Inr _ \<Rightarrow> Inr (m\<lparr>am_devs := ds, am_cdevs := filter (\<lambda>i. 4 \<le> i) (am_cdevs m),
            am_nodes := filter (\<lambda>i. 4 \<le> i) (am_nodes m), am_priv := [], am_region := False, am_class := False\<rparr>)))"

subsection \<open>The module of chapter 6\<close>

definition ch06_init :: "mod_env \<Rightarrow> pipe_env \<Rightarrow> unit res \<Rightarrow> (nat \<Rightarrow> bool) \<Rightarrow> scull_globals \<Rightarrow> int \<Rightarrow>
    mod_state \<times> pipe_mod \<times> access_mod \<Rightarrow> (unit res \<times> mod_state \<times> pipe_mod \<times> access_mod) run" where
  "ch06_init e pe areg acdev g nr_devs st = (case st of (s, pm, am) \<Rightarrow>
     (case init_module (scull_dev_reset g) e g nr_devs s of
        Inl x \<Rightarrow> Inl x
      | Inr (Inl x, s') \<Rightarrow> Inr (Inl x, s', pm, am)
      | Inr (Inr _, s') \<Rightarrow> Inr (Inr (), s', snd (scull_pipe_init pe pm), snd (scull_access_init g areg acdev am))))"

definition ch06_exit :: "scull_globals \<Rightarrow> mod_state \<times> pipe_mod \<times> access_mod \<Rightarrow>
    (mod_state \<times> pipe_mod \<times> access_mod) run" where
  "ch06_exit g st = (case st of (s, pm, am) \<Rightarrow>
     (case cleanup_module (scull_dev_reset g) s of
        Inl x \<Rightarrow> Inl x
      | Inr s' \<Rightarrow> (case scull_access_cleanup g am of
          Inl x \<Rightarrow> Inl x | Inr am' \<Rightarrow> Inr (s', scull_pipe_exit pm, am'))))"

subsection \<open>Properties\<close>

lemma init_loop_eq:
  "init_loop e i n s = s\<lparr>ms_cdevs := rev (filter (me_cdev_add e) [i..<i + n]) @ ms_cdevs s,
     ms_nodes := rev [i..<i + n] @ ms_nodes s\<rparr>"
proof (induction n arbitrary: i s)
  case (Suc n)
  have u: "[i..<i + Suc n] = i # [Suc i..<Suc i + n]" by (simp add: upt_conv_Cons del: upt_Suc)
  show ?case unfolding u init_loop.simps(2) Let_def Suc.IH by (cases s) (simp add: scull_setup_cdev_def)
qed simp

lemma cleanup_loop_eq:
  "\<forall>d\<in>set ds. \<exists>r. reset d = Inr r \<Longrightarrow> cleanup_loop reset i ds s =
     Inr (s\<lparr>ms_cdevs := filter (\<lambda>j. j < i \<or> i + length ds \<le> j) (ms_cdevs s),
       ms_nodes := filter (\<lambda>j. j < i \<or> i + length ds \<le> j) (ms_nodes s)\<rparr>)"
proof (induction ds arbitrary: i s)
  case Nil
  have "j < i \<or> i \<le> j" for j by auto
  then show ?case by (cases s) simp
next
  case (Cons d ds)
  have f: "filter (\<lambda>j. j < Suc i \<or> Suc (i + length ds) \<le> j) (filter (\<lambda>j. j \<noteq> i) xs) =
      filter (\<lambda>j. j < i \<or> Suc (i + length ds) \<le> j) xs" for xs
    by (auto intro!: filter_cong)
  from Cons.prems obtain r where r: "reset d = Inr r" by auto
  have "\<forall>d\<in>set ds. \<exists>r. reset d = Inr r" using Cons.prems by simp
  from Cons.IH [OF this] show ?case by (simp add: r f del: filter_filter)
qed

lemma empty_reset: "sd_data d = [] \<Longrightarrow> \<exists>r. scull_dev_reset g d = Inr r"
  by (simp add: scull_dev_reset_def)

lemma reset_empty_variants:
  "sd_data d = [] \<Longrightarrow> \<exists>r. scullm_reset g d = Inr r"
  "sd_data d = [] \<Longrightarrow> \<exists>r. scullc_dev_reset g d = Inr r"
  by (simp_all add: scullm_reset_def scullm_dev_reset_def scullc_dev_reset_def scull_dev_reset_def)

lemma init_devices_eq:
  assumes "me_kmalloc e" and "0 \<le> n" and "length (me_junk e) \<ge> nat n"
  shows "init_devices e g n s = (Inr (), s\<lparr>ms_devices := Some (map (init_dev g) (take (nat n) (me_junk e))), ms_class := True,
     ms_cdevs := rev (filter (me_cdev_add e) [0..<nat n]) @ ms_cdevs s, ms_nodes := rev [0..<nat n] @ ms_nodes s\<rparr>)"
  using assms by (simp add: init_devices_def init_loop_eq)

definition nothing_held :: "mod_state \<Rightarrow> bool" where
  "nothing_held s \<longleftrightarrow> \<not> ms_region s \<and> ms_devices s = None \<and> \<not> ms_class s \<and> ms_cdevs s = [] \<and> ms_nodes s = [] \<and> \<not> ms_cache s"

lemma cleanup_releases:
  assumes "ms_devices s = Some ds" and "\<forall>d\<in>set ds. \<exists>r. reset d = Inr r"
    and "\<forall>j\<in>set (ms_cdevs s) \<union> set (ms_nodes s). j < length ds" and "\<not> ms_cache s"
  shows "\<exists>s'. cleanup_module reset s = Inr s' \<and> nothing_held s'"
proof -
  have "filter (\<lambda>j. length ds \<le> j) (ms_cdevs s) = []" "filter (\<lambda>j. length ds \<le> j) (ms_nodes s) = []"
    using assms(3) by (auto simp: filter_empty_conv not_le)
  with assms(1,4) cleanup_loop_eq [OF assms(2), of 0 s] show ?thesis
    by (simp add: cleanup_module_def nothing_held_def)
qed

lemma init_module_loaded:
  assumes n: "0 \<le> n" "nat n \<le> length (me_junk e)"
    and load: "init_module reset e g n (mod_unloaded major) = Inr (Inr u, s')"
    and reset: "\<And>d. sd_data d = [] \<Longrightarrow> \<exists>r. reset d = Inr r"
  shows "(\<exists>ds. ms_devices s' = Some (map (init_dev g) ds) \<and> length ds = nat n) \<and>
    (\<exists>s''. cleanup_module reset s' = Inr s'' \<and> nothing_held s'')"
proof -
  obtain r1 s1 where reg: "init_region e (mod_unloaded major) = (r1, s1)" by (cases "init_region e (mod_unloaded major)")
  have s1: "ms_devices s1 = None" "ms_cdevs s1 = []" "ms_nodes s1 = []" "\<not> ms_cache s1"
    using reg by (auto simp: init_region_def mod_unloaded_def split: sum.splits if_splits)
  from load reg have r1: "r1 = Inr ()" by (cases r1) (auto simp: init_module_def)
  with load reg have k: "me_kmalloc e"
    by (auto simp: init_module_def init_devices_def split: sum.splits if_splits)
  define ds where "ds = take (nat n) (me_junk e)"
  have len: "length ds = nat n" using n by (simp add: ds_def)
  have s': "s' = s1\<lparr>ms_devices := Some (map (init_dev g) ds), ms_class := True,
     ms_cdevs := rev (filter (me_cdev_add e) [0..<nat n]), ms_nodes := rev [0..<nat n]\<rparr>"
    using load reg r1 s1 by (simp add: init_module_def init_devices_eq [OF k n] ds_def)
  have "\<forall>d\<in>set (map (init_dev g) ds). \<exists>r. reset d = Inr r" using reset by (simp add: init_dev_def)
  then have "\<exists>s''. cleanup_module reset s' = Inr s'' \<and> nothing_held s''"
    by (rule cleanup_releases [rotated]) (use s' s1 len in auto)
  then show ?thesis using s' len by auto
qed

lemma init_module_failed:
  assumes load: "init_module reset e g n (mod_unloaded major) = Inr (Inl x, s')"
  shows "nothing_held s'"
proof -
  obtain r1 s1 where reg: "init_region e (mod_unloaded major) = (r1, s1)" by (cases "init_region e (mod_unloaded major)")
  have s1: "ms_devices s1 = None" "ms_cdevs s1 = []" "ms_nodes s1 = []" "\<not> ms_class s1" "\<not> ms_cache s1"
    and fail: "\<And>x. r1 = Inl x \<Longrightarrow> \<not> ms_region s1"
    using reg by (auto simp: init_region_def mod_unloaded_def split: sum.splits if_splits)
  show ?thesis
  proof (cases r1)
    case Inl
    with load reg s1 fail show ?thesis by (auto simp: init_module_def nothing_held_def)
  next
    case Inr
    with load reg s1 show ?thesis
      by (auto simp: init_module_def nothing_held_def init_devices_def cleanup_module_def split: if_splits)
  qed
qed

lemma init_module_returns: "\<exists>r s'. init_module reset e g n (mod_unloaded major) = Inr (r, s')"
  by (auto simp: init_module_def init_region_def init_devices_def cleanup_module_def mod_unloaded_def
      split: sum.split)

text \<open>Loading: the module of chapter 3 either registers everything, each of its devices being
  empty with its semaphore free and the module's quantum sizes (so well formed when these are),
  or it fails and holds nothing; unloading it right away returns and leaves nothing held.\<close>

lemma ch03_load:
  assumes n: "0 \<le> n" "nat n \<le> length (me_junk e)" and g: "0 < g_quantum g" "0 < g_qset g" "g_quantum g * g_qset g < 2 ^ 31"
  shows "\<exists>r s'. ch03_init e g n (mod_unloaded major) = Inr (r, s') \<and>
    (case r of
       Inl _ \<Rightarrow> nothing_held s'
     | Inr _ \<Rightarrow> (\<exists>ds. ms_devices s' = Some ds \<and> length ds = nat n \<and>
         (\<forall>d\<in>set ds. scull_wf d \<and> sd_data d = [] \<and> sd_size d = 0 \<and> sd_sem d = 1)) \<and>
         (\<exists>s''. ch03_cleanup g s' = Inr s'' \<and> nothing_held s''))"
proof -
  obtain r s' where i: "init_module (scull_dev_reset g) e g n (mod_unloaded major) = Inr (r, s')"
    using init_module_returns by blast
  show ?thesis
  proof (cases r)
    case (Inl x)
    with i init_module_failed show ?thesis by (auto simp: ch03_init_def)
  next
    case (Inr u)
    from init_module_loaded [OF n i [unfolded Inr] empty_reset] obtain ds
      where ds: "ms_devices s' = Some (map (init_dev g) ds)" "length ds = nat n"
        and c: "\<exists>s''. cleanup_module (scull_dev_reset g) s' = Inr s'' \<and> nothing_held s''" by blast
    have "\<forall>d\<in>set (map (init_dev g) ds). scull_wf d \<and> sd_data d = [] \<and> sd_size d = 0 \<and> sd_sem d = 1"
      using g by (auto simp: init_dev_def scull_wf_def)
    with i Inr ds c show ?thesis by (auto simp: ch03_init_def ch03_cleanup_def)
  qed
qed

lemma ch03_load_witness:
  "\<exists>r s'. ch03_init \<lparr>me_register = Inr (), me_alloc_region = Inr 240, me_kmalloc = True, me_junk = [example_file],
      me_cdev_add = (\<lambda>_. True), me_cache = False\<rparr> \<lparr>g_quantum = 4, g_qset = 2\<rparr> 1 (mod_unloaded 0) = Inr (r, s') \<and>
    (case r of
       Inl _ \<Rightarrow> nothing_held s'
     | Inr _ \<Rightarrow> (\<exists>ds. ms_devices s' = Some ds \<and> length ds = nat 1 \<and>
         (\<forall>d\<in>set ds. scull_wf d \<and> sd_data d = [] \<and> sd_size d = 0 \<and> sd_sem d = 1)) \<and>
         (\<exists>s''. ch03_cleanup \<lparr>g_quantum = 4, g_qset = 2\<rparr> s' = Inr s'' \<and> nothing_held s''))"
  by (rule ch03_load) simp_all

lemma pipe_init_loop_held:
  "pipe_init_loop e i n m = (r, m') \<Longrightarrow> set (pm_cdevs m) \<union> set (pm_nodes m) \<subseteq> {..<i + n} \<Longrightarrow>
    set (pm_cdevs m') \<union> set (pm_nodes m') \<subseteq> {..<i + n} \<and> pm_devices m' = pm_devices m"
proof (induction n arbitrary: i m)
  case (Suc n)
  show ?case
  proof (cases "pe_cdev_add e i")
    case (Inl x)
    with Suc.prems show ?thesis by auto
  next
    case (Inr u)
    with Suc.prems have l: "pipe_init_loop e (Suc i) n (m\<lparr>pm_cdevs := i # pm_cdevs m, pm_nodes := i # pm_nodes m\<rparr>) = (r, m')"
      by simp
    from Suc.IH [OF l] Suc.prems(2) show ?thesis by auto
  qed
qed simp

lemma pipe_init_exit: "scull_pipe_exit (snd (scull_pipe_init e pipe_mod_none)) = pipe_mod_none"
proof (cases "pe_debugfs e \<and> pe_kmalloc e \<and> (\<exists>u. pe_register e = Inr u)")
  case True
  define m0 where "m0 = pipe_mod_none\<lparr>pm_debugfs := True, pm_devices := Some (replicate scull_p_nr_devs pipe_zero),
    pm_region := True, pm_class := True\<rparr>"
  obtain r m' where l: "pipe_init_loop e 0 scull_p_nr_devs m0 = (r, m')" by (cases "pipe_init_loop e 0 scull_p_nr_devs m0")
  from pipe_init_loop_held [OF l] have held: "\<forall>i\<in>set (pm_cdevs m') \<union> set (pm_nodes m'). i < scull_p_nr_devs"
      and d: "pm_devices m' = Some (replicate scull_p_nr_devs pipe_zero)"
    by (auto simp: m0_def pipe_mod_none_def)
  then have none: "filter (\<lambda>i. scull_p_nr_devs \<le> i) (pm_cdevs m') = []" "filter (\<lambda>i. scull_p_nr_devs \<le> i) (pm_nodes m') = []"
    by (auto simp: filter_empty_conv not_le)
  have "snd (scull_pipe_init e pipe_mod_none) = m'"
    using True l by (auto simp: scull_pipe_init_def m0_def Let_def split: sum.split)
  then show ?thesis by (simp add: scull_pipe_exit_def d none pipe_mod_none_def)
next
  case False
  then show ?thesis
    by (auto simp: scull_pipe_init_def scull_pipe_exit_def pipe_mod_none_def Let_def split: sum.splits)
qed

definition access_empty :: "access_mod \<Rightarrow> bool" where
  "access_empty m \<longleftrightarrow> set (am_cdevs m) \<union> set (am_nodes m) \<subseteq> {..<4} \<and> am_priv m = [] \<and>
     length (am_devs m) = 4 \<and> (\<forall>d\<in>set (am_devs m). sd_data d = [])"

lemma access_setup_empty:
  assumes "access_empty m" and "i < 4"
  shows "access_empty (scull_access_setup g ok i m)"
proof -
  have nth: "sd_data (am_devs m ! i) = []" using assms nth_mem [of i "am_devs m"] by (simp add: access_empty_def)
  have "sd_data d = []" if "d \<in> set ((am_devs m)[i := (am_devs m ! i)\<lparr>sd_quantum := q, sd_qset := n, sd_sem := k\<rparr>])" for d q n k
    using subsetD [OF set_update_subset_insert that] nth assms(1) by (auto simp: access_empty_def)
  with assms show ?thesis by (simp add: access_empty_def scull_access_setup_def Let_def)
qed

lemma access_init_held:
  assumes "scull_access_init g reg ok access_mod_none = (n, m)"
  shows "access_empty m"
proof -
  have z: "access_empty access_mod_none" by (auto simp: access_empty_def access_mod_none_def zero_dev_def)
  show ?thesis
  proof (cases reg)
    case (Inl x)
    with assms z show ?thesis by (auto simp: scull_access_init_def access_empty_def)
  next
    case (Inr u)
    from z have "access_empty (access_mod_none\<lparr>am_class := True, am_region := True\<rparr>)" by (simp add: access_empty_def)
    then show ?thesis using assms Inr by (auto simp: scull_access_init_def intro!: access_setup_empty)
  qed
qed

lemma reset_all_empty: "\<forall>d\<in>set ds. sd_data d = [] \<Longrightarrow> \<exists>ds'. reset_all g ds = Inr ds'"
  by (induction ds) (auto simp: scull_dev_reset_def)

lemma access_init_cleanup:
  assumes "scull_access_init g reg ok access_mod_none = (n, m)"
  shows "\<exists>m'. scull_access_cleanup g m = Inr m' \<and> \<not> am_class m' \<and> \<not> am_region m' \<and> am_cdevs m' = [] \<and> am_nodes m' = [] \<and>
    am_priv m' = []"
proof -
  from access_init_held [OF assms, unfolded access_empty_def] have held: "\<forall>i\<in>set (am_cdevs m) \<union> set (am_nodes m). i < 4" and p: "am_priv m = []"
    and e: "\<forall>d\<in>set (am_devs m). sd_data d = []" by auto
  from reset_all_empty [OF e] obtain ds where ds: "reset_all g (am_devs m) = Inr ds" by blast
  have "filter (\<lambda>i. 4 \<le> i) (am_cdevs m) = []" "filter (\<lambda>i. 4 \<le> i) (am_nodes m) = []"
    using held by (auto simp: filter_empty_conv not_le)
  then show ?thesis by (simp add: scull_access_cleanup_def ds p)
qed

text \<open>The module of chapter 6 loads even when its pipe or access devices cannot be set up, and
  whatever the kernel answered to each of the registrations, unloading it (with the devices still
  empty) returns and releases every device, region, class, file and node that the load had made.\<close>

lemma ch06_load_exit:
  assumes n: "0 \<le> n" "nat n \<le> length (me_junk e)"
    and load: "ch06_init e pe areg acdev g n (mod_unloaded major, pipe_mod_none, access_mod_none) = Inr (Inr u, st)"
  shows "\<exists>s' am'. ch06_exit g st = Inr (s', pipe_mod_none, am') \<and> nothing_held s' \<and>
    \<not> am_class am' \<and> \<not> am_region am' \<and> am_cdevs am' = [] \<and> am_nodes am' = []"
proof -
  from load obtain s where i: "init_module (scull_dev_reset g) e g n (mod_unloaded major) = Inr (Inr (), s)"
    and st: "st = (s, snd (scull_pipe_init pe pipe_mod_none), snd (scull_access_init g areg acdev access_mod_none))"
    by (auto simp: ch06_init_def split: sum.splits)
  from init_module_loaded [OF n i empty_reset] obtain s' where c: "cleanup_module (scull_dev_reset g) s = Inr s'" "nothing_held s'"
    by blast
  obtain k m where a: "scull_access_init g areg acdev access_mod_none = (k, m)"
    by (cases "scull_access_init g areg acdev access_mod_none")
  from access_init_cleanup [OF a] c show ?thesis
    by (auto simp: ch06_exit_def st a pipe_init_exit)
qed

lemma ch06_load_exit_witness:
  "\<exists>st s' am'. ch06_init \<lparr>me_register = Inr (), me_alloc_region = Inr 240, me_kmalloc = True, me_junk = [],
      me_cdev_add = (\<lambda>_. True), me_cache = False\<rparr> \<lparr>pe_debugfs = True, pe_kmalloc = True, pe_register = Inl EBUSY,
      pe_cdev_add = (\<lambda>_. Inr ())\<rparr> (Inr ()) (\<lambda>i. i \<noteq> 2) \<lparr>g_quantum = 4, g_qset = 2\<rparr> 0
      (mod_unloaded 0, pipe_mod_none, access_mod_none) = Inr (Inr (), st) \<and>
    pm_devices (fst (snd st)) \<noteq> None \<and> am_cdevs (snd (snd st)) = [3, 1, 0] \<and>
    ch06_exit \<lparr>g_quantum = 4, g_qset = 2\<rparr> st = Inr (s', pipe_mod_none, am') \<and> nothing_held s'"
proof -
  define e where "e = \<lparr>me_register = Inr (), me_alloc_region = Inr 240, me_kmalloc = True, me_junk = [],
      me_cdev_add = (\<lambda>_. True), me_cache = False\<rparr>"
  define pe :: pipe_env where "pe = \<lparr>pe_debugfs = True, pe_kmalloc = True, pe_register = Inl EBUSY, pe_cdev_add = (\<lambda>_. Inr ())\<rparr>"
  obtain st where st: "ch06_init e pe (Inr ()) (\<lambda>i. i \<noteq> 2) \<lparr>g_quantum = 4, g_qset = 2\<rparr> 0
      (mod_unloaded 0, pipe_mod_none, access_mod_none) = Inr (Inr (), st)"
      "pm_devices (fst (snd st)) \<noteq> None" "am_cdevs (snd (snd st)) = [3, 1, 0]"
    by (rule that [of "(mod_unloaded 0\<lparr>ms_major := 240, ms_region := True, ms_devices := Some [], ms_class := True\<rparr>,
        snd (scull_pipe_init pe pipe_mod_none),
        snd (scull_access_init \<lparr>g_quantum = 4, g_qset = 2\<rparr> (Inr ()) (\<lambda>i. i \<noteq> 2) access_mod_none))"])
      (simp_all add: e_def pe_def ch06_init_def init_module_def init_region_def init_devices_def mod_unloaded_def
        scull_pipe_init_def pipe_mod_none_def scull_access_init_def scull_access_setup_def access_mod_none_def)
  from ch06_load_exit [OF _ _ st(1)] st show ?thesis unfolding e_def pe_def by fastforce
qed

text \<open>The modules without a cache keep the contract of loading and unloading, whichever allocator they use.\<close>

lemma scull_modI:
  assumes "\<And>d. sd_data d = [] \<Longrightarrow> \<exists>r. reset d = Inr r"
  shows "unwinding (\<lambda>(e, n). init_module reset e g n (mod_unloaded major)) (cleanup_module reset) nothing_held
    (\<lambda>(e, n). 0 \<le> n \<and> nat n \<le> length (me_junk e))"
proof (rule unwindingI)
  fix a :: "mod_env \<times> int"
  obtain e n where a: "a = (e, n)" by (cases a)
  assume "case a of (e, n) \<Rightarrow> 0 \<le> n \<and> nat n \<le> length (me_junk e)"
  with a have n: "0 \<le> n" "nat n \<le> length (me_junk e)" by simp_all
  obtain r s where i: "init_module reset e g n (mod_unloaded major) = Inr (r, s)" using init_module_returns by blast
  show "case (case a of (e, n) \<Rightarrow> init_module reset e g n (mod_unloaded major)) of Inl _ \<Rightarrow> False | Inr (Inl _, m) \<Rightarrow> nothing_held m
    | Inr (Inr _, m) \<Rightarrow> (case cleanup_module reset m of Inl _ \<Rightarrow> False | Inr m' \<Rightarrow> nothing_held m')"
  proof (cases r)
    case Inl
    with i init_module_failed show ?thesis by (auto simp: a)
  next
    case Inr
    from init_module_loaded [OF n i [unfolded Inr] assms] i Inr show ?thesis by (auto simp: a)
  qed
qed

interpretation ch03_mod: unwinding "\<lambda>(e, n). ch03_init e g n (mod_unloaded major)" "ch03_cleanup g" nothing_held
    "\<lambda>(e, n). 0 \<le> n \<and> nat n \<le> length (me_junk e)" for g major
  unfolding ch03_init_def ch03_cleanup_def by (rule scull_modI) (rule empty_reset)

interpretation scullp_mod: unwinding "\<lambda>(e, n). scullp_init e g n (mod_unloaded major)" "scullp_cleanup g" nothing_held
    "\<lambda>(e, n). 0 \<le> n \<and> nat n \<le> length (me_junk e)" for g major
  unfolding scullp_init_def scullp_cleanup_def scullp_dev_reset_def by (rule scull_modI) (rule empty_reset)

interpretation scullv_mod: unwinding "\<lambda>(e, n). scullv_init e g n (mod_unloaded major)" "scullv_cleanup g" nothing_held
    "\<lambda>(e, n). 0 \<le> n \<and> nat n \<le> length (me_junk e)" for g major
  unfolding scullv_init_def scullv_cleanup_def scullv_dev_reset_def by (rule scull_modI) (rule empty_reset)

lemma scullm_empty_reset: "sd_data d = [] \<Longrightarrow> \<exists>r. scullm_reset g d = Inr r"
  using empty_reset [of d g] by (auto simp: scullm_reset_def scullm_dev_reset_def split: sum.splits prod.splits if_splits)

interpretation scullm_mod: unwinding "\<lambda>(e, n). scullm_init e g n (mod_unloaded major)" "scullm_cleanup g" nothing_held
    "\<lambda>(e, n). 0 \<le> n \<and> nat n \<le> length (me_junk e)" for g major
  unfolding scullm_init_def scullm_cleanup_def by (rule scull_modI) (rule scullm_empty_reset)

text \<open>The one with a cache, whose cleanup destroys it last.\<close>

lemma cleanup_loop_cache:
  "cleanup_loop reset i ds (s\<lparr>ms_cache := b\<rparr>) = (case cleanup_loop reset i ds s of Inl x \<Rightarrow> Inl x | Inr s' \<Rightarrow> Inr (s'\<lparr>ms_cache := b\<rparr>))"
proof (induction reset i ds s rule: cleanup_loop.induct)
  case (2 reset i d ds s)
  show ?case
  proof (cases "reset d")
    case (Inr r)
    have upd: "s\<lparr>ms_cache := b, ms_cdevs := xs, ms_nodes := ys\<rparr> = s\<lparr>ms_cdevs := xs, ms_nodes := ys, ms_cache := b\<rparr>" for xs ys by simp
    from "2.IH" [OF Inr] show ?thesis by (simp add: Inr upd)
  qed simp
qed simp

lemma cleanup_cache:
  "cleanup_module reset (s\<lparr>ms_cache := b\<rparr>) = (case cleanup_module reset s of Inl x \<Rightarrow> Inl x | Inr s' \<Rightarrow> Inr (s'\<lparr>ms_cache := b\<rparr>))"
  by (simp add: cleanup_module_def cleanup_loop_cache split: option.split sum.split)

lemma scullc_init_eq:
  "scullc_init e g n s = (case init_module (scullc_dev_reset g) e g n s of Inl x \<Rightarrow> Inl x
     | Inr (Inl x, s1) \<Rightarrow> Inr (Inl x, if fst (init_region e s) = Inr () then s1\<lparr>ms_cache := False\<rparr> else s1)
     | Inr (Inr _, s1) \<Rightarrow> (if me_cache e then Inr (Inr (), s1\<lparr>ms_cache := True\<rparr>)
         else case scullc_cleanup g s1 of Inl st \<Rightarrow> Inl st | Inr s3 \<Rightarrow> Inr (Inl ENOMEM, s3)))"
  by (auto simp: scullc_init_def init_module_def scullc_cleanup_def split: sum.splits prod.splits)

lemma scullc_load:
  assumes n: "0 \<le> n" "nat n \<le> length (me_junk e)"
  shows "case scullc_init e g n (mod_unloaded major) of Inl _ \<Rightarrow> False | Inr (Inl _, m) \<Rightarrow> nothing_held m
    | Inr (Inr _, m) \<Rightarrow> (case scullc_cleanup g m of Inl _ \<Rightarrow> False | Inr m' \<Rightarrow> nothing_held m')"
proof -
  obtain r s where i: "init_module (scullc_dev_reset g) e g n (mod_unloaded major) = Inr (r, s)" using init_module_returns by blast
  have held: "nothing_held m \<Longrightarrow> nothing_held (m\<lparr>ms_cache := False\<rparr>)" for m by (simp add: nothing_held_def)
  show ?thesis
  proof (cases r)
    case (Inl x)
    from init_module_failed [OF i [unfolded Inl]] i Inl held show ?thesis by (simp add: scullc_init_eq)
  next
    case Inr
    from init_module_loaded [OF n i [unfolded Inr]] empty_reset
    obtain s' where c: "cleanup_module (scullc_dev_reset g) s = Inr s'" "nothing_held s'" by (auto simp: scullc_dev_reset_def)
    then have "scullc_cleanup g (s\<lparr>ms_cache := b\<rparr>) = Inr (s'\<lparr>ms_cache := False\<rparr>)" "scullc_cleanup g s = Inr (s'\<lparr>ms_cache := False\<rparr>)" for b
      by (simp_all add: scullc_cleanup_def cleanup_cache)
    with i Inr held [OF c(2)] show ?thesis by (simp add: scullc_init_eq)
  qed
qed

interpretation scullc_mod: unwinding "\<lambda>(e, n). scullc_init e g n (mod_unloaded major)" "scullc_cleanup g" nothing_held
    "\<lambda>(e, n). 0 \<le> n \<and> nat n \<le> length (me_junk e)" for g major
  by (rule unwindingI) (use scullc_load in auto)

text \<open>And the module of chapter 6, with its pipe and access devices.\<close>

definition ch06_nothing :: "mod_state \<times> pipe_mod \<times> access_mod \<Rightarrow> bool" where
  "ch06_nothing st = (case st of (s, pm, am) \<Rightarrow> nothing_held s \<and> pm = pipe_mod_none \<and>
     \<not> am_class am \<and> \<not> am_region am \<and> am_cdevs am = [] \<and> am_nodes am = [])"

definition ch06_load :: "scull_globals \<Rightarrow> int \<Rightarrow> mod_env \<times> pipe_env \<times> unit res \<times> (nat \<Rightarrow> bool) \<times> int \<Rightarrow>
    (unit res \<times> mod_state \<times> pipe_mod \<times> access_mod) run" where
  "ch06_load g major a = (case a of (e, pe, areg, acdev, n) \<Rightarrow>
     ch06_init e pe areg acdev g n (mod_unloaded major, pipe_mod_none, access_mod_none))"

interpretation ch06_mod: unwinding "ch06_load g major" "ch06_exit g" ch06_nothing
    "\<lambda>(e, pe, areg, acdev, n). 0 \<le> n \<and> nat n \<le> length (me_junk e)" for g major
proof (rule unwindingI)
  fix a :: "mod_env \<times> pipe_env \<times> unit res \<times> (nat \<Rightarrow> bool) \<times> int"
  obtain e pe areg acdev n where a: "a = (e, pe, areg, acdev, n)" by (cases a)
  assume "case a of (e, pe, areg, acdev, n) \<Rightarrow> 0 \<le> n \<and> nat n \<le> length (me_junk e)"
  with a have n: "0 \<le> n" "nat n \<le> length (me_junk e)" by simp_all
  obtain r s where i: "init_module (scull_dev_reset g) e g n (mod_unloaded major) = Inr (r, s)" using init_module_returns by blast
  show "case ch06_load g major a of Inl _ \<Rightarrow> False | Inr (Inl _, m) \<Rightarrow> ch06_nothing m
    | Inr (Inr _, m) \<Rightarrow> (case ch06_exit g m of Inl _ \<Rightarrow> False | Inr m' \<Rightarrow> ch06_nothing m')"
  proof (cases r)
    case (Inl x)
    from init_module_failed [OF i [unfolded Inl]] i Inl show ?thesis
      by (simp add: ch06_load_def a ch06_init_def ch06_nothing_def access_mod_none_def)
  next
    case Inr
    then obtain st where l: "ch06_init e pe areg acdev g n (mod_unloaded major, pipe_mod_none, access_mod_none) = Inr (Inr (), st)"
      using i by (simp add: ch06_init_def)
    from ch06_load_exit [OF n l] l show ?thesis by (auto simp: ch06_load_def a ch06_nothing_def)
  qed
qed

end
