(* ===== verification/ScullSession.thy ===== *)
theory ScullSession
  imports ScullCore
begin

text \<open>
  Processes on the scull devices: system calls go through the table \<open>scull_fops\<close> of
  \<open>common_scull/scull_core.c\<close> to the operations of \<open>ScullCore\<close>, each with the position of its open
  file.  Calls on a device are one after the other, as its semaphore makes them.  The result is that
  ordinary programs cannot make the driver go wrong, and which ones can.
\<close>

unbundle bit_operations_syntax

subsection \<open>Open files and calls\<close>

text \<open>\<open>struct file\<close>: the device, \<open>f_flags\<close> and \<open>f_pos\<close>.\<close>

record scull_file =
  sf_dev :: nat
  sf_flags :: nat
  sf_pos :: int

record scull_sys =
  ss_glob :: scull_globals
  ss_devs :: "scull_dev list"
  ss_files :: "scull_file option list"

text \<open>A call with what the kernel decides about it: signals, allocations, the mapped part of the buffer.\<close>

datatype scull_call =
    SOpen nat nat bool
  | SRead nat bool "bool list" nat nat
  | SWrite nat bool "bool list" "byte list" nat
  | SSeek nat int int
  | SIoctl nat ioctl_env nat nat
  | SClose nat

datatype scull_ret = RFd nat | RBytes "byte list" | RCount nat | RPos int | RVal int "int option" | RDone | RErr errno

text \<open>The kernel cuts every transfer to \<open>MAX_RW_COUNT\<close>.\<close>

definition MAX_RW_COUNT :: int where "MAX_RW_COUNT = 0x7FFFF000"

definition rw_count :: "nat \<Rightarrow> nat" where
  "rw_count count = nat (min (int count) MAX_RW_COUNT)"

definition file_of :: "scull_sys \<Rightarrow> nat \<Rightarrow> scull_file option" where
  "file_of s fd = (if fd < length (ss_files s) then ss_files s ! fd else None)"

definition may_read :: "scull_file \<Rightarrow> bool" where
  "may_read f \<longleftrightarrow> (sf_flags f AND O_ACCMODE) \<noteq> O_WRONLY"

definition may_write :: "scull_file \<Rightarrow> bool" where
  "may_write f \<longleftrightarrow> (sf_flags f AND O_ACCMODE) \<noteq> 0"

definition set_file :: "nat \<Rightarrow> scull_file option \<Rightarrow> scull_sys \<Rightarrow> scull_sys" where
  "set_file fd f s = s\<lparr>ss_files := (ss_files s)[fd := f]\<rparr>"

definition set_dev :: "nat \<Rightarrow> scull_dev \<Rightarrow> scull_sys \<Rightarrow> scull_sys" where
  "set_dev i d s = s\<lparr>ss_devs := (ss_devs s)[i := d]\<rparr>"

text \<open>The operations of \<open>scull_fops\<close>.\<close>

definition scull_sys_open :: "nat \<Rightarrow> nat \<Rightarrow> bool \<Rightarrow> scull_sys \<Rightarrow> (scull_ret \<times> scull_sys) run" where
  "scull_sys_open i flags sig s =
     (if length (ss_devs s) \<le> i then Inr (RErr ENODEV, s)
      else case scull_open (ss_glob s) sig flags (ss_devs s ! i) of
        Inl x \<Rightarrow> Inl x
      | Inr (Inl e, d) \<Rightarrow> Inr (RErr e, set_dev i d s)
      | Inr (Inr _, d) \<Rightarrow> Inr (RFd (length (ss_files s)),
          (set_dev i d s)\<lparr>ss_files := ss_files s @ [Some \<lparr>sf_dev = i, sf_flags = flags, sf_pos = 0\<rparr>]\<rparr>))"

definition scull_sys_read :: "nat \<Rightarrow> scull_file \<Rightarrow> bool \<Rightarrow> bool list \<Rightarrow> nat \<Rightarrow> nat \<Rightarrow> scull_sys \<Rightarrow> (scull_ret \<times> scull_sys) run" where
  "scull_sys_read fd f sig al ulen count s =
     (if \<not> may_read f then Inr (RErr EBADF, s)
      else case scull_read sig al ulen (rw_count count) (sf_pos f) (ss_devs s ! sf_dev f) of
        Inl x \<Rightarrow> Inl x
      | Inr (r, pos, d) \<Rightarrow> Inr (case r of Inl e \<Rightarrow> RErr e | Inr bs \<Rightarrow> RBytes bs,
          set_file fd (Some (f\<lparr>sf_pos := pos\<rparr>)) (set_dev (sf_dev f) d s)))"

definition scull_sys_write :: "nat \<Rightarrow> scull_file \<Rightarrow> bool \<Rightarrow> bool list \<Rightarrow> byte list \<Rightarrow> nat \<Rightarrow> scull_sys \<Rightarrow> (scull_ret \<times> scull_sys) run" where
  "scull_sys_write fd f sig al ubuf count s =
     (if \<not> may_write f then Inr (RErr EBADF, s)
      else case scull_write sig al ubuf (rw_count count) (sf_pos f) (ss_devs s ! sf_dev f) of
        Inl x \<Rightarrow> Inl x
      | Inr (r, pos, d) \<Rightarrow> Inr (case r of Inl e \<Rightarrow> RErr e | Inr n \<Rightarrow> RCount n,
          set_file fd (Some (f\<lparr>sf_pos := pos\<rparr>)) (set_dev (sf_dev f) d s)))"

definition scull_sys_seek :: "nat \<Rightarrow> scull_file \<Rightarrow> int \<Rightarrow> int \<Rightarrow> scull_sys \<Rightarrow> scull_ret \<times> scull_sys" where
  "scull_sys_seek fd f off whence s =
     (case scull_llseek (ss_devs s ! sf_dev f) (sf_pos f) (s64 off) whence of
        (r, pos) \<Rightarrow> (case r of Inl e \<Rightarrow> RErr e | Inr p \<Rightarrow> RPos p, set_file fd (Some (f\<lparr>sf_pos := pos\<rparr>)) s))"

definition scull_sys_ioctl :: "ioctl_env \<Rightarrow> nat \<Rightarrow> nat \<Rightarrow> scull_sys \<Rightarrow> scull_ret \<times> scull_sys" where
  "scull_sys_ioctl e cmd arg s = (case scull_ioctl e cmd arg (ss_glob s) of
     (r, g, out) \<Rightarrow> (case r of Inl err \<Rightarrow> RErr err | Inr v \<Rightarrow> RVal v out, s\<lparr>ss_glob := g\<rparr>))"

definition scull_sys_close :: "nat \<Rightarrow> scull_file \<Rightarrow> scull_sys \<Rightarrow> scull_ret \<times> scull_sys" where
  "scull_sys_close fd f s = (RDone, set_file fd None (set_dev (sf_dev f) (snd (scull_release (ss_devs s ! sf_dev f))) s))"

definition scull_fops :: "scull_call \<Rightarrow> scull_sys \<Rightarrow> (scull_ret \<times> scull_sys) run" where
  "scull_fops c s =
     (let on = (\<lambda>fd op. case file_of s fd of None \<Rightarrow> Inr (RErr EBADF, s) | Some f \<Rightarrow> op f) in
      case c of
        SOpen i flags sig \<Rightarrow> scull_sys_open i flags sig s
      | SRead fd sig al ulen count \<Rightarrow> on fd (\<lambda>f. scull_sys_read fd f sig al ulen count s)
      | SWrite fd sig al ubuf count \<Rightarrow> on fd (\<lambda>f. scull_sys_write fd f sig al ubuf count s)
      | SSeek fd off whence \<Rightarrow> on fd (\<lambda>f. Inr (scull_sys_seek fd f off whence s))
      | SIoctl fd e cmd arg \<Rightarrow> on fd (\<lambda>f. Inr (scull_sys_ioctl e cmd arg s))
      | SClose fd \<Rightarrow> on fd (\<lambda>f. Inr (scull_sys_close fd f s)))"

fun scull_session :: "scull_call list \<Rightarrow> scull_sys \<Rightarrow> (scull_ret list \<times> scull_sys) run" where
  "scull_session [] s = Inr ([], s)"
| "scull_session (c # cs) s = (case scull_fops c s of Inl x \<Rightarrow> Inl x
     | Inr (r, s1) \<Rightarrow> (case scull_session cs s1 of Inl x \<Rightarrow> Inl x | Inr (rs, s2) \<Rightarrow> Inr (r # rs, s2)))"

subsection \<open>What states and calls are well formed\<close>

definition globals_ok :: "scull_globals \<Rightarrow> bool" where
  "globals_ok g \<longleftrightarrow> 0 < g_quantum g \<and> 0 < g_qset g \<and> g_quantum g * g_qset g < 2 ^ 31"

definition dev_ok :: "scull_dev \<Rightarrow> bool" where
  "dev_ok d \<longleftrightarrow> scull_wf d \<and> dense d \<and> 0 < sd_sem d"

definition file_ok :: "scull_sys \<Rightarrow> scull_file \<Rightarrow> bool" where
  "file_ok s f \<longleftrightarrow> sf_dev f < length (ss_devs s) \<and> 0 \<le> sf_pos f \<and> sf_pos f < 2 ^ 63"

definition sys_ok :: "scull_sys \<Rightarrow> bool" where
  "sys_ok s \<longleftrightarrow> globals_ok (ss_glob s) \<and> (\<forall>d\<in>set (ss_devs s). dev_ok d) \<and> (\<forall>f. Some f \<in> set (ss_files s) \<longrightarrow> file_ok s f)"

text \<open>
  What a program must keep to: a write starts inside the file or at its end, and finds memory;
  the caller of an ioctl has no \<open>CAP_SYS_ADMIN\<close>.
\<close>

definition call_ok :: "scull_call \<Rightarrow> scull_sys \<Rightarrow> bool" where
  "call_ok c s = (case c of
     SWrite fd sig al ubuf count \<Rightarrow> al = [] \<and> (case file_of s fd of None \<Rightarrow> True
       | Some f \<Rightarrow> (let d = ss_devs s ! sf_dev f in sf_pos f \<le> int (sd_size d) \<and> pos_ok d (sf_pos f)))
   | SIoctl fd e cmd arg \<Rightarrow> \<not> ie_cap e
   | _ \<Rightarrow> True)"

fun calls_ok :: "scull_call list \<Rightarrow> scull_sys \<Rightarrow> bool" where
  "calls_ok [] s = True"
| "calls_ok (c # cs) s = (call_ok c s \<and> (case scull_fops c s of Inl _ \<Rightarrow> True | Inr (_, s1) \<Rightarrow> calls_ok cs s1))"

lemma sys_okD:
  assumes "sys_ok s" and "file_of s fd = Some f"
  shows "sf_dev f < length (ss_devs s)" "dev_ok (ss_devs s ! sf_dev f)" "0 \<le> sf_pos f" "sf_pos f < 2 ^ 63" "fd < length (ss_files s)"
proof -
  show fd: "fd < length (ss_files s)" using assms(2) by (simp add: file_of_def split: if_splits)
  then have "Some f \<in> set (ss_files s)" using assms(2) by (auto simp: file_of_def dest: nth_mem)
  then have "file_ok s f" using assms(1) by (simp add: sys_ok_def)
  then show "sf_dev f < length (ss_devs s)" "0 \<le> sf_pos f" "sf_pos f < 2 ^ 63" by (simp_all add: file_ok_def)
  then show "dev_ok (ss_devs s ! sf_dev f)" using assms(1) by (simp add: sys_ok_def)
qed

lemma sys_ok_update:
  assumes ok: "sys_ok s" and d: "dev_ok d" and f: "f = None \<or> (\<exists>g. f = Some g \<and> file_ok s g)"
  shows "sys_ok (set_file fd f (set_dev i d s))"
proof -
  have "d' \<in> set ((ss_devs s)[i := d]) \<Longrightarrow> dev_ok d'" for d'
    using ok d set_update_subset_insert [of "ss_devs s" i d] by (auto simp: sys_ok_def)
  moreover have "Some g \<in> set ((ss_files s)[fd := f]) \<Longrightarrow> file_ok s g" for g
    using ok f set_update_subset_insert [of "ss_files s" fd f] by (auto simp: sys_ok_def)
  ultimately show ?thesis using ok by (auto simp: sys_ok_def set_file_def set_dev_def file_ok_def)
qed

lemma set_dev_same: "i < length (ss_devs s) \<Longrightarrow> set_dev i (ss_devs s ! i) s = s"
  by (simp add: set_dev_def)

subsection \<open>The operations on a well-formed device\<close>

lemma open_ok:
  assumes "dev_ok d" and "globals_ok g"
  shows "\<exists>r d'. scull_open g sig flags d = Inr (r, d') \<and> dev_ok d'"
proof -
  have wf: "scull_wf (sem_down d)" "all_arrays (sd_data (sem_down d))" "0 < sd_sem d" using assms(1) by (simp_all add: dev_ok_def dense_def)
  then obtain n where "scull_dev_reset g (sem_down d) =
      Inr (n, (sem_down d)\<lparr>sd_size := 0, sd_quantum := g_quantum g, sd_qset := g_qset g, sd_data := []\<rparr>)"
    using scull_dev_reset_eq [OF wf(1)] by auto
  moreover have "dev_ok (sem_up ((sem_down d)\<lparr>sd_size := 0, sd_quantum := g_quantum g, sd_qset := g_qset g, sd_data := []\<rparr>))"
    using assms(2) by (simp add: dev_ok_def dense_def scull_wf_def globals_ok_def all_arrays_def)
  ultimately show ?thesis using assms(1) wf(3) by (auto simp: scull_open_def scull_open_gen_def)
qed

text \<open>Inside a file without holes the walk over the nodes adds none.\<close>

lemma find_from_inside: "k < length ns \<Longrightarrow> find_from al k ns = (Some k, ns, al)"
  by (induction al k ns rule: find_from.induct) auto

lemma read_ok:
  assumes d: "dev_ok d" and pos: "0 \<le> pos" "pos < 2 ^ 63" and cnt: "count < 2 ^ 62"
  shows "\<exists>r pos'. scull_read sig al ulen count pos d = Inr (r, pos', d) \<and> 0 \<le> pos' \<and> pos' < 2 ^ 63"
proof (cases "sig \<or> int (sd_size d) \<le> pos")
  case True
  have "u64 pos = pos" using pos by (intro u64_id) auto
  then show ?thesis using True assms by (auto simp: scull_read_def dev_ok_def Let_def sem_up_down)
next
  case False
  define p where "p = sd_quantum d * sd_qset d"
  have wf: "scull_wf d" and dense: "dense d" and sem: "0 < sd_sem d" using d by (simp_all add: dev_ok_def)
  have p: "0 < p" using wf by (simp add: p_def scull_wf_def)
  have size: "int (sd_size d) \<le> 2 ^ 31 * p" "int (sd_size d) < 2 ^ 63" using dense wf by (simp_all add: dense_def p_def scull_wf_def)
  have pos_ok: "pos_ok d pos" using False size pos by (simp add: pos_ok_def p_def)
  define k where "k = find_steps (pos div p)"
  have k: "k < length (sd_data d)"
  proof -
    have "pos div p \<le> (int (sd_size d) - 1) div p" using False p by (intro zdiv_mono1) auto
    moreover have "0 \<le> pos div p" using pos p by (simp add: pos_imp_zdiv_nonneg_iff)
    moreover have "(int (sd_size d) - 1) div p < 2 ^ 31" using size p by (intro div_less_int) auto
    ultimately have "k \<le> find_steps ((int (sd_size d) - 1) div p)" unfolding k_def by (intro find_steps_mono)
    moreover have "find_steps ((int (sd_size d) - 1) div p) < length (sd_data d)" using dense False pos by (auto simp: dense_def p_def)
    ultimately show ?thesis by linarith
  qed
  from scull_read_eq [OF wf pos_ok sem cnt, of al ulen] obtain m r pos'
    where r: "scull_read False al ulen count pos d = Inr (r, pos', add_nodes m d)"
      and pos': "pos' = pos \<or> pos' = pos + int (read_count d count pos)"
    using False by (auto split: option.splits if_splits)
  have "scull_find_item al (sem_down d) (pos div p) = (Some k, sem_down d, al)"
    using k find_from_inside [OF k, of al] by (auto simp: scull_find_item_def k_def)
  then have "add_nodes m d = d"
    using r False pos sem scull_locate_wf [of "sem_down d" pos] wf pos_ok
    by (auto simp: scull_read_def Let_def u64_id sem_up_down p_def pos_ok_def read_quantum_def split: option.splits if_splits)
  moreover have "pos + int (read_count d count pos) \<le> int (sd_size d)" using read_count_le(2) [of pos d count] False by simp
  ultimately show ?thesis using r pos pos' d size(2) False by auto
qed

text \<open>A write from a buffer that is not mapped to its end leaves the same nodes as one from a longer buffer.\<close>

lemma user_bytes_pad: "n \<le> count \<Longrightarrow> user_bytes (ubuf @ replicate count 0) n = user_bytes ubuf n"
  by (rule nth_equalityI) (auto simp: user_bytes_def nth_append)

lemma write_quantum_pad:
  assumes "write_quantum k arr s_pos q q_pos ubuf cnt pos d = Inr (Inl EFAULT, pos', d')" and "cnt \<le> count"
  shows "\<exists>n pos2 d2. write_quantum k arr s_pos q q_pos (ubuf @ replicate count 0) cnt pos d = Inr (Inr n, pos2, d2) \<and> sd_data d2 = sd_data d'"
  using assms by (auto simp: write_quantum_def user_bytes_pad Let_def split: if_splits)

lemma write_fault_nodes:
  assumes "scull_write_gen alloc_q False al ubuf count pos d = Inr (Inl EFAULT, pos', d')"
  shows "\<exists>n pos2 d2. scull_write_gen alloc_q False al (ubuf @ replicate count 0) count pos d = Inr (Inr n, pos2, d2) \<and> sd_data d2 = sd_data d'"
proof -
  define D where "D = sem_down d"
  obtain item s_pos q_pos where loc: "scull_locate D pos = Inr (item, s_pos, q_pos)" and sem: "sd_sem d \<noteq> 0"
    using assms by (auto simp: scull_write_gen_def D_def Let_def split: sum.splits if_splits)
  obtain k d1 al1 where f: "scull_find_item al D item = (Some k, d1, al1)"
    using assms loc sem by (auto simp: scull_write_gen_def D_def Let_def split: option.splits prod.splits)
  define cnt where "cnt = clip_quantum D q_pos (int count)"
  have cnt: "cnt \<le> count" by (auto simp: cnt_def clip_quantum_def Let_def)
  have w: "write_node alloc_q al1 k s_pos q_pos ubuf cnt pos d1 = Inr (Inl EFAULT, pos', d')"
    using assms loc sem f by (simp add: scull_write_gen_def Let_def D_def [symmetric] cnt_def)
  then have "\<exists>n pos2 d2. write_node alloc_q al1 k s_pos q_pos (ubuf @ replicate count 0) cnt pos d1 = Inr (Inr n, pos2, d2) \<and> sd_data d2 = sd_data d'"
    using write_quantum_pad [OF _ cnt]
    by (auto simp: write_node_def split: option.splits sum.splits prod.splits if_splits)
  then show ?thesis using loc sem f by (auto simp: scull_write_gen_def Let_def D_def [symmetric] cnt_def)
qed

lemma write_effect_result:
  assumes "write_effect ubuf count pos d r pos' d'"
  shows "r = Inl ENOMEM \<or> (\<exists>n\<le>count. r = Inr n \<and> pos' = pos + int n) \<or> r = Inl EFAULT \<and> pos' = pos \<and> sd_size d' = sd_size d"
proof -
  have n: "write_count d count pos \<le> count" by (simp add: write_count_def)
  have "write_delta (scull_slot d pos) (slot_off d pos) ubuf (write_count d count pos) pos d r pos' d'"
    using assms by (simp add: write_effect_def)
  then show ?thesis unfolding write_delta_def
    by (elim disjE exE conjE) (cases "length ubuf < write_count d count pos"; use n in simp; fail)+
qed

text \<open>Whatever the allocator, a write keeps the device well formed and gives up no quantum.\<close>

definition write_keeps :: "scull_dev \<Rightarrow> int \<Rightarrow> scull_dev \<Rightarrow> bool" where
  "write_keeps d pos' d' \<longleftrightarrow> dev_ok d' \<and> 0 \<le> pos' \<and> pos' < 2 ^ 63 \<and> same_geometry d d' \<and>
     dom (quanta (sd_data d)) \<subseteq> dom (quanta (sd_data d'))"

context quantum_allocator
begin

lemma write_ok_gen:
  assumes d: "dev_ok d" and pos: "pos_ok d pos" "pos \<le> int (sd_size d)" and cnt: "count < 2 ^ 62"
    and fit: "fits (sd_quantum d)" and al: "\<exists>q. alloc_q (sd_quantum d) [] = Inr (Some q, [])"
  shows "\<exists>r pos' d'. scull_write_gen alloc_q sig [] ubuf count pos d = Inr (r, pos', d') \<and> r \<noteq> Inl ENOMEM \<and> write_keeps d pos' d'"
proof (cases sig)
  case True
  then show ?thesis using d pos pos_ok_less [of d pos] by (auto simp: scull_write_gen_def dev_ok_def write_keeps_def same_geometry_def)
next
  case False
  have wf: "scull_wf d" and dense: "dense d" and sem: "0 < sd_sem d" using d by (simp_all add: dev_ok_def)
  have pos62: "0 \<le> pos" "pos < 2 ^ 62" using pos_ok_less [OF wf pos(1)] by simp_all
  from write_correct [OF wf pos(1) sem cnt fit, of "[]" ubuf] obtain r pos' d'
    where w: "scull_write_gen alloc_q False [] ubuf count pos d = Inr (r, pos', d')" and wf': "scull_wf d'" and eff: "write_effect ubuf count pos d r pos' d'"
    by blast
  have geo: "same_geometry d d'" using eff by (simp add: write_effect_def)
  have sem': "0 < sd_sem d'" using geo sem by (simp add: same_geometry_def)
  have dom: "dom (quanta (sd_data d)) \<subseteq> dom (quanta (sd_data d'))" using eff by (auto simp: write_effect_def write_delta_def)
  have enomem: "r \<noteq> Inl ENOMEM" using write_gen_memory [where alloc_q = alloc_q and d = d, OF wf pos(1) al] w by auto
  then consider n where "r = Inr n" "pos' = pos + int n" "n \<le> count" | "r = Inl EFAULT" "pos' = pos" "sd_size d' = sd_size d"
    using write_effect_result [OF eff] by blast
  then show ?thesis
  proof cases
    case 1
    have "dense d'" using write_gen_dense [OF wf pos(1) dense pos(2)] w eff by (auto simp: 1)
    then show ?thesis using False w wf' sem' pos62 cnt geo dom 1 by (simp add: dev_ok_def write_keeps_def)
  next
    case 2
    from write_fault_nodes [of alloc_q "[]" ubuf count pos d pos' d'] w 2(1) obtain n pos2 d2
      where w2: "scull_write_gen alloc_q False [] (ubuf @ replicate count 0) count pos d = Inr (Inr n, pos2, d2)" and data: "sd_data d2 = sd_data d'"
      by auto
    from write_correct [OF wf pos(1) sem cnt fit, of "[]" "ubuf @ replicate count 0"] w2
    have eff2: "write_effect (ubuf @ replicate count 0) count pos d (Inr n) pos2 d2" by auto
    have "dense d2" using write_gen_dense [OF wf pos(1) dense pos(2) w2 eff2] .
    moreover have "length (sd_data d) \<le> length (sd_data d2)"
      using write_gen_nodes(1) [OF wf pos(1) w2] by simp
    moreover have "sd_quantum d' = sd_quantum d" "sd_qset d' = sd_qset d" using geo by (simp_all add: same_geometry_def)
    ultimately have "dense d'" using dense data 2(3) by (auto simp: dense_def)
    then show ?thesis using False w wf' sem' pos62 geo dom 2 by (simp add: dev_ok_def write_keeps_def)
  qed
qed

end

lemma write_ok:
  assumes d: "dev_ok d" and pos: "pos_ok d pos" "pos \<le> int (sd_size d)" and cnt: "count < 2 ^ 62"
  shows "\<exists>r pos' d'. scull_write sig [] ubuf count pos d = Inr (r, pos', d') \<and> r \<noteq> Inl ENOMEM \<and> dev_ok d' \<and> 0 \<le> pos' \<and> pos' < 2 ^ 63"
proof -
  have "\<exists>q. scull_alloc_quantum (sd_quantum d) [] = Inr (Some q, [])" using d by (simp add: scull_alloc_quantum_def dev_ok_def scull_wf_def)
  from scull.write_ok_gen [OF d pos cnt TrueI this, of sig ubuf] show ?thesis by (auto simp: scull_write_def write_keeps_def)
qed

subsection \<open>Ordinary programs cannot make the driver go wrong\<close>

lemma ioctl_unprivileged_cases:
  assumes "\<not> ie_cap e"
  shows "fst (snd (scull_ioctl e cmd arg g)) \<in> {g, \<lparr>g_quantum = SCULL_QUANTUM, g_qset = SCULL_QSET\<rparr>}"
proof (cases "cmd = SCULL_IOCRESET")
  case False
  then have "fst (snd (scull_ioctl e cmd arg g)) = g"
    using assms by (simp add: scull_ioctl_def put_user_int_def split: if_split)
  then show ?thesis by simp
qed (simp add: ioctl_set_qset)

lemma ioctl_unprivileged: "globals_ok g \<Longrightarrow> \<not> ie_cap e \<Longrightarrow> globals_ok (fst (snd (scull_ioctl e cmd arg g)))"
  using ioctl_unprivileged_cases [of e cmd arg g] by (auto simp: globals_ok_def SCULL_QSET_def SCULL_QUANTUM_def)

lemma min_rw: "rw_count count < 2 ^ 62"
  by (auto simp: rw_count_def MAX_RW_COUNT_def min_def)

lemma seek_range:
  assumes "0 \<le> pos" "pos < 2 ^ 63" and "scull_llseek d pos (s64 off) whence = (r, pos')"
  shows "0 \<le> pos' \<and> pos' < 2 ^ 63"
proof -
  have s: "s64 x < 2 ^ 63" for x by (simp add: s64_def)
  show ?thesis using assms s by (auto simp: scull_llseek_def Let_def split: if_splits)
qed

lemma scull_fops_ok:
  assumes ok: "sys_ok s" and c: "call_ok c s"
  shows "\<exists>r s'. scull_fops c s = Inr (r, s') \<and> sys_ok s'"
proof (cases c)
  case (SOpen i flags sig)
  show ?thesis
  proof (cases "i < length (ss_devs s)")
    case True
    then have d: "dev_ok (ss_devs s ! i)" and g: "globals_ok (ss_glob s)" using ok by (simp_all add: sys_ok_def)
    obtain r d' where o: "scull_open (ss_glob s) sig flags (ss_devs s ! i) = Inr (r, d')" "dev_ok d'" using open_ok [OF d g] by blast
    have u: "sys_ok (set_dev i d' s)"
      using sys_ok_update [OF ok o(2), of None "length (ss_files s)" i] by (simp add: set_file_def set_dev_def list_update_beyond)
    then have "sys_ok ((set_dev i d' s)\<lparr>ss_files := ss_files s @ [Some \<lparr>sf_dev = i, sf_flags = flags, sf_pos = 0\<rparr>]\<rparr>)"
      using True by (auto simp: sys_ok_def file_ok_def set_dev_def)
    then show ?thesis using o(1) u True by (auto simp: scull_fops_def SOpen scull_sys_open_def split: sum.split)
  qed (simp add: scull_fops_def SOpen scull_sys_open_def ok)
next
  case (SRead fd sig al ulen count)
  show ?thesis
  proof (cases "file_of s fd")
    case (Some f)
    note f = sys_okD [OF ok Some]
    obtain r pos' where r: "scull_read sig al ulen (rw_count count) (sf_pos f) (ss_devs s ! sf_dev f) = Inr (r, pos', ss_devs s ! sf_dev f)"
        "0 \<le> pos'" "pos' < 2 ^ 63" using read_ok [OF f(2-4) min_rw] by blast
    have "sys_ok (set_file fd (Some (f\<lparr>sf_pos := pos'\<rparr>)) (set_dev (sf_dev f) (ss_devs s ! sf_dev f) s))"
      using r f by (intro sys_ok_update [OF ok f(2)]) (simp add: file_ok_def)
    then show ?thesis using r(1) ok by (simp add: scull_fops_def SRead Some scull_sys_read_def)
  qed (simp add: scull_fops_def SRead ok)
next
  case (SWrite fd sig al ubuf count)
  show ?thesis
  proof (cases "file_of s fd")
    case (Some f)
    note f = sys_okD [OF ok Some]
    have al: "al = []" and p: "pos_ok (ss_devs s ! sf_dev f) (sf_pos f)" "sf_pos f \<le> int (sd_size (ss_devs s ! sf_dev f))"
      using c by (simp_all add: call_ok_def SWrite Some Let_def)
    obtain r pos' d' where r: "scull_write sig al ubuf (rw_count count) (sf_pos f) (ss_devs s ! sf_dev f) = Inr (r, pos', d')"
        "dev_ok d'" "0 \<le> pos'" "pos' < 2 ^ 63" using write_ok [OF f(2) p min_rw] al by blast
    have "sys_ok (set_file fd (Some (f\<lparr>sf_pos := pos'\<rparr>)) (set_dev (sf_dev f) d' s))"
      using r f by (intro sys_ok_update [OF ok r(2)]) (simp add: file_ok_def)
    then show ?thesis using r(1) ok by (simp add: scull_fops_def SWrite Some scull_sys_write_def)
  qed (simp add: scull_fops_def SWrite ok)
next
  case (SSeek fd off whence)
  show ?thesis
  proof (cases "file_of s fd")
    case (Some f)
    note f = sys_okD [OF ok Some]
    obtain r pos' where r: "scull_llseek (ss_devs s ! sf_dev f) (sf_pos f) (s64 off) whence = (r, pos')" by (metis surj_pair)
    have "sys_ok (set_file fd (Some (f\<lparr>sf_pos := pos'\<rparr>)) (set_dev (sf_dev f) (ss_devs s ! sf_dev f) s))"
      using seek_range [OF f(3,4) r] f by (intro sys_ok_update [OF ok f(2)]) (simp add: file_ok_def)
    then show ?thesis using r f(1) by (simp add: scull_fops_def SSeek Some scull_sys_seek_def set_dev_same)
  qed (simp add: scull_fops_def SSeek ok)
next
  case (SIoctl fd e cmd arg)
  have "globals_ok (fst (snd (scull_ioctl e cmd arg (ss_glob s))))"
    using ok c by (intro ioctl_unprivileged) (simp_all add: sys_ok_def call_ok_def SIoctl)
  moreover have "globals_ok g \<Longrightarrow> sys_ok (s\<lparr>ss_glob := g\<rparr>)" for g using ok by (simp add: sys_ok_def file_ok_def)
  ultimately show ?thesis using ok by (auto simp: scull_fops_def SIoctl scull_sys_ioctl_def split: option.split prod.splits)
next
  case (SClose fd)
  show ?thesis
  proof (cases "file_of s fd")
    case (Some f)
    note f = sys_okD [OF ok Some]
    show ?thesis using sys_ok_update [OF ok f(2), of None fd "sf_dev f"]
      by (simp add: scull_fops_def SClose Some scull_sys_close_def scull_release_def)
  qed (simp add: scull_fops_def SClose ok)
qed

text \<open>C3: programs of any number of open files on any number of devices never make the driver go wrong, as
  long as no write starts beyond the end of its file or runs out of memory, and no caller of an
  ioctl is privileged: every call returns, and the devices stay well formed, without holes and with
  their semaphore free.\<close>

theorem scull_session_safe:
  assumes "sys_ok s" and "calls_ok cs s"
  shows "\<exists>rs s'. scull_session cs s = Inr (rs, s') \<and> length rs = length cs \<and> sys_ok s'"
  using assms
proof (induction cs arbitrary: s)
  case (Cons c cs)
  then obtain r s1 where r: "scull_fops c s = Inr (r, s1)" "sys_ok s1" using scull_fops_ok [of s c] by auto
  with Cons.IH [of s1] Cons.prems show ?case by auto
qed simp

definition example_sys :: scull_sys where
  "example_sys = \<lparr>ss_glob = \<lparr>g_quantum = 4, g_qset = 2\<rparr>, ss_devs = [example_dev], ss_files = []\<rparr>"

lemma example_sys_ok: "sys_ok example_sys"
  by (simp add: example_sys_def sys_ok_def globals_ok_def dev_ok_def example_dev_def scull_wf_def dense_def all_arrays_def)

text \<open>Two processes: one writes and goes back to the start, the other empties the file; the first reads nothing.\<close>

definition example_calls :: "scull_call list" where
  "example_calls = [SOpen 0 2 False, SWrite 0 False [] [7, 8, 9] 3, SSeek 0 0 0, SRead 0 False [] 9 9, SOpen 0 1 False, SSeek 0 0 0, SRead 0 False [] 9 9]"

theorem scull_session_safe_witness:
  "\<exists>rs s'. scull_session example_calls example_sys = Inr (rs, s') \<and> length rs = 7 \<and> sys_ok s'"
proof -
  have "calls_ok example_calls example_sys" by code_simp
  moreover have "length example_calls = 7" by (simp add: example_calls_def)
  ultimately show ?thesis using scull_session_safe [OF example_sys_ok, of example_calls] by (simp only:)
qed

text \<open>
  The bounds are needed.  A write behind a hole, or one that finds memory for a node but not for its
  array, leaves a node that the next open for writing stumbles over.
\<close>

lemma session_hole:
  "scull_session [SOpen 0 2 False, SSeek 0 16 0, SWrite 0 False [] [1] 1, SOpen 0 1 False] example_sys = Inl UninitRead"
  by code_simp

lemma session_no_memory:
  "scull_session [SOpen 0 2 False, SWrite 0 False [True, False] [1] 1, SOpen 0 1 False] example_sys = Inl UninitRead"
  by code_simp

end
