(* ===== verification/AccessTest.thy ===== *)
theory AccessTest
  imports ScullAccess
begin

text \<open>
  The test program of the access-controlled devices (\<open>ch06_advanced_char/test.c\<close>) on the model of
  \<open>ScullAccess\<close>.  The program waits until its child has opened the device, so that the child runs
  first; everybody may open the device files.  The texts printed are cut to a key word.
\<close>

subsection \<open>Users\<close>

record proc =
  pr_ruid :: nat
  pr_euid :: nat
  pr_suid :: nat
  pr_rgid :: nat
  pr_egid :: nat
  pr_sgid :: nat

text \<open>The calls as Linux documents them; the effective capabilities are those of an effective user 0.\<close>

definition seteuid :: "nat \<Rightarrow> proc \<Rightarrow> proc res" where
  "seteuid u p = (if pr_euid p = 0 \<or> u \<in> {pr_ruid p, pr_euid p, pr_suid p} then Inr (p\<lparr>pr_euid := u\<rparr>) else Inl EPERM)"

definition setegid :: "nat \<Rightarrow> proc \<Rightarrow> proc res" where
  "setegid g p = (if pr_euid p = 0 \<or> g \<in> {pr_rgid p, pr_egid p, pr_sgid p} then Inr (p\<lparr>pr_egid := g\<rparr>) else Inl EPERM)"

definition setuid :: "nat \<Rightarrow> proc \<Rightarrow> proc res" where
  "setuid u p = (if pr_euid p = 0 then Inr (p\<lparr>pr_ruid := u, pr_euid := u, pr_suid := u\<rparr>)
     else if u \<in> {pr_ruid p, pr_suid p} then Inr (p\<lparr>pr_euid := u\<rparr>) else Inl EPERM)"

definition setgid :: "nat \<Rightarrow> proc \<Rightarrow> proc res" where
  "setgid g p = (if pr_euid p = 0 then Inr (p\<lparr>pr_rgid := g, pr_egid := g, pr_sgid := g\<rparr>)
     else if g \<in> {pr_rgid p, pr_sgid p} then Inr (p\<lparr>pr_egid := g\<rparr>) else Inl EPERM)"

definition cred_of :: "proc \<Rightarrow> cred" where
  "cred_of p = \<lparr>cr_uid = pr_ruid p, cr_euid = pr_euid p, cr_dac_override = (pr_euid p = 0)\<rparr>"

text \<open>On an error the program ends with status 1.\<close>

definition drop_to_uid :: "nat \<Rightarrow> proc \<Rightarrow> proc res" where
  "drop_to_uid uid p =
     (if pr_ruid p = 0 then (case setegid uid p of Inl e \<Rightarrow> Inl e | Inr p1 \<Rightarrow> seteuid uid p1)
      else (case setgid uid p of Inl e \<Rightarrow> Inl e | Inr p1 \<Rightarrow> setuid uid p1))"

definition switch_euid :: "nat \<Rightarrow> proc \<Rightarrow> proc res" where
  "switch_euid uid p = (case seteuid 0 p of Inl e \<Rightarrow> Inl e | Inr p1 \<Rightarrow> seteuid uid p1)"

subsection \<open>The device under test\<close>

record 's access_dev =
  ad_open :: "cred \<Rightarrow> nat \<Rightarrow> 's \<Rightarrow> (unit res \<times> 's) run"
  ad_close :: "'s \<Rightarrow> 's"
  ad_write :: "byte list \<Rightarrow> 's \<Rightarrow> (nat res \<times> 's) run"

datatype tline = TOpen "unit res" | TWrote "nat res" | TOk string | TUnexpected string | TError errno

definition O_RDONLY :: nat where "O_RDONLY = 0"

definition open_report :: "'s access_dev \<Rightarrow> nat \<Rightarrow> proc \<Rightarrow> 's \<Rightarrow> (unit res \<times> tline list \<times> 's) run" where
  "open_report d flags p s = (case ad_open d (cred_of p) flags s of Inl x \<Rightarrow> Inl x | Inr (r, s1) \<Rightarrow> Inr (r, [TOpen r], s1))"

definition open_report_nb :: "'s access_dev \<Rightarrow> nat \<Rightarrow> proc \<Rightarrow> 's \<Rightarrow> (unit res \<times> tline list \<times> 's) run" where
  "open_report_nb d flags p s = open_report d (or flags O_NONBLOCK) p s"

text \<open>A child that opens the device and keeps it; whether it has it; and its end, which closes it.  A child
  that sleeps in the open does so until it is killed.\<close>

definition holder :: "'s access_dev \<Rightarrow> proc res \<Rightarrow> nat \<Rightarrow> 's \<Rightarrow> (bool \<times> tline list \<times> 's) run" where
  "holder d pc flags s = (case pc of Inl e \<Rightarrow> Inr (False, [TError e], s)
     | Inr p \<Rightarrow> (case open_report d flags p s of Inl x \<Rightarrow> (if x = Sleeps then Inr (False, [], s) else Inl x)
         | Inr (r, out, s1) \<Rightarrow> Inr (r = Inr (), out, s1)))"

definition kill_holder :: "'s access_dev \<Rightarrow> bool \<Rightarrow> 's \<Rightarrow> 's" where
  "kill_holder d held s = (if held then ad_close d s else s)"

text \<open>An attempt to open that is closed at once, with the line printed when it succeeds and when it does not.\<close>

definition try_open :: "'s access_dev \<Rightarrow> nat \<Rightarrow> proc \<Rightarrow> tline \<Rightarrow> (errno \<Rightarrow> tline) \<Rightarrow> 's \<Rightarrow> (tline list \<times> 's) run" where
  "try_open d flags p good bad s = (case open_report d flags p s of Inl x \<Rightarrow> Inl x
     | Inr (Inr _, out, s1) \<Rightarrow> Inr (out @ [good], ad_close d s1)
     | Inr (Inl e, out, s1) \<Rightarrow> Inr (out @ [bad e], s1))"

subsection \<open>The tests\<close>

text \<open>Each gives the exit status, what is printed and the state of the device.\<close>

definition test_scullsingle :: "'s access_dev \<Rightarrow> nat \<Rightarrow> nat \<Rightarrow> proc \<Rightarrow> 's \<Rightarrow> (int \<times> tline list \<times> 's) run" where
  "test_scullsingle d uid1 uid2 p s =
     (case holder d (drop_to_uid uid1 p) O_RDONLY s of Inl x \<Rightarrow> Inl x
      | Inr (held, out0, s0) \<Rightarrow> (case drop_to_uid uid2 p of Inl e \<Rightarrow> Inr (1, out0 @ [TError e], s0)
          | Inr p2 \<Rightarrow> (case try_open d O_RDONLY p2 (TUnexpected ''second'') (\<lambda>e. TOk ''second'') s0 of Inl x \<Rightarrow> Inl x
              | Inr (out1, s1) \<Rightarrow> Inr (0, out0 @ out1, kill_holder d held s1))))"

definition test_sculluid :: "'s access_dev \<Rightarrow> nat \<Rightarrow> nat \<Rightarrow> proc \<Rightarrow> 's \<Rightarrow> (int \<times> tline list \<times> 's) run" where
  "test_sculluid d uid1 uid2 p s =
     (case holder d (drop_to_uid uid1 p) O_RDONLY s of Inl x \<Rightarrow> Inl x
      | Inr (held, out0, s0) \<Rightarrow> (case drop_to_uid uid1 p of Inl e \<Rightarrow> Inr (1, out0 @ [TError e], s0)
          | Inr p1 \<Rightarrow> (case try_open d O_RDONLY p1 (TOk ''same'') (\<lambda>e. TUnexpected ''same'') s0 of Inl x \<Rightarrow> Inl x
              | Inr (out1, s1) \<Rightarrow> (case drop_to_uid uid2 p1 of Inl e \<Rightarrow> Inr (1, out0 @ out1 @ [TError e], s1)
                  | Inr p2 \<Rightarrow> (case try_open d O_RDONLY p2 (TUnexpected ''different'') (\<lambda>e. TOk ''different'') s1 of Inl x \<Rightarrow> Inl x
                      | Inr (out2, s2) \<Rightarrow> Inr (0, out0 @ out1 @ out2, kill_holder d held s2))))))"

text \<open>The first writer also writes, before it waits.\<close>

definition writer :: "'s access_dev \<Rightarrow> proc res \<Rightarrow> 's \<Rightarrow> (bool \<times> tline list \<times> 's) run" where
  "writer d pc s = (case holder d pc O_WRONLY s of Inl x \<Rightarrow> Inl x
     | Inr (held, out, s1) \<Rightarrow> (if \<not> held then Inr (held, out, s1)
         else case ad_write d [104, 101, 108, 108, 111, 10] s1 of Inl x \<Rightarrow> Inl x
           | Inr (r, s2) \<Rightarrow> Inr (held, out @ [TWrote r], s2)))"

definition test_scullwuid :: "'s access_dev \<Rightarrow> nat \<Rightarrow> nat \<Rightarrow> proc \<Rightarrow> 's \<Rightarrow> (int \<times> tline list \<times> 's) run" where
  "test_scullwuid d writer_uid other_uid p s =
     (let nb = or O_WRONLY O_NONBLOCK in
      case writer d (switch_euid writer_uid p) s of Inl x \<Rightarrow> Inl x
      | Inr (held, out0, s0) \<Rightarrow> (case switch_euid writer_uid p of Inl e \<Rightarrow> Inr (1, out0 @ [TError e], s0)
          | Inr p1 \<Rightarrow> (case try_open d nb p1 (TOk ''same'') (\<lambda>e. TUnexpected ''same'') s0 of Inl x \<Rightarrow> Inl x
              | Inr (out1, s1) \<Rightarrow> (case switch_euid other_uid p1 of Inl e \<Rightarrow> Inr (1, out0 @ out1 @ [TError e], s1)
                  | Inr p2 \<Rightarrow> (case try_open d nb p2 (TUnexpected ''other'')
                        (\<lambda>e. if e = EAGAIN \<or> e = EBUSY then TOk ''other'' else TUnexpected ''other'') s1 of Inl x \<Rightarrow> Inl x
                      | Inr (out2, s2) \<Rightarrow> (case switch_euid other_uid p2 of
                          Inl e \<Rightarrow> Inr (1, out0 @ out1 @ out2 @ [TError e], kill_holder d held s2)
                        | Inr p3 \<Rightarrow> (case try_open d nb p3 (TOk ''after'') (\<lambda>e. TUnexpected ''after'') (kill_holder d held s2) of Inl x \<Rightarrow> Inl x
                            | Inr (out3, s3) \<Rightarrow> Inr (0, out0 @ out1 @ out2 @ out3, s3))))))))"

definition test_scullpriv :: "'s access_dev \<Rightarrow> proc \<Rightarrow> 's \<Rightarrow> (int \<times> tline list \<times> 's) run" where
  "test_scullpriv d p s =
     (if pr_ruid p = 0 then
        (case (case drop_to_uid 65534 p of Inl e \<Rightarrow> Inr ([TError e], s)
             | Inr pc \<Rightarrow> (case open_report d O_RDONLY pc s of Inl x \<Rightarrow> Inl x
                 | Inr (r, out, s1) \<Rightarrow> Inr (out, if r = Inr () then ad_close d s1 else s1))) of Inl x \<Rightarrow> Inl x
         | Inr (out0, s0) \<Rightarrow> (case try_open d O_RDONLY p (TOk ''root'') (\<lambda>e. TUnexpected ''root'') s0 of Inl x \<Rightarrow> Inl x
             | Inr (out1, s1) \<Rightarrow> Inr (0, out0 @ out1, s1)))
      else (case try_open d O_RDONLY p (TUnexpected ''non-root'') (\<lambda>e. TOk ''non-root'') s of Inl x \<Rightarrow> Inl x
         | Inr (out, s1) \<Rightarrow> Inr (0, out, s1)))"

text \<open>The arguments after the program's name: the mode, and the users, as numbers, when they are given.\<close>

definition test_main :: "'s access_dev \<Rightarrow> nat \<Rightarrow> string \<Rightarrow> nat list \<Rightarrow> proc \<Rightarrow> 's \<Rightarrow> (int \<times> tline list \<times> 's) run" where
  "test_main d argc mode uids p s =
     (if argc < 3 then Inr (2, [], s)
      else let uid1 = (if argc \<ge> 4 then uids ! 0 else pr_euid p); uid2 = (if argc \<ge> 5 then uids ! 1 else (uid1 + 1) mod 2 ^ 32) in
      if mode = ''single'' then test_scullsingle d uid1 uid2 p s
      else if mode = ''uid'' then test_sculluid d uid1 uid2 p s
      else if mode = ''wuid'' then test_scullwuid d uid1 uid2 p s
      else if mode = ''priv'' then test_scullpriv d p s
      else Inr (2, [], s))"

subsection \<open>The four devices\<close>

definition scull_wuid_open :: "scull_globals \<Rightarrow> nat \<Rightarrow> cred \<Rightarrow> uid_gate \<Rightarrow> scull_dev \<Rightarrow> (unit res \<times> uid_gate \<times> scull_dev) run" where
  "scull_wuid_open g f_flags c u d =
     (case wuid_enter (and f_flags O_NONBLOCK \<noteq> 0) c u of
        WAgain \<Rightarrow> Inr (Inl EAGAIN, u, d)
      | WSleep \<Rightarrow> Inl Sleeps
      | WEnter u' \<Rightarrow> (case open_reset g f_flags d of Inl e \<Rightarrow> Inl e | Inr d' \<Rightarrow> Inr (Inr (), u', d')))"

definition single_dev :: "scull_globals \<Rightarrow> (int \<times> scull_dev) access_dev" where
  "single_dev g = \<lparr>ad_open = (\<lambda>c flags (flag, d). scull_single_open g flags flag d), ad_close = (\<lambda>(flag, d). (scull_single_release flag, d)),
     ad_write = (\<lambda>bs (flag, d). case scull_write False [] bs (length bs) 0 d of Inl x \<Rightarrow> Inl x | Inr (r, _, d') \<Rightarrow> Inr (r, flag, d'))\<rparr>"

definition uid_dev :: "scull_globals \<Rightarrow> (uid_gate \<times> scull_dev) access_dev" where
  "uid_dev g = \<lparr>ad_open = (\<lambda>c flags (u, d). scull_uid_open g flags c u d), ad_close = (\<lambda>(u, d). (scull_uid_release u, d)),
     ad_write = (\<lambda>bs (u, d). case scull_write False [] bs (length bs) 0 d of Inl x \<Rightarrow> Inl x | Inr (r, _, d') \<Rightarrow> Inr (r, u, d'))\<rparr>"

definition wuid_dev :: "scull_globals \<Rightarrow> (uid_gate \<times> scull_dev) access_dev" where
  "wuid_dev g = \<lparr>ad_open = (\<lambda>c flags (u, d). scull_wuid_open g flags c u d), ad_close = (\<lambda>(u, d). (fst (scull_wuid_release u), d)),
     ad_write = (\<lambda>bs (u, d). case scull_write False [] bs (length bs) 0 d of Inl x \<Rightarrow> Inl x | Inr (r, _, d') \<Rightarrow> Inr (r, u, d'))\<rparr>"

text \<open>All processes of the test share a terminal.\<close>

definition priv_dev :: "scull_globals \<Rightarrow> nat option \<Rightarrow> priv_list access_dev" where
  "priv_dev g tty = \<lparr>ad_open = (\<lambda>c flags l. case scull_priv_open g True flags tty l of Inl x \<Rightarrow> Inl x
       | Inr (r, l') \<Rightarrow> Inr (case r of Inl e \<Rightarrow> Inl e | Inr _ \<Rightarrow> Inr (), l')),
     ad_close = (\<lambda>l. snd (scull_priv_release l)), ad_write = (\<lambda>bs l. Inr (Inl EINVAL, l))\<rparr>"

subsection \<open>What the tests find out\<close>

text \<open>A process of \<open>root\<close> or of an ordinary user.\<close>

definition login :: "nat \<Rightarrow> nat \<Rightarrow> proc" where
  "login u g = \<lparr>pr_ruid = u, pr_euid = u, pr_suid = u, pr_rgid = g, pr_egid = g, pr_sgid = g\<rparr>"

lemma open_reset_rdonly [simp]: "open_reset g O_RDONLY d = Inr d"
  by (simp add: open_reset_def write_only_def O_RDONLY_def O_WRONLY_def)

text \<open>The test of \<open>scullsingle\<close> does its work: run by \<open>root\<close> it sees the second open refused, for all users.\<close>

lemma single_test_works:
  "test_scullsingle (single_dev g) uid1 uid2 (login 0 0) (1, d) =
     Inr (0, [TOpen (Inr ()), TOpen (Inl EBUSY), TOk ''second''], (1, d))"
  by (simp add: test_scullsingle_def holder_def kill_holder_def try_open_def open_report_def drop_to_uid_def setegid_def seteuid_def login_def
      single_dev_def scull_single_open_def scull_single_release_def atomic_dec_and_test_def)

text \<open>
  The test of \<open>sculluid\<close> never sees what it tests for.  Only the effective users of its processes
  differ, and the driver also compares the real one; and once the effective user is not 0, it cannot
  be changed again, so that the program ends with an error, its child still holding the device.
\<close>

lemma uid_test_blind:
  assumes "test_sculluid (uid_dev g) uid1 uid2 (login u gid) (\<lparr>ug_owner = own, ug_count = 0\<rparr>, d) = Inr (status, out, s')"
  shows "TOk ''different'' \<notin> set out"
  using assms
  by (auto simp: test_sculluid_def holder_def kill_holder_def try_open_def open_report_def drop_to_uid_def setegid_def seteuid_def
      setgid_def setuid_def login_def uid_dev_def scull_uid_open_def scull_uid_release_def uid_enter_def cred_of_def split: if_splits)

lemma uid_test_aborts:
  assumes "uid1 \<noteq> 0" and "uid2 \<notin> {0, uid1}"
  shows "test_sculluid (uid_dev g) uid1 uid2 (login 0 0) (\<lparr>ug_owner = own, ug_count = 0\<rparr>, d) =
    Inr (1, [TOpen (Inr ()), TOpen (Inr ()), TOk ''same'', TError EPERM], (\<lparr>ug_owner = 0, ug_count = 1\<rparr>, d))"
  using assms
  by (simp add: test_sculluid_def holder_def kill_holder_def try_open_def open_report_def drop_to_uid_def setegid_def seteuid_def
      login_def uid_dev_def scull_uid_open_def scull_uid_release_def uid_enter_def cred_of_def)

text \<open>The same of \<open>scullwuid\<close>, whoever runs it.\<close>

lemma wuid_open_owner:
  "ug_owner u = cr_uid c \<Longrightarrow> ug_count u \<noteq> 0 \<Longrightarrow> scull_wuid_open g flags c u d =
     (case open_reset g flags d of Inl e \<Rightarrow> Inl e | Inr d' \<Rightarrow> Inr (Inr (), u\<lparr>ug_count := ug_count u + 1\<rparr>, d'))"
  "ug_count u = 0 \<Longrightarrow> scull_wuid_open g flags c u d =
     (case open_reset g flags d of Inl e \<Rightarrow> Inl e | Inr d' \<Rightarrow> Inr (Inr (), u\<lparr>ug_owner := cr_uid c, ug_count := 1\<rparr>, d'))"
  by (simp_all add: scull_wuid_open_def wuid_enter_def scull_wuid_available_def wuid_take_def)

lemma try_open_owner:
  assumes "try_open (wuid_dev g) flags p good bad (u, d) = Inr (out, s1)" and "ug_owner u = pr_ruid p" and "ug_count u \<noteq> 0"
  shows "out = [TOpen (Inr ()), good] \<and> (\<exists>d'. s1 = (u, d'))"
  using assms by (auto simp: try_open_def open_report_def wuid_dev_def cred_of_def wuid_open_owner scull_wuid_release_def Let_def split: sum.splits)

lemma reset_nodes_awake: "reset_nodes first n ns = Inl x \<Longrightarrow> x \<noteq> Sleeps"
  by (induction first n ns rule: reset_nodes.induct) (auto split: if_splits sum.splits)

lemma open_reset_awake: "open_reset g flags d = Inl x \<Longrightarrow> x \<noteq> Sleeps"
  by (auto simp: open_reset_def scull_dev_reset_def dest: reset_nodes_awake split: if_splits sum.splits prod.splits)

lemma writer_owns:
  assumes "writer (wuid_dev g) (Inr p) (u, d) = Inr (held, out, s1)" and "ug_count u = 0"
  shows "set out \<inter> {TOk x} = {} \<and> (\<exists>d'. s1 = (\<lparr>ug_owner = pr_ruid p, ug_count = 1\<rparr>, d'))"
  using assms by (cases u) (auto simp: writer_def holder_def open_report_def wuid_dev_def cred_of_def wuid_open_owner
      dest: open_reset_awake split: sum.splits prod.splits if_splits)

lemma switch_euid_ruid: "switch_euid uid p = Inr p' \<Longrightarrow> pr_ruid p' = pr_ruid p"
  by (auto simp: switch_euid_def seteuid_def split: if_splits sum.splits)

lemma wuid_test_blind:
  assumes t: "test_scullwuid (wuid_dev g) writer_uid other_uid p (\<lparr>ug_owner = own, ug_count = 0\<rparr>, d) = Inr (status, out, s')"
  shows "TOk ''other'' \<notin> set out"
proof (cases "switch_euid writer_uid p")
  case (Inl e)
  with t show ?thesis by (auto simp: test_scullwuid_def writer_def holder_def)
next
  case (Inr p1)
  note r1 = switch_euid_ruid [OF Inr]
  obtain held out0 s0 where w: "writer (wuid_dev g) (Inr p1) (\<lparr>ug_owner = own, ug_count = 0\<rparr>, d) = Inr (held, out0, s0)"
    using t Inr by (cases "writer (wuid_dev g) (Inr p1) (\<lparr>ug_owner = own, ug_count = 0\<rparr>, d)") (auto simp: test_scullwuid_def)
  then obtain d0 where s0: "s0 = (\<lparr>ug_owner = pr_ruid p1, ug_count = 1\<rparr>, d0)" and o0: "TOk ''other'' \<notin> set out0"
    using writer_owns [OF w, of "''other''"] by auto
  obtain out1 s1 where a: "try_open (wuid_dev g) (or O_WRONLY O_NONBLOCK) p1 (TOk ''same'') (\<lambda>e. TUnexpected ''same'') s0 = Inr (out1, s1)"
    using t Inr w by (auto simp: test_scullwuid_def Let_def split: sum.splits prod.splits)
  obtain d1 where o1: "out1 = [TOpen (Inr ()), TOk ''same'']" "s1 = (\<lparr>ug_owner = pr_ruid p1, ug_count = 1\<rparr>, d1)"
    using try_open_owner [OF a [unfolded s0]] by auto
  show ?thesis
  proof (cases "switch_euid other_uid p1")
    case (Inl e)
    with t Inr w a o0 o1 show ?thesis by (auto simp: test_scullwuid_def Let_def)
  next
    case i2: (Inr p2)
    note r2 = switch_euid_ruid [OF i2]
    define bad where "bad = (\<lambda>e. if e = EAGAIN \<or> e = EBUSY then TOk ''other'' else TUnexpected ''other'')"
    obtain out2 s2 where b: "try_open (wuid_dev g) (or O_WRONLY O_NONBLOCK) p2 (TUnexpected ''other'') bad s1 = Inr (out2, s2)"
      using t Inr w a i2 by (auto simp: test_scullwuid_def Let_def bad_def split: sum.splits prod.splits)
    have o2: "out2 = [TOpen (Inr ()), TUnexpected ''other'']"
      using try_open_owner [OF b [unfolded o1]] r2 by auto
    have after: "try_open dv flags p3 (TOk ''after'') (\<lambda>e. TUnexpected ''after'') s3 = Inr (out3, s4) \<Longrightarrow> TOk ''other'' \<notin> set out3" for dv flags p3 s3 out3 s4
      by (auto simp: try_open_def open_report_def split: sum.splits prod.splits)
    show ?thesis
      using t Inr w a i2 b o0 o1 o2
      by (auto simp: test_scullwuid_def Let_def bad_def [symmetric] split: sum.splits prod.splits dest: after)
  qed
qed

text \<open>The one of \<open>scullpriv\<close> expects that only \<open>root\<close> may open the device; anybody with a terminal may.\<close>

lemma priv_test_fails:
  assumes "u \<noteq> 0"
  shows "test_scullpriv (priv_dev g (Some key)) (login u gid) [] = Inr (0, [TOpen (Inr ()), TUnexpected ''non-root''],
    [(key, zero_dev\<lparr>sd_quantum := g_quantum g, sd_qset := g_qset g, sd_sem := 1\<rparr>)])"
  using assms
  by (simp add: test_scullpriv_def try_open_def open_report_def login_def priv_dev_def scull_priv_open_def scull_find_listitem_def
      scull_dev_reset_def zero_dev_def scull_priv_release_def)

end
