(* ===== verification/PipeSystem.thy ===== *)
theory PipeSystem
  imports ScullPipe
begin

text \<open>
  The pipe device with any number of tasks: the critical sections of \<open>ScullPipe\<close> interleave with
  the unlocked tests of the two wait loops.  A task between two of its atomic parts is in one of
  the states of \<open>ptask\<close>; wake-ups belong to the critical section that issues them.
\<close>

subsection \<open>Tasks, open files and the history\<close>

text \<open>
  \<open>ReadTest\<close> is about to test the condition of \<open>wait_event_interruptible\<close>, \<open>ReadWait\<close> is asleep
  in it and \<open>ReadRetry\<close> takes the semaphore again; the same for a writer in
  \<open>get_write_space\<close>.  The arguments are the file and those of the call.
\<close>

datatype ptask = Idle
  | ReadTest nat nat nat | ReadWait nat nat nat | ReadRetry nat nat nat
  | WriteTest nat "byte list" nat | WriteWait nat "byte list" nat | WriteRetry nat "byte list" nat

text \<open>An open file is its number with its modes: writing, reading.\<close>

record pipe_sys =
  ps_pipe :: scull_pipe
  ps_files :: "(nat \<times> bool \<times> bool) list"
  ps_task :: "nat \<Rightarrow> ptask"
  ps_in :: "byte list"
  ps_out :: "byte list"

fun wake_reader :: "ptask \<Rightarrow> ptask" where
  "wake_reader (ReadWait f u c) = ReadTest f u c"
| "wake_reader t = t"

fun wake_writer :: "ptask \<Rightarrow> ptask" where
  "wake_writer (WriteWait f x c) = WriteRetry f x c"
| "wake_writer t = t"

subsection \<open>Calls\<close>

text \<open>The read loop from \<open>down\<close> on: leave to sleep, return, or return and wake the writers.\<close>

definition scull_p_read :: "nat \<Rightarrow> nat \<Rightarrow> bool \<Rightarrow> nat \<Rightarrow> nat \<Rightarrow> pipe_sys \<Rightarrow> (byte list res option \<times> pipe_sys) run" where
  "scull_p_read t f nonblock ulen count s =
     (case p_read_cs nonblock ulen count (ps_pipe s) of
        Inl e \<Rightarrow> Inl e
      | Inr (Sleep, d) \<Rightarrow> Inr (None, s\<lparr>ps_pipe := d, ps_task := (ps_task s)(t := ReadTest f ulen count)\<rparr>)
      | Inr (Ret (Inl e), d) \<Rightarrow> Inr (Some (Inl e), s\<lparr>ps_pipe := d, ps_task := (ps_task s)(t := Idle)\<rparr>)
      | Inr (Ret (Inr bs), d) \<Rightarrow>
          (if sp_rp (ps_pipe s) = sp_wp (ps_pipe s)
           then Inr (Some (Inr bs), s\<lparr>ps_pipe := d, ps_task := (ps_task s)(t := Idle)\<rparr>)
           else Inr (Some (Inr bs), s\<lparr>ps_pipe := d, ps_task := (wake_writer \<circ> ps_task s)(t := Idle),
                 ps_out := ps_out s @ bs\<rparr>)))"

definition scull_p_write :: "nat \<Rightarrow> nat \<Rightarrow> bool \<Rightarrow> byte list \<Rightarrow> nat \<Rightarrow> pipe_sys \<Rightarrow> (nat res option \<times> pipe_sys) run" where
  "scull_p_write t f nonblock ubuf count s =
     (case p_write_cs nonblock ubuf count (ps_pipe s) of
        Inl e \<Rightarrow> Inl e
      | Inr (Sleep, d) \<Rightarrow> Inr (None, s\<lparr>ps_pipe := d, ps_task := (ps_task s)(t := WriteTest f ubuf count)\<rparr>)
      | Inr (Ret (Inl e), d) \<Rightarrow> Inr (Some (Inl e), s\<lparr>ps_pipe := d, ps_task := (ps_task s)(t := Idle)\<rparr>)
      | Inr (Ret (Inr n), d) \<Rightarrow>
          Inr (Some (Inr n), s\<lparr>ps_pipe := d, ps_task := (wake_reader \<circ> ps_task s)(t := Idle),
                 ps_in := ps_in s @ take n ubuf\<rparr>))"

subsection \<open>Steps\<close>

datatype plabel = OpenFile bool bool | ReleaseFile nat | ReadCall nat | WriteCall nat
  | TestWait nat | Retake nat | Signal nat

fun task_file :: "ptask \<Rightarrow> (nat \<times> bool) option" where
  "task_file Idle = None"
| "task_file (ReadTest f _ _) = Some (f, True)"
| "task_file (ReadWait f _ _) = Some (f, True)"
| "task_file (ReadRetry f _ _) = Some (f, True)"
| "task_file (WriteTest f _ _) = Some (f, False)"
| "task_file (WriteWait f _ _) = Some (f, False)"
| "task_file (WriteRetry f _ _) = Some (f, False)"

inductive pipe_step :: "pipe_sys \<Rightarrow> plabel \<Rightarrow> pipe_sys \<Rightarrow> bool" where
  open_file: "f \<notin> fst ` set (ps_files s) \<Longrightarrow> w \<or> r \<Longrightarrow>
     scull_p_open False ok junk w r (ps_pipe s) = (Inr (), d) \<Longrightarrow>
     pipe_step s (OpenFile w r) (s\<lparr>ps_pipe := d, ps_files := (f, w, r) # ps_files s,
        ps_in := (if sp_buf (ps_pipe s) = None then [] else ps_in s),
        ps_out := (if sp_buf (ps_pipe s) = None then [] else ps_out s)\<rparr>)"
| release_file: "(f, w, r) \<in> set (ps_files s) \<Longrightarrow> \<forall>t. \<forall>b. task_file (ps_task s t) \<noteq> Some (f, b) \<Longrightarrow>
     scull_p_release f w r (ps_pipe s) = (wake, d) \<Longrightarrow>
     pipe_step s (ReleaseFile f) (s\<lparr>ps_pipe := d, ps_files := filter (\<lambda>x. fst x \<noteq> f) (ps_files s),
        ps_task := (if wake then wake_reader \<circ> ps_task s else ps_task s)\<rparr>)"
| read_call: "ps_task s t = Idle \<Longrightarrow> (f, w, True) \<in> set (ps_files s) \<Longrightarrow>
     scull_p_read t f nonblock ulen count s = Inr (r, s') \<Longrightarrow> pipe_step s (ReadCall t) s'"
| read_retry: "ps_task s t = ReadRetry f ulen count \<Longrightarrow>
     scull_p_read t f False ulen count s = Inr (r, s') \<Longrightarrow> pipe_step s (Retake t) s'"
| read_test: "ps_task s t = ReadTest f ulen count \<Longrightarrow>
     pipe_step s (TestWait t) (s\<lparr>ps_task := (ps_task s)(t :=
       (if sp_rp (ps_pipe s) \<noteq> sp_wp (ps_pipe s) then ReadRetry f ulen count else ReadWait f ulen count))\<rparr>)"
| write_call: "ps_task s t = Idle \<Longrightarrow> (f, True, r) \<in> set (ps_files s) \<Longrightarrow>
     scull_p_write t f nonblock ubuf count s = Inr (rr, s') \<Longrightarrow> pipe_step s (WriteCall t) s'"
| write_retry: "ps_task s t = WriteRetry f ubuf count \<Longrightarrow>
     scull_p_write t f False ubuf count s = Inr (rr, s') \<Longrightarrow> pipe_step s (Retake t) s'"
| write_test: "ps_task s t = WriteTest f ubuf count \<Longrightarrow>
     pipe_step s (TestWait t) (s\<lparr>ps_task := (ps_task s)(t :=
       (if get_spacefree (ps_pipe s) = 0 then WriteWait f ubuf count else WriteRetry f ubuf count))\<rparr>)"
| write_spurious: "ps_task s t = WriteTest f ubuf count \<Longrightarrow>
     pipe_step s (TestWait t) (s\<lparr>ps_task := (ps_task s)(t := WriteRetry f ubuf count)\<rparr>)"
| signal: "ps_task s t \<noteq> Idle \<Longrightarrow>
     pipe_step s (Signal t) (s\<lparr>ps_task := (ps_task s)(t := Idle)\<rparr>)"

definition pipe_init :: pipe_sys where
  "pipe_init = \<lparr>ps_pipe = pipe_zero, ps_files = [], ps_task = (\<lambda>_. Idle), ps_in = [], ps_out = []\<rparr>"

inductive pipe_reach :: "pipe_sys \<Rightarrow> bool" where
  init: "pipe_reach pipe_init"
| step: "pipe_reach s \<Longrightarrow> pipe_step s l s' \<Longrightarrow> pipe_reach s'"

subsection \<open>The invariant\<close>

definition readers :: "(nat \<times> bool \<times> bool) list \<Rightarrow> int" where
  "readers fs = int (length (filter (\<lambda>(_, _, r). r) fs))"

definition writers :: "(nat \<times> bool \<times> bool) list \<Rightarrow> int" where
  "writers fs = int (length (filter (\<lambda>(_, w, _). w) fs))"

text \<open>The counts are those of the open files, and the buffer lives as long as one is open.\<close>

definition files_inv :: "pipe_sys \<Rightarrow> bool" where
  "files_inv s \<longleftrightarrow> distinct (map fst (ps_files s)) \<and> (\<forall>(f, w, r)\<in>set (ps_files s). w \<or> r) \<and>
     sp_nreaders (ps_pipe s) = readers (ps_files s) \<and> sp_nwriters (ps_pipe s) = writers (ps_files s) \<and>
     (if ps_files s = [] then sp_buf (ps_pipe s) = None else pipe_ok (ps_pipe s))"

text \<open>A task in a call holds an open file of the mode it needs.\<close>

definition held :: "(nat \<times> bool \<times> bool) list \<Rightarrow> ptask \<Rightarrow> bool" where
  "held fs t \<longleftrightarrow> (case task_file t of None \<Rightarrow> True
     | Some (f, True) \<Rightarrow> \<exists>w. (f, w, True) \<in> set fs
     | Some (f, False) \<Rightarrow> \<exists>r. (f, True, r) \<in> set fs)"

text \<open>A task sleeps only while its condition is false: no wake-up is lost.\<close>

definition asleep_ok :: "scull_pipe \<Rightarrow> ptask \<Rightarrow> bool" where
  "asleep_ok d t \<longleftrightarrow> (case t of ReadWait _ _ _ \<Rightarrow> sp_rp d = sp_wp d
     | WriteWait _ _ _ \<Rightarrow> get_spacefree d = 0 | _ \<Rightarrow> True)"

text \<open>The bytes accepted since the buffer was allocated are those delivered and those in it.\<close>

definition history_inv :: "pipe_sys \<Rightarrow> bool" where
  "history_inv s \<longleftrightarrow> (ps_files s \<noteq> [] \<longrightarrow> ps_in s = ps_out s @ pipe_contents (ps_pipe s))"

definition sys_inv :: "pipe_sys \<Rightarrow> bool" where
  "sys_inv s \<longleftrightarrow> files_inv s \<and> (\<forall>t. held (ps_files s) (ps_task s t)) \<and>
     (\<forall>t. asleep_ok (ps_pipe s) (ps_task s t)) \<and> history_inv s"

lemma held_Idle [simp]: "held fs Idle"
  by (simp add: held_def)

lemma asleep_Idle [simp]: "asleep_ok d Idle"
  by (simp add: asleep_ok_def)

lemma held_wake [simp]: "held fs (wake_reader t) = held fs t" "held fs (wake_writer t) = held fs t"
  by (cases t; simp add: held_def)+

lemma asleep_wake:
  "sp_rp d = sp_wp d \<or> wake_reader t = t \<Longrightarrow> asleep_ok d t \<Longrightarrow> asleep_ok d (wake_reader t)"
  by (cases t) (auto simp: asleep_ok_def)

lemma nonempty_files: "held fs t \<Longrightarrow> task_file t \<noteq> None \<Longrightarrow> fs \<noteq> []"
  by (auto simp: held_def split: option.splits prod.splits bool.splits)

lemma asleep_after_read:
  "sp_rp d \<noteq> sp_wp d \<Longrightarrow> asleep_ok d t \<Longrightarrow> asleep_ok d' (wake_writer t)"
  by (cases t) (auto simp: asleep_ok_def)

lemma asleep_after_write:
  "get_spacefree d \<noteq> 0 \<Longrightarrow> asleep_ok d t \<Longrightarrow> asleep_ok d' (wake_reader t)"
  by (cases t) (auto simp: asleep_ok_def)

lemma asleep_after_fault:
  "get_spacefree d \<noteq> 0 \<Longrightarrow> sp_rp d' = sp_rp d \<Longrightarrow> sp_wp d' = sp_wp d \<Longrightarrow> asleep_ok d t \<Longrightarrow> asleep_ok d' t"
  by (cases t) (auto simp: asleep_ok_def)

lemma asleep_unmoved:
  "sp_rp d' = sp_rp d \<Longrightarrow> sp_wp d' = sp_wp d \<Longrightarrow> sp_buffersize d' = sp_buffersize d \<Longrightarrow>
     asleep_ok d' t = asleep_ok d t"
  by (simp add: asleep_ok_def get_spacefree_def split: ptask.split)

lemma sys_invI:
  assumes "files_inv s" and "\<And>t. held (ps_files s) (ps_task s t)"
    and "\<And>t. asleep_ok (ps_pipe s) (ps_task s t)" and "history_inv s"
  shows "sys_inv s"
  using assms by (simp add: sys_inv_def)

lemma sys_inv_pipe_ok: "sys_inv s \<Longrightarrow> (f, w, r) \<in> set (ps_files s) \<Longrightarrow> pipe_ok (ps_pipe s)"
  by (auto simp: sys_inv_def files_inv_def split: if_splits)

text \<open>A step that only changes the state of one task.\<close>

lemma sys_inv_task:
  assumes "sys_inv s" and "held (ps_files s) x" and "asleep_ok (ps_pipe s) x"
  shows "sys_inv (s\<lparr>ps_task := (ps_task s)(t := x)\<rparr>)"
  using assms by (auto simp: sys_inv_def files_inv_def history_inv_def split: if_splits)

lemma read_cases:
  assumes ok: "pipe_ok (ps_pipe s)"
  obtains (eof) "sp_rp (ps_pipe s) = sp_wp (ps_pipe s)" "sp_nwriters (ps_pipe s) = 0"
      "scull_p_read t f nb ulen count s = Inr (Some (Inr []), s\<lparr>ps_task := (ps_task s)(t := Idle)\<rparr>)"
  | (again) "sp_rp (ps_pipe s) = sp_wp (ps_pipe s)" "sp_nwriters (ps_pipe s) \<noteq> 0" "nb"
      "scull_p_read t f nb ulen count s = Inr (Some (Inl EAGAIN), s\<lparr>ps_task := (ps_task s)(t := Idle)\<rparr>)"
  | (sleep) "sp_rp (ps_pipe s) = sp_wp (ps_pipe s)" "sp_nwriters (ps_pipe s) \<noteq> 0" "\<not> nb"
      "scull_p_read t f nb ulen count s = Inr (None, s\<lparr>ps_task := (ps_task s)(t := ReadTest f ulen count)\<rparr>)"
  | (fault) "sp_rp (ps_pipe s) \<noteq> sp_wp (ps_pipe s)" "ulen < read_len (ps_pipe s) count"
      "scull_p_read t f nb ulen count s = Inr (Some (Inl EFAULT), s\<lparr>ps_task := (ps_task s)(t := Idle)\<rparr>)"
  | (data) n d' where "sp_rp (ps_pipe s) \<noteq> sp_wp (ps_pipe s)" "n = read_len (ps_pipe s) count" "\<not> ulen < n"
      "d' = (ps_pipe s)\<lparr>sp_rp := advance (ps_pipe s) (sp_rp (ps_pipe s)) n\<rparr>" "pipe_ok d'"
      "pipe_contents d' = drop n (pipe_contents (ps_pipe s))" "n \<le> length (pipe_contents (ps_pipe s))"
      "0 < count \<longrightarrow> 0 < n"
      "scull_p_read t f nb ulen count s = Inr (Some (Inr (take n (pipe_contents (ps_pipe s)))),
         s\<lparr>ps_pipe := d', ps_task := (wake_writer \<circ> ps_task s)(t := Idle),
           ps_out := ps_out s @ take n (pipe_contents (ps_pipe s))\<rparr>)"
proof (cases "sp_rp (ps_pipe s) = sp_wp (ps_pipe s)")
  case True
  then show thesis using eof again sleep
    by (cases "sp_nwriters (ps_pipe s) = 0"; cases nb) (simp_all add: scull_p_read_def p_read_cs_def)
next
  case False
  show thesis
  proof (rule p_read_spec [OF ok False, of nb ulen count])
    fix d' assume *: "p_read_cs nb ulen count (ps_pipe s) =
        (if ulen < read_len (ps_pipe s) count then Inr (Ret (Inl EFAULT), ps_pipe s)
         else Inr (Ret (Inr (take (read_len (ps_pipe s) count) (pipe_contents (ps_pipe s)))), d'))"
      "d' = (ps_pipe s)\<lparr>sp_rp := advance (ps_pipe s) (sp_rp (ps_pipe s)) (read_len (ps_pipe s) count)\<rparr>"
      "pipe_ok d'" "pipe_contents d' = drop (read_len (ps_pipe s) count) (pipe_contents (ps_pipe s))"
      "read_len (ps_pipe s) count \<le> length (pipe_contents (ps_pipe s))"
      "0 < count \<Longrightarrow> 0 < read_len (ps_pipe s) count"
    show thesis
    proof (cases "ulen < read_len (ps_pipe s) count")
      case True
      with False * fault show thesis by (simp add: scull_p_read_def)
    next
      case nf: False
      show thesis
        by (rule data [OF False refl nf *(2,3,4,5)]) (use False nf * in \<open>simp_all add: scull_p_read_def\<close>)
    qed
  qed
qed

lemma read_preserves:
  assumes inv: "sys_inv s" and f: "(f, w, True) \<in> set (ps_files s)"
    and r: "scull_p_read t f nb ulen count s = Inr (r, s')"
  shows "sys_inv s'"
proof -
  have ok: "pipe_ok (ps_pipe s)" by (rule sys_inv_pipe_ok [OF inv f])
  have held: "held (ps_files s) (ReadTest f ulen count)" using f by (auto simp: held_def)
  from ok show ?thesis
  proof (cases rule: read_cases [of s t f nb ulen count])
    case sleep
    with r inv held show ?thesis by (auto intro!: sys_inv_task simp: asleep_ok_def)
  next
    case (data n d')
    note d' = data(4)
    have s': "s' = s\<lparr>ps_pipe := d', ps_task := (wake_writer \<circ> ps_task s)(t := Idle),
           ps_out := ps_out s @ take n (pipe_contents (ps_pipe s))\<rparr>" using r data(9) by simp
    have files: "ps_files s \<noteq> []" using f by auto
    show ?thesis
    proof (rule sys_invI)
      show "files_inv s'" using inv data(5) files by (simp add: s' sys_inv_def files_inv_def d')
      show "history_inv s'" using inv data(6) by (simp add: s' sys_inv_def history_inv_def)
      show "held (ps_files s') (ps_task s' t')" for t' using inv by (simp add: s' sys_inv_def)
      show "asleep_ok (ps_pipe s') (ps_task s' t')" for t'
        using inv asleep_after_read [OF data(1)] by (simp add: s' sys_inv_def)
    qed
  qed (use r inv in \<open>auto intro!: sys_inv_task\<close>)
qed

lemma write_cases:
  assumes ok: "pipe_ok (ps_pipe s)"
  obtains (again) "get_spacefree (ps_pipe s) = 0" "nb"
      "scull_p_write t f nb ubuf count s = Inr (Some (Inl EAGAIN), s\<lparr>ps_task := (ps_task s)(t := Idle)\<rparr>)"
  | (sleep) "get_spacefree (ps_pipe s) = 0" "\<not> nb"
      "scull_p_write t f nb ubuf count s = Inr (None, s\<lparr>ps_task := (ps_task s)(t := WriteTest f ubuf count)\<rparr>)"
  | (go) n d' where "get_spacefree (ps_pipe s) \<noteq> 0" "n = write_len (ps_pipe s) count" "pipe_ok d'"
      "sp_rp d' = sp_rp (ps_pipe s)" "sp_nreaders d' = sp_nreaders (ps_pipe s)" "sp_nwriters d' = sp_nwriters (ps_pipe s)"
      "pipe_contents d' = pipe_contents (ps_pipe s) @ (if length ubuf < n then [] else take n ubuf)"
      "scull_p_write t f nb ubuf count s =
        (if length ubuf < n then Inr (Some (Inl EFAULT), s\<lparr>ps_pipe := d', ps_task := (ps_task s)(t := Idle)\<rparr>)
         else Inr (Some (Inr n), s\<lparr>ps_pipe := d', ps_task := (wake_reader \<circ> ps_task s)(t := Idle),
             ps_in := ps_in s @ take n ubuf\<rparr>))"
      "length ubuf < n \<longrightarrow> sp_wp d' = sp_wp (ps_pipe s)"
proof (cases "get_spacefree (ps_pipe s) = 0")
  case True
  then show thesis using again sleep by (cases nb) (simp_all add: scull_p_write_def p_write_cs_def)
next
  case False
  show thesis
  proof (rule p_write_spec [OF ok False, of nb ubuf count])
    fix d' assume *: "p_write_cs nb ubuf count (ps_pipe s) =
        Inr (Ret (if length ubuf < write_len (ps_pipe s) count then Inl EFAULT else Inr (write_len (ps_pipe s) count)), d')"
      "pipe_ok d'" "sp_rp d' = sp_rp (ps_pipe s)"
      "sp_nreaders d' = sp_nreaders (ps_pipe s)" "sp_nwriters d' = sp_nwriters (ps_pipe s)"
      "pipe_contents d' = pipe_contents (ps_pipe s) @
        (if length ubuf < write_len (ps_pipe s) count then [] else take (write_len (ps_pipe s) count) ubuf)"
      "length ubuf < write_len (ps_pipe s) count \<Longrightarrow> sp_wp d' = sp_wp (ps_pipe s)"
    show thesis
      by (rule go [OF False refl *(2-6)]) (use * in \<open>simp_all add: scull_p_write_def\<close>)
  qed
qed

lemma write_preserves:
  assumes inv: "sys_inv s" and f: "(f, True, r) \<in> set (ps_files s)"
    and w: "scull_p_write t f nb ubuf count s = Inr (rr, s')"
  shows "sys_inv s'"
proof -
  have ok: "pipe_ok (ps_pipe s)" by (rule sys_inv_pipe_ok [OF inv f])
  have held: "held (ps_files s) (WriteTest f ubuf count)" using f by (auto simp: held_def)
  from ok show ?thesis
  proof (cases rule: write_cases [where t = t and f = f and nb = nb and ubuf = ubuf and count = count])
    case sleep
    with w inv held show ?thesis by (auto intro!: sys_inv_task simp: asleep_ok_def)
  next
    case (go n d')
    have files: "ps_files s \<noteq> []" using f by auto
    show ?thesis
    proof (cases "length ubuf < n")
      case True
      have s': "s' = s\<lparr>ps_pipe := d', ps_task := (ps_task s)(t := Idle)\<rparr>" using w go(8) True by simp
      show ?thesis
      proof (rule sys_invI)
        show "files_inv s'" using inv go files by (simp add: s' sys_inv_def files_inv_def)
        show "history_inv s'" using inv go(7) True by (simp add: s' sys_inv_def history_inv_def)
        show "held (ps_files s') (ps_task s' t')" for t' using inv by (simp add: s' sys_inv_def)
        show "asleep_ok (ps_pipe s') (ps_task s' t')" for t'
          using inv go(4,9) True asleep_after_fault [OF go(1)] by (simp add: s' sys_inv_def)
      qed
    next
      case False
      have s': "s' = s\<lparr>ps_pipe := d', ps_task := (wake_reader \<circ> ps_task s)(t := Idle), ps_in := ps_in s @ take n ubuf\<rparr>"
        using w go(8) False by simp
      show ?thesis
      proof (rule sys_invI)
        show "files_inv s'" using inv go files by (simp add: s' sys_inv_def files_inv_def)
        show "history_inv s'" using inv go(7) False by (simp add: s' sys_inv_def history_inv_def)
        show "held (ps_files s') (ps_task s' t')" for t' using inv by (simp add: s' sys_inv_def)
        show "asleep_ok (ps_pipe s') (ps_task s' t')" for t'
          using inv asleep_after_write [OF go(1)] by (simp add: s' sys_inv_def)
      qed
    qed
  qed (use w inv in \<open>auto intro!: sys_inv_task\<close>)
qed

lemma open_preserves:
  assumes inv: "sys_inv s" and fresh: "f \<notin> fst ` set (ps_files s)" and mode: "w \<or> r"
    and o: "scull_p_open False ok junk w r (ps_pipe s) = (Inr (), d)"
  shows "sys_inv (s\<lparr>ps_pipe := d, ps_files := (f, w, r) # ps_files s,
        ps_in := (if sp_buf (ps_pipe s) = None then [] else ps_in s),
        ps_out := (if sp_buf (ps_pipe s) = None then [] else ps_out s)\<rparr>)"
proof -
  have buf: "sp_buf (ps_pipe s) = None \<longleftrightarrow> ps_files s = []"
    using inv by (auto simp: sys_inv_def files_inv_def pipe_ok_def split: if_splits option.splits)
  have counts: "sp_nreaders d = readers ((f, w, r) # ps_files s)" "sp_nwriters d = writers ((f, w, r) # ps_files s)"
    using inv o by (auto simp: scull_p_open_def sys_inv_def files_inv_def readers_def writers_def
        split: option.splits if_splits)
  have held: "held ((f, w, r) # ps_files s) t" if "held (ps_files s) t" for t
    using that by (auto simp: held_def split: option.splits bool.splits prod.splits)
  have ok: "pipe_ok d" and asleep: "ps_files s \<noteq> [] \<Longrightarrow> asleep_ok d t = asleep_ok (ps_pipe s) t"
    and cont: "pipe_contents d = (if ps_files s = [] then [] else pipe_contents (ps_pipe s))" for t
    using o inv buf
    by (auto simp: scull_p_open_def sys_inv_def files_inv_def pipe_ok_def scull_p_buffer_def asleep_ok_def
        get_spacefree_def pipe_contents_def split: option.splits if_splits ptask.split)
  define s' where "s' = s\<lparr>ps_pipe := d, ps_files := (f, w, r) # ps_files s,
        ps_in := (if sp_buf (ps_pipe s) = None then [] else ps_in s),
        ps_out := (if sp_buf (ps_pipe s) = None then [] else ps_out s)\<rparr>"
  have "sys_inv s'"
  proof (rule sys_invI)
    show "files_inv s'" using inv fresh mode counts ok by (auto simp: s'_def sys_inv_def files_inv_def)
    show "held (ps_files s') (ps_task s' t)" for t using inv held by (simp add: s'_def sys_inv_def)
    show "asleep_ok (ps_pipe s') (ps_task s' t)" for t
    proof (cases "ps_files s = []")
      case True
      have "held [] (ps_task s t)" using inv True by (simp add: sys_inv_def)
      then have "task_file (ps_task s t) = None" using nonempty_files by blast
      then show ?thesis by (cases "ps_task s t") (auto simp: s'_def)
    next
      case False
      with inv asleep show ?thesis by (simp add: s'_def sys_inv_def)
    qed
    show "history_inv s'" using inv cont buf by (auto simp: s'_def sys_inv_def history_inv_def)
  qed
  then show ?thesis by (simp add: s'_def)
qed

lemma close_counts:
  assumes "distinct (map fst fs)" and "(f, w, r) \<in> set fs"
  shows "readers fs = readers (filter (\<lambda>x. fst x \<noteq> f) fs) + of_bool r"
    and "writers fs = writers (filter (\<lambda>x. fst x \<noteq> f) fs) + of_bool w"
proof -
  have "readers fs = readers (filter (\<lambda>x. fst x \<noteq> f) fs) + of_bool r \<and>
    writers fs = writers (filter (\<lambda>x. fst x \<noteq> f) fs) + of_bool w"
    using assms
  proof (induction fs)
    case (Cons x fs)
    show ?case
    proof (cases "fst x = f")
      case True
      then have "filter (\<lambda>x. fst x \<noteq> f) fs = fs" using Cons.prems(1) by (auto simp: filter_id_conv image_iff)
      moreover have "x = (f, w, r)" using Cons.prems True by (force simp: image_iff)
      ultimately show ?thesis using True by (simp add: readers_def writers_def)
    next
      case False
      with Cons show ?thesis by (auto simp: readers_def writers_def split: prod.splits)
    qed
  qed simp
  then show "readers fs = readers (filter (\<lambda>x. fst x \<noteq> f) fs) + of_bool r"
    and "writers fs = writers (filter (\<lambda>x. fst x \<noteq> f) fs) + of_bool w" by auto
qed

lemma no_counts_empty:
  "\<forall>(f, w, r)\<in>set fs. w \<or> r \<Longrightarrow> readers fs = 0 \<and> writers fs = 0 \<longleftrightarrow> fs = []"
  by (cases fs) (auto simp: readers_def writers_def)

lemma release_eq:
  "scull_p_release f w r d = (wake, d') \<Longrightarrow>
     wake = (w \<and> sp_nwriters d' = 0) \<and>
     sp_nwriters d' = sp_nwriters d - of_bool w \<and> sp_nreaders d' = sp_nreaders d - of_bool r \<and>
     sp_buf d' = (if sp_nreaders d' = 0 \<and> sp_nwriters d' = 0 then None else sp_buf d) \<and>
     sp_rp d' = sp_rp d \<and> sp_wp d' = sp_wp d \<and> sp_buffersize d' = sp_buffersize d"
  by (auto simp: scull_p_release_def scull_p_fasync_def Let_def split: if_splits)

lemma release_preserves:
  assumes inv: "sys_inv s" and f: "(f, w, r) \<in> set (ps_files s)"
    and free: "\<forall>t. \<forall>b. task_file (ps_task s t) \<noteq> Some (f, b)"
    and rel: "scull_p_release f w r (ps_pipe s) = (wake, d)"
  shows "sys_inv (s\<lparr>ps_pipe := d, ps_files := filter (\<lambda>x. fst x \<noteq> f) (ps_files s),
        ps_task := (if wake then wake_reader \<circ> ps_task s else ps_task s)\<rparr>)"
proof -
  define fs where "fs = filter (\<lambda>x. fst x \<noteq> f) (ps_files s)"
  define s' where "s' = s\<lparr>ps_pipe := d, ps_files := fs,
        ps_task := (if wake then wake_reader \<circ> ps_task s else ps_task s)\<rparr>"
  note d = release_eq [OF rel]
  have finv: "distinct (map fst (ps_files s))" "\<forall>(f, w, r)\<in>set (ps_files s). w \<or> r"
    "sp_nreaders (ps_pipe s) = readers (ps_files s)" "sp_nwriters (ps_pipe s) = writers (ps_files s)"
    using inv by (auto simp: sys_inv_def files_inv_def)
  have counts: "sp_nreaders d = readers fs" "sp_nwriters d = writers fs"
    using d finv close_counts [OF finv(1) f] by (simp_all add: fs_def)
  have ok: "pipe_ok (ps_pipe s)" by (rule sys_inv_pipe_ok [OF inv f])
  have buf: "sp_buf d = (if fs = [] then None else sp_buf (ps_pipe s))"
    using d counts no_counts_empty [of fs] finv(2) by (auto simp: fs_def)
  have same: "fs \<noteq> [] \<Longrightarrow> pipe_ok d \<and> pipe_contents d = pipe_contents (ps_pipe s)"
  proof -
    assume "fs \<noteq> []"
    moreover have "sp_rp d = sp_rp (ps_pipe s)" "sp_wp d = sp_wp (ps_pipe s)"
      "sp_buffersize d = sp_buffersize (ps_pipe s)" using d by auto
    ultimately show ?thesis using ok buf by (simp add: pipe_ok_def pipe_contents_def split: option.splits)
  qed
  have held: "held fs (ps_task s t)" for t
  proof -
    have "held (ps_files s) (ps_task s t)" using inv by (simp add: sys_inv_def)
    moreover have "\<forall>b. task_file (ps_task s t) \<noteq> Some (f, b)" using free by blast
    ultimately show ?thesis by (auto simp: held_def fs_def split: option.splits prod.splits bool.splits)
  qed
  have asleep: "asleep_ok d (ps_task s t)" for t
    using inv asleep_unmoved [of d "ps_pipe s"] d by (simp add: sys_inv_def)
  have asleep': "asleep_ok d (wake_reader (ps_task s t))" for t
    using asleep [of t] by (cases "ps_task s t") (auto simp: asleep_ok_def)
  have "sys_inv s'"
  proof (rule sys_invI)
    show "files_inv s'"
      using finv counts same buf by (auto simp: s'_def files_inv_def fs_def distinct_map_filter)
    show "held (ps_files s') (ps_task s' t)" for t using held by (simp add: s'_def)
    show "asleep_ok (ps_pipe s') (ps_task s' t)" for t using asleep asleep' by (simp add: s'_def)
    show "history_inv s'"
      using inv same f by (auto simp: s'_def sys_inv_def history_inv_def)
  qed
  then show ?thesis by (simp add: s'_def fs_def)
qed

lemma held_file:
  assumes "sys_inv s" and "task_file (ps_task s t) = Some (f, b)"
  shows "if b then \<exists>w. (f, w, True) \<in> set (ps_files s) else \<exists>r. (f, True, r) \<in> set (ps_files s)"
proof -
  have "held (ps_files s) (ps_task s t)" using assms(1) by (simp add: sys_inv_def)
  with assms(2) show ?thesis by (cases b) (auto simp: held_def)
qed

lemma held_task: "sys_inv s \<Longrightarrow> ps_task s t = x \<Longrightarrow> held (ps_files s) x"
  by (auto simp: sys_inv_def)

lemma step_preserves: "pipe_step s l s' \<Longrightarrow> sys_inv s \<Longrightarrow> sys_inv s'"
proof (induction rule: pipe_step.induct)
  case (read_retry s t f ulen count r s')
  from held_file [OF read_retry.prems, of t f True] read_retry obtain w where "(f, w, True) \<in> set (ps_files s)" by auto
  with read_retry show ?case by (blast intro: read_preserves)
next
  case (write_retry s t f ubuf count rr s')
  from held_file [OF write_retry.prems, of t f False] write_retry obtain r where "(f, True, r) \<in> set (ps_files s)" by auto
  with write_retry show ?case by (blast intro: write_preserves)
next
  case (read_test s t f ulen count)
  show ?case using read_test held_task [OF read_test.prems read_test.hyps(1)] by (intro sys_inv_task) (auto simp: held_def asleep_ok_def)
next
  case (write_test s t f ubuf count)
  show ?case using write_test held_task [OF write_test.prems write_test.hyps(1)] by (intro sys_inv_task) (auto simp: held_def asleep_ok_def)
next
  case (write_spurious s t f ubuf count)
  show ?case using write_spurious held_task [OF write_spurious.prems write_spurious.hyps(1)] by (intro sys_inv_task) (auto simp: held_def asleep_ok_def)
qed (blast intro: open_preserves release_preserves read_preserves write_preserves sys_inv_task held_Idle asleep_Idle)+

lemma reach_inv: "pipe_reach s \<Longrightarrow> sys_inv s"
proof (induction rule: pipe_reach.induct)
  case init
  show ?case
    by (simp add: sys_inv_def files_inv_def history_inv_def pipe_init_def pipe_zero_def readers_def writers_def)
qed (rule step_preserves)

subsection \<open>Properties\<close>

definition pipe_fresh :: scull_pipe where
  "pipe_fresh = pipe_zero\<lparr>sp_buf := Some (replicate scull_p_buffer 0), sp_buffersize := scull_p_buffer,
     sp_nreaders := 1, sp_nwriters := 1\<rparr>"

lemma pipe_fresh_ok: "pipe_ok pipe_fresh" "pipe_contents pipe_fresh = []" "pipe_capacity pipe_fresh = 99"
  by (simp_all add: pipe_fresh_def pipe_zero_def pipe_ok_def pipe_contents_def pipe_capacity_def scull_p_buffer_def)

text \<open>For any sequence of non-blocking writes and reads on a freshly opened pipe, the bytes
  delivered are the first ones accepted, in order, and at most 99 are outstanding.\<close>

lemma pipe_sequential_fifo:
  assumes "pipe.run_ops ops pipe_fresh = (accepted, delivered, d)"
  shows "delivered = take (length delivered) accepted \<and> length accepted \<le> length delivered + 99 \<and>
    accepted = delivered @ pipe_contents d"
  using pipe.delivered_prefix [OF pipe_fresh_ok(1) assms] pipe.run_ops_fifo [OF pipe_fresh_ok(1) assms]
  by (simp add: pipe_fresh_ok)

lemma pipe_sequential_fifo_witness:
  "\<exists>d. pipe.run_ops [Put [1, 2, 3], Get 2, Put [4], Get 9] pipe_fresh = ([1, 2, 3, 4], [1, 2, 3, 4], d) \<and>
     pipe_contents d = []"
proof -
  obtain d where r: "pipe.run_ops [Put [1, 2, 3], Get 2, Put [4], Get 9] pipe_fresh = ([1, 2, 3, 4], [1, 2, 3, 4], d)"
    by (rule that) (simp add: pipe_put_def pipe_get_def p_write_cs_def p_read_cs_def get_spacefree_def smod_nonneg
        write_len_def read_len_def advance_def pipe_fresh_def pipe_zero_def scull_p_buffer_def u64_def
        overwrite_def user_bytes_def numeral_eq_Suc)
  from pipe_sequential_fifo [OF r] r show ?thesis by simp
qed

text \<open>C4: in every state that any interleaving of opens, reads, writes, signals and releases can
  reach, the buffer exists while a file is open, with both pointers inside it; the bytes accepted
  since it was allocated are those delivered followed by those in the buffer; a reader sleeps only
  while the pipe is empty and a writer only while it is full.\<close>

theorem pipe_reachable:
  assumes "pipe_reach s"
  shows "(ps_files s \<noteq> [] \<longrightarrow> pipe_ok (ps_pipe s) \<and> ps_in s = ps_out s @ pipe_contents (ps_pipe s)) \<and>
    (\<forall>t f u c. ps_task s t = ReadWait f u c \<longrightarrow> pipe_contents (ps_pipe s) = []) \<and>
    (\<forall>t f x c. ps_task s t = WriteWait f x c \<longrightarrow>
       length (pipe_contents (ps_pipe s)) = pipe_capacity (ps_pipe s))"
proof -
  have inv: "sys_inv s" by (rule reach_inv [OF assms])
  have ok: "ps_files s \<noteq> [] \<Longrightarrow> pipe_ok (ps_pipe s)" using inv by (simp add: sys_inv_def files_inv_def)
  have waits: "asleep_ok (ps_pipe s) (ps_task s t) \<and> (task_file (ps_task s t) \<noteq> None \<longrightarrow> pipe_ok (ps_pipe s))" for t
    using inv ok nonempty_files [of "ps_files s" "ps_task s t"] by (auto simp: sys_inv_def)
  have "pipe_contents (ps_pipe s) = []" if "ps_task s t = ReadWait f u c" for t f u c
    using waits [of t] that pipe_empty_iff by (simp add: asleep_ok_def)
  moreover have "length (pipe_contents (ps_pipe s)) = pipe_capacity (ps_pipe s)"
    if "ps_task s t = WriteWait f x c" for t f x c
    using waits [of t] that pipe_full_iff [of "ps_pipe s"] by (auto simp: asleep_ok_def)
  moreover have "ps_files s \<noteq> [] \<Longrightarrow> ps_in s = ps_out s @ pipe_contents (ps_pipe s)"
    using inv by (simp add: sys_inv_def history_inv_def)
  ultimately show ?thesis using ok by blast
qed

definition pipe_opened :: pipe_sys where
  "pipe_opened = pipe_init\<lparr>ps_pipe := pipe_fresh, ps_files := [(7, True, True)]\<rparr>"

lemma pipe_opened_reach: "pipe_reach pipe_opened"
proof -
  have "scull_p_open False True [] True True (ps_pipe pipe_init) = (Inr (), pipe_fresh)"
    by (simp add: scull_p_open_def pipe_init_def pipe_zero_def pipe_fresh_def scull_p_buffer_def)
  from pipe_step.open_file [OF _ _ this, of 7] have "pipe_step pipe_init (OpenFile True True) pipe_opened"
    by (simp add: pipe_opened_def pipe_init_def pipe_zero_def)
  then show ?thesis by (rule pipe_reach.step [OF pipe_reach.init])
qed

theorem pipe_reachable_witness:
  "pipe_reach pipe_opened \<and> pipe_ok (ps_pipe pipe_opened)"
  using pipe_opened_reach pipe_reachable [OF pipe_opened_reach] by (simp add: pipe_opened_def)

text \<open>C28: a call on an open file never faults in the kernel: in every reachable state a read and
  a write return or go to sleep; a read of an empty pipe without writers returns 0 at once.\<close>

theorem pipe_calls_safe:
  assumes "pipe_reach s" and "(f, w, r) \<in> set (ps_files s)"
  shows "(\<exists>res s'. scull_p_read t f nb ulen count s = Inr (res, s')) \<and>
    (\<exists>res s'. scull_p_write t f nb ubuf count s = Inr (res, s')) \<and>
    (pipe_contents (ps_pipe s) = [] \<and> sp_nwriters (ps_pipe s) = 0 \<longrightarrow>
       (\<exists>s'. scull_p_read t f nb ulen count s = Inr (Some (Inr []), s')))"
proof -
  have ok: "pipe_ok (ps_pipe s)" by (rule sys_inv_pipe_ok [OF reach_inv [OF assms(1)] assms(2)])
  have "(\<exists>res s'. scull_p_read t f nb ulen count s = Inr (res, s')) \<and>
    (sp_rp (ps_pipe s) = sp_wp (ps_pipe s) \<and> sp_nwriters (ps_pipe s) = 0 \<longrightarrow>
       (\<exists>s'. scull_p_read t f nb ulen count s = Inr (Some (Inr []), s')))"
    using ok by (cases rule: read_cases [of s t f nb ulen count]) auto
  moreover have "\<exists>res s'. scull_p_write t f nb ubuf count s = Inr (res, s')"
    using ok by (cases rule: write_cases [where t = t and f = f and nb = nb and ubuf = ubuf and count = count])
      (auto split: if_splits)
  ultimately show ?thesis using pipe_empty_iff [OF ok] by auto
qed

theorem pipe_calls_safe_witness:
  "\<exists>res s'. scull_p_write 0 7 False [1, 2] 2 pipe_opened = Inr (res, s')"
  using pipe_calls_safe [OF pipe_opened_reach, of 7 True True] by (auto simp: pipe_opened_def)

definition eof_missed :: "nat \<Rightarrow> pipe_sys \<Rightarrow> bool" where
  "eof_missed t s \<longleftrightarrow> sp_rp (ps_pipe s) = sp_wp (ps_pipe s) \<and> sp_nwriters (ps_pipe s) = 0 \<and>
     (\<exists>f u c. ps_task s t = ReadTest f u c \<or> ps_task s t = ReadWait f u c)"

inductive pipe_run :: "(plabel \<Rightarrow> bool) \<Rightarrow> pipe_sys \<Rightarrow> pipe_sys \<Rightarrow> bool" for P where
  refl: "pipe_run P s s"
| step: "pipe_run P s s' \<Longrightarrow> pipe_step s' l s'' \<Longrightarrow> P l \<Longrightarrow> pipe_run P s s''"

definition not_rescued :: "nat \<Rightarrow> plabel \<Rightarrow> bool" where
  "not_rescued t l \<longleftrightarrow> l \<noteq> Signal t \<and> (\<forall>r. l \<noteq> OpenFile True r)"

lemma no_writer:
  assumes "sys_inv s" and "sp_nwriters (ps_pipe s) = 0"
  shows "(f, True, r) \<notin> set (ps_files s)" and "task_file (ps_task s t) \<noteq> Some (f, False)"
proof -
  show a: "(f, True, r) \<notin> set (ps_files s)" for f r
    using assms by (auto simp: sys_inv_def files_inv_def writers_def filter_empty_conv)
  show "task_file (ps_task s t) \<noteq> Some (f, False)" using held_file [OF assms(1), of t f False] a by auto
qed

lemma eof_missed_step:
  assumes "pipe_step s l s'" and "sys_inv s" and "eof_missed t s" and "not_rescued t l"
  shows "eof_missed t s'"
  using assms
proof (induction rule: pipe_step.induct)
  case (open_file f s w r ok junk d)
  have "held (ps_files s) (ps_task s t)" "task_file (ps_task s t) \<noteq> None"
    using open_file.prems by (auto simp: sys_inv_def eof_missed_def)
  then have "ps_files s \<noteq> []" by (rule nonempty_files)
  then have "sp_buf (ps_pipe s) \<noteq> None"
    using open_file.prems(1) by (auto simp: sys_inv_def files_inv_def pipe_ok_def split: option.splits)
  with open_file show ?case
    by (auto simp: eof_missed_def not_rescued_def scull_p_open_def Let_def split: if_splits)
next
  case (release_file f w r s wake d)
  have "\<not> w" using no_writer(1) [OF release_file.prems(1)] release_file by (auto simp: eof_missed_def)
  then show ?case using release_file release_eq [OF release_file.hyps(3)] by (auto simp: eof_missed_def)
next
  case (read_call s u f w nb ulen count r s')
  have "pipe_ok (ps_pipe s)" by (rule sys_inv_pipe_ok [OF read_call.prems(1) read_call.hyps(2)])
  then show ?case
    by (cases rule: read_cases [of s u f nb ulen count]) (use read_call in \<open>auto simp: eof_missed_def\<close>)
next
  case (read_retry s u f ulen count r s')
  from held_file [OF read_retry.prems(1), of u f True] read_retry.hyps(1) obtain w
    where "(f, w, True) \<in> set (ps_files s)" by auto
  then have "pipe_ok (ps_pipe s)" by (rule sys_inv_pipe_ok [OF read_retry.prems(1)])
  then show ?case
    by (cases rule: read_cases [of s u f False ulen count]) (use read_retry in \<open>auto simp: eof_missed_def\<close>)
next
  case (write_call s u f r nb ubuf count rr s')
  then show ?case using no_writer(1) [OF write_call.prems(1)] by (auto simp: eof_missed_def)
next
  case (write_retry s u f ubuf count rr s')
  then show ?case using no_writer(2) [OF write_retry.prems(1), of u f] by (auto simp: eof_missed_def)
next
  case (write_test s u f ubuf count)
  then show ?case using no_writer(2) [OF write_test.prems(1), of u f] by (auto simp: eof_missed_def)
next
  case (write_spurious s u f ubuf count)
  then show ?case using no_writer(2) [OF write_spurious.prems(1), of u f] by (auto simp: eof_missed_def)
qed (auto simp: eof_missed_def not_rescued_def)

text \<open>C34: the last writer's release does not let a sleeping reader see the end of file: once a
  reader is in its wait loop, the pipe empty and no file open for writing, every step other than
  a signal to it or an open for writing leaves it there.\<close>

theorem pipe_eof_missed:
  assumes "pipe_reach s" and "eof_missed t s" and "pipe_run (not_rescued t) s s'"
  shows "eof_missed t s'"
proof -
  from assms(3,1,2) have "sys_inv s' \<and> eof_missed t s'"
    by (induction rule: pipe_run.induct) (auto intro: reach_inv step_preserves eof_missed_step)
  then show ?thesis ..
qed

text \<open>A reader that has gone to sleep, after the only writer has closed its file.\<close>

definition orphan_reader :: pipe_sys where
  "orphan_reader = pipe_init\<lparr>ps_pipe := pipe_fresh\<lparr>sp_nwriters := 0\<rparr>, ps_files := [(1, False, True)],
     ps_task := (\<lambda>_. Idle)(0 := ReadTest 1 5 5)\<rparr>"

lemma orphan_reader_reach: "pipe_reach orphan_reader"
proof -
  define s1 where "s1 = pipe_init\<lparr>ps_pipe := pipe_fresh\<lparr>sp_nwriters := 0\<rparr>, ps_files := [(1, False, True)]\<rparr>"
  define s2 where "s2 = pipe_init\<lparr>ps_pipe := pipe_fresh, ps_files := [(2, True, False), (1, False, True)]\<rparr>"
  define s3 where "s3 = s2\<lparr>ps_task := (\<lambda>_. Idle)(0 := ReadTest 1 5 5)\<rparr>"
  note defs = pipe_init_def pipe_zero_def pipe_fresh_def scull_p_buffer_def
  have "scull_p_open False True [] False True (ps_pipe pipe_init) = (Inr (), pipe_fresh\<lparr>sp_nwriters := 0\<rparr>)"
    by (simp add: scull_p_open_def defs)
  from pipe_step.open_file [OF _ _ this, of 1] have 1: "pipe_step pipe_init (OpenFile False True) s1"
    by (simp add: s1_def defs)
  have "scull_p_open False True [] True False (ps_pipe s1) = (Inr (), pipe_fresh)"
    by (simp add: scull_p_open_def s1_def defs)
  from pipe_step.open_file [OF _ _ this, of 2] have 2: "pipe_step s1 (OpenFile True False) s2"
    by (simp add: s1_def s2_def defs)
  have "scull_p_read 0 1 False 5 5 s2 = Inr (None, s3)"
    by (simp add: scull_p_read_def p_read_cs_def s2_def s3_def defs)
  then have 3: "pipe_step s2 (ReadCall 0) s3"
    by (intro pipe_step.read_call [of s2 0 1 False]) (simp_all add: s2_def defs)
  have w: "wake_reader \<circ> (\<lambda>_. Idle)(0 := ReadTest 1 5 5) = (\<lambda>_. Idle)(0 := ReadTest 1 5 5)" by auto
  have "scull_p_release 2 True False (ps_pipe s3) = (True, pipe_fresh\<lparr>sp_nwriters := 0\<rparr>)"
    by (simp add: scull_p_release_def scull_p_fasync_def s2_def s3_def defs)
  moreover have "\<forall>t. \<forall>b. task_file (ps_task s3 t) \<noteq> Some (2, b)" by (simp add: s3_def)
  moreover have "(2, True, False) \<in> set (ps_files s3)" by (simp add: s2_def s3_def)
  ultimately have "pipe_step s3 (ReleaseFile 2) (s3\<lparr>ps_pipe := pipe_fresh\<lparr>sp_nwriters := 0\<rparr>,
      ps_files := filter (\<lambda>x. fst x \<noteq> 2) (ps_files s3),
      ps_task := (if True then wake_reader \<circ> ps_task s3 else ps_task s3)\<rparr>)" by (intro pipe_step.release_file)
  then have 4: "pipe_step s3 (ReleaseFile 2) orphan_reader"
    by (simp add: orphan_reader_def s2_def s3_def w del: One_nat_def)
  show ?thesis by (rule pipe_reach.step [OF pipe_reach.step [OF pipe_reach.step [OF pipe_reach.step
    [OF pipe_reach.init 1] 2] 3] 4])
qed

theorem pipe_eof_missed_witness:
  "pipe_reach orphan_reader \<and>
   (\<exists>s'. pipe_run (not_rescued 0) orphan_reader s' \<and> ps_task s' 0 = ReadWait 1 5 5 \<and> eof_missed 0 s')"
proof -
  have e: "eof_missed 0 orphan_reader"
    by (simp add: eof_missed_def orphan_reader_def pipe_init_def pipe_fresh_def pipe_zero_def)
  define s' where "s' = orphan_reader\<lparr>ps_task := (ps_task orphan_reader)(0 := ReadWait 1 5 5)\<rparr>"
  from pipe_step.read_test [of orphan_reader 0 1 5 5] have "pipe_step orphan_reader (TestWait 0) s'"
    by (simp add: s'_def orphan_reader_def pipe_init_def pipe_fresh_def pipe_zero_def)
  then have "pipe_run (not_rescued 0) orphan_reader s'"
    by (rule pipe_run.step [OF pipe_run.refl]) (simp add: not_rescued_def)
  from pipe_eof_missed [OF orphan_reader_reach e this] this orphan_reader_reach
  show ?thesis by (auto simp: s'_def)
qed

text \<open>\<open>poll\<close> tells the truth: it reports the device readable exactly when a non-blocking read
  would not return \<open>EAGAIN\<close>, and writable exactly when a non-blocking write would not.\<close>

lemma pipe_poll_agrees:
  assumes "pipe_ok d"
  shows "(bit (scull_p_poll d) 0 \<longleftrightarrow> p_read_cs True ulen count d \<noteq> Inr (Ret (Inl EAGAIN), d)) \<and>
    (bit (scull_p_poll d) 2 \<longleftrightarrow> p_write_cs True ubuf count d \<noteq> Inr (Ret (Inl EAGAIN), d))"
proof -
  have b: "bit (scull_p_poll d) 0 \<longleftrightarrow> sp_rp d \<noteq> sp_wp d \<or> sp_nwriters d = 0"
    "bit (scull_p_poll d) 2 \<longleftrightarrow> get_spacefree d \<noteq> 0"
    by (auto simp: scull_p_poll_def Let_def bit_or_iff POLLIN_def POLLOUT_def POLLHUP_def POLLRDNORM_def POLLWRNORM_def
        bit_numeral_rec(1) bit_numeral_rec(2))
  have "p_read_cs True ulen count d = Inr (Ret (Inl EAGAIN), d) \<longleftrightarrow> sp_rp d = sp_wp d \<and> sp_nwriters d \<noteq> 0"
  proof (cases "sp_rp d = sp_wp d")
    case False
    show ?thesis by (rule p_read_spec [OF assms False, of True ulen count]) (simp add: False)
  qed (simp add: p_read_cs_def)
  moreover have "p_write_cs True ubuf count d = Inr (Ret (Inl EAGAIN), d) \<longleftrightarrow> get_spacefree d = 0"
    by (auto simp: p_write_cs_def Let_def split: option.splits if_splits)
  ultimately show ?thesis using b by blast
qed

lemma pipe_poll_agrees_witness:
  "bit (scull_p_poll pipe_fresh) 2 \<and> \<not> bit (scull_p_poll pipe_fresh) 0"
  using pipe_poll_agrees [OF pipe_fresh_ok(1), of 1 1 "[]"]
  by (simp add: p_read_cs_def p_write_cs_def get_spacefree_def pipe_fresh_def pipe_zero_def scull_p_buffer_def
      Let_def write_len_def u64_def)

end
