(* ===== verification/ProcFs.thy ===== *)
theory ProcFs
  imports KernelPrelude
begin

text \<open>
  What the drivers use of procfs: the buffer of a \<open>seq_file\<close>, the copy out of a buffer with a file
  position, and the creation of entries one after the other.
\<close>

subsection \<open>\<open>seq_file\<close>\<close>

text \<open>A text that does not fit is not stored and sets the count to the size: the overflow mark.\<close>

record seq_file =
  sf_size :: nat
  sf_text :: "byte list"
  sf_count :: nat

definition seq_write :: "byte list \<Rightarrow> seq_file \<Rightarrow> seq_file" where
  "seq_write text m =
     (if sf_count m + length text < sf_size m then m\<lparr>sf_text := sf_text m @ text, sf_count := sf_count m + length text\<rparr>
      else m\<lparr>sf_count := sf_size m\<rparr>)"

definition seq_fresh :: "nat \<Rightarrow> seq_file" where
  "seq_fresh sz = \<lparr>sf_size = sz, sf_text = [], sf_count = 0\<rparr>"

text \<open>Through a pointer that may be null.\<close>

definition seq_printf_ptr :: "seq_file option \<Rightarrow> byte list \<Rightarrow> seq_file run" where
  "seq_printf_ptr p text = (case p of None \<Rightarrow> Inl NullDeref | Some m \<Rightarrow> Inr (seq_write text m))"

lemma seq_write_fits: "sf_count m + length text < sf_size m \<Longrightarrow>
    seq_write text m = m\<lparr>sf_text := sf_text m @ text, sf_count := sf_count m + length text\<rparr>"
  by (simp add: seq_write_def)

lemma sf_size_write [simp]: "sf_size (seq_write text m) = sf_size m"
  by (simp add: seq_write_def)

subsection \<open>Creating entries\<close>

text \<open>The entries made before the first failure, and whether all were made.\<close>

fun proc_create_all :: "'a list \<Rightarrow> bool list \<Rightarrow> bool \<times> 'a list" where
  "proc_create_all [] oks = (True, [])"
| "proc_create_all (f # fs) oks = (case kalloc oks of (ok, oks') \<Rightarrow>
     if ok then (case proc_create_all fs oks' of (r, made) \<Rightarrow> (r, f # made)) else (False, []))"

lemma proc_create_all_made: "proc_create_all fs oks = (r, made) \<Longrightarrow> \<exists>rest. fs = made @ rest \<and> (r \<longleftrightarrow> rest = [])"
  by (induction fs oks arbitrary: made rule: proc_create_all.induct) (fastforce split: prod.splits if_splits)+

end
