(* ===== verification/PipeDump.thy ===== *)
theory PipeDump
  imports ScullPipe ProcFs
begin

text \<open>
  The debugfs file of the scull pipes (\<open>pipe_show\<close> in \<open>ch06_advanced_char/scull_pipe.c\<close>): one line for
  the module and four for each device, which is shown under its semaphore.  How an address is printed
  is a parameter.
\<close>

text \<open>Where the devices and their buffers are.\<close>

record pipe_addr =
  pa_dev :: nat
  pa_start :: nat

definition pipe_lines :: "(nat \<Rightarrow> byte list) \<Rightarrow> nat \<Rightarrow> pipe_addr \<Rightarrow> scull_pipe \<Rightarrow> byte list list" where
  "pipe_lines fmt_p i a p =
     [10 # text_of ''Device '' @ decimal i @ text_of '': '' @ fmt_p (pa_dev a) @ [10],
      text_of ''   Buffer: '' @ fmt_p (pa_start a) @ text_of '' to '' @ fmt_p (pa_start a + sp_buffersize p) @ text_of '' ('' @
        decimal (sp_buffersize p) @ text_of '' bytes)'' @ [10],
      text_of ''   rp '' @ fmt_p (pa_start a + sp_rp p) @ text_of ''   wp '' @ fmt_p (pa_start a + sp_wp p) @ [10],
      text_of ''   readers '' @ int_text (sp_nreaders p) @ text_of ''   writers '' @ int_text (sp_nwriters p) @ [10]]"

text \<open>The loop from device \<open>i\<close> on; \<open>sigs\<close> says for each wait whether a signal ends it.\<close>

fun pipe_show_from :: "(nat \<Rightarrow> byte list) \<Rightarrow> nat \<Rightarrow> bool list \<Rightarrow> (pipe_addr \<times> scull_pipe) list \<Rightarrow> seq_file \<Rightarrow> unit res \<times> seq_file" where
  "pipe_show_from fmt_p i sigs [] m = (Inr (), m)"
| "pipe_show_from fmt_p i sigs ((a, p) # ps) m =
     (if sigs \<noteq> [] \<and> hd sigs then (Inl ERESTARTSYS, m)
      else pipe_show_from fmt_p (Suc i) (tl sigs) ps (fold seq_write (pipe_lines fmt_p i a p) m))"

definition pipe_show :: "(nat \<Rightarrow> byte list) \<Rightarrow> bool list \<Rightarrow> (pipe_addr \<times> scull_pipe) list \<Rightarrow> seq_file \<Rightarrow> unit res \<times> seq_file" where
  "pipe_show fmt_p sigs ps m = pipe_show_from fmt_p 0 sigs ps
     (seq_write (text_of ''Default buffersize is '' @ decimal scull_p_buffer @ [10]) m)"

fun pipe_text :: "(nat \<Rightarrow> byte list) \<Rightarrow> nat \<Rightarrow> (pipe_addr \<times> scull_pipe) list \<Rightarrow> byte list" where
  "pipe_text fmt_p i [] = []"
| "pipe_text fmt_p i ((a, p) # ps) = concat (pipe_lines fmt_p i a p) @ pipe_text fmt_p (Suc i) ps"

lemma fold_seq_write:
  "sf_count m + length (concat ls) < sf_size m \<Longrightarrow>
    fold seq_write ls m = m\<lparr>sf_text := sf_text m @ concat ls, sf_count := sf_count m + length (concat ls)\<rparr>"
  by (induction ls arbitrary: m) (simp_all add: seq_write_fits add.assoc)

lemma pipe_show_from_text:
  assumes "True \<notin> set sigs" and "sf_count m + length (pipe_text fmt_p i ps) < sf_size m"
  shows "pipe_show_from fmt_p i sigs ps m = (Inr (), m\<lparr>sf_text := sf_text m @ pipe_text fmt_p i ps, sf_count := sf_count m + length (pipe_text fmt_p i ps)\<rparr>)"
  using assms
proof (induction ps arbitrary: i sigs m)
  case (Cons x ps)
  obtain a p where x: "x = (a, p)" by (cases x)
  have fits: "sf_count m + length (concat (pipe_lines fmt_p i a p)) < sf_size m" using Cons.prems(2) by (simp add: x)
  have sigs: "\<not> (sigs \<noteq> [] \<and> hd sigs)" "True \<notin> set (tl sigs)" using Cons.prems(1) by (cases sigs; auto)+
  show ?case using Cons.IH [of "tl sigs" "m\<lparr>sf_text := sf_text m @ concat (pipe_lines fmt_p i a p), sf_count := sf_count m + length (concat (pipe_lines fmt_p i a p))\<rparr>" "Suc i"]
      Cons.prems(2) sigs fold_seq_write [OF fits]
    by (simp add: x add.assoc del: concat.simps fold_simps)
qed simp

text \<open>Unless a signal arrives, what is shown is the whole text, when it fits, and the overflow mark when it does not.\<close>

lemma pipe_show_text:
  assumes "True \<notin> set sigs"
    and "length (text_of ''Default buffersize is '' @ decimal scull_p_buffer @ [10]) + length (pipe_text fmt_p 0 ps) < sz"
  shows "\<exists>m. pipe_show fmt_p sigs ps (seq_fresh sz) = (Inr (), m) \<and>
    sf_text m = (text_of ''Default buffersize is '' @ decimal scull_p_buffer @ [10]) @ pipe_text fmt_p 0 ps"
proof -
  define h where "h = text_of ''Default buffersize is '' @ decimal scull_p_buffer @ [10]"
  have w: "seq_write h (seq_fresh sz) = (seq_fresh sz)\<lparr>sf_text := h, sf_count := length h\<rparr>"
    using assms(2) seq_write_fits [of "seq_fresh sz" h] by (simp add: h_def seq_fresh_def)
  show ?thesis
    using pipe_show_from_text [OF assms(1), of "(seq_fresh sz)\<lparr>sf_text := h, sf_count := length h\<rparr>" fmt_p 0 ps] assms(2)
    unfolding pipe_show_def h_def [symmetric] w by (simp add: seq_fresh_def)
qed

end
