(* ===== verification/ImpairRing.thy ===== *)
theory ImpairRing
  imports BoundedQueue
begin

text \<open>
  The descriptor ring of the impair network driver (\<open>ch17_net/impair.h\<close>, \<open>impair_ring.c\<close>).  The
  indices are \<open>u32\<close>, so they are 32-bit words and the circular-buffer macros of the kernel
  wrap as they do there.  A \<open>struct sk_buff\<close> is the list of its bytes from \<open>skb->data\<close> on.
\<close>

unbundle bit_operations_syntax

type_synonym skb = "byte list"

record impair_desc =
  de_len :: "16 word"
  de_flags :: "16 word"
  de_data :: "skb option"

record impair_ring =
  ri_desc :: "impair_desc list"
  ri_size :: "32 word"
  ri_use :: "32 word"
  ri_clean :: "32 word"

definition RING_SIZE :: "32 word" where "RING_SIZE = 1024"

text \<open>\<open>CIRC_CNT\<close> and \<open>CIRC_SPACE\<close> of \<open>linux/circ_buf.h\<close>.\<close>

definition CIRC_CNT :: "32 word \<Rightarrow> 32 word \<Rightarrow> 32 word \<Rightarrow> 32 word" where
  "CIRC_CNT head tail sz = (head - tail) AND (sz - 1)"

definition CIRC_SPACE :: "32 word \<Rightarrow> 32 word \<Rightarrow> 32 word \<Rightarrow> 32 word" where
  "CIRC_SPACE head tail sz = CIRC_CNT tail (head + 1) sz"

definition ring_next :: "32 word \<Rightarrow> 32 word" where
  "ring_next index = (index + 1) mod RING_SIZE"

definition ring_free :: "impair_ring \<Rightarrow> 32 word" where
  "ring_free r = CIRC_SPACE (ri_use r) (ri_clean r) (ri_size r)"

definition ring_used :: "impair_ring \<Rightarrow> 32 word" where
  "ring_used r = CIRC_CNT (ri_use r) (ri_clean r) (ri_size r)"

definition zero_desc :: impair_desc where
  "zero_desc = \<lparr>de_len = 0, de_flags = 0, de_data = None\<rparr>"

definition ring_init :: "impair_ring \<Rightarrow> 32 word \<Rightarrow> unit res \<times> impair_ring" where
  "ring_init r sz =
     (if sz = 0 \<or> sz > RING_SIZE then (Inl EINVAL, r)
      else (Inr (), r\<lparr>ri_size := sz, ri_use := 0, ri_clean := 0,
        ri_desc := replicate (unat sz) zero_desc @ drop (unat sz) (ri_desc r)\<rparr>))"

text \<open>The loop of \<open>ring_free_all\<close>, which frees the buffers and counts them; it may not end.\<close>

partial_function (option) ring_free_loop ::
    "32 word \<Rightarrow> 32 word \<Rightarrow> impair_desc list \<Rightarrow> nat \<Rightarrow> (impair_desc list \<times> nat) option" where
  "ring_free_loop i use desc freed =
     (if i = use then Some (desc, freed)
      else if de_data (desc ! unat i) \<noteq> None
        then ring_free_loop (ring_next i) use (desc[unat i := (desc ! unat i)\<lparr>de_data := None\<rparr>]) (Suc freed)
        else ring_free_loop (ring_next i) use desc freed)"

definition ring_free_all :: "impair_ring \<Rightarrow> (nat \<times> impair_ring) option" where
  "ring_free_all r = (case ring_free_loop (ri_clean r) (ri_use r) (ri_desc r) 0 of
     None \<Rightarrow> None
   | Some (desc, freed) \<Rightarrow> Some (freed, r\<lparr>ri_desc := desc, ri_use := 0, ri_clean := 0, ri_size := 0\<rparr>))"

text \<open>
  The two ring accesses of the driver, which every caller makes under the ring's lock: fill the
  descriptor at \<open>next_to_use\<close>, and take the buffer at \<open>next_to_clean\<close>.
\<close>

definition ring_push :: "skb \<Rightarrow> impair_ring \<Rightarrow> impair_ring" where
  "ring_push skb r = (let idx = ri_use r in
     r\<lparr>ri_desc := (ri_desc r)[unat idx := \<lparr>de_len = of_nat (length skb), de_flags = 0, de_data = Some skb\<rparr>],
       ri_use := ring_next idx\<rparr>)"

definition ring_empty :: "impair_ring \<Rightarrow> bool" where
  "ring_empty r \<longleftrightarrow> ri_clean r = ri_use r"

definition ring_pop :: "impair_ring \<Rightarrow> skb option \<times> impair_ring" where
  "ring_pop r = (let idx = ri_clean r in
     (de_data (ri_desc r ! unat idx),
      r\<lparr>ri_desc := (ri_desc r)[unat idx := (ri_desc r ! unat idx)\<lparr>de_data := None\<rparr>],
        ri_clean := ring_next idx\<rparr>))"

subsection \<open>Index arithmetic\<close>

lemma unat_ring_next: "unat i < 1024 \<Longrightarrow> unat (ring_next i) = (unat i + 1) mod 1024"
  by (simp add: ring_next_def RING_SIZE_def unat_mod unat_word_ariths)

lemma unat_circ_cnt:
  assumes "unat a < 1024" and "unat b \<le> 1024"
  shows "unat (CIRC_CNT a b RING_SIZE) = (unat a + 1024 - unat b) mod 1024"
proof -
  have m: "RING_SIZE - 1 = mask 10" by (simp add: RING_SIZE_def mask_eq_exp_minus_1)
  have "int (unat (CIRC_CNT a b RING_SIZE)) = uint (take_bit 10 (a - b))"
    unfolding CIRC_CNT_def m by (simp add: take_bit_eq_mask)
  also have "\<dots> = take_bit 10 (uint (a - b))" by (rule unsigned_take_bit_eq)
  also have "\<dots> = uint (a - b) mod 2 ^ 10" by (simp only: take_bit_eq_mod)
  also have "\<dots> = (uint a - uint b) mod 2 ^ 32 mod 2 ^ 10" by (simp add: uint_word_ariths)
  also have "\<dots> = (uint a - uint b) mod 2 ^ 10" by (simp add: mod_mod_cancel)
  also have "\<dots> = (uint a - uint b + 1 * 1024) mod 1024" by simp
  also have "uint a - uint b + 1 * 1024 = int (unat a + 1024 - unat b)"
    using assms by (simp add: of_nat_diff)
  also have "\<dots> mod 1024 = int ((unat a + 1024 - unat b) mod 1024)" by (simp add: zmod_int)
  finally show ?thesis by linarith
qed

lemma dist_mod:
  assumes "a < 1024" and "b < (1024::nat)"
  shows "(a + 1024 - b) mod 1024 = (if b \<le> a then a - b else a + 1024 - b)"
proof (cases "b \<le> a")
  case True
  then have "(a + 1024 - b) mod 1024 = (a - b + 1024) mod 1024" by (simp only: diff_add_assoc2)
  also have "\<dots> = (a - b) mod 1024" by (rule mod_add_self2)
  also have "\<dots> = a - b" by (rule mod_less) (use assms in linarith)
  finally show ?thesis using True by simp
qed (use assms in simp)

subsection \<open>The ring as a queue\<close>

text \<open>The slot of the \<open>k\<close>-th used descriptor, the number of used ones, and the invariant.\<close>

definition ring_slot :: "impair_ring \<Rightarrow> nat \<Rightarrow> nat" where
  "ring_slot r k = (unat (ri_clean r) + k) mod 1024"

definition ring_count :: "impair_ring \<Rightarrow> nat" where
  "ring_count r = (unat (ri_use r) + 1024 - unat (ri_clean r)) mod 1024"

definition ring_ok :: "impair_ring \<Rightarrow> bool" where
  "ring_ok r \<longleftrightarrow> length (ri_desc r) = 1024 \<and> ri_size r = RING_SIZE \<and>
     unat (ri_use r) < 1024 \<and> unat (ri_clean r) < 1024 \<and>
     (\<forall>k<ring_count r. de_data (ri_desc r ! ring_slot r k) \<noteq> None)"

definition ring_contents :: "impair_ring \<Rightarrow> skb list" where
  "ring_contents r = map (\<lambda>k. the (de_data (ri_desc r ! ring_slot r k))) [0..<ring_count r]"

lemma length_ring_contents [simp]: "length (ring_contents r) = ring_count r"
  by (simp add: ring_contents_def)

lemma ring_contents_empty_iff: "ring_contents r = [] \<longleftrightarrow> ring_count r = 0"
  by (simp add: ring_contents_def)

lemma ring_count_less: "ring_count r < 1024"
  by (simp add: ring_count_def)

lemma ring_used_eq: "ring_ok r \<Longrightarrow> unat (ring_used r) = ring_count r"
  by (simp add: ring_used_def ring_count_def ring_ok_def unat_circ_cnt)

lemma ring_count_eq:
  "ring_ok r \<Longrightarrow> ring_count r = (if unat (ri_clean r) \<le> unat (ri_use r)
     then unat (ri_use r) - unat (ri_clean r) else unat (ri_use r) + 1024 - unat (ri_clean r))"
  unfolding ring_count_def by (rule dist_mod) (simp_all add: ring_ok_def)

lemma ring_free_eq:
  assumes "ring_ok r"
  shows "unat (ring_free r) = 1023 - ring_count r"
proof -
  have b: "unat (ri_use r) < 1024" "unat (ri_clean r) < 1024" using assms by (simp_all add: ring_ok_def)
  then have u: "unat (ri_use r + 1) = unat (ri_use r) + 1" by (simp add: unat_word_ariths)
  have f: "unat (ring_free r) = (unat (ri_clean r) + 1024 - (unat (ri_use r) + 1)) mod 1024"
    using assms b u unat_circ_cnt [of "ri_clean r" "ri_use r + 1"]
    by (simp add: ring_free_def CIRC_SPACE_def ring_ok_def)
  show ?thesis
  proof (cases "unat (ri_use r) = 1023")
    case True
    then show ?thesis using b f ring_count_eq [OF assms] by auto
  next
    case False
    then have "unat (ri_use r) + 1 < 1024" using b by simp
    from dist_mod [OF b(2) this] show ?thesis using f b ring_count_eq [OF assms] by auto
  qed
qed

lemma ring_full_iff:
  assumes "ring_ok r"
  shows "ring_free r < 1 \<longleftrightarrow> ring_count r = 1023"
proof -
  have "ring_free r < 1 \<longleftrightarrow> unat (ring_free r) = 0" by (simp add: word_less_nat_alt)
  then show ?thesis using ring_free_eq [OF assms] ring_count_less [of r] by auto
qed

lemma ring_empty_iff:
  assumes "ring_ok r"
  shows "ring_empty r \<longleftrightarrow> ring_count r = 0"
proof -
  have "ring_empty r \<longleftrightarrow> unat (ri_clean r) = unat (ri_use r)"
    by (metis ring_empty_def word_unat_eq_iff)
  then show ?thesis using ring_count_eq [OF assms] assms by (auto simp: ring_ok_def split: if_splits)
qed

lemma add_mod_1024:
  assumes "c < 1024" and "k < (1024::nat)"
  shows "(c + k) mod 1024 = (if c + k < 1024 then c + k else c + k - 1024)"
proof (cases "c + k < 1024")
  case False
  then have e: "c + k = c + k - 1024 + 1024" by simp
  have "(c + k - 1024 + 1024) mod 1024 = c + k - 1024" using assms by simp
  with False e show ?thesis by simp
qed simp

lemma ring_slot_eq:
  assumes "ring_ok r" and "k < 1024"
  shows "ring_slot r k = (if unat (ri_clean r) + k < 1024 then unat (ri_clean r) + k else unat (ri_clean r) + k - 1024)"
  unfolding ring_slot_def by (rule add_mod_1024) (use assms in \<open>simp_all add: ring_ok_def\<close>)

lemma ring_slot_inj: "ring_ok r \<Longrightarrow> j < 1024 \<Longrightarrow> k < 1024 \<Longrightarrow> ring_slot r j = ring_slot r k \<longleftrightarrow> j = k"
  by (auto simp: ring_slot_eq split: if_splits)

lemma ring_slot_use: "ring_ok r \<Longrightarrow> ring_slot r (ring_count r) = unat (ri_use r)"
  using ring_count_eq [of r] by (auto simp: ring_slot_def ring_ok_def)

lemma ring_slot_less [simp]: "ring_slot r k < 1024"
  by (simp add: ring_slot_def)

lemma ring_push_spec:
  assumes ok: "ring_ok r" and room: "ring_count r < 1023"
  shows "ring_ok (ring_push skb r)" and "ring_contents (ring_push skb r) = ring_contents r @ [skb]"
    and "ring_count (ring_push skb r) = Suc (ring_count r)"
proof -
  define n where "n = ring_count r"
  define r' where "r' = ring_push skb r"
  have b: "unat (ri_use r) < 1024" "unat (ri_clean r) < 1024" "length (ri_desc r) = 1024"
    "ri_size r = RING_SIZE" using ok by (simp_all add: ring_ok_def)
  have clean: "ri_clean r' = ri_clean r" and use: "unat (ri_use r') = (unat (ri_use r) + 1) mod 1024"
    and desc: "ri_desc r' = (ri_desc r)[ring_slot r n := \<lparr>de_len = of_nat (length skb), de_flags = 0, de_data = Some skb\<rparr>]"
    and sz: "ri_size r' = RING_SIZE"
    using b by (simp_all add: r'_def ring_push_def Let_def unat_ring_next ring_slot_use [OF ok] n_def)
  have slot: "ring_slot r' k = ring_slot r k" for k by (simp add: ring_slot_def clean)
  have use': "unat (ri_use r') < 1024" using use by simp
  have cnt: "ring_count r' = Suc n"
    unfolding ring_count_def clean using dist_mod [OF use' b(2)] use add_mod_1024 [of "unat (ri_use r)" 1]
      b ring_count_eq [OF ok] room by (auto simp: n_def split: if_splits)
  have data: "de_data (ri_desc r' ! ring_slot r k) = (if k = n then Some skb else de_data (ri_desc r ! ring_slot r k))"
    if "k \<le> n" for k
    using ring_slot_inj [OF ok, of n k] that room b(3) by (auto simp: desc n_def nth_list_update)
  show "ring_count (ring_push skb r) = Suc (ring_count r)" using cnt by (simp add: r'_def n_def)
  show "ring_ok (ring_push skb r)"
    using ok cnt use' clean sz data b(3) unfolding r'_def [symmetric] ring_ok_def slot
    by (auto simp: desc less_Suc_eq_le n_def)
  have "ring_contents r' = map (\<lambda>k. the (de_data (ri_desc r' ! ring_slot r k))) [0..<Suc n]"
    by (simp add: ring_contents_def slot cnt)
  also have "\<dots> = map (\<lambda>k. the (de_data (ri_desc r ! ring_slot r k))) [0..<n] @ [skb]"
    using data by simp
  finally show "ring_contents (ring_push skb r) = ring_contents r @ [skb]"
    by (simp add: ring_contents_def r'_def n_def)
qed

lemma ring_pop_spec:
  assumes ok: "ring_ok r" and ne: "0 < ring_count r" and pop: "ring_pop r = (x, r')"
  shows "ring_ok r'" and "ring_count r = Suc (ring_count r')"
    and "\<exists>skb. x = Some skb \<and> ring_contents r = skb # ring_contents r'"
proof -
  define n where "n = ring_count r"
  have b: "unat (ri_use r) < 1024" "unat (ri_clean r) < 1024" "length (ri_desc r) = 1024"
    "ri_size r = RING_SIZE" using ok by (simp_all add: ring_ok_def)
  have s0: "ring_slot r 0 = unat (ri_clean r)" using b by (simp add: ring_slot_def)
  have x: "x = de_data (ri_desc r ! ring_slot r 0)" and use: "ri_use r' = ri_use r" and sz: "ri_size r' = RING_SIZE"
    and clean: "unat (ri_clean r') = (unat (ri_clean r) + 1) mod 1024"
    and desc: "ri_desc r' = (ri_desc r)[ring_slot r 0 := (ri_desc r ! ring_slot r 0)\<lparr>de_data := None\<rparr>]"
    using pop b by (auto simp: ring_pop_def Let_def unat_ring_next s0)
  have slot: "ring_slot r' k = ring_slot r (Suc k)" for k
    by (simp add: ring_slot_def clean mod_add_left_eq)
  have clean': "unat (ri_clean r') < 1024" using clean by simp
  have cnt: "n = Suc (ring_count r')"
    unfolding n_def ring_count_def [of r'] use using dist_mod [OF b(1) clean'] clean
      add_mod_1024 [of "unat (ri_clean r)" 1] b ring_count_eq [OF ok] ne by (auto split: if_splits)
  have data: "de_data (ri_desc r' ! ring_slot r (Suc k)) = de_data (ri_desc r ! ring_slot r (Suc k))" if "Suc k < n" for k
    using ring_slot_inj [OF ok, of 0 "Suc k"] that ring_count_less [of r] b(3)
    by (auto simp: desc n_def nth_list_update)
  show "ring_count r = Suc (ring_count r')" using cnt by (simp add: n_def)
  show "ring_ok r'"
    using ok cnt clean' use sz data b unfolding ring_ok_def slot by (auto simp: desc n_def)
  have "x \<noteq> None" using ok ne by (simp add: x ring_ok_def)
  then obtain skb where skb: "x = Some skb" by blast
  have "ring_contents r = map (\<lambda>k. the (de_data (ri_desc r ! ring_slot r k))) (0 # map Suc [0..<ring_count r'])"
    using cnt by (simp only: ring_contents_def n_def [symmetric] upt_conv_Cons map_Suc_upt)
  also have "\<dots> = skb # ring_contents r'"
    using skb x data cnt by (simp add: ring_contents_def slot)
  finally show "\<exists>skb. x = Some skb \<and> ring_contents r = skb # ring_contents r'" using skb by blast
qed

text \<open>The guarded accesses, as the operations of a queue.\<close>

definition ring_put :: "skb list \<Rightarrow> impair_ring \<Rightarrow> nat \<times> impair_ring" where
  "ring_put xs r = (case xs of [] \<Rightarrow> (0, r) | x # _ \<Rightarrow> if ring_free r < 1 then (0, r) else (1, ring_push x r))"

definition ring_get :: "nat \<Rightarrow> impair_ring \<Rightarrow> skb list \<times> impair_ring" where
  "ring_get m r = (if m = 0 \<or> ring_empty r then ([], r)
     else case ring_pop r of (None, r') \<Rightarrow> ([], r') | (Some x, r') \<Rightarrow> ([x], r'))"

lemma ring_put_spec:
  assumes ok: "ring_ok r" and p: "ring_put xs r = (n, r')"
  shows "ring_ok r' \<and> n \<le> length xs \<and> ring_contents r' = ring_contents r @ take n xs \<and>
    (xs \<noteq> [] \<longrightarrow> length (ring_contents r) < 1023 \<longrightarrow> 0 < n)"
proof (cases "xs = [] \<or> ring_free r < 1")
  case True
  with p ok ring_full_iff [OF ok] show ?thesis by (auto simp: ring_put_def split: list.splits)
next
  case False
  then obtain x ys where xs: "xs = x # ys" by (cases xs) auto
  have room: "ring_count r < 1023" using False ring_full_iff [OF ok] ring_count_less [of r] by auto
  from ring_push_spec [OF ok room, of x] p False show ?thesis by (auto simp: ring_put_def xs)
qed

lemma ring_get_spec:
  assumes ok: "ring_ok r" and g: "ring_get m r = (ys, r')"
  shows "ring_ok r' \<and> length ys \<le> m \<and> ring_contents r = ys @ ring_contents r' \<and>
    (0 < m \<longrightarrow> ring_contents r \<noteq> [] \<longrightarrow> ys \<noteq> [])"
proof (cases "m = 0 \<or> ring_empty r")
  case True
  with g ok ring_empty_iff [OF ok] show ?thesis by (auto simp: ring_get_def length_0_conv [symmetric] simp del: length_0_conv)
next
  case False
  obtain x r1 where pop: "ring_pop r = (x, r1)" by (cases "ring_pop r")
  have ne: "0 < ring_count r" using False ring_empty_iff [OF ok] by simp
  from ring_pop_spec [OF ok ne pop] g False pop show ?thesis by (auto simp: ring_get_def)
qed

lemma ring_bounded: "length (ring_contents r) \<le> 1023"
  using ring_count_less [of r] by simp

interpretation ring: bounded_queue ring_ok ring_contents "\<lambda>_. 1023" ring_put ring_get
  by unfold_locales (use ring_put_spec ring_get_spec ring_bounded in \<open>blast+\<close>)

subsection \<open>Properties\<close>

lemma ring_init_ok:
  assumes "length (ri_desc r) = 1024"
  shows "\<exists>r'. ring_init r RING_SIZE = (Inr (), r') \<and> ring_ok r' \<and> ring_contents r' = []"
  using assms by (simp add: ring_init_def RING_SIZE_def ring_ok_def ring_contents_def ring_count_def)

lemma ring_free_loop_ok:
  "ring_ok r \<Longrightarrow> \<exists>desc. ring_free_loop (ri_clean r) (ri_use r) (ri_desc r) n = Some (desc, n + ring_count r) \<and>
     length desc = 1024"
proof (induction "ring_count r" arbitrary: r n)
  case 0
  then have "ri_clean r = ri_use r" using ring_empty_iff [of r] by (simp add: ring_empty_def)
  with 0 show ?case by (subst ring_free_loop.simps) (simp add: ring_ok_def)
next
  case (Suc k)
  obtain x r' where pop: "ring_pop r = (x, r')" by (cases "ring_pop r")
  have ne: "0 < ring_count r" using Suc.hyps(2) by simp
  note sp = ring_pop_spec [OF Suc.prems ne pop]
  have "k = ring_count r'" using sp(2) Suc.hyps(2) by simp
  from Suc.hyps(1) [OF this sp(1), of "Suc n"] obtain desc
    where l: "ring_free_loop (ri_clean r') (ri_use r') (ri_desc r') (Suc n) = Some (desc, Suc n + ring_count r')"
      and len: "length desc = 1024" by blast
  have "ri_clean r \<noteq> ri_use r" using ne ring_empty_iff [OF Suc.prems] by (simp add: ring_empty_def)
  moreover have "de_data (ri_desc r ! unat (ri_clean r)) \<noteq> None" using sp(3) pop by (auto simp: ring_pop_def Let_def)
  moreover have "r' = r\<lparr>ri_desc := (ri_desc r)[unat (ri_clean r) := (ri_desc r ! unat (ri_clean r))\<lparr>de_data := None\<rparr>],
      ri_clean := ring_next (ri_clean r)\<rparr>" using pop by (auto simp: ring_pop_def Let_def)
  ultimately have "ring_free_loop (ri_clean r) (ri_use r) (ri_desc r) n
      = ring_free_loop (ri_clean r') (ri_use r') (ri_desc r') (Suc n)"
    by (subst ring_free_loop.simps) simp
  with l len sp(2) show ?case by simp
qed

text \<open>A ring with two buffers, for the instances.\<close>

definition example_ring :: impair_ring where
  "example_ring = ring_push [4, 5] (ring_push [1, 2, 3]
     \<lparr>ri_desc = replicate 1024 zero_desc, ri_size = RING_SIZE, ri_use = 1023, ri_clean = 1023\<rparr>)"

lemma example_ring_ok: "ring_ok example_ring" "ring_contents example_ring = [[1, 2, 3], [4, 5]]"
proof -
  define r0 where "r0 = \<lparr>ri_desc = replicate 1024 zero_desc, ri_size = RING_SIZE, ri_use = 1023, ri_clean = 1023\<rparr>"
  have 0: "ring_ok r0" "ring_contents r0 = []" "ring_count r0 = 0"
    by (simp_all add: r0_def ring_ok_def ring_contents_def ring_count_def)
  have c0: "ring_count r0 < 1023" using 0(3) by simp
  note 1 = ring_push_spec [OF 0(1) c0, of "[1, 2, 3]"]
  have c1: "ring_count (ring_push [1, 2, 3] r0) < 1023" using 1(3) 0(3) by simp
  from ring_push_spec [OF 1(1) c1, of "[4, 5]"] 1 0
  show "ring_ok example_ring" "ring_contents example_ring = [[1, 2, 3], [4, 5]]"
    by (simp_all add: example_ring_def r0_def)
qed



text \<open>C26: the ring delivers the buffers in the order they were queued: for any sequence of guarded
  pushes and pops, what was delivered is a prefix of what was there and was accepted, and at
  most 1023 buffers are outstanding; as many pops as there are buffers empty it.\<close>

theorem ring_fifo:
  assumes "ring_ok r" and "ring.run_ops ops r = (accepted, delivered, r')"
  shows "ring_ok r' \<and> delivered = take (length delivered) (ring_contents r @ accepted) \<and>
    length (ring_contents r @ accepted) \<le> length delivered + 1023 \<and>
    (\<exists>r''. ring.run_ops (replicate (ring_count r') (Get 1)) r' = ([], ring_contents r', r''))"
proof -
  have "ring_ok r'" using ring.run_ops_fifo [OF assms] by blast
  with ring.delivered_prefix [OF assms] ring.drain [of r' 1 "ring_count r'"] show ?thesis by auto
qed

theorem ring_fifo_witness:
  "\<exists>r''. ring.run_ops (replicate 2 (Get 1)) example_ring = ([], [[1, 2, 3], [4, 5]], r'')"
proof -
  have "ring_count example_ring = 2"
    using arg_cong [OF example_ring_ok(2), of length] by simp
  with ring_fifo [OF example_ring_ok(1), of "[]" "[]" "[]" example_ring] show ?thesis
    by (auto simp: example_ring_ok(2))
qed

end
