(* ===== verification/ImpairNet.thy ===== *)
theory ImpairNet
  imports ImpairRing "HOL-Library.Sublist"
begin

text \<open>
  The impair network device (\<open>ch17_net/impair_main.c\<close>, \<open>impair_qvec.c\<close>): each queue is a pair of
  rings.  Transmission queues a buffer on the tx ring and arms the timer; the NAPI poll copies
  tx buffers that pass the MAC filter to the rx ring (\<open>impair_rx_drain\<close>) and hands rx buffers
  to the stack (\<open>impair_rx_deliver\<close>).  The ring's and the device's spinlocks make each loop
  iteration atomic with respect to the transmit path.
\<close>

subsection \<open>State\<close>

type_synonym mac = "byte list"

definition ETH_HLEN :: nat where "ETH_HLEN = 14"
definition ETH_ALEN :: nat where "ETH_ALEN = 6"

definition IMPAIR_MC_CAM_SIZE :: nat where "IMPAIR_MC_CAM_SIZE = 16"

record rx_filter_state =
  rf_promisc :: bool
  rf_allmulti :: bool
  rf_primary_mac :: mac
  rf_mc_cam :: "mac list"

record net_stats =
  st_rx_packets :: nat
  st_tx_packets :: nat
  st_rx_bytes :: nat
  st_tx_bytes :: nat
  st_tx_errors :: nat
  st_rx_dropped :: nat
  st_tx_dropped :: nat
  st_multicast :: nat

text \<open>\<open>qv_stopped\<close> is the state of the transmit queue, \<open>qv_timer\<close> whether the timer is armed.\<close>

record q_vector =
  qv_rx :: impair_ring
  qv_tx :: impair_ring
  qv_stopped :: bool
  qv_timer :: bool

record impair_priv =
  ip_q_vect :: "q_vector list"
  ip_stats :: net_stats
  ip_filter :: rx_filter_state

subsection \<open>The MAC filter\<close>

definition is_multicast :: "mac \<Rightarrow> bool" where
  "is_multicast a \<longleftrightarrow> bit (a ! 0) 0"

definition is_broadcast :: "mac \<Rightarrow> bool" where
  "is_broadcast a \<longleftrightarrow> take ETH_ALEN a = replicate ETH_ALEN 0xff"

definition rx_accept :: "rx_filter_state \<Rightarrow> mac \<Rightarrow> bool" where
  "rx_accept f dst =
     (if rf_promisc f then True
      else if is_broadcast dst then True
      else if is_multicast dst then
        (if rf_allmulti f then True else dst \<in> set (rf_mc_cam f))
      else dst = rf_primary_mac f)"

text \<open>The loop of \<open>impair_set_rx_mode\<close> over the device's multicast list.\<close>

fun fill_cam :: "mac list \<Rightarrow> rx_filter_state \<Rightarrow> rx_filter_state" where
  "fill_cam [] f = f"
| "fill_cam (a # as) f =
     (if length (rf_mc_cam f) = IMPAIR_MC_CAM_SIZE then f\<lparr>rf_allmulti := True\<rparr>
      else fill_cam as (f\<lparr>rf_mc_cam := rf_mc_cam f @ [a]\<rparr>))"

text \<open>\<open>promisc\<close> and \<open>allmulti\<close> are the device's flags, \<open>addr\<close> its address, \<open>mc\<close> its list.\<close>

definition impair_set_rx_mode :: "bool \<Rightarrow> bool \<Rightarrow> mac \<Rightarrow> mac list \<Rightarrow> impair_priv \<Rightarrow> impair_priv" where
  "impair_set_rx_mode promisc allmulti addr mc p =
     (let newf = \<lparr>rf_promisc = promisc, rf_allmulti = allmulti, rf_primary_mac = addr, rf_mc_cam = []\<rparr>
      in p\<lparr>ip_filter := (if \<not> promisc \<and> \<not> allmulti then fill_cam mc newf else newf)\<rparr>)"

text \<open>\<open>prep\<close> is the answer of \<open>eth_prepare_mac_addr_change\<close>.\<close>

definition impair_set_mac_address :: "unit res \<Rightarrow> mac \<Rightarrow> impair_priv \<Rightarrow> unit res \<times> impair_priv" where
  "impair_set_mac_address prep addr p = (case prep of
     Inl e \<Rightarrow> (Inl e, p)
   | Inr _ \<Rightarrow> (Inr (), p\<lparr>ip_filter := (ip_filter p)\<lparr>rf_primary_mac := addr\<rparr>\<rparr>))"

subsection \<open>Transmission\<close>

datatype netdev_tx = NETDEV_TX_OK | NETDEV_TX_BUSY

definition tx_enqueue :: "skb \<Rightarrow> q_vector \<Rightarrow> netdev_tx \<times> q_vector" where
  "tx_enqueue skb qv =
     (if ring_free (qv_tx qv) < 1 then (NETDEV_TX_BUSY, qv\<lparr>qv_stopped := True\<rparr>)
      else (NETDEV_TX_OK, qv\<lparr>qv_tx := ring_push skb (qv_tx qv), qv_timer := True\<rparr>))"

definition impair_tx :: "nat \<Rightarrow> skb \<Rightarrow> impair_priv \<Rightarrow> netdev_tx \<times> impair_priv" where
  "impair_tx q skb p = (case tx_enqueue skb (ip_q_vect p ! q) of
     (r, qv) \<Rightarrow> (r, p\<lparr>ip_q_vect := (ip_q_vect p)[q := qv]\<rparr>))"

definition impair_tx_timeout :: "nat \<Rightarrow> impair_priv \<Rightarrow> impair_priv" where
  "impair_tx_timeout q p =
     p\<lparr>ip_stats := (ip_stats p)\<lparr>st_tx_errors := st_tx_errors (ip_stats p) + 1,
         st_tx_dropped := st_tx_dropped (ip_stats p) + 1\<rparr>,
       ip_q_vect := (ip_q_vect p)[q := (ip_q_vect p ! q)\<lparr>qv_timer := True, qv_stopped := False\<rparr>]\<rparr>"

definition impair_mtu_set :: "int \<Rightarrow> int \<Rightarrow> unit res" where
  "impair_mtu_set mtu new_mtu = (if mtu = new_mtu then Inr () else Inl EINVAL)"

definition impair_get_stats64 :: "impair_priv \<Rightarrow> net_stats" where
  "impair_get_stats64 p = ip_stats p"

subsection \<open>The poll: from the tx ring to the rx ring\<close>

text \<open>
  One iteration of \<open>impair_rx_drain\<close> after the pop: the copy (a \<open>bool list\<close> answers the
  allocations), the length check, the filter and the push on the rx ring.
\<close>

definition rx_drop :: "net_stats \<Rightarrow> net_stats" where
  "rx_drop st = st\<lparr>st_rx_dropped := st_rx_dropped st + 1\<rparr>"

definition rx_receive :: "bool list \<Rightarrow> rx_filter_state \<Rightarrow> skb \<Rightarrow> impair_ring \<Rightarrow> net_stats \<Rightarrow>
    impair_ring \<times> net_stats \<times> bool list" where
  "rx_receive al f skb rx st =
     (case kalloc al of (ok, al') \<Rightarrow>
       (if \<not> ok then (rx, rx_drop st, al')
        else if length skb < ETH_HLEN then (rx, rx_drop st, al')
        else let h_dest = take ETH_ALEN skb in
          if \<not> rx_accept f h_dest then (rx, rx_drop st, al')
          else if ring_free rx < 1 then (rx, rx_drop st, al')
          else (ring_push skb rx,
                (if is_multicast h_dest then st\<lparr>st_multicast := st_multicast st + 1\<rparr> else st), al')))"

definition tx_complete :: "skb \<Rightarrow> net_stats \<Rightarrow> net_stats" where
  "tx_complete skb st = st\<lparr>st_tx_packets := st_tx_packets st + 1, st_tx_bytes := st_tx_bytes st + length skb\<rparr>"

text \<open>The pop, which wakes a stopped transmit queue.\<close>

definition tx_pop :: "q_vector \<Rightarrow> skb option \<times> q_vector" where
  "tx_pop qv = (case ring_pop (qv_tx qv) of (x, tx) \<Rightarrow>
     (x, qv\<lparr>qv_tx := tx, qv_stopped := (if qv_stopped qv \<and> ring_free tx > 0 then False else qv_stopped qv)\<rparr>))"

text \<open>The loop; the first argument is \<open>budget - work_done\<close>, the result starts with the work done.\<close>

primrec impair_rx_drain :: "nat \<Rightarrow> bool list \<Rightarrow> rx_filter_state \<Rightarrow> q_vector \<Rightarrow> net_stats \<Rightarrow>
    nat \<times> q_vector \<times> net_stats \<times> bool list" where
  "impair_rx_drain 0 al f qv st = (0, qv, st, al)"
| "impair_rx_drain (Suc b) al f qv st =
     (if ring_empty (qv_tx qv) then (0, qv, st, al)
      else case tx_pop qv of
          (None, qv1) \<Rightarrow> (0, qv1, st, al)
        | (Some skb, qv1) \<Rightarrow>
            (case rx_receive al f skb (qv_rx qv1) st of (rx, st1, al1) \<Rightarrow>
               (case impair_rx_drain b al1 f (qv1\<lparr>qv_rx := rx\<rparr>) (tx_complete skb st1) of
                  (w, qv2, st2, al2) \<Rightarrow> (Suc w, qv2, st2, al2))))"

text \<open>
  \<open>eth_type_trans\<close> pulls the Ethernet header before the length is counted.  The last component
  lists the buffers given to the stack.
\<close>

primrec impair_rx_deliver :: "nat \<Rightarrow> q_vector \<Rightarrow> net_stats \<Rightarrow> nat \<times> q_vector \<times> net_stats \<times> skb list" where
  "impair_rx_deliver 0 qv st = (0, qv, st, [])"
| "impair_rx_deliver (Suc b) qv st =
     (if ring_empty (qv_rx qv) then (0, qv, st, [])
      else case ring_pop (qv_rx qv) of
          (None, rx) \<Rightarrow> (0, qv\<lparr>qv_rx := rx\<rparr>, st, [])
        | (Some skb, rx) \<Rightarrow>
            (case impair_rx_deliver b (qv\<lparr>qv_rx := rx\<rparr>)
                (st\<lparr>st_rx_packets := st_rx_packets st + 1,
                    st_rx_bytes := st_rx_bytes st + (length skb - ETH_HLEN)\<rparr>) of
               (w, qv2, st2, up) \<Rightarrow> (Suc w, qv2, st2, skb # up)))"

text \<open>The result: the work done, whether the poll completed, the buffers given to the stack.\<close>

definition impair_poll :: "nat \<Rightarrow> bool list \<Rightarrow> rx_filter_state \<Rightarrow> q_vector \<Rightarrow> net_stats \<Rightarrow>
    nat \<times> bool \<times> skb list \<times> q_vector \<times> net_stats" where
  "impair_poll budget al f qv st =
     (case impair_rx_drain budget al f qv st of (w1, qv1, st1, _) \<Rightarrow>
       (if w1 < budget then
          (case impair_rx_deliver (budget - w1) qv1 st1 of (w2, qv2, st2, up) \<Rightarrow>
             (w1 + w2, w1 + w2 < budget, up, qv2, st2))
        else (w1, False, [], qv1, st1)))"

subsection \<open>Opening and closing the interface\<close>

definition zero_ring :: impair_ring where
  "zero_ring = \<lparr>ri_desc = replicate 1024 zero_desc, ri_size = 0, ri_use = 0, ri_clean = 0\<rparr>"

text \<open>The vectors that the loop of \<open>impair_alloc_q_vectors\<close> sets up.\<close>

definition init_q_vector :: "(unit res \<times> q_vector)" where
  "init_q_vector = (case ring_init zero_ring RING_SIZE of
     (Inl e, rx) \<Rightarrow> (Inl e, \<lparr>qv_rx = rx, qv_tx = zero_ring, qv_stopped = True, qv_timer = False\<rparr>)
   | (Inr _, rx) \<Rightarrow> (case ring_init zero_ring RING_SIZE of
       (r, tx) \<Rightarrow> (r, \<lparr>qv_rx = rx, qv_tx = tx, qv_stopped = True, qv_timer = False\<rparr>)))"

primrec init_q_vectors :: "nat \<Rightarrow> unit res \<times> q_vector list" where
  "init_q_vectors 0 = (Inr (), [])"
| "init_q_vectors (Suc n) = (case init_q_vector of
     (Inl e, qv) \<Rightarrow> (Inl e, [qv])
   | (Inr _, qv) \<Rightarrow> (case init_q_vectors n of (r, qvs) \<Rightarrow> (r, qv # qvs)))"

definition impair_alloc_q_vectors :: "bool \<Rightarrow> nat \<Rightarrow> impair_priv \<Rightarrow> unit res \<times> impair_priv" where
  "impair_alloc_q_vectors ok num_qs p =
     (if \<not> ok then (Inl ENOMEM, p\<lparr>ip_q_vect := []\<rparr>)
      else case init_q_vectors num_qs of (r, qvs) \<Rightarrow> (r, p\<lparr>ip_q_vect := qvs\<rparr>))"

definition impair_open :: "bool \<Rightarrow> nat \<Rightarrow> impair_priv \<Rightarrow> unit res \<times> impair_priv" where
  "impair_open ok q_vectors p = (case impair_alloc_q_vectors ok q_vectors p of
     (Inl e, p') \<Rightarrow> (Inl e, p')
   | (Inr _, p') \<Rightarrow> (Inr (), p'\<lparr>ip_q_vect := map (\<lambda>qv. qv\<lparr>qv_stopped := False\<rparr>) (ip_q_vect p')\<rparr>))"

text \<open>The result counts the buffers freed; \<open>None\<close> would be a loop that does not end.\<close>

primrec free_rings :: "q_vector list \<Rightarrow> nat option" where
  "free_rings [] = Some 0"
| "free_rings (qv # qvs) = (case ring_free_all (qv_rx qv) of
     None \<Rightarrow> None
   | Some (a, _) \<Rightarrow> (case ring_free_all (qv_tx qv) of
       None \<Rightarrow> None
     | Some (b, _) \<Rightarrow> (case free_rings qvs of None \<Rightarrow> None | Some n \<Rightarrow> Some (a + b + n))))"

definition impair_close :: "impair_priv \<Rightarrow> (nat \<times> impair_priv) option" where
  "impair_close p = (case free_rings (ip_q_vect p) of
     None \<Rightarrow> None | Some n \<Rightarrow> Some (n, p\<lparr>ip_q_vect := []\<rparr>))"

subsection \<open>Creating and removing the device\<close>

text \<open>
  \<open>impair_setup\<close> on the zeroed private data: \<open>ether_setup\<close> leaves both flags clear and the
  multicast list empty, and \<open>addr\<close> is the address \<open>eth_hw_addr_random\<close> chose.
\<close>

definition zero_priv :: impair_priv where
  "zero_priv = \<lparr>ip_q_vect = [],
     ip_stats = \<lparr>st_rx_packets = 0, st_tx_packets = 0, st_rx_bytes = 0, st_tx_bytes = 0, st_tx_errors = 0,
       st_rx_dropped = 0, st_tx_dropped = 0, st_multicast = 0\<rparr>,
     ip_filter = \<lparr>rf_promisc = False, rf_allmulti = False, rf_primary_mac = replicate ETH_ALEN 0, rf_mc_cam = []\<rparr>\<rparr>"

definition impair_setup :: "mac \<Rightarrow> impair_priv \<Rightarrow> impair_priv" where
  "impair_setup addr p =
     impair_set_rx_mode False False addr []
       (p\<lparr>ip_filter := \<lparr>rf_promisc = False, rf_allmulti = False, rf_primary_mac = addr, rf_mc_cam = []\<rparr>\<rparr>)"

definition net_impair_init :: "bool \<Rightarrow> mac \<Rightarrow> unit res \<Rightarrow> unit res \<times> impair_priv option" where
  "net_impair_init alloc_ok addr reg =
     (if \<not> alloc_ok then (Inl ENOMEM, None)
      else case reg of
          Inl e \<Rightarrow> (Inl e, None)
        | Inr _ \<Rightarrow> (Inr (), Some (impair_setup addr zero_priv)))"

subsection \<open>What an iteration does\<close>

definition qv_ok :: "q_vector \<Rightarrow> bool" where
  "qv_ok qv \<longleftrightarrow> ring_ok (qv_rx qv) \<and> ring_ok (qv_tx qv)"

definition deliverable :: "rx_filter_state \<Rightarrow> skb \<Rightarrow> bool" where
  "deliverable f skb \<longleftrightarrow> ETH_HLEN \<le> length skb \<and> rx_accept f (take ETH_ALEN skb)"

text \<open>The counters of \<open>impair_rx_drain\<close> besides the multicast one.\<close>

definition same_rx_stats :: "net_stats \<Rightarrow> net_stats \<Rightarrow> bool" where
  "same_rx_stats st st' \<longleftrightarrow> st_rx_packets st' = st_rx_packets st \<and> st_rx_bytes st' = st_rx_bytes st"

lemma rx_receive_spec:
  assumes ok: "ring_ok rx" and r: "rx_receive al f skb rx st = (rx', st', al')"
  shows "ring_ok rx' \<and> same_rx_stats st st' \<and> st_tx_packets st' = st_tx_packets st \<and> st_tx_bytes st' = st_tx_bytes st \<and>
    (rx' = rx \<and> st_rx_dropped st' = Suc (st_rx_dropped st) \<or>
     ring_contents rx' = ring_contents rx @ [skb] \<and> deliverable f skb \<and> st_rx_dropped st' = st_rx_dropped st)"
proof (cases "fst (kalloc al) \<and> deliverable f skb \<and> \<not> ring_free rx < 1")
  case True
  then have "ring_count rx < 1023" using ring_full_iff [OF ok] ring_count_less [of rx] by auto
  from ring_push_spec [OF ok this, of skb] True r show ?thesis
    by (auto simp: rx_receive_def deliverable_def same_rx_stats_def Let_def split: prod.splits if_splits)
next
  case False
  with r ok show ?thesis
    by (auto simp: rx_receive_def deliverable_def same_rx_stats_def rx_drop_def Let_def split: prod.splits if_splits)
qed

lemma tx_pop_spec:
  assumes ok: "qv_ok qv" and ne: "\<not> ring_empty (qv_tx qv)"
  obtains skb qv1 where "tx_pop qv = (Some skb, qv1)" and "qv_ok qv1" and "qv_rx qv1 = qv_rx qv"
    and "ring_contents (qv_tx qv) = skb # ring_contents (qv_tx qv1)" and "\<not> qv_stopped qv1" 
proof -
  have tx: "ring_ok (qv_tx qv)" using ok by (simp add: qv_ok_def)
  have n: "0 < ring_count (qv_tx qv)" using ne ring_empty_iff [OF tx] by simp
  obtain x tx' where pop: "ring_pop (qv_tx qv) = (x, tx')" by (cases "ring_pop (qv_tx qv)")
  note sp = ring_pop_spec [OF tx n pop]
  have "ring_count tx' < 1023" using sp(2) ring_count_less [of "qv_tx qv"] by simp
  then have "ring_free tx' > 0" using ring_free_eq [OF sp(1)] by (simp add: word_greater_zero_iff unat_gt_0 [symmetric] del: unat_gt_0)
  with sp pop ok that show thesis by (auto simp: tx_pop_def qv_ok_def)
qed

text \<open>
  The effect of draining: \<open>popped\<close> left the tx ring, \<open>accepted\<close> of it reached the rx ring, and
  every other one was counted as dropped.
\<close>

definition drain_effect :: "rx_filter_state \<Rightarrow> q_vector \<Rightarrow> net_stats \<Rightarrow> nat \<Rightarrow> q_vector \<Rightarrow> net_stats \<Rightarrow>
    skb list \<Rightarrow> skb list \<Rightarrow> bool" where
  "drain_effect f qv st w qv' st' popped accepted \<longleftrightarrow>
     qv_ok qv' \<and> same_rx_stats st st' \<and> length popped = w \<and> (qv_stopped qv' \<longrightarrow> qv_stopped qv \<and> w = 0) \<and>
     ring_contents (qv_tx qv) = popped @ ring_contents (qv_tx qv') \<and>
     ring_contents (qv_rx qv') = ring_contents (qv_rx qv) @ accepted \<and>
     subseq accepted popped \<and> (\<forall>skb\<in>set accepted. deliverable f skb) \<and>
     st_tx_packets st' = st_tx_packets st + w \<and>
     st_tx_bytes st' = st_tx_bytes st + sum_list (map length popped) \<and>
     st_rx_dropped st' + length accepted = st_rx_dropped st + w"

lemma drain_effect_Nil: "qv_ok qv \<Longrightarrow> drain_effect f qv st 0 qv st [] []"
  by (simp add: drain_effect_def same_rx_stats_def)

lemma drain_effect_Cons:
  assumes ok: "ring_ok (qv_rx qv)" and tx: "ring_contents (qv_tx qv) = skb # ring_contents (qv_tx qv1)"
    and rx1: "qv_rx qv1 = qv_rx qv" and ns: "\<not> qv_stopped qv1"
    and r: "rx_receive al f skb (qv_rx qv) st = (rx, st1, al1)"
    and rest: "drain_effect f (qv1\<lparr>qv_rx := rx\<rparr>) (tx_complete skb st1) w qv' st' popped accepted"
  shows "\<exists>acc. drain_effect f qv st (Suc w) qv' st' (skb # popped) acc"
proof -
  note rs = rx_receive_spec [OF ok r]
  note d = rest [unfolded drain_effect_def]
  have st': "same_rx_stats st st'" "st_tx_packets st' = st_tx_packets st + Suc w"
    "st_tx_bytes st' = st_tx_bytes st + sum_list (map length (skb # popped))"
    "st_rx_dropped st' + length accepted = st_rx_dropped st1 + w"
    using rs d by (auto simp: tx_complete_def same_rx_stats_def)
  from rs consider
      (dropped) "rx = qv_rx qv" "st_rx_dropped st1 = Suc (st_rx_dropped st)"
    | (pushed) "ring_contents rx = ring_contents (qv_rx qv) @ [skb]" "deliverable f skb" "st_rx_dropped st1 = st_rx_dropped st"
    by blast
  then show ?thesis
  proof cases
    case dropped
    then have "drain_effect f qv st (Suc w) qv' st' (skb # popped) accepted"
      using st' d tx ns unfolding drain_effect_def by (auto intro: list_emb_Cons)
    then show ?thesis ..
  next
    case pushed
    then have "drain_effect f qv st (Suc w) qv' st' (skb # popped) (skb # accepted)"
      using st' d tx ns unfolding drain_effect_def by auto
    then show ?thesis ..
  qed
qed

lemma impair_rx_drain_spec:
  "qv_ok qv \<Longrightarrow> impair_rx_drain b al f qv st = (w, qv', st', al') \<Longrightarrow>
     w = min b (ring_count (qv_tx qv)) \<and> (\<exists>popped accepted. drain_effect f qv st w qv' st' popped accepted)"
proof (induction b arbitrary: al qv st w)
  case 0
  then show ?case by (auto intro: drain_effect_Nil)
next
  case (Suc b)
  have rings: "ring_ok (qv_rx qv)" "ring_ok (qv_tx qv)" using Suc.prems(1) by (simp_all add: qv_ok_def)
  show ?case
  proof (cases "ring_empty (qv_tx qv)")
    case True
    with Suc.prems ring_empty_iff [OF rings(2)] show ?thesis by (auto intro: drain_effect_Nil)
  next
    case False
    then obtain skb qv1 where p: "tx_pop qv = (Some skb, qv1)" and ok1: "qv_ok qv1" and rx1: "qv_rx qv1 = qv_rx qv"
      and tx: "ring_contents (qv_tx qv) = skb # ring_contents (qv_tx qv1)" and ns: "\<not> qv_stopped qv1"
      by (rule tx_pop_spec [OF Suc.prems(1)])
    obtain rx st1 al1 where r: "rx_receive al f skb (qv_rx qv) st = (rx, st1, al1)" by (metis prod_cases3)
    obtain w1 where d: "impair_rx_drain b al1 f (qv1\<lparr>qv_rx := rx\<rparr>) (tx_complete skb st1) = (w1, qv', st', al')"
      and w: "w = Suc w1"
      using Suc.prems(2) False p rx1 r by (auto split: prod.splits)
    have ok2: "qv_ok (qv1\<lparr>qv_rx := rx\<rparr>)" using ok1 rx_receive_spec [OF rings(1) r] by (simp add: qv_ok_def)
    from Suc.IH [OF ok2 d] obtain popped accepted where w1: "w1 = min b (ring_count (qv_tx qv1))"
      and e: "drain_effect f (qv1\<lparr>qv_rx := rx\<rparr>) (tx_complete skb st1) w1 qv' st' popped accepted" by auto
    have "ring_count (qv_tx qv) = Suc (ring_count (qv_tx qv1))" using arg_cong [OF tx, of length] by simp
    then have "w = min (Suc b) (ring_count (qv_tx qv))" using w w1 by simp
    with drain_effect_Cons [OF rings(1) tx rx1 ns r e] w show ?thesis by blast
  qed
qed

lemma impair_rx_deliver_spec:
  "qv_ok qv \<Longrightarrow> impair_rx_deliver b qv st = (w, qv', st', up) \<Longrightarrow>
     w = min b (ring_count (qv_rx qv)) \<and> length up = w \<and> qv_ok qv' \<and>
     qv_tx qv' = qv_tx qv \<and> qv_stopped qv' = qv_stopped qv \<and>
     ring_contents (qv_rx qv) = up @ ring_contents (qv_rx qv') \<and>
     st' = st\<lparr>st_rx_packets := st_rx_packets st + w,
       st_rx_bytes := st_rx_bytes st + sum_list (map (\<lambda>skb. length skb - ETH_HLEN) up)\<rparr>"
proof (induction b arbitrary: qv st w up)
  case (Suc b)
  have rx: "ring_ok (qv_rx qv)" using Suc.prems(1) by (simp add: qv_ok_def)
  show ?case
  proof (cases "ring_empty (qv_rx qv)")
    case True
    with Suc.prems ring_empty_iff [OF rx] show ?thesis by auto
  next
    case False
    obtain x rx1 where pop: "ring_pop (qv_rx qv) = (x, rx1)" by (cases "ring_pop (qv_rx qv)")
    have n: "0 < ring_count (qv_rx qv)" using False ring_empty_iff [OF rx] by simp
    note sp = ring_pop_spec [OF rx n pop]
    from sp(3) obtain skb where x: "x = Some skb" and c: "ring_contents (qv_rx qv) = skb # ring_contents rx1" by blast
    have ok1: "qv_ok (qv\<lparr>qv_rx := rx1\<rparr>)" using Suc.prems(1) sp(1) by (simp add: qv_ok_def)
    obtain w1 up1 where d: "impair_rx_deliver b (qv\<lparr>qv_rx := rx1\<rparr>) (st\<lparr>st_rx_packets := st_rx_packets st + 1,
          st_rx_bytes := st_rx_bytes st + (length skb - ETH_HLEN)\<rparr>) = (w1, qv', st', up1)"
      and w: "w = Suc w1" "up = skb # up1"
      using Suc.prems(2) False pop x by (auto split: prod.splits)
    from Suc.IH [OF ok1 d] w c sp(2) show ?thesis by simp
  qed
qed simp

subsection \<open>Properties\<close>

definition example_qv :: q_vector where
  "example_qv = \<lparr>qv_rx = \<lparr>ri_desc = replicate 1024 zero_desc, ri_size = RING_SIZE, ri_use = 0, ri_clean = 0\<rparr>,
     qv_tx = example_ring, qv_stopped = False, qv_timer = True\<rparr>"

lemma empty_ring_ok:
  "ring_ok \<lparr>ri_desc = replicate 1024 zero_desc, ri_size = RING_SIZE, ri_use = 0, ri_clean = 0\<rparr>"
  "ring_contents \<lparr>ri_desc = replicate 1024 zero_desc, ri_size = RING_SIZE, ri_use = 0, ri_clean = 0\<rparr> = []"
  by (simp_all add: ring_ok_def ring_count_def ring_contents_def)

lemma example_qv_ok: "qv_ok example_qv" "ring_count (qv_tx example_qv) = 2" "ring_count (qv_rx example_qv) = 0"
proof -
  have "length (ring_contents example_ring) = 2" by (simp only: example_ring_ok(2)) simp
  then show "qv_ok example_qv" "ring_count (qv_tx example_qv) = 2" "ring_count (qv_rx example_qv) = 0"
    using example_ring_ok(1) empty_ring_ok(1) by (simp_all add: example_qv_def qv_ok_def) (simp add: ring_count_def)
qed

lemma impair_poll_spec:
  assumes ok: "qv_ok qv" and p: "impair_poll budget al f qv st = (work, complete, up, qv', st')"
  shows "\<exists>popped accepted. qv_ok qv' \<and>
    ring_contents (qv_tx qv) = popped @ ring_contents (qv_tx qv') \<and>
    ring_contents (qv_rx qv) @ accepted = up @ ring_contents (qv_rx qv') \<and>
    subseq accepted popped \<and> (\<forall>skb\<in>set accepted. deliverable f skb) \<and>
    st_tx_packets st' = st_tx_packets st + length popped \<and>
    st_rx_dropped st' + length accepted = st_rx_dropped st + length popped \<and>
    st_rx_packets st' = st_rx_packets st + length up \<and>
    work = length popped + length up \<and> work \<le> budget \<and> complete = (work < budget) \<and>
    (complete \<longrightarrow> ring_contents (qv_tx qv') = [] \<and> ring_contents (qv_rx qv') = [])"
proof -
  obtain w1 qv1 st1 al1 where d: "impair_rx_drain budget al f qv st = (w1, qv1, st1, al1)" by (metis prod_cases4)
  from impair_rx_drain_spec [OF ok d] obtain popped accepted where w1: "w1 = min budget (ring_count (qv_tx qv))"
    and e: "drain_effect f qv st w1 qv1 st1 popped accepted" by blast
  from e have ok1: "qv_ok qv1" and lp: "length popped = w1"
    and tx: "ring_contents (qv_tx qv) = popped @ ring_contents (qv_tx qv1)"
    and rx: "ring_contents (qv_rx qv1) = ring_contents (qv_rx qv) @ accepted"
    and sub: "subseq accepted popped" and del: "\<forall>skb\<in>set accepted. deliverable f skb"
    and st1: "st_tx_packets st1 = st_tx_packets st + w1" "st_rx_dropped st1 + length accepted = st_rx_dropped st + w1"
      "st_rx_packets st1 = st_rx_packets st"
    by (simp_all add: drain_effect_def same_rx_stats_def)
  have len: "ring_count (qv_tx qv) = w1 + ring_count (qv_tx qv1)"
    using arg_cong [OF tx, of length] lp by simp
  show ?thesis
  proof (cases "w1 < budget")
    case False
    then have res: "work = w1" "\<not> complete" "up = []" "qv' = qv1" "st' = st1"
      using p d by (auto simp: impair_poll_def)
    show ?thesis
      by (rule exI [of _ popped], rule exI [of _ accepted])
        (use res ok1 lp tx rx sub del st1 False w1 min.cobounded1 [of budget "ring_count (qv_tx qv)"] in \<open>simp del: min.cobounded1\<close>)
  next
    case True
    then have "ring_count (qv_tx qv1) = 0" using w1 len by linarith
    then have tx1: "ring_contents (qv_tx qv1) = []" by (simp add: ring_contents_empty_iff)
    obtain w2 qv2 st2 up2 where r: "impair_rx_deliver (budget - w1) qv1 st1 = (w2, qv2, st2, up2)" by (metis prod_cases4)
    note ds = impair_rx_deliver_spec [OF ok1 r]
    have res: "work = w1 + w2" "complete = (w1 + w2 < budget)" "up = up2" "qv' = qv2" "st' = st2"
      using p d r True by (auto simp: impair_poll_def)
    from ds have ok2: "qv_ok qv2" "qv_tx qv2 = qv_tx qv1" and lu: "length up2 = w2"
      and up: "ring_contents (qv_rx qv1) = up2 @ ring_contents (qv_rx qv2)"
      and st2: "st_tx_packets st2 = st_tx_packets st1" "st_rx_dropped st2 = st_rx_dropped st1"
        "st_rx_packets st2 = st_rx_packets st1 + w2" and w2: "w2 = min (budget - w1) (ring_count (qv_rx qv1))" by simp_all
    have "ring_count (qv_rx qv1) = w2 + ring_count (qv_rx qv2)"
      using arg_cong [OF up, of length] lu by simp
    then have "w1 + w2 < budget \<Longrightarrow> ring_count (qv_rx qv2) = 0" using w2 True by linarith
    then have rx2: "w1 + w2 < budget \<Longrightarrow> ring_contents (qv_rx qv2) = []"
      by (simp add: ring_contents_empty_iff)
    from rx up have fifo: "ring_contents (qv_rx qv) @ accepted = up2 @ ring_contents (qv_rx qv2)" by simp
    have le: "w1 + w2 \<le> budget" using w2 True by simp
    show ?thesis unfolding res
      by (rule exI [of _ popped], rule exI [of _ accepted], intro conjI)
        (use ok2 lu lp sub del st1 st2 tx1 rx2 le in \<open>simp_all add: tx [unfolded tx1] fifo\<close>)
  qed
qed



lemma impair_poll_accounts_aux:
  assumes ok: "qv_ok qv" and p: "impair_poll budget al f qv st = (work, complete, up, qv', st')"
  shows "qv_ok qv' \<and> complete = (work < budget) \<and>
    (ring_count (qv_tx qv) = 0 \<and> ring_count (qv_rx qv) = 0 \<longrightarrow> work = 0) \<and>
    (0 < budget \<longrightarrow> \<not> (ring_count (qv_tx qv) = 0 \<and> ring_count (qv_rx qv) = 0) \<longrightarrow> 0 < work)"
proof -
  from impair_poll_spec [OF ok p] obtain popped accepted
    where e: "qv_ok qv'" "ring_contents (qv_tx qv) = popped @ ring_contents (qv_tx qv')"
      "ring_contents (qv_rx qv) @ accepted = up @ ring_contents (qv_rx qv')" "subseq accepted popped"
      "work = length popped + length up" "complete = (work < budget)"
      "complete \<longrightarrow> ring_contents (qv_tx qv') = [] \<and> ring_contents (qv_rx qv') = []" by blast
  have idle: "work = 0" if "ring_contents (qv_tx qv) = []" "ring_contents (qv_rx qv) = []"
    using that e(2,3,5) list_emb_length [OF e(4)] by auto
  have busy: "ring_contents (qv_tx qv) = [] \<and> ring_contents (qv_rx qv) = []" if "0 < budget" "work = 0"
    using that e(2-7) by auto
  show ?thesis using e(1,6) idle busy by (cases "work = 0") (auto simp: ring_contents_empty_iff)
qed

definition poll_round :: "nat \<Rightarrow> rx_filter_state \<Rightarrow> q_vector \<times> net_stats \<Rightarrow> q_vector \<times> net_stats" where
  "poll_round budget f s = (case s of (qv, st) \<Rightarrow>
     (case impair_poll budget [] f qv st of (_, _, _, qv', st') \<Rightarrow> (qv', st')))"

lemma poll_decreases:
  assumes ok: "qv_ok qv" and p: "impair_poll budget al f qv st = (work, complete, up, qv', st')"
  shows "2 * ring_count (qv_tx qv') + ring_count (qv_rx qv') + work \<le> 2 * ring_count (qv_tx qv) + ring_count (qv_rx qv)"
proof -
  from impair_poll_spec [OF ok p] obtain popped accepted
    where e: "ring_contents (qv_tx qv) = popped @ ring_contents (qv_tx qv')"
      "ring_contents (qv_rx qv) @ accepted = up @ ring_contents (qv_rx qv')" "subseq accepted popped"
      "work = length popped + length up" by blast
  from arg_cong [OF e(1), of length] arg_cong [OF e(2), of length] list_emb_length [OF e(3)] e(4) show ?thesis by simp
qed

text \<open>Polling ends: with a positive budget and nothing transmitted in between, after finitely
  many polls (at most 3069) one completes, and both rings are empty.\<close>

lemma poll_completes:
  assumes ok: "qv_ok qv" and b: "0 < budget"
  shows "\<exists>n\<le>3069. \<exists>qv' st'. ((poll_round budget f) ^^ n) (qv, st) = (qv', st') \<and>
    ring_contents (qv_tx qv') = [] \<and> ring_contents (qv_rx qv') = [] \<and>
    fst (snd (impair_poll budget [] f qv' st'))"
proof -
  have rounds: "\<exists>n\<le>m. \<exists>qv' st'. ((poll_round budget f) ^^ n) (qv, st) = (qv', st') \<and>
      ring_contents (qv_tx qv') = [] \<and> ring_contents (qv_rx qv') = [] \<and> qv_ok qv'"
    if "qv_ok qv" and "2 * ring_count (qv_tx qv) + ring_count (qv_rx qv) \<le> m" for m qv st
    using that
  proof (induction m arbitrary: qv st)
    case 0
    then show ?case by (auto simp: ring_contents_empty_iff intro!: exI [of _ 0])
  next
    case (Suc m)
    show ?case
    proof (cases "ring_count (qv_tx qv) = 0 \<and> ring_count (qv_rx qv) = 0")
      case True
      with Suc.prems show ?thesis by (auto simp: ring_contents_empty_iff intro!: exI [of _ 0])
    next
      case False
      obtain work complete up qv1 st1 where p: "impair_poll budget [] f qv st = (work, complete, up, qv1, st1)"
        by (metis prod_cases5)
      from impair_poll_accounts_aux [OF Suc.prems(1) p] have ok1: "qv_ok qv1" and work: "0 < work"
        using False b by auto
      have "2 * ring_count (qv_tx qv1) + ring_count (qv_rx qv1) \<le> m"
        using poll_decreases [OF Suc.prems(1) p] Suc.prems(2) work by simp
      from Suc.IH [OF ok1 this, of st1] obtain n qv' st' where n: "n \<le> m"
        and run: "((poll_round budget f) ^^ n) (qv1, st1) = (qv', st')" and rest: "ring_contents (qv_tx qv') = []"
          "ring_contents (qv_rx qv') = []" "qv_ok qv'" by blast
      have "((poll_round budget f) ^^ Suc n) (qv, st) = (qv', st')"
        using run p by (simp add: funpow_Suc_right poll_round_def del: funpow.simps)
      with n rest show ?thesis by (meson Suc_le_mono)
    qed
  qed
  have "2 * ring_count (qv_tx qv) + ring_count (qv_rx qv) \<le> 3069"
    using ring_count_less [of "qv_tx qv"] ring_count_less [of "qv_rx qv"] by linarith
  from rounds [OF ok this, of st] obtain n qv' st' where n: "n \<le> 3069"
    and run: "((poll_round budget f) ^^ n) (qv, st) = (qv', st')" and e: "ring_contents (qv_tx qv') = []"
      "ring_contents (qv_rx qv') = []" "qv_ok qv'" by blast
  obtain work complete up qv1 st1 where p: "impair_poll budget [] f qv' st' = (work, complete, up, qv1, st1)"
    by (metis prod_cases5)
  from impair_poll_accounts_aux [OF e(3) p] e b have complete by (auto simp: ring_contents_empty_iff)
  with n run e p show ?thesis by (intro exI [of _ n]) auto
qed

lemma poll_completes_witness:
  "\<exists>n\<le>3069. \<exists>qv' st'. ((poll_round 64 (ip_filter zero_priv)) ^^ n) (example_qv, ip_stats zero_priv) = (qv', st') \<and> ring_contents (qv_tx qv') = []"
  using poll_completes [OF example_qv_ok(1), of 64 "ip_filter zero_priv" "ip_stats zero_priv"] by auto

text \<open>Transmission has priority over reception: while the tx ring holds at least a budget of
  buffers, a poll moves a budget of them and gives nothing to the stack, whatever is waiting in
  the rx ring.\<close>

lemma poll_starves_rx:
  assumes "qv_ok qv" and "budget \<le> ring_count (qv_tx qv)"
  shows "\<exists>qv' st'. impair_poll budget al f qv st = (budget, False, [], qv', st') \<and>
    (\<exists>accepted. ring_contents (qv_rx qv') = ring_contents (qv_rx qv) @ accepted)"
proof -
  obtain w qv1 st1 al1 where d: "impair_rx_drain budget al f qv st = (w, qv1, st1, al1)" by (metis prod_cases4)
  from impair_rx_drain_spec [OF assms(1) d] assms(2) have "w = budget" "\<exists>popped accepted. drain_effect f qv st w qv1 st1 popped accepted"
    by auto
  with d show ?thesis by (auto simp: impair_poll_def drain_effect_def)
qed

lemma poll_starves_rx_witness:
  "\<exists>qv' st'. impair_poll 2 [] f example_qv st = (2, False, [], qv', st')"
  using poll_starves_rx [OF example_qv_ok(1), of 2 "[]" f st] example_qv_ok(2) by fastforce

definition stop_ok :: "q_vector \<Rightarrow> bool" where
  "stop_ok qv \<longleftrightarrow> (qv_stopped qv \<longrightarrow> ring_count (qv_tx qv) = 1023)"

lemma tx_enqueue_spec:
  assumes "qv_ok qv" and "stop_ok qv" and "tx_enqueue skb qv = (r, qv')"
  shows "qv_ok qv' \<and> stop_ok qv' \<and>
    (if ring_count (qv_tx qv) = 1023 then r = NETDEV_TX_BUSY \<and> qv_stopped qv' \<and> qv_tx qv' = qv_tx qv
     else r = NETDEV_TX_OK \<and> qv_timer qv' \<and> ring_contents (qv_tx qv') = ring_contents (qv_tx qv) @ [skb]) \<and>
    (\<forall>b al f st w qv'' st'' al''. impair_rx_drain b al f qv st = (w, qv'', st'', al'') \<longrightarrow> stop_ok qv'')"
proof -
  have tx: "ring_ok (qv_tx qv)" using assms(1) by (simp add: qv_ok_def)
  have drain: "stop_ok qv''" if d: "impair_rx_drain b al f qv st = (w, qv'', st'', al'')" for b al f st w qv'' st'' al''
  proof -
    from impair_rx_drain_spec [OF assms(1) d] obtain popped accepted
      where e: "drain_effect f qv st w qv'' st'' popped accepted" by blast
    then have "w = 0 \<Longrightarrow> ring_contents (qv_tx qv'') = ring_contents (qv_tx qv)" by (auto simp: drain_effect_def)
    then have "w = 0 \<Longrightarrow> ring_count (qv_tx qv'') = ring_count (qv_tx qv)" by (metis length_ring_contents)
    with e assms(2) show ?thesis by (auto simp: stop_ok_def drain_effect_def)
  qed
  show ?thesis
  proof (cases "ring_count (qv_tx qv) = 1023")
    case True
    with assms drain ring_full_iff [OF tx] show ?thesis by (auto simp: tx_enqueue_def qv_ok_def stop_ok_def)
  next
    case False
    then have room: "ring_count (qv_tx qv) < 1023" using ring_count_less [of "qv_tx qv"] by simp
    from ring_push_spec [OF tx room, of skb] False assms drain ring_full_iff [OF tx] show ?thesis
      by (auto simp: tx_enqueue_def qv_ok_def stop_ok_def)
  qed
qed

text \<open>Transmission: a buffer is refused exactly when 1023 are queued, and then the queue is
  stopped; otherwise it is queued last and the timer is armed.  The queue is stopped only while
  the ring is full: the pop that makes room wakes it.\<close>

lemma tx_enqueue_correct:
  assumes "qv_ok qv" and "stop_ok qv" and "tx_enqueue skb qv = (r, qv')"
  shows "qv_ok qv' \<and> stop_ok qv' \<and>
    (if ring_count (qv_tx qv) = 1023 then r = NETDEV_TX_BUSY \<and> qv_stopped qv' \<and> qv_tx qv' = qv_tx qv
     else r = NETDEV_TX_OK \<and> qv_timer qv' \<and> ring_contents (qv_tx qv') = ring_contents (qv_tx qv) @ [skb]) \<and>
    (\<forall>b al f st w qv'' st'' al''. impair_rx_drain b al f qv st = (w, qv'', st'', al'') \<longrightarrow> stop_ok qv'')"
  by (rule tx_enqueue_spec [OF assms])

lemma tx_enqueue_correct_witness:
  "\<exists>qv'. tx_enqueue [7] example_qv = (NETDEV_TX_OK, qv') \<and>
     ring_contents (qv_tx qv') = [[1, 2, 3], [4, 5], [7]]"
proof -
  obtain r qv' where t: "tx_enqueue [7] example_qv = (r, qv')" by (metis surj_pair)
  have "stop_ok example_qv" by (simp add: stop_ok_def example_qv_def)
  from tx_enqueue_correct [OF example_qv_ok(1) this t] t example_qv_ok(2) example_ring_ok(2)
  show ?thesis by (simp add: example_qv_def)
qed

subsection \<open>The filter against the multicast list\<close>

lemma fill_cam_eq:
  "length (rf_mc_cam f) \<le> IMPAIR_MC_CAM_SIZE \<Longrightarrow> fill_cam as f =
     (if length (rf_mc_cam f) + length as \<le> IMPAIR_MC_CAM_SIZE then f\<lparr>rf_mc_cam := rf_mc_cam f @ as\<rparr>
      else f\<lparr>rf_allmulti := True, rf_mc_cam := rf_mc_cam f @ take (IMPAIR_MC_CAM_SIZE - length (rf_mc_cam f)) as\<rparr>)"
proof (induction as arbitrary: f)
  case (Cons a as)
  show ?case
  proof (cases "length (rf_mc_cam f) = IMPAIR_MC_CAM_SIZE")
    case False
    then have n: "length (rf_mc_cam f) < IMPAIR_MC_CAM_SIZE" using Cons.prems by simp
    then have "IMPAIR_MC_CAM_SIZE - length (rf_mc_cam f) = Suc (IMPAIR_MC_CAM_SIZE - Suc (length (rf_mc_cam f)))" by simp
    with Cons.IH [of "f\<lparr>rf_mc_cam := rf_mc_cam f @ [a]\<rparr>"] False n show ?thesis by simp
  qed simp
qed simp

text \<open>The filter that \<open>impair_set_rx_mode\<close> installs accepts what the device asked for: broadcast
  and every address in its multicast list, however long; with neither flag set and a list of at
  most 16 addresses it accepts of the others exactly the device's own address, and with a longer
  list every multicast address too.\<close>

lemma rx_mode_accepts:
  "rx_accept (ip_filter (impair_set_rx_mode promisc allmulti addr mc p)) dst \<longleftrightarrow>
     promisc \<or> is_broadcast dst \<or>
     (if is_multicast dst then allmulti \<or> 16 < length mc \<or> dst \<in> set mc else dst = addr)"
proof -
  define f where "f = \<lparr>rf_promisc = promisc, rf_allmulti = allmulti, rf_primary_mac = addr, rf_mc_cam = []\<rparr>"
  have "fill_cam mc f = (if length mc \<le> 16 then f\<lparr>rf_mc_cam := mc\<rparr>
      else f\<lparr>rf_allmulti := True, rf_mc_cam := take 16 mc\<rparr>)"
    using fill_cam_eq [of f mc] by (simp add: f_def IMPAIR_MC_CAM_SIZE_def)
  then show ?thesis
    by (auto simp: impair_set_rx_mode_def Let_def f_def [symmetric] rx_accept_def) (auto simp: f_def)
qed

subsection \<open>Opening and closing\<close>

definition priv_ok :: "impair_priv \<Rightarrow> bool" where
  "priv_ok p \<longleftrightarrow> (\<forall>qv\<in>set (ip_q_vect p). qv_ok qv)"

definition buffered :: "q_vector list \<Rightarrow> nat" where
  "buffered qvs = sum_list (map (\<lambda>qv. length (ring_contents (qv_rx qv)) + length (ring_contents (qv_tx qv))) qvs)"

lemma free_rings_eq: "\<forall>qv\<in>set qvs. qv_ok qv \<Longrightarrow> free_rings qvs = Some (buffered qvs)"
proof (induction qvs)
  case (Cons qv qvs)
  have "ring_ok (qv_rx qv)" "ring_ok (qv_tx qv)" using Cons.prems by (simp_all add: qv_ok_def)
  with ring_free_loop_ok [of "qv_rx qv" 0] ring_free_loop_ok [of "qv_tx qv" 0] Cons
  show ?case by (auto simp: buffered_def ring_free_all_def)
qed (simp add: buffered_def)

lemma init_q_vector_ok: "\<exists>qv. init_q_vector = (Inr (), qv) \<and> qv_ok qv \<and> buffered [qv] = 0"
proof -
  from ring_init_ok [of zero_ring] obtain r where "ring_init zero_ring RING_SIZE = (Inr (), r)" "ring_ok r" "ring_contents r = []"
    by (auto simp: zero_ring_def)
  then show ?thesis by (simp add: init_q_vector_def qv_ok_def buffered_def ring_contents_empty_iff)
qed

lemma init_q_vectors_ok:
  "\<exists>qvs. init_q_vectors n = (Inr (), qvs) \<and> length qvs = n \<and> (\<forall>qv\<in>set qvs. qv_ok qv) \<and> buffered qvs = 0"
proof (induction n)
  case 0
  show ?case by (simp add: buffered_def)
next
  case (Suc n)
  then obtain qvs where q: "init_q_vectors n = (Inr (), qvs)" "length qvs = n" "\<forall>qv\<in>set qvs. qv_ok qv" "buffered qvs = 0" by blast
  from init_q_vector_ok obtain qv where v: "init_q_vector = (Inr (), qv)" "qv_ok qv" "buffered [qv] = 0" by blast
  from q have "init_q_vectors (Suc n) = (Inr (), qv # qvs)" by (simp add: v(1))
  with v show ?case using q by (auto simp: buffered_def)
qed

text \<open>Opening the interface with memory available sets up every queue with two empty rings and
  started transmission; without memory it fails and leaves no queue.  Closing an interface ends
  and frees every buffer that is still in one of the rings.\<close>

lemma impair_open_close:
  "(\<exists>p'. impair_open True n p = (Inr (), p') \<and> length (ip_q_vect p') = n \<and> priv_ok p' \<and>
      buffered (ip_q_vect p') = 0 \<and> (\<forall>qv\<in>set (ip_q_vect p'). \<not> qv_stopped qv)) \<and>
   (\<exists>p'. impair_open False n p = (Inl ENOMEM, p') \<and> ip_q_vect p' = []) \<and>
   (priv_ok p \<longrightarrow> impair_close p = Some (buffered (ip_q_vect p), p\<lparr>ip_q_vect := []\<rparr>))"
proof -
  from init_q_vectors_ok [of n] obtain qvs where q: "init_q_vectors n = (Inr (), qvs)" "length qvs = n"
    "\<forall>qv\<in>set qvs. qv_ok qv" "buffered qvs = 0" by blast
  have "buffered (map (\<lambda>qv. qv\<lparr>qv_stopped := False\<rparr>) qvs) = buffered qvs"
    by (simp add: buffered_def comp_def)
  with q free_rings_eq [of "ip_q_vect p"] show ?thesis
    by (auto simp: impair_open_def impair_alloc_q_vectors_def priv_ok_def qv_ok_def impair_close_def)
qed

lemma impair_open_close_witness:
  "\<exists>p. ip_q_vect p = [example_qv] \<and> impair_close p = Some (2, p\<lparr>ip_q_vect := []\<rparr>)"
proof -
  define p where "p = \<lparr>ip_q_vect = [example_qv], ip_stats = undefined, ip_filter = undefined\<rparr>"
  have "priv_ok p" "buffered (ip_q_vect p) = 2" using example_qv_ok by (simp_all add: p_def priv_ok_def buffered_def)
  with impair_open_close [of 0 p] have "impair_close p = Some (2, p\<lparr>ip_q_vect := []\<rparr>)" by simp
  then show ?thesis by (intro exI [of _ p]) (simp add: p_def)
qed

text \<open>Unloading: unregistering the device closes it when it is up, then it is freed.\<close>

definition net_impair_exit :: "bool \<Rightarrow> impair_priv option \<Rightarrow> (nat \<times> impair_priv option) option" where
  "net_impair_exit up dev = (case dev of None \<Rightarrow> Some (0, None)
     | Some p \<Rightarrow> (if up then (case impair_close p of None \<Rightarrow> None | Some (n, p') \<Rightarrow> Some (n, None)) else Some (0, None)))"

lemma net_impair_exit_frees:
  assumes "priv_ok p"
  shows "net_impair_exit True (Some p) = Some (buffered (ip_q_vect p), None)"
  using assms by (simp add: net_impair_exit_def impair_close_def priv_ok_def free_rings_eq)

end
