(* ===== verification/NapiSystem.thy ===== *)
theory NapiSystem
  imports ImpairNet
begin

text \<open>
  One queue of the impair network device at work: the transmit path (\<open>impair_main.c\<close>), the timer that
  plays the interrupt, the NAPI poll (\<open>impair_qvec.c\<close>), the watchdog and changes of the filter,
  interleaved at their critical sections.  The poll is cut into the iterations of its two loops.
\<close>

subsection \<open>State\<close>

text \<open>\<open>XArm\<close>: the buffer is queued but the timer is not started yet.\<close>

datatype xmit_pc = XIdle | XArm

text \<open>The poll and what is left of its budget: in \<open>impair_rx_drain\<close>, in \<open>impair_rx_deliver\<close>, at its end.\<close>

datatype napi_pc = PIdle | PDrain nat | PDeliver nat | PEnd nat

text \<open>
  \<open>ns_sched\<close> and \<open>ns_missed\<close> are the two bits of the kernel's NAPI state: a poll is scheduled or
  running, and it was scheduled again meanwhile.  \<open>ns_accepted\<close> and \<open>ns_up\<close> record the buffers
  that transmission took and that the stack was given.
\<close>

record napi_sys =
  ns_qv :: q_vector
  ns_stats :: net_stats
  ns_filter :: rx_filter_state
  ns_xmit :: xmit_pc
  ns_poll :: napi_pc
  ns_sched :: bool
  ns_missed :: bool
  ns_accepted :: "skb list"
  ns_up :: "skb list"

definition priv_of :: "napi_sys \<Rightarrow> impair_priv" where
  "priv_of s = \<lparr>ip_q_vect = [ns_qv s], ip_stats = ns_stats s, ip_filter = ns_filter s\<rparr>"

definition with_priv :: "impair_priv \<Rightarrow> napi_sys \<Rightarrow> napi_sys" where
  "with_priv p s = s\<lparr>ns_qv := ip_q_vect p ! 0, ns_stats := ip_stats p, ns_filter := ip_filter p\<rparr>"

subsection \<open>Steps\<close>

definition napi_schedule_prep :: "napi_sys \<Rightarrow> bool \<times> napi_sys" where
  "napi_schedule_prep s = (if ns_sched s then (False, s\<lparr>ns_missed := True\<rparr>) else (True, s\<lparr>ns_sched := True\<rparr>))"

definition napi_complete_done :: "napi_sys \<Rightarrow> napi_sys" where
  "napi_complete_done s = s\<lparr>ns_sched := ns_missed s, ns_missed := False\<rparr>"

text \<open>A prepared poll is only queued by \<open>__napi_schedule\<close>: \<open>ns_sched\<close> lets it begin.\<close>

definition impl_timer_handler :: "napi_sys \<Rightarrow> napi_sys" where
  "impl_timer_handler s = snd (napi_schedule_prep s)"

text \<open>The two halves of \<open>impair_tx\<close>: under the lock of the ring, then \<open>mod_timer\<close>.\<close>

definition xmit_push :: "skb \<Rightarrow> napi_sys \<Rightarrow> netdev_tx \<times> napi_sys" where
  "xmit_push skb s = (case tx_enqueue skb (ns_qv s) of
     (NETDEV_TX_BUSY, qv) \<Rightarrow> (NETDEV_TX_BUSY, s\<lparr>ns_qv := qv\<rparr>)
   | (NETDEV_TX_OK, qv) \<Rightarrow> (NETDEV_TX_OK, s\<lparr>ns_qv := qv\<lparr>qv_timer := qv_timer (ns_qv s)\<rparr>, ns_xmit := XArm,
       ns_accepted := ns_accepted s @ [skb]\<rparr>))"

definition xmit_arm :: "napi_sys \<Rightarrow> napi_sys" where
  "xmit_arm s = s\<lparr>ns_qv := (ns_qv s)\<lparr>qv_timer := True\<rparr>, ns_xmit := XIdle\<rparr>"

text \<open>One iteration of each loop of the poll, and its end.\<close>

definition poll_drain :: "bool list \<Rightarrow> nat \<Rightarrow> napi_sys \<Rightarrow> napi_sys" where
  "poll_drain al b s = (case impair_rx_drain 1 al (ns_filter s) (ns_qv s) (ns_stats s) of (w, qv, st, _) \<Rightarrow>
     s\<lparr>ns_qv := qv, ns_stats := st, ns_poll := (if w = 0 then PDeliver (Suc b) else PDrain b)\<rparr>)"

definition poll_deliver :: "nat \<Rightarrow> napi_sys \<Rightarrow> napi_sys" where
  "poll_deliver b s = (case impair_rx_deliver 1 (ns_qv s) (ns_stats s) of (w, qv, st, up) \<Rightarrow>
     s\<lparr>ns_qv := qv, ns_stats := st, ns_up := ns_up s @ up, ns_poll := (if w = 0 then PEnd (Suc b) else PDeliver b)\<rparr>)"

definition poll_end :: "nat \<Rightarrow> napi_sys \<Rightarrow> napi_sys" where
  "poll_end left s = (if 0 < left then napi_complete_done (s\<lparr>ns_poll := PIdle\<rparr>) else s\<lparr>ns_poll := PIdle\<rparr>)"

text \<open>What goes on without the stack; any poll has a positive budget.\<close>

inductive napi_work :: "napi_sys \<Rightarrow> napi_sys \<Rightarrow> bool" where
  arm: "ns_xmit s = XArm \<Longrightarrow> napi_work s (xmit_arm s)"
| timer: "qv_timer (ns_qv s) \<Longrightarrow> napi_work s (impl_timer_handler (s\<lparr>ns_qv := (ns_qv s)\<lparr>qv_timer := False\<rparr>\<rparr>))"
| begin_poll: "ns_sched s \<Longrightarrow> ns_poll s = PIdle \<Longrightarrow> 0 < budget \<Longrightarrow> napi_work s (s\<lparr>ns_poll := PDrain budget\<rparr>)"
| drain: "ns_poll s = PDrain (Suc b) \<Longrightarrow> napi_work s (poll_drain al b s)"
| drained: "ns_poll s = PDrain 0 \<Longrightarrow> napi_work s (s\<lparr>ns_poll := PEnd 0\<rparr>)"
| deliver: "ns_poll s = PDeliver (Suc b) \<Longrightarrow> napi_work s (poll_deliver b s)"
| delivered: "ns_poll s = PDeliver 0 \<Longrightarrow> napi_work s (s\<lparr>ns_poll := PEnd 0\<rparr>)"
| end_poll: "ns_poll s = PEnd left \<Longrightarrow> napi_work s (poll_end left s)"

text \<open>
  The stack transmits one buffer of a queue at a time, and only while the queue is not stopped; the
  watchdog looks at stopped queues under the same lock.
\<close>

inductive napi_step :: "napi_sys \<Rightarrow> napi_sys \<Rightarrow> bool" where
  push: "ns_xmit s = XIdle \<Longrightarrow> \<not> qv_stopped (ns_qv s) \<Longrightarrow> xmit_push skb s = (r, s') \<Longrightarrow> napi_step s s'"
| work: "napi_work s s' \<Longrightarrow> napi_step s s'"
| watchdog: "ns_xmit s = XIdle \<Longrightarrow> qv_stopped (ns_qv s) \<Longrightarrow> napi_step s (with_priv (impair_tx_timeout 0 (priv_of s)) s)"
| rx_mode: "napi_step s (with_priv (impair_set_rx_mode promisc allmulti addr mc (priv_of s)) s)"

definition opened :: "impair_priv \<Rightarrow> napi_sys" where
  "opened p = \<lparr>ns_qv = ip_q_vect p ! 0, ns_stats = ip_stats p, ns_filter = ip_filter p, ns_xmit = XIdle, ns_poll = PIdle,
     ns_sched = False, ns_missed = False, ns_accepted = [], ns_up = []\<rparr>"

inductive napi_reach :: "napi_sys \<Rightarrow> bool" where
  init: "impair_open True 1 (impair_setup addr zero_priv) = (Inr (), p) \<Longrightarrow> napi_reach (opened p)"
| step: "napi_reach s \<Longrightarrow> napi_step s s' \<Longrightarrow> napi_reach s'"

subsection \<open>Invariants\<close>

text \<open>Somebody will look at the rings: a poll after the drain of an empty ring only if something came later.\<close>

definition attended :: "napi_sys \<Rightarrow> bool" where
  "attended s \<longleftrightarrow> ns_xmit s = XArm \<or> qv_timer (ns_qv s) \<or> ns_missed s"

definition napi_driven :: "napi_sys \<Rightarrow> bool" where
  "napi_driven s \<longleftrightarrow> qv_ok (ns_qv s) \<and> stop_ok (ns_qv s) \<and> (ns_missed s \<longrightarrow> ns_sched s) \<and> (ns_poll s \<noteq> PIdle \<longrightarrow> ns_sched s) \<and>
     (case ns_poll s of PIdle \<Rightarrow> ns_sched s \<or> attended s \<or> ring_contents (qv_tx (ns_qv s)) = []
      | PDeliver b \<Rightarrow> b = 0 \<or> attended s \<or> ring_contents (qv_tx (ns_qv s)) = []
      | PEnd b \<Rightarrow> b = 0 \<or> attended s \<or> ring_contents (qv_tx (ns_qv s)) = []
      | PDrain b \<Rightarrow> True) \<and>
     (case ns_poll s of PIdle \<Rightarrow> ns_sched s \<or> ring_contents (qv_rx (ns_qv s)) = []
      | PEnd b \<Rightarrow> b = 0 \<or> ring_contents (qv_rx (ns_qv s)) = [] | _ \<Rightarrow> True)"

definition napi_accounted :: "napi_sys \<Rightarrow> bool" where
  "napi_accounted s \<longleftrightarrow> (\<exists>popped. ns_accepted s = popped @ ring_contents (qv_tx (ns_qv s)) \<and>
     subseq (ns_up s @ ring_contents (qv_rx (ns_qv s))) popped \<and>
     st_tx_packets (ns_stats s) = length popped \<and> st_rx_packets (ns_stats s) = length (ns_up s) \<and>
     st_rx_dropped (ns_stats s) + length (ns_up s @ ring_contents (qv_rx (ns_qv s))) = length popped)"

lemmas napi_defs = napi_driven_def napi_accounted_def attended_def

lemma rings_update [simp]:
  "qv_ok (qv\<lparr>qv_timer := t\<rparr>) = qv_ok qv" "qv_ok (qv\<lparr>qv_stopped := x\<rparr>) = qv_ok qv"
  "stop_ok (qv\<lparr>qv_timer := t\<rparr>) = stop_ok qv"
  by (simp_all add: qv_ok_def stop_ok_def)

lemma drain_one:
  assumes ok: "qv_ok (ns_qv s)" "stop_ok (ns_qv s)"
  obtains (empty) "poll_drain al b s = s\<lparr>ns_poll := PDeliver (Suc b)\<rparr>" and "ring_contents (qv_tx (ns_qv s)) = []"
  | (one) skb accepted qv st where "poll_drain al b s = s\<lparr>ns_qv := qv, ns_stats := st, ns_poll := PDrain b\<rparr>"
      and "drain_effect (ns_filter s) (ns_qv s) (ns_stats s) 1 qv st [skb] accepted" and "stop_ok qv"
proof -
  obtain w qv st al' where d: "impair_rx_drain 1 al (ns_filter s) (ns_qv s) (ns_stats s) = (w, qv, st, al')" by (metis prod_cases4)
  have tx: "ring_ok (qv_tx (ns_qv s))" using ok by (simp add: qv_ok_def)
  from impair_rx_drain_spec [OF ok(1) d] obtain popped accepted where w: "w = min 1 (ring_count (qv_tx (ns_qv s)))"
    and e: "drain_effect (ns_filter s) (ns_qv s) (ns_stats s) w qv st popped accepted" by blast
  show thesis
  proof (cases "ring_count (qv_tx (ns_qv s)) = 0")
    case True
    then have "ring_empty (qv_tx (ns_qv s))" using ring_empty_iff [OF tx] by simp
    then have "qv = ns_qv s" "st = ns_stats s" "w = 0" using d by simp_all
    with d True empty show thesis by (simp add: poll_drain_def ring_contents_empty_iff)
  next
    case False
    then have "w = 1" using w by simp
    with e obtain skb where p: "popped = [skb]" by (auto simp: drain_effect_def length_Suc_conv)
    have "\<not> qv_stopped qv" using e \<open>w = 1\<close> by (simp add: drain_effect_def)
    with one d e p \<open>w = 1\<close> show thesis by (simp add: poll_drain_def stop_ok_def)
  qed
qed

lemma deliver_one:
  assumes ok: "qv_ok (ns_qv s)"
  obtains (empty) "poll_deliver b s = s\<lparr>ns_poll := PEnd (Suc b)\<rparr>" and "ring_contents (qv_rx (ns_qv s)) = []"
  | (one) skb qv st where "poll_deliver b s = s\<lparr>ns_qv := qv, ns_stats := st, ns_up := ns_up s @ [skb], ns_poll := PDeliver b\<rparr>"
      and "qv_ok qv" "qv_tx qv = qv_tx (ns_qv s)" "qv_stopped qv = qv_stopped (ns_qv s)" "qv_timer qv = qv_timer (ns_qv s)"
      and "ring_contents (qv_rx (ns_qv s)) = skb # ring_contents (qv_rx qv)"
      and "st_rx_packets st = st_rx_packets (ns_stats s) + 1" "st_tx_packets st = st_tx_packets (ns_stats s)"
        "st_rx_dropped st = st_rx_dropped (ns_stats s)"
proof -
  obtain w qv st up where d: "impair_rx_deliver 1 (ns_qv s) (ns_stats s) = (w, qv, st, up)" by (metis prod_cases4)
  have rx: "ring_ok (qv_rx (ns_qv s))" using ok by (simp add: qv_ok_def)
  note sp = impair_rx_deliver_spec [OF ok d]
  have t: "qv_timer qv = qv_timer (ns_qv s)" using d by (auto split: if_splits prod.splits option.splits)
  show thesis
  proof (cases "ring_count (qv_rx (ns_qv s)) = 0")
    case True
    then have "ring_empty (qv_rx (ns_qv s))" using ring_empty_iff [OF rx] by simp
    then have "qv = ns_qv s" "st = ns_stats s" "w = 0" "up = []" using d by simp_all
    with d True empty show thesis by (simp add: poll_deliver_def ring_contents_empty_iff)
  next
    case False
    then have "w = 1" using sp by simp
    with sp obtain skb where "up = [skb]" by (auto simp: length_Suc_conv)
    with one [of skb st qv] d sp t \<open>w = 1\<close> show thesis by (simp add: poll_deliver_def)
  qed
qed

lemma push_cases:
  assumes ok: "qv_ok (ns_qv s)" "stop_ok (ns_qv s)" and p: "xmit_push skb s = (r, s')"
  obtains (busy) "s' = s\<lparr>ns_qv := (ns_qv s)\<lparr>qv_stopped := True\<rparr>\<rparr>" "ring_count (qv_tx (ns_qv s)) = 1023"
  | (sent) qv where "s' = s\<lparr>ns_qv := qv, ns_xmit := XArm, ns_accepted := ns_accepted s @ [skb]\<rparr>" "qv_ok qv" "stop_ok qv"
      "qv_rx qv = qv_rx (ns_qv s)" "ring_contents (qv_tx qv) = ring_contents (qv_tx (ns_qv s)) @ [skb]"
proof -
  obtain x qv where t: "tx_enqueue skb (ns_qv s) = (x, qv)" by (cases "tx_enqueue skb (ns_qv s)")
  note e = tx_enqueue_spec [OF ok t]
  show thesis
  proof (cases "ring_count (qv_tx (ns_qv s)) = 1023")
    case True
    with e have "x = NETDEV_TX_BUSY" by simp
    with t True p busy show thesis by (auto simp: xmit_push_def tx_enqueue_def split: if_splits)
  next
    case False
    with e have x: "x = NETDEV_TX_OK" by simp
    have "qv_rx qv = qv_rx (ns_qv s)" using t by (auto simp: tx_enqueue_def split: if_splits)
    with sent [of "qv\<lparr>qv_timer := qv_timer (ns_qv s)\<rparr>"] False p t x e show thesis by (simp add: xmit_push_def)
  qed
qed

lemma watchdog_eq:
  "with_priv (impair_tx_timeout 0 (priv_of s)) s = s\<lparr>ns_qv := (ns_qv s)\<lparr>qv_timer := True, qv_stopped := False\<rparr>,
     ns_stats := (ns_stats s)\<lparr>st_tx_errors := st_tx_errors (ns_stats s) + 1, st_tx_dropped := st_tx_dropped (ns_stats s) + 1\<rparr>\<rparr>"
  by (simp add: with_priv_def impair_tx_timeout_def priv_of_def)

lemma rx_mode_eq: "\<exists>f. with_priv (impair_set_rx_mode promisc allmulti addr mc (priv_of s)) s = s\<lparr>ns_filter := f\<rparr>"
  by (simp add: with_priv_def impair_set_rx_mode_def priv_of_def Let_def) (metis (no_types))

lemma napi_driven_work: "napi_work s s' \<Longrightarrow> napi_driven s \<Longrightarrow> napi_driven s'"
proof (induction rule: napi_work.induct)
  case (drain s b al)
  then have ok: "qv_ok (ns_qv s)" "stop_ok (ns_qv s)" by (simp_all add: napi_driven_def)
  from drain_one [OF ok, of al b, case_names empty one] show ?case
  proof cases
    case empty
    with drain show ?thesis by (simp add: napi_defs)
  next
    case one
    with drain show ?thesis by (simp add: napi_defs drain_effect_def)
  qed
next
  case (deliver s b)
  then have ok: "qv_ok (ns_qv s)" by (simp add: napi_driven_def)
  from deliver_one [OF ok, of b, case_names empty one] show ?case
  proof cases
    case empty
    with deliver show ?thesis by (simp add: napi_defs)
  next
    case one
    with deliver show ?thesis by (auto simp: napi_defs stop_ok_def)
  qed
qed (auto simp: napi_defs xmit_arm_def impl_timer_handler_def napi_schedule_prep_def poll_end_def napi_complete_done_def split: napi_pc.splits)

lemma napi_driven_step: "napi_step s s' \<Longrightarrow> napi_driven s \<Longrightarrow> napi_driven s'"
proof (induction rule: napi_step.induct)
  case (push s skb r s')
  then have ok: "qv_ok (ns_qv s)" "stop_ok (ns_qv s)" by (simp_all add: napi_driven_def)
  from push_cases [OF ok push.hyps(3), case_names busy sent] show ?case
  proof cases
    case busy
    with push.prems show ?thesis by (auto simp: napi_defs stop_ok_def split: napi_pc.splits)
  next
    case (sent qv)
    with push.prems show ?thesis by (auto simp: napi_defs split: napi_pc.splits)
  qed
next
  case (watchdog s)
  then show ?case unfolding watchdog_eq by (auto simp: napi_defs stop_ok_def split: napi_pc.splits)
next
  case (rx_mode s promisc allmulti addr mc)
  obtain f where "with_priv (impair_set_rx_mode promisc allmulti addr mc (priv_of s)) s = s\<lparr>ns_filter := f\<rparr>" using rx_mode_eq by blast
  with rx_mode show ?case by (auto simp: napi_defs split: napi_pc.splits)
qed (rule napi_driven_work)

lemma napi_accounted_work: "napi_work s s' \<Longrightarrow> napi_driven s \<Longrightarrow> napi_accounted s \<Longrightarrow> napi_accounted s'"
proof (induction rule: napi_work.induct)
  case (drain s b al)
  then have ok: "qv_ok (ns_qv s)" "stop_ok (ns_qv s)" by (simp_all add: napi_driven_def)
  from drain_one [OF ok, of al b, case_names empty one] show ?case
  proof cases
    case empty
    with drain show ?thesis by (simp add: napi_accounted_def)
  next
    case (one skb accepted qv st)
    from drain.prems(2) obtain popped where p: "ns_accepted s = popped @ ring_contents (qv_tx (ns_qv s))"
      "subseq (ns_up s @ ring_contents (qv_rx (ns_qv s))) popped" "st_tx_packets (ns_stats s) = length popped"
      "st_rx_packets (ns_stats s) = length (ns_up s)"
      "st_rx_dropped (ns_stats s) + length (ns_up s @ ring_contents (qv_rx (ns_qv s))) = length popped"
      unfolding napi_accounted_def by blast
    have "subseq ((ns_up s @ ring_contents (qv_rx (ns_qv s))) @ accepted) (popped @ [skb])"
      using p(2) one(2) by (intro list_emb_append_mono) (auto simp: drain_effect_def)
    with one p show ?thesis by (auto simp: napi_accounted_def drain_effect_def same_rx_stats_def intro!: exI [of _ "popped @ [skb]"])
  qed
next
  case (deliver s b)
  then have ok: "qv_ok (ns_qv s)" by (simp add: napi_driven_def)
  from deliver_one [OF ok, of b, case_names empty one] show ?case
  proof cases
    case empty
    with deliver show ?thesis by (simp add: napi_accounted_def)
  next
    case one
    with deliver.prems(2) show ?thesis by (auto simp: napi_accounted_def)
  qed
qed (auto simp: napi_accounted_def xmit_arm_def impl_timer_handler_def napi_schedule_prep_def poll_end_def napi_complete_done_def)

lemma napi_accounted_step: "napi_step s s' \<Longrightarrow> napi_driven s \<Longrightarrow> napi_accounted s \<Longrightarrow> napi_accounted s'"
proof (induction rule: napi_step.induct)
  case (push s skb r s')
  then have ok: "qv_ok (ns_qv s)" "stop_ok (ns_qv s)" by (simp_all add: napi_driven_def)
  from push_cases [OF ok push.hyps(3), case_names busy sent] show ?case
    using push.prems by cases (auto simp: napi_accounted_def)
next
  case (watchdog s)
  then show ?case unfolding watchdog_eq by (auto simp: napi_accounted_def)
next
  case (rx_mode s promisc allmulti addr mc)
  obtain f where "with_priv (impair_set_rx_mode promisc allmulti addr mc (priv_of s)) s = s\<lparr>ns_filter := f\<rparr>" using rx_mode_eq by blast
  with rx_mode show ?case by (auto simp: napi_accounted_def)
qed (rule napi_accounted_work)

lemma open_one: "\<exists>p qv. impair_open True 1 (impair_setup addr zero_priv) = (Inr (), p) \<and> ip_q_vect p = [qv] \<and> qv_ok qv \<and>
    ring_count (qv_tx qv) = 0 \<and> ring_count (qv_rx qv) = 0 \<and> \<not> qv_stopped qv \<and> ip_stats p = ip_stats zero_priv"
proof -
  from impair_open_close [of 1 "impair_setup addr zero_priv"] obtain p where o: "impair_open True 1 (impair_setup addr zero_priv) = (Inr (), p)"
    and l: "length (ip_q_vect p) = 1" and ok: "priv_ok p" "buffered (ip_q_vect p) = 0" "\<forall>qv\<in>set (ip_q_vect p). \<not> qv_stopped qv" by blast
  from l obtain qv where qv: "ip_q_vect p = [qv]" by (auto simp: length_Suc_conv)
  have "ip_stats p = ip_stats zero_priv"
    using o by (auto simp: impair_open_def impair_alloc_q_vectors_def impair_setup_def impair_set_rx_mode_def Let_def split: prod.splits sum.splits)
  with o qv ok show ?thesis by (auto simp: priv_ok_def buffered_def ring_contents_empty_iff)
qed

lemma napi_reach_inv: "napi_reach s \<Longrightarrow> napi_driven s \<and> napi_accounted s"
proof (induction rule: napi_reach.induct)
  case (init addr p)
  with open_one [of addr] show ?case by (auto simp: napi_defs opened_def stop_ok_def zero_priv_def ring_contents_empty_iff)
qed (blast intro: napi_driven_step napi_accounted_step)

lemma pushed_reach: "\<exists>s. napi_reach s \<and> ns_accepted s = [[1, 2, 3]] \<and> ring_contents (qv_tx (ns_qv s)) \<noteq> []"
proof -
  obtain p qv where o: "impair_open True 1 (impair_setup [] zero_priv) = (Inr (), p)" and p: "ip_q_vect p = [qv]" "qv_ok qv"
    "ring_count (qv_tx qv) = 0" "\<not> qv_stopped qv" using open_one [of "[]"] by blast
  obtain r s where x: "xmit_push [1, 2, 3] (opened p) = (r, s)" by (cases "xmit_push [1, 2, 3] (opened p)")
  have s: "napi_reach s"
    by (rule napi_reach.step [OF napi_reach.init [OF o] napi_step.push [OF _ _ x]]) (use p in \<open>simp_all add: opened_def\<close>)
  have "ns_accepted s = [[1, 2, 3]] \<and> ring_contents (qv_tx (ns_qv s)) \<noteq> []"
  proof (cases rule: push_cases [OF _ _ x, case_names ok stop busy sent])
    case busy
    with p show ?thesis by (simp add: opened_def ring_contents_empty_iff)
  qed (use p in \<open>auto simp: opened_def stop_ok_def\<close>)
  with s show ?thesis by blast
qed

text \<open>C5: however transmission, timer, poll, watchdog and changes of the filter interleave, no buffer is
  forgotten: while one is queued in either ring, or the queue is stopped, the timer is started (or
  about to be) or a poll is scheduled.  Buffers leave the tx ring in the order in which they were
  accepted, and each of them is counted; what the stack is given, and what waits for it, is a part
  of them in the same order, and all others are counted as dropped.\<close>

theorem impair_interleaved:
  assumes "napi_reach s"
  shows "(ring_contents (qv_tx (ns_qv s)) \<noteq> [] \<or> ring_contents (qv_rx (ns_qv s)) \<noteq> [] \<or> qv_stopped (ns_qv s) \<longrightarrow>
      ns_xmit s = XArm \<or> qv_timer (ns_qv s) \<or> ns_sched s) \<and>
    (\<exists>popped. ns_accepted s = popped @ ring_contents (qv_tx (ns_qv s)) \<and>
      subseq (ns_up s @ ring_contents (qv_rx (ns_qv s))) popped \<and>
      st_tx_packets (ns_stats s) = length popped \<and> st_rx_packets (ns_stats s) = length (ns_up s) \<and>
      st_rx_dropped (ns_stats s) + length (ns_up s @ ring_contents (qv_rx (ns_qv s))) = length popped)"
proof -
  from napi_reach_inv [OF assms] have d: "napi_driven s" and a: "napi_accounted s" by simp_all
  have "qv_stopped (ns_qv s) \<Longrightarrow> ring_contents (qv_tx (ns_qv s)) \<noteq> []"
    using d by (auto simp: napi_driven_def stop_ok_def ring_contents_empty_iff)
  with d have "ring_contents (qv_tx (ns_qv s)) \<noteq> [] \<or> ring_contents (qv_rx (ns_qv s)) \<noteq> [] \<or> qv_stopped (ns_qv s) \<longrightarrow>
      ns_xmit s = XArm \<or> qv_timer (ns_qv s) \<or> ns_sched s"
    by (auto simp: napi_driven_def attended_def split: napi_pc.splits)
  with a show ?thesis unfolding napi_accounted_def by blast
qed

theorem impair_interleaved_witness:
  "\<exists>s. napi_reach s \<and> ns_accepted s = [[1, 2, 3]] \<and> (ns_xmit s = XArm \<or> qv_timer (ns_qv s) \<or> ns_sched s)"
  using pushed_reach impair_interleaved by blast

subsection \<open>The rings drain\<close>

text \<open>
  What is left to do, then who will still ask for a poll and how far the current one is: a poll that
  used up its budget has made progress, so that it ranks above a new one.
\<close>

definition napi_load :: "napi_sys \<Rightarrow> nat" where
  "napi_load s = 2 * ring_count (qv_tx (ns_qv s)) + ring_count (qv_rx (ns_qv s))"

definition napi_rank :: "napi_sys \<Rightarrow> nat" where
  "napi_rank s = 8 * (3 * of_bool (ns_xmit s = XArm) + 2 * of_bool (qv_timer (ns_qv s)) + of_bool (ns_missed s)) +
     (case ns_poll s of PIdle \<Rightarrow> if ns_sched s then 5 else 0 | PDrain b \<Rightarrow> if b = 0 then 7 else 4
      | PDeliver b \<Rightarrow> if b = 0 then 7 else 3 | PEnd b \<Rightarrow> if b = 0 then 6 else 2)"

lemma napi_work_less:
  "napi_work s s' \<Longrightarrow> napi_driven s \<Longrightarrow> napi_load s' < napi_load s \<or> napi_load s' = napi_load s \<and> napi_rank s' < napi_rank s"
proof (induction rule: napi_work.induct)
  case (drain s b al)
  then have ok: "qv_ok (ns_qv s)" "stop_ok (ns_qv s)" by (simp_all add: napi_driven_def)
  from drain_one [OF ok, of al b, case_names empty one] show ?case
  proof cases
    case empty
    with drain show ?thesis by (simp add: napi_load_def napi_rank_def)
  next
    case (one skb accepted qv st)
    then have "ring_contents (qv_tx (ns_qv s)) = skb # ring_contents (qv_tx qv)" "length accepted \<le> 1"
      "ring_contents (qv_rx qv) = ring_contents (qv_rx (ns_qv s)) @ accepted"
      using list_emb_length [of "(=)" accepted "[skb]"] by (auto simp: drain_effect_def)
    from arg_cong [OF this(1), of length] this(2) arg_cong [OF this(3), of length] one(1) show ?thesis by (simp add: napi_load_def)
  qed
next
  case (deliver s b)
  then have ok: "qv_ok (ns_qv s)" by (simp add: napi_driven_def)
  from deliver_one [OF ok, of b, case_names empty one] show ?case
  proof cases
    case empty
    with deliver show ?thesis by (simp add: napi_load_def napi_rank_def)
  next
    case (one skb qv st)
    from arg_cong [OF one(6), of length] one(1,3) show ?thesis by (simp add: napi_load_def)
  qed
qed (auto simp: napi_load_def napi_rank_def napi_driven_def xmit_arm_def impl_timer_handler_def napi_schedule_prep_def poll_end_def napi_complete_done_def
      split: napi_pc.splits)

lemma napi_work_reach: "napi_work\<^sup>*\<^sup>* s s' \<Longrightarrow> napi_reach s \<Longrightarrow> napi_reach s' \<and> ns_accepted s' = ns_accepted s"
proof (induction rule: rtranclp_induct)
  case (step u v)
  have "ns_accepted v = ns_accepted u"
    using step.hyps(2) by cases (auto simp: xmit_arm_def impl_timer_handler_def napi_schedule_prep_def poll_drain_def poll_deliver_def poll_end_def
        napi_complete_done_def split: prod.splits)
  with step show ?case by (auto intro: napi_reach.step napi_step.work)
qed simp

lemma napi_work_wf: "wf {(s', s). napi_reach s \<and> napi_work s s'}"
proof (rule wf_subset [of "measures [napi_load, napi_rank]"])
  show "{(s', s). napi_reach s \<and> napi_work s s'} \<subseteq> measures [napi_load, napi_rank]"
    using napi_work_less napi_reach_inv by fastforce
qed simp

lemma napi_ends: "napi_reach s \<Longrightarrow> \<exists>s'. napi_work\<^sup>*\<^sup>* s s' \<and> (\<forall>s''. \<not> napi_work s' s'')"
proof (induction s rule: wf_induct_rule [OF napi_work_wf])
  case (1 s)
  show ?case
  proof (cases "\<exists>s'. napi_work s s'")
    case True
    then obtain s1 where w: "napi_work s s1" by blast
    with 1 have "\<exists>s'. napi_work\<^sup>*\<^sup>* s1 s' \<and> (\<forall>s''. \<not> napi_work s' s'')" by (blast intro: napi_reach.step napi_step.work)
    with w show ?thesis by (meson converse_rtranclp_into_rtranclp)
  qed auto
qed

lemma napi_idle_drained:
  assumes "napi_driven s" and "\<forall>s'. \<not> napi_work s s'"
  shows "ring_contents (qv_tx (ns_qv s)) = [] \<and> ring_contents (qv_rx (ns_qv s)) = []"
proof -
  have pc: "ns_poll s = PIdle"
  proof (cases "ns_poll s")
    case (PDrain b)
    then show ?thesis using assms(2) napi_work.drain [of s _ "[]"] napi_work.drained [of s] by (cases b) auto
  next
    case (PDeliver b)
    then show ?thesis using assms(2) napi_work.deliver [of s] napi_work.delivered [of s] by (cases b) auto
  next
    case (PEnd b)
    then show ?thesis using assms(2) napi_work.end_poll [of s] by auto
  qed simp
  have "ns_xmit s \<noteq> XArm" "\<not> qv_timer (ns_qv s)" "\<not> ns_sched s"
    using assms(2) pc napi_work.arm [of s] napi_work.timer [of s] napi_work.begin_poll [of s 1] by auto
  with assms(1) pc show ?thesis by (auto simp: napi_driven_def attended_def)
qed

text \<open>C6: once the stack transmits no more, the timer and the polls come to an end, in whatever order
  they run; then both rings are empty, and every buffer that was accepted has been given to the
  stack, in order, or is counted as dropped.\<close>

theorem impair_drains:
  assumes "napi_reach s"
  shows "\<not> (\<exists>f. f 0 = s \<and> (\<forall>i. napi_work (f i) (f (Suc i)))) \<and>
    (\<forall>s'. napi_work\<^sup>*\<^sup>* s s' \<and> (\<forall>s''. \<not> napi_work s' s'') \<longrightarrow>
      ring_contents (qv_tx (ns_qv s')) = [] \<and> ring_contents (qv_rx (ns_qv s')) = [] \<and> \<not> qv_stopped (ns_qv s') \<and>
      st_tx_packets (ns_stats s') = length (ns_accepted s) \<and> subseq (ns_up s') (ns_accepted s) \<and>
      st_rx_packets (ns_stats s') = length (ns_up s') \<and>
      st_rx_packets (ns_stats s') + st_rx_dropped (ns_stats s') = length (ns_accepted s))"
proof (intro conjI allI impI; (elim conjE)?)
  show "\<not> (\<exists>f. f 0 = s \<and> (\<forall>i. napi_work (f i) (f (Suc i))))"
  proof
    assume "\<exists>f. f 0 = s \<and> (\<forall>i. napi_work (f i) (f (Suc i)))"
    then obtain f where f: "f 0 = s" "\<And>i. napi_work (f i) (f (Suc i))" by blast
    have "napi_reach (f i)" for i by (induction i) (use f assms in \<open>auto intro: napi_reach.step napi_step.work\<close>)
    with f napi_work_wf show False unfolding wf_iff_no_infinite_down_chain by blast
  qed
next
  fix s' assume s': "napi_work\<^sup>*\<^sup>* s s'" and idle: "\<forall>s''. \<not> napi_work s' s''"
  from napi_work_reach [OF s' assms] have r: "napi_reach s'" and a: "ns_accepted s' = ns_accepted s" by simp_all
  from napi_reach_inv [OF r] have d: "napi_driven s'" and c: "napi_accounted s'" by simp_all
  note e = napi_idle_drained [OF d idle]
  have ns: "\<not> qv_stopped (ns_qv s')" using d e by (auto simp: napi_driven_def stop_ok_def ring_contents_empty_iff)
  show "ring_contents (qv_tx (ns_qv s')) = []" "ring_contents (qv_rx (ns_qv s')) = []" "\<not> qv_stopped (ns_qv s')" using e ns by simp_all
  show "st_tx_packets (ns_stats s') = length (ns_accepted s)" "subseq (ns_up s') (ns_accepted s)"
    "st_rx_packets (ns_stats s') = length (ns_up s')" "st_rx_packets (ns_stats s') + st_rx_dropped (ns_stats s') = length (ns_accepted s)"
    using c e a by (auto simp: napi_accounted_def)
qed

theorem impair_drains_witness:
  "\<exists>s s'. napi_reach s \<and> ns_accepted s = [[1, 2, 3]] \<and> napi_work\<^sup>*\<^sup>* s s' \<and> st_tx_packets (ns_stats s') = 1 \<and>
     st_rx_packets (ns_stats s') + st_rx_dropped (ns_stats s') = 1"
proof -
  obtain s where s: "napi_reach s" "ns_accepted s = [[1, 2, 3]]" using pushed_reach by blast
  obtain s' where s': "napi_work\<^sup>*\<^sup>* s s'" "\<forall>s''. \<not> napi_work s' s''" using napi_ends [OF s(1)] by blast
  from impair_drains [OF s(1)] s' have "st_tx_packets (ns_stats s') = length (ns_accepted s) \<and>
      st_rx_packets (ns_stats s') + st_rx_dropped (ns_stats s') = length (ns_accepted s)" by blast
  with s s' show ?thesis by auto
qed

end
