(* ===== verification/Rbull.thy ===== *)
theory Rbull
  imports ModuleLife KernelPrelude
begin

text \<open>
  The RAM block driver (\<open>ch16_block/rbull.c\<close>): the worker that executes a request on the backing
  store, the timeout handler it races with, and the module's initialisation.  A segment of a
  request is the slice of its page, so a list of bytes; the read-write semaphore is the pair of
  its reader count and its writer flag.
\<close>

subsection \<open>State\<close>

datatype blk_status = BLK_STS_OK | BLK_STS_IOERR | BLK_STS_TIMEOUT

datatype req_op = REQ_OP_READ | REQ_OP_WRITE | REQ_OP_FLUSH | REQ_OP_DISCARD | REQ_OP_WRITE_ZEROES
  | REQ_OP_OTHER bool

text \<open>\<open>op_is_write\<close> tests the lowest bit of the operation; of the others it is a parameter.\<close>

fun op_is_write :: "req_op \<Rightarrow> bool" where
  "op_is_write REQ_OP_READ = False"
| "op_is_write REQ_OP_WRITE = True"
| "op_is_write REQ_OP_FLUSH = False"
| "op_is_write REQ_OP_DISCARD = True"
| "op_is_write REQ_OP_WRITE_ZEROES = True"
| "op_is_write (REQ_OP_OTHER w) = w"

record rbull_dev =
  rb_data :: "byte list"
  rb_size_bytes :: nat
  rb_open_count :: int
  rb_inflight_writes :: int
  rb_readers :: nat
  rb_writer :: bool

definition SECTOR_SHIFT :: nat where "SECTOR_SHIFT = 9"
definition SECTOR_SIZE :: nat where "SECTOR_SIZE = 512"

definition rbull_open :: "rbull_dev \<Rightarrow> int \<times> rbull_dev" where
  "rbull_open d = (0, d\<lparr>rb_open_count := rb_open_count d + 1\<rparr>)"

definition rbull_release :: "rbull_dev \<Rightarrow> rbull_dev" where
  "rbull_release d = d\<lparr>rb_open_count := rb_open_count d - 1\<rparr>"

subsection \<open>The worker\<close>

definition rq_is_write :: "req_op \<Rightarrow> bool" where
  "rq_is_write op \<longleftrightarrow> op_is_write op \<or> op = REQ_OP_DISCARD \<or> op = REQ_OP_WRITE_ZEROES"

text \<open>Taking the lock of a segment; \<open>None\<close> when the task would sleep for ever.\<close>

definition seg_lock :: "bool \<Rightarrow> rbull_dev \<Rightarrow> rbull_dev option" where
  "seg_lock is_write d =
     (if is_write then
        (let d1 = d\<lparr>rb_inflight_writes := rb_inflight_writes d + 1\<rparr> in
         if rb_writer d1 \<or> 0 < rb_readers d1 then None else Some (d1\<lparr>rb_writer := True\<rparr>))
      else if rb_writer d then None else Some (d\<lparr>rb_readers := rb_readers d + 1\<rparr>))"

definition seg_unlock :: "bool \<Rightarrow> rbull_dev \<Rightarrow> rbull_dev" where
  "seg_unlock is_write d = (if is_write then d\<lparr>rb_writer := False\<rparr> else d\<lparr>rb_readers := rb_readers d - 1\<rparr>)"

text \<open>
  The \<open>switch\<close> on the operation: the status, the bytes in the segment's page afterwards and the
  device.  The flush case is dead code: the worker leaves before its loop on a flush.
\<close>

fun seg_copy :: "req_op \<Rightarrow> nat \<Rightarrow> byte list \<Rightarrow> rbull_dev \<Rightarrow> blk_status \<times> byte list \<times> rbull_dev" where
  "seg_copy REQ_OP_READ off seg d = (BLK_STS_OK, take (length seg) (drop off (rb_data d)), d)"
| "seg_copy REQ_OP_WRITE off seg d = (BLK_STS_OK, seg, d\<lparr>rb_data := overwrite (rb_data d) off seg\<rparr>)"
| "seg_copy REQ_OP_DISCARD off seg d =
     (BLK_STS_OK, seg, d\<lparr>rb_data := overwrite (rb_data d) off (replicate (length seg) 0)\<rparr>)"
| "seg_copy REQ_OP_WRITE_ZEROES off seg d =
     (BLK_STS_OK, seg, d\<lparr>rb_data := overwrite (rb_data d) off (replicate (length seg) 0)\<rparr>)"
| "seg_copy REQ_OP_FLUSH off seg d = (BLK_STS_OK, seg, d)"
| "seg_copy (REQ_OP_OTHER w) off seg d = (BLK_STS_IOERR, seg, d)"

text \<open>How the loop is left: at its end or by a bad status, out of range, or by an abort.\<close>

datatype loop_exit = Finished blk_status | OutOfRange | Aborted

text \<open>
  The loop over the segments.  \<open>aborts\<close> answers the successive reads of \<open>ctx->abort\<close> (past its
  end no timeout has happened); the list collects the pages' bytes.
\<close>

fun rq_segments :: "req_op \<Rightarrow> bool list \<Rightarrow> nat \<Rightarrow> byte list list \<Rightarrow> rbull_dev \<Rightarrow>
    (loop_exit \<times> byte list list \<times> rbull_dev) run" where
  "rq_segments op aborts off [] d = Inr (Finished BLK_STS_OK, [], d)"
| "rq_segments op aborts off (seg # segs) d =
     (if int (rb_size_bytes d) < u64 (int off + int (length seg)) then Inr (OutOfRange, seg # segs, d)
      else case seg_lock (rq_is_write op) d of
          None \<Rightarrow> Inl Sleeps
        | Some d1 \<Rightarrow>
            (if aborts \<noteq> [] \<and> hd aborts then Inr (Aborted, seg # segs, d1)
             else if length (rb_data d1) < off + length seg then Inl OutOfBounds
             else case seg_copy op off seg d1 of
                 (st, seg', d2) \<Rightarrow>
                   (if st \<noteq> BLK_STS_OK then Inr (Finished st, seg' # segs, seg_unlock (rq_is_write op) d2)
                    else case rq_segments op (tl aborts) (off + length seg) segs (seg_unlock (rq_is_write op) d2) of
                        Inl e \<Rightarrow> Inl e
                      | Inr (x, segs', d3) \<Rightarrow> Inr (x, seg' # segs', d3))))"

text \<open>\<open>start << SECTOR_SHIFT\<close>, in 64 bits.\<close>

definition sector_offset :: "nat \<Rightarrow> nat" where
  "sector_offset pos = nat (u64 (int pos * 2 ^ SECTOR_SHIFT))"

text \<open>
  The whole worker.  The status is \<open>Some st\<close> when it reaches \<open>blk_mq_end_request\<close> guarded by the
  \<open>done\<close> flag, \<open>None\<close> when it leaves by the abort label.
\<close>

definition rbull_rq_work :: "req_op \<Rightarrow> bool list \<Rightarrow> nat \<Rightarrow> byte list list \<Rightarrow> rbull_dev \<Rightarrow>
    (blk_status option \<times> byte list list \<times> rbull_dev) run" where
  "rbull_rq_work op aborts pos segs d =
     (let is_write = rq_is_write op; dev_off = sector_offset pos in
      if op = REQ_OP_FLUSH then
        (if rb_inflight_writes d = 0 then Inr (Some BLK_STS_OK, segs, d) else Inl Sleeps)
      else case rq_segments op aborts dev_off segs d of
          Inl e \<Rightarrow> Inl e
        | Inr (Aborted, segs', d') \<Rightarrow> Inr (None, segs', d')
        | Inr (OutOfRange, segs', d') \<Rightarrow> Inr (Some BLK_STS_IOERR, segs', d')
        | Inr (Finished st, segs', d') \<Rightarrow>
            Inr (Some st, segs', if is_write then d'\<lparr>rb_inflight_writes := rb_inflight_writes d' - 1\<rparr> else d'))"

subsection \<open>Ending a request: the worker against the timeout\<close>

record rq_ctx =
  rc_abort :: bool
  rc_done :: bool
  rc_op :: req_op
  rc_ended :: "blk_status list"

text \<open>\<open>rc_ended\<close> lists the calls of \<open>blk_mq_end_request\<close> for the request.\<close>

definition end_once :: "blk_status \<Rightarrow> rq_ctx \<Rightarrow> rq_ctx" where
  "end_once st c = (if rc_done c then c else c\<lparr>rc_done := True, rc_ended := st # rc_ended c\<rparr>)"

text \<open>\<open>rbull_queue_rq\<close> for a request that is not a passthrough one: start it and queue the work.\<close>

definition rbull_queue_rq :: "bool \<Rightarrow> req_op \<Rightarrow> rq_ctx \<Rightarrow> blk_status \<times> bool \<times> rq_ctx" where
  "rbull_queue_rq passthrough op c =
     (if passthrough then (BLK_STS_IOERR, False, c\<lparr>rc_ended := BLK_STS_IOERR # rc_ended c\<rparr>)
      else (BLK_STS_OK, True, c\<lparr>rc_op := op, rc_done := False, rc_abort := False, rc_ended := []\<rparr>))"

definition rbull_init_request :: rq_ctx where
  "rbull_init_request = \<lparr>rc_abort = False, rc_done = False, rc_op = REQ_OP_READ, rc_ended = []\<rparr>"

text \<open>
  The interleaving: the worker reads \<open>abort\<close> once for each segment (\<open>WRun n\<close> has \<open>n\<close> segments
  left) and then ends the request; the timeout sets \<open>abort\<close> and then ends it.
\<close>

datatype worker_pc = WRun nat | WEnd blk_status | WDone | WAborted
datatype timeout_pc = TIdle | TSet | TDone

inductive race_step :: "rq_ctx \<times> worker_pc \<times> timeout_pc \<Rightarrow> rq_ctx \<times> worker_pc \<times> timeout_pc \<Rightarrow> bool" where
  segment: "\<not> rc_abort c \<Longrightarrow> race_step (c, WRun (Suc n), t) (c, WRun n, t)"
| seg_fail: "race_step (c, WRun (Suc n), t) (c, WEnd BLK_STS_IOERR, t)"
| seg_abort: "rc_abort c \<Longrightarrow> race_step (c, WRun (Suc n), t) (c, WAborted, t)"
| loop_done: "race_step (c, WRun 0, t) (c, WEnd BLK_STS_OK, t)"
| work_end: "race_step (c, WEnd st, t) (end_once st c, WDone, t)"
| time_set: "race_step (c, w, TIdle) (c\<lparr>rc_abort := True\<rparr>, w, TSet)"
| time_end: "race_step (c, w, TSet) (end_once BLK_STS_TIMEOUT c, w, TDone)"

inductive race_reach :: "rq_ctx \<times> worker_pc \<times> timeout_pc \<Rightarrow> bool" where
  init: "rbull_queue_rq False op c0 = (BLK_STS_OK, True, c) \<Longrightarrow> race_reach (c, WRun n, TIdle)"
| step: "race_reach s \<Longrightarrow> race_step s s' \<Longrightarrow> race_reach s'"

inductive_cases race_stepE: "race_step s s'"

subsection \<open>Initialisation\<close>

definition is_power_of_2 :: "nat \<Rightarrow> bool" where
  "is_power_of_2 n \<longleftrightarrow> n \<noteq> 0 \<and> and n (n - 1) = 0"

record queue_limits =
  ql_logical_block_size :: nat
  ql_physical_block_size :: nat
  ql_max_hw_sectors :: nat
  ql_max_sectors :: nat
  ql_max_segments :: nat
  ql_max_segment_size :: nat

definition setup_queue_limit :: "nat \<Rightarrow> queue_limits res" where
  "setup_queue_limit sector_size =
     (if sector_size < SECTOR_SIZE \<or> \<not> is_power_of_2 sector_size then Inl EINVAL
      else Inr \<lparr>ql_logical_block_size = sector_size, ql_physical_block_size = sector_size,
        ql_max_hw_sectors = 8, ql_max_sectors = 8, ql_max_segments = 10, ql_max_segment_size = 4096\<rparr>)"

text \<open>What the module holds on to.\<close>

datatype rb_resource = Hctxs | Backing | TagSet | Disk | AddedDisk

text \<open>
  The answers of the calls that can fail.  A failed \<open>vmalloc\<close> jumps to \<open>free_hctx\<close> with \<open>ret\<close>
  not assigned, and the function returns it.
\<close>

record rb_init_env =
  re_hctxs :: bool
  re_vmalloc :: bool
  re_tag_set :: "unit res"
  re_alloc_disk :: "unit res"
  re_add_disk :: "unit res"

text \<open>The labels at the end of \<open>rbull_init\<close>, each falling through to the next.\<close>

definition free_hctx :: "rb_resource list \<Rightarrow> rb_resource list" where
  "free_hctx held = removeAll Hctxs held"

definition free_data :: "rb_resource list \<Rightarrow> rb_resource list" where
  "free_data held = free_hctx (removeAll Backing held)"

definition free_tag_set :: "rb_resource list \<Rightarrow> rb_resource list" where
  "free_tag_set held = free_data (removeAll TagSet held)"

definition free_disk :: "rb_resource list \<Rightarrow> rb_resource list" where
  "free_disk held = free_tag_set (removeAll Disk held)"

definition rbull_init :: "rb_init_env \<Rightarrow> nat \<Rightarrow> (unit res \<times> rb_resource list) run" where
  "rbull_init e sector_size =
     (if \<not> re_hctxs e then Inr (Inl ENOMEM, [])
      else let h1 = [Hctxs] in
      if \<not> re_vmalloc e then Inl UninitRead
      else let h2 = Backing # h1 in
      case re_tag_set e of
        Inl x \<Rightarrow> Inr (Inl x, free_data h2)
      | Inr _ \<Rightarrow> (let h3 = TagSet # h2 in
         case setup_queue_limit sector_size of
           Inl x \<Rightarrow> Inr (Inl x, free_tag_set h3)
         | Inr _ \<Rightarrow> (case re_alloc_disk e of
             Inl x \<Rightarrow> Inr (Inl x, free_tag_set h3)
           | Inr _ \<Rightarrow> (let h4 = Disk # h3 in
              case re_add_disk e of
                Inl x \<Rightarrow> Inr (Inl x, free_disk h4)
              | Inr _ \<Rightarrow> Inr (Inr (), AddedDisk # h4)))))"

definition rbull_exit :: "rb_resource list \<Rightarrow> rb_resource list" where
  "rbull_exit held = removeAll Hctxs (removeAll Backing (removeAll TagSet (removeAll Disk (removeAll AddedDisk held))))"

text \<open>The contexts of the hardware queues; the allocation of one is not checked.\<close>

record rbull_hctx =
  rh_idx :: nat
  rh_wq :: bool

definition rbull_init_hctx :: "bool \<Rightarrow> bool \<Rightarrow> nat \<Rightarrow> (nat \<rightharpoonup> rbull_hctx) \<Rightarrow>
    (unit res \<times> (nat \<rightharpoonup> rbull_hctx)) run" where
  "rbull_init_hctx zalloc_ok wq_ok idx hctxs =
     (if \<not> zalloc_ok then Inl NullDeref
      else Inr (if wq_ok then Inr () else Inl ENOMEM, hctxs(idx \<mapsto> \<lparr>rh_idx = idx, rh_wq = wq_ok\<rparr>)))"

subsection \<open>The loop on an idle device\<close>

definition rb_idle :: "rbull_dev \<Rightarrow> bool" where
  "rb_idle d \<longleftrightarrow> length (rb_data d) = rb_size_bytes d \<and> rb_size_bytes d < 2 ^ 63 \<and> \<not> rb_writer d \<and> rb_readers d = 0"

lemma range_check:
  "rb_idle d \<Longrightarrow> off + n \<le> rb_size_bytes d \<Longrightarrow> \<not> int (rb_size_bytes d) < u64 (int off + int n)"
  by (simp add: rb_idle_def u64_id)

lemma sector_offset_in:
  assumes "rb_idle d" and "pos * 512 + n \<le> rb_size_bytes d"
  shows "sector_offset pos = pos * 512"
proof -
  have "int pos * 512 < 2 ^ 63" using assms by (simp add: rb_idle_def)
  then show ?thesis by (simp add: sector_offset_def SECTOR_SHIFT_def u64_id)
qed

lemma segments_write:
  "rb_idle d \<Longrightarrow> off + length (concat segs) \<le> rb_size_bytes d \<Longrightarrow>
     rq_segments REQ_OP_WRITE [] off segs d = Inr (Finished BLK_STS_OK, segs,
       d\<lparr>rb_data := overwrite (rb_data d) off (concat segs),
         rb_inflight_writes := rb_inflight_writes d + int (length segs)\<rparr>)"
proof (induction segs arbitrary: off d)
  case (Cons seg segs)
  define d1 where "d1 = d\<lparr>rb_data := overwrite (rb_data d) off seg, rb_inflight_writes := rb_inflight_writes d + 1\<rparr>"
  have in_range: "off + length seg \<le> rb_size_bytes d" "off + length seg + length (concat segs) \<le> rb_size_bytes d1"
    using Cons.prems(2) by (simp_all add: d1_def)
  have idle1: "rb_idle d1" using Cons.prems(1) in_range(1) by (simp add: d1_def rb_idle_def)
  have idle: "\<not> rb_writer d" "rb_readers d = 0" "length (rb_data d) = rb_size_bytes d"
    using Cons.prems(1) by (simp_all add: rb_idle_def)
  have d1: "d\<lparr>rb_inflight_writes := rb_inflight_writes d + 1, rb_data := overwrite (rb_data d) off seg,
      rb_writer := False\<rparr> = d1" using idle(1) by (cases d) (simp add: d1_def)
  have "rq_segments REQ_OP_WRITE [] off (seg # segs) d =
      (case rq_segments REQ_OP_WRITE [] (off + length seg) segs d1 of
         Inl e \<Rightarrow> Inl e | Inr (x, segs', d3) \<Rightarrow> Inr (x, seg # segs', d3))"
    using range_check [OF Cons.prems(1) in_range(1)] idle in_range(1)
    by (simp add: seg_lock_def seg_unlock_def rq_is_write_def Let_def d1)
  also have "\<dots> = Inr (Finished BLK_STS_OK, seg # segs,
      d1\<lparr>rb_data := overwrite (rb_data d1) (off + length seg) (concat segs),
         rb_inflight_writes := rb_inflight_writes d1 + int (length segs)\<rparr>)"
    by (simp add: Cons.IH [OF idle1 in_range(2)])
  finally show ?case using in_range(1) idle(3) by (simp add: d1_def overwrite_append)
qed simp

text \<open>A list of bytes cut into pieces of the lengths of the segments.\<close>

fun cut_like :: "byte list list \<Rightarrow> byte list \<Rightarrow> byte list list" where
  "cut_like [] bs = []"
| "cut_like (seg # segs) bs = take (length seg) bs # cut_like segs (drop (length seg) bs)"

lemma concat_cut_like: "length (concat segs) \<le> length bs \<Longrightarrow> concat (cut_like segs bs) = take (length (concat segs)) bs"
  by (induction segs bs rule: cut_like.induct) (simp_all add: take_add)

lemma segments_read:
  "rb_idle d \<Longrightarrow> off + length (concat segs) \<le> rb_size_bytes d \<Longrightarrow>
     rq_segments REQ_OP_READ [] off segs d = Inr (Finished BLK_STS_OK, cut_like segs (drop off (rb_data d)), d)"
proof (induction segs arbitrary: off)
  case (Cons seg segs)
  have in_range: "off + length seg \<le> rb_size_bytes d" "off + length seg + length (concat segs) \<le> rb_size_bytes d"
    using Cons.prems(2) by simp_all
  have idle: "\<not> rb_writer d" "rb_readers d = 0" "length (rb_data d) = rb_size_bytes d"
    using Cons.prems(1) by (simp_all add: rb_idle_def)
  have d: "d\<lparr>rb_readers := 0\<rparr> = d" using idle(2) by (cases d) simp
  show ?case
    using range_check [OF Cons.prems(1) in_range(1)] idle in_range Cons.IH [OF Cons.prems(1) in_range(2)]
    by (simp add: seg_lock_def seg_unlock_def rq_is_write_def d add.commute)
qed simp

subsection \<open>Properties of the worker\<close>

definition example_disk :: rbull_dev where
  "example_disk = \<lparr>rb_data = replicate 2048 0, rb_size_bytes = 2048, rb_open_count = 1,
     rb_inflight_writes = 0, rb_readers = 0, rb_writer = False\<rparr>"

lemma example_disk_ok: "rb_idle example_disk"
  by (simp add: example_disk_def rb_idle_def)

text \<open>C10: a request that fits the disk and is not aborted is executed in full on an idle device:
  a write stores its segments one after the other at the sector's offset, a read fills its pages
  with the bytes there, both end with \<open>BLK_STS_OK\<close> and release the lock; so what was written is
  what is read back.\<close>

theorem rbull_write_read:
  assumes idle: "rb_idle d" and fit: "pos * 512 + length (concat segs) \<le> rb_size_bytes d"
    and like: "length (concat pages) = length (concat segs)"
  shows "\<exists>d' pages'. rbull_rq_work REQ_OP_WRITE [] pos segs d = Inr (Some BLK_STS_OK, segs, d') \<and>
    rb_data d' = overwrite (rb_data d) (pos * 512) (concat segs) \<and> rb_idle d' \<and>
    rbull_rq_work REQ_OP_READ [] pos pages d' = Inr (Some BLK_STS_OK, pages', d') \<and> concat pages' = concat segs"
proof -
  define d' where "d' = d\<lparr>rb_data := overwrite (rb_data d) (pos * 512) (concat segs),
      rb_inflight_writes := rb_inflight_writes d + int (length segs) - 1\<rparr>"
  have w: "rbull_rq_work REQ_OP_WRITE [] pos segs d = Inr (Some BLK_STS_OK, segs, d')"
    by (simp add: rbull_rq_work_def Let_def sector_offset_in [OF idle fit] segments_write [OF idle fit] rq_is_write_def d'_def)
  have len: "length (rb_data d) = rb_size_bytes d" using idle by (simp add: rb_idle_def)
  have idle': "rb_idle d'" using idle fit by (simp add: d'_def rb_idle_def)
  have fit': "pos * 512 + length (concat pages) \<le> rb_size_bytes d'" using fit like by (simp add: d'_def)
  have "concat (cut_like pages (drop (pos * 512) (rb_data d'))) = take (length (concat segs)) (drop (pos * 512) (rb_data d'))"
    using fit' len by (subst concat_cut_like) (simp_all add: like d'_def)
  also have "\<dots> = concat segs" using take_drop_overwrite [of "pos * 512" "concat segs" "rb_data d"] fit len by (simp add: d'_def)
  finally have "concat (cut_like pages (drop (pos * 512) (rb_data d'))) = concat segs" .
  moreover have "rbull_rq_work REQ_OP_READ [] pos pages d' = Inr (Some BLK_STS_OK, cut_like pages (drop (pos * 512) (rb_data d')), d')"
    by (simp add: rbull_rq_work_def Let_def sector_offset_in [OF idle' fit'] segments_read [OF idle' fit'] rq_is_write_def)
  ultimately show ?thesis using w idle' by (auto simp: d'_def)
qed

theorem rbull_write_read_witness:
  "\<exists>d' pages'. rbull_rq_work REQ_OP_WRITE [] 1 [[1, 2], [3]] example_disk = Inr (Some BLK_STS_OK, [[1, 2], [3]], d') \<and>
     rbull_rq_work REQ_OP_READ [] 1 [[0, 0, 0]] d' = Inr (Some BLK_STS_OK, pages', d') \<and> concat pages' = [1, 2, 3]"
  using rbull_write_read [OF example_disk_ok, of 1 "[[1, 2], [3]]" "[[0, 0, 0]]"] by (auto simp: example_disk_def)

text \<open>
  \<open>inflight_writes\<close> is incremented for each segment and decremented once.
\<close>

lemma segments_inflight:
  "rq_segments op aborts off segs d = Inr (x, segs', d') \<Longrightarrow>
     rb_inflight_writes d \<le> rb_inflight_writes d' \<and>
     (rq_is_write op \<and> segs \<noteq> [] \<and> x \<noteq> OutOfRange \<longrightarrow> rb_inflight_writes d < rb_inflight_writes d')"
proof (induction op aborts off segs d arbitrary: x segs' d' rule: rq_segments.induct)
  case (2 op aborts off seg segs d)
  have copy: "seg_copy op off seg d1 = (st, seg', d2) \<Longrightarrow> rb_inflight_writes d2 = rb_inflight_writes d1" for d1 st seg' d2
    by (cases "(op, off, seg, d1)" rule: seg_copy.cases) auto
  have lock: "seg_lock (rq_is_write op) d = Some d1 \<Longrightarrow>
      rb_inflight_writes d1 = rb_inflight_writes d + (if rq_is_write op then 1 else 0)" for d1
    by (auto simp: seg_lock_def Let_def split: if_splits)
  have unlock [simp]: "rb_inflight_writes (seg_unlock b e) = rb_inflight_writes e" for b e
    by (simp add: seg_unlock_def)
  show ?case
  proof (cases "int (rb_size_bytes d) < u64 (int off + int (length seg))")
    case True
    with "2.prems" show ?thesis by auto
  next
    case False
    note in_range = False
    with "2.prems" obtain d1 where d1: "seg_lock (rq_is_write op) d = Some d1" by (auto split: option.splits)
    show ?thesis
    proof (cases "aborts \<noteq> [] \<and> hd aborts \<or> length (rb_data d1) < off + length seg")
      case True
      with "2.prems" in_range d1 lock [OF d1] show ?thesis by (auto split: if_splits)
    next
      case False
      obtain st seg' d2 where c: "seg_copy op off seg d1 = (st, seg', d2)" by (metis prod_cases3)
      show ?thesis
      proof (cases "st = BLK_STS_OK")
        case False
        with "2.prems" in_range d1 lock [OF d1] copy [OF c] c \<open>\<not> (aborts \<noteq> [] \<and> hd aborts \<or> _)\<close>
        show ?thesis by (auto split: if_splits)
      next
        case True
        with "2.prems" in_range d1 c False obtain segs1
          where "rq_segments op (tl aborts) (off + length seg) segs (seg_unlock (rq_is_write op) d2) = Inr (x, segs1, d')"
          by (auto split: if_splits sum.splits)
        from "2.IH" [OF in_range d1 _ _ c [symmetric] refl _ this] lock [OF d1] copy [OF c] True False
        show ?thesis by (auto split: if_splits)
      qed
    qed
  qed
qed auto

lemma work_inflight:
  assumes "rbull_rq_work op aborts pos segs d = Inr (r, segs', d')" and "segs \<noteq> []"
  shows "rb_inflight_writes d \<le> rb_inflight_writes d'"
proof (cases "op = REQ_OP_FLUSH")
  case True
  with assms show ?thesis by (auto simp: rbull_rq_work_def split: if_splits)
next
  case False
  with assms(1) obtain x segs1 d1 where q: "rq_segments op aborts (sector_offset pos) segs d = Inr (x, segs1, d1)"
    and d': "d' = (case x of Finished st \<Rightarrow> if rq_is_write op then d1\<lparr>rb_inflight_writes := rb_inflight_writes d1 - 1\<rparr> else d1
       | _ \<Rightarrow> d1)"
    by (auto simp: rbull_rq_work_def Let_def split: sum.splits loop_exit.splits)
  from segments_inflight [OF q] assms(2) show ?thesis by (auto simp: d' split: loop_exit.splits)
qed

text \<open>A sequence of requests, each run to its end.\<close>

fun rbull_run :: "(req_op \<times> bool list \<times> nat \<times> byte list list) list \<Rightarrow> rbull_dev \<Rightarrow> rbull_dev run" where
  "rbull_run [] d = Inr d"
| "rbull_run ((op, aborts, pos, segs) # rqs) d = (case rbull_rq_work op aborts pos segs d of
     Inl e \<Rightarrow> Inl e | Inr (_, _, d') \<Rightarrow> rbull_run rqs d')"

lemma run_inflight:
  "rbull_run rqs d = Inr d' \<Longrightarrow> \<forall>(_, _, _, segs)\<in>set rqs. segs \<noteq> [] \<Longrightarrow>
     rb_inflight_writes d \<le> rb_inflight_writes d'"
proof (induction rqs d rule: rbull_run.induct)
  case (2 op aborts pos segs rqs d)
  then obtain r segs' d1 where w: "rbull_rq_work op aborts pos segs d = Inr (r, segs', d1)"
    by (auto split: sum.splits prod.splits)
  with "2.prems" have "rbull_run rqs d1 = Inr d'" by simp
  with "2.IH" [OF w refl refl] "2.prems"(2) work_inflight [OF w] show ?case by force
qed simp



text \<open>When the worker sees the abort of a timeout it leaves with the lock of the segment held,
  and every later read or write of the disk sleeps for ever.\<close>

lemma rbull_abort_keeps_lock:
  assumes idle: "rb_idle d" and fit: "pos * 512 + length seg \<le> rb_size_bytes d"
    and fit': "pos' * 512 + length seg' \<le> rb_size_bytes d" and op: "op \<in> {REQ_OP_READ, REQ_OP_WRITE}"
  shows "\<exists>d'. rbull_rq_work REQ_OP_WRITE [True] pos (seg # segs) d = Inr (None, seg # segs, d') \<and>
    rbull_rq_work op aborts pos' (seg' # segs') d' = Inl Sleeps"
proof -
  define d' where "d' = d\<lparr>rb_inflight_writes := rb_inflight_writes d + 1, rb_writer := True\<rparr>"
  have "rbull_rq_work REQ_OP_WRITE [True] pos (seg # segs) d = Inr (None, seg # segs, d')"
    using idle range_check [OF idle fit]
    by (simp add: rbull_rq_work_def Let_def sector_offset_in [OF idle fit] seg_lock_def rq_is_write_def d'_def rb_idle_def)
  moreover have "rbull_rq_work op aborts pos' (seg' # segs') d' = Inl Sleeps"
    using op range_check [OF idle fit']
    by (auto simp: rbull_rq_work_def Let_def sector_offset_in [OF idle fit'] seg_lock_def rq_is_write_def d'_def)
  ultimately show ?thesis by blast
qed

lemma rbull_abort_keeps_lock_witness:
  "\<exists>d'. rbull_rq_work REQ_OP_WRITE [True] 0 [[1]] example_disk = Inr (None, [[1]], d') \<and>
     rbull_rq_work REQ_OP_READ [] 3 [[0]] d' = Inl Sleeps"
  using rbull_abort_keeps_lock [OF example_disk_ok, of 0 "[1]" 3 "[0]" REQ_OP_READ "[]" "[]" "[]"]
  by (auto simp: example_disk_def)

text \<open>C27: whatever the interleaving of the worker and the timeout, the request is ended at most
  once, and exactly once when both have run; a worker that saw the abort leaves the end to the
  timeout.\<close>

theorem rbull_ends_once:
  assumes "race_reach (c, w, t)"
  shows "length (rc_ended c) \<le> 1 \<and> (w = WDone \<or> t = TDone \<longrightarrow> length (rc_ended c) = 1) \<and>
    (w = WAborted \<longrightarrow> t \<noteq> TIdle)"
proof -
  have "length (rc_ended c) = of_bool (rc_done c) \<and> (w = WDone \<or> t = TDone \<longrightarrow> rc_done c) \<and>
    (rc_abort c \<longrightarrow> t \<noteq> TIdle) \<and> (w = WAborted \<longrightarrow> t \<noteq> TIdle)"
    using assms
  proof (induction "(c, w, t)" arbitrary: c w t rule: race_reach.induct)
    case (init op c0 c n)
    then show ?case by (auto simp: rbull_queue_rq_def)
  next
    case (step s c' w' t')
    obtain c w t where s: "s = (c, w, t)" by (cases s)
    from step.hyps(3) step.hyps(2) [OF s] show ?case unfolding s
      by (cases rule: race_step.cases) (auto simp: end_once_def)
  qed
  then show ?thesis by auto
qed

theorem rbull_ends_once_witness:
  "\<exists>c. race_reach (c, WAborted, TDone) \<and> rc_ended c = [BLK_STS_TIMEOUT]"
proof -
  define c0 where "c0 = rbull_init_request\<lparr>rc_op := REQ_OP_WRITE\<rparr>"
  define c1 where "c1 = c0\<lparr>rc_abort := True\<rparr>"
  define c2 where "c2 = end_once BLK_STS_TIMEOUT c1"
  have 0: "race_reach (c0, WRun 1, TIdle)"
    by (rule race_reach.init [of REQ_OP_WRITE rbull_init_request]) (simp add: rbull_queue_rq_def c0_def rbull_init_request_def)
  have 1: "race_step (c0, WRun 1, TIdle) (c1, WRun 1, TSet)" unfolding c1_def by (rule race_step.time_set)
  have 2: "race_step (c1, WRun 1, TSet) (c1, WAborted, TSet)"
    using race_step.seg_abort [of c1 0 TSet] by (simp add: c1_def)
  have 3: "race_step (c1, WAborted, TSet) (c2, WAborted, TDone)" unfolding c2_def by (rule race_step.time_end)
  have r: "race_reach (c2, WAborted, TDone)"
    by (rule race_reach.step [OF race_reach.step [OF race_reach.step [OF 0 1] 2] 3])
  from rbull_ends_once [OF r] have "length (rc_ended c2) = 1" by blast
  then have "rc_ended c2 = [BLK_STS_TIMEOUT]"
    by (simp add: c2_def c1_def c0_def end_once_def rbull_init_request_def)
  with r show ?thesis by blast
qed

text \<open>The module holds on to everything or to nothing: loading succeeds when every call does
  and the sector size is a power of two of at least 512, and unloading then releases all that it
  holds; when a call of the block layer or the check of the sector size fails, its error is
  returned and the labels have released what was acquired before; but a failed \<open>vmalloc\<close> returns
  an uninitialised value.\<close>

lemma rbull_init_all_or_nothing:
  "case rbull_init e ss of
     Inl s \<Rightarrow> s = UninitRead \<and> re_hctxs e \<and> \<not> re_vmalloc e
   | Inr (Inl _, held) \<Rightarrow> held = []
   | Inr (Inr _, held) \<Rightarrow> set held = {Hctxs, Backing, TagSet, Disk, AddedDisk} \<and> rbull_exit held = [] \<and>
       512 \<le> ss \<and> is_power_of_2 ss"
  by (simp add: rbull_init_def setup_queue_limit_def SECTOR_SIZE_def Let_def rbull_exit_def
      free_hctx_def free_data_def free_tag_set_def free_disk_def insert_commute split: sum.split)

text \<open>What ends with the tag set: the work of each request is cancelled, and the contexts of the hardware
  queues, whose memory is what the map holds, are freed with their work queues.\<close>

definition rbull_exit_request :: "rq_ctx \<times> bool \<Rightarrow> rq_ctx \<times> bool" where
  "rbull_exit_request cq = (case cq of (c, queued) \<Rightarrow> (c, False))"

definition rbull_exit_hctx :: "nat \<Rightarrow> (nat \<rightharpoonup> rbull_hctx) \<Rightarrow> (nat \<rightharpoonup> rbull_hctx) run" where
  "rbull_exit_hctx idx hctxs = (case hctxs idx of None \<Rightarrow> Inl NullDeref
     | Some rh \<Rightarrow> (if rh_wq rh then Inr (hctxs(idx := None)) else Inl NullDeref))"

text \<open>The contexts of all queues, set up in order and torn down again, leave no memory; a queue without its
  work queue keeps its context.\<close>

fun init_hctxs :: "nat \<Rightarrow> nat \<Rightarrow> (nat \<rightharpoonup> rbull_hctx) \<Rightarrow> (nat \<rightharpoonup> rbull_hctx) run" where
  "init_hctxs 0 i m = Inr m"
| "init_hctxs (Suc n) i m = (case rbull_init_hctx True True i m of Inl s \<Rightarrow> Inl s | Inr (_, m') \<Rightarrow> init_hctxs n (Suc i) m')"

fun exit_hctxs :: "nat \<Rightarrow> nat \<Rightarrow> (nat \<rightharpoonup> rbull_hctx) \<Rightarrow> (nat \<rightharpoonup> rbull_hctx) run" where
  "exit_hctxs 0 i m = Inr m"
| "exit_hctxs (Suc n) i m = (case rbull_exit_hctx i m of Inl s \<Rightarrow> Inl s | Inr m' \<Rightarrow> exit_hctxs n (Suc i) m')"

lemma init_hctxs_eq: "init_hctxs n i m = Inr (\<lambda>k. if k \<in> {i..<i + n} then Some \<lparr>rh_idx = k, rh_wq = True\<rparr> else m k)"
  by (induction n i m rule: init_hctxs.induct) (auto simp: rbull_init_hctx_def fun_eq_iff)

lemma exit_hctxs_eq: "(\<And>k. i \<le> k \<Longrightarrow> k < i + n \<Longrightarrow> \<exists>rh. m k = Some rh \<and> rh_wq rh) \<Longrightarrow>
    exit_hctxs n i m = Inr (\<lambda>k. if k \<in> {i..<i + n} then None else m k)"
proof (induction n i m rule: exit_hctxs.induct)
  case (2 n i m)
  from "2.prems" [of i] obtain rh where rh: "m i = Some rh" "rh_wq rh" by auto
  then have "exit_hctxs n (Suc i) (m(i := None)) = Inr (\<lambda>k. if k \<in> {Suc i..<Suc i + n} then None else (m(i := None)) k)"
    by (intro "2.IH") (use "2.prems" in \<open>auto simp: rbull_exit_hctx_def\<close>)
  with rh show ?case by (auto simp: rbull_exit_hctx_def fun_eq_iff)
qed simp

lemma hctxs_balanced:
  "\<exists>m. init_hctxs n 0 Map.empty = Inr m \<and> exit_hctxs n 0 m = Inr Map.empty"
  by (intro exI, rule conjI, rule init_hctxs_eq) (auto simp: exit_hctxs_eq fun_eq_iff)

lemma hctx_without_wq: "rbull_init_hctx True False idx Map.empty = Inr (Inl ENOMEM, [idx \<mapsto> \<lparr>rh_idx = idx, rh_wq = False\<rparr>])"
  by (simp add: rbull_init_hctx_def)

text \<open>The module keeps the contract of loading and unloading, as long as its memory can be allocated.\<close>

interpretation rbull_mod: unwinding "\<lambda>(e, ss). rbull_init e ss" "\<lambda>h. Inr (rbull_exit h)" "\<lambda>h. h = []" "\<lambda>(e, ss). re_vmalloc e"
  by (rule unwindingI) (use rbull_init_all_or_nothing in \<open>fastforce split: sum.splits prod.splits\<close>)

end
