(* ===== verification/EduDma.thy ===== *)
theory EduDma
  imports KernelPrelude
begin

unbundle bit_operations_syntax

text \<open>
  The EDU PCI driver (\<open>common_edu/edu_core.c\<close>, \<open>edu.h\<close> and \<open>ch15_mmap_dma/main.c\<close>): DMA
  transfers through the device's 4 KiB buffer, the read, write and ioctl calls over them, the
  scatter-gather transfer of a user buffer, the interrupt handler, the handlers of PCI errors and
  power management, probe and remove.  The state is the driver's \<open>struct edu_dev\<close> with what the
  kernel counts for it; every \<open>iowrite32\<close> is appended to \<open>ed_mmio\<close>.

  The device is not part of the program.  \<open>hw\<close> is what it does to the RAM at the DMA address
  and to its own buffer when it executes a transfer, given the registers; \<open>hw_loopback\<close> states
  the documented behaviour.  The values that a call reads from registers are its inputs.
\<close>

subsection \<open>Registers and commands (\<open>edu.h\<close>)\<close>

definition DMA_BUF_SIZE :: nat where "DMA_BUF_SIZE = 4096"
definition EDU_BAR0_LIVENESS_REG :: nat where "EDU_BAR0_LIVENESS_REG = 0x04"
definition EDU_BAR0_IRQ_ACK_REG :: nat where "EDU_BAR0_IRQ_ACK_REG = 0x64"
definition EDU_BAR0_DMA_SRC_REG :: nat where "EDU_BAR0_DMA_SRC_REG = 0x80"
definition EDU_BAR0_DMA_DST_REG :: nat where "EDU_BAR0_DMA_DST_REG = 0x88"
definition EDU_BAR0_DMA_COUNT_REG :: nat where "EDU_BAR0_DMA_COUNT_REG = 0x90"
definition EDU_BAR0_DMA_CMD_REG :: nat where "EDU_BAR0_DMA_CMD_REG = 0x98"
definition EDU_BAR0_DMA_BUFFER_REG :: nat where "EDU_BAR0_DMA_BUFFER_REG = 0x40000"

definition EDU_DMA_CMD_START :: nat where "EDU_DMA_CMD_START = 1"
definition EDU_DMA_CMD_DIR :: nat where "EDU_DMA_CMD_DIR = 2"
definition EDU_DMA_CMD_IRQ :: nat where "EDU_DMA_CMD_IRQ = 4"
definition EDU_DMA_DIR_RAM_TO_DEV :: int where "EDU_DMA_DIR_RAM_TO_DEV = 0"
definition EDU_DMA_DIR_DEV_TO_RAM :: int where "EDU_DMA_DIR_DEV_TO_RAM = 2"

definition EDU_DMA_CMD_BUILD :: "int \<Rightarrow> bool \<Rightarrow> nat" where
  "EDU_DMA_CMD_BUILD dir irq = EDU_DMA_CMD_START OR nat dir OR (if irq then EDU_DMA_CMD_IRQ else 0)"

lemmas edu_regs = EDU_BAR0_DMA_SRC_REG_def EDU_BAR0_DMA_DST_REG_def EDU_BAR0_DMA_COUNT_REG_def
  EDU_BAR0_DMA_CMD_REG_def EDU_BAR0_DMA_BUFFER_REG_def EDU_BAR0_IRQ_ACK_REG_def

subsection \<open>State\<close>

text \<open>
  \<open>ed_locked\<close> is \<open>xfer_lock\<close>, \<open>ed_done\<close> the count of the completion, \<open>ed_pm\<close> the runtime usage
  count of the device, \<open>ed_irq_depth\<close> how often its interrupt is disabled, \<open>ed_dev_buf\<close> the
  device's own buffer.
\<close>

record edu_dev =
  ed_locked :: bool
  ed_in_flight :: bool
  ed_done :: nat
  ed_interrupts_enabled :: bool
  ed_dma_handle :: nat
  ed_dma_buf :: "byte list"
  ed_dev_buf :: "byte list"
  ed_mmio :: "(nat \<times> nat) list"
  ed_pm :: int
  ed_irq_depth :: nat

definition iowrite32 :: "nat \<Rightarrow> nat \<Rightarrow> edu_dev \<Rightarrow> edu_dev" where
  "iowrite32 v reg d = d\<lparr>ed_mmio := ed_mmio d @ [(reg, v mod 2 ^ 32)]\<rparr>"

text \<open>\<open>hw dst src count cmd ram devbuf\<close>: the RAM at the DMA address and the buffer afterwards.\<close>

type_synonym edu_hw = "nat \<Rightarrow> nat \<Rightarrow> nat \<Rightarrow> nat \<Rightarrow> byte list \<Rightarrow> byte list \<Rightarrow> byte list \<times> byte list"

definition hw_loopback :: "edu_hw \<Rightarrow> bool" where
  "hw_loopback hw \<longleftrightarrow> (\<forall>addr n cmd ram dev. n \<le> DMA_BUF_SIZE \<and> n \<le> length ram \<and> length dev = DMA_BUF_SIZE \<and>
       addr < 2 ^ 28 \<longrightarrow>
     (cmd AND EDU_DMA_CMD_DIR = 0 \<longrightarrow>
        hw EDU_BAR0_DMA_BUFFER_REG addr n cmd ram dev = (ram, overwrite dev 0 (take n ram))) \<and>
     (cmd AND EDU_DMA_CMD_DIR \<noteq> 0 \<longrightarrow>
        hw addr EDU_BAR0_DMA_BUFFER_REG n cmd ram dev = (overwrite ram 0 (take n dev), dev)))"

text \<open>Power management: \<open>pm_runtime_resume_and_get\<close> and \<open>pm_runtime_put_autosuspend\<close>.\<close>

definition pm_get :: "unit res \<Rightarrow> edu_dev \<Rightarrow> unit res \<times> edu_dev" where
  "pm_get pm d = (case pm of Inl e \<Rightarrow> (Inl e, d) | Inr _ \<Rightarrow> (Inr (), d\<lparr>ed_pm := ed_pm d + 1\<rparr>))"

definition pm_put :: "edu_dev \<Rightarrow> edu_dev" where
  "pm_put d = d\<lparr>ed_pm := ed_pm d - 1\<rparr>"

subsection \<open>The interrupt handler\<close>

datatype irqreturn = IRQ_NONE | IRQ_HANDLED

text \<open>\<open>st\<close> is the value read from the interrupt status register.\<close>

definition edu_irq_threaded :: "unit res \<Rightarrow> nat \<Rightarrow> edu_dev \<Rightarrow> irqreturn \<times> edu_dev" where
  "edu_irq_threaded pm st d =
     (case pm_get pm d of
        (Inl _, d1) \<Rightarrow> (IRQ_NONE, d1)
      | (Inr _, d1) \<Rightarrow>
          (if st = 0 then (IRQ_NONE, pm_put d1)
           else let d2 = iowrite32 st EDU_BAR0_IRQ_ACK_REG d1;
                    d3 = (if ed_in_flight d2 then d2\<lparr>ed_done := ed_done d2 + 1\<rparr> else d2)
                in (IRQ_HANDLED, pm_put d3)))"

subsection \<open>\<open>edu_dma_transfers\<close>\<close>

text \<open>
  What happens while a transfer waits: a signal at the mutex, the values the polling loop reads
  from the command register before its time is up, the runs of the interrupt handler before then.
\<close>

record xfer_env =
  xe_sig :: bool
  xe_polls :: "nat list"
  xe_irqs :: "(unit res \<times> nat) list"

fun poll_cmd :: "nat list \<Rightarrow> unit res" where
  "poll_cmd [] = Inl ETIMEDOUT"
| "poll_cmd (v # vs) = (if v AND EDU_DMA_CMD_START = 0 then Inr () else poll_cmd vs)"

fun edu_irqs :: "(unit res \<times> nat) list \<Rightarrow> edu_dev \<Rightarrow> edu_dev" where
  "edu_irqs [] d = d"
| "edu_irqs ((pm, st) # is) d = edu_irqs is (snd (edu_irq_threaded pm st d))"

definition dma_wait :: "xfer_env \<Rightarrow> edu_dev \<Rightarrow> unit res \<times> edu_dev" where
  "dma_wait xe d =
     (if \<not> ed_interrupts_enabled d then (poll_cmd (xe_polls xe), d)
      else let d1 = edu_irqs (xe_irqs xe) d in
        if ed_done d1 = 0 then (Inl ETIMEDOUT, d1) else (Inr (), d1\<lparr>ed_done := ed_done d1 - 1\<rparr>))"

text \<open>
  From the first register write on.  \<open>ram\<close> are the bytes at the DMA address; \<open>hw\<close> is applied
  when the wait succeeds.
\<close>

definition dma_run :: "edu_hw \<Rightarrow> xfer_env \<Rightarrow> nat \<Rightarrow> nat \<Rightarrow> int \<Rightarrow> nat \<Rightarrow> byte list \<Rightarrow> edu_dev \<Rightarrow>
    unit res \<times> byte list \<times> edu_dev" where
  "dma_run hw xe dst src dir len ram d =
     (let cmd = EDU_DMA_CMD_BUILD dir (ed_interrupts_enabled d);
          d1 = iowrite32 cmd EDU_BAR0_DMA_CMD_REG (iowrite32 len EDU_BAR0_DMA_COUNT_REG
                 (iowrite32 src EDU_BAR0_DMA_SRC_REG (iowrite32 dst EDU_BAR0_DMA_DST_REG d)))
      in case dma_wait xe d1 of
          (Inl e, d2) \<Rightarrow> (Inl e, ram, d2)
        | (Inr _, d2) \<Rightarrow> (case hw dst src len cmd ram (ed_dev_buf d2) of
            (ram', dev) \<Rightarrow> (Inr (), ram', d2\<lparr>ed_dev_buf := dev\<rparr>)))"

definition edu_dma_transfers :: "edu_hw \<Rightarrow> xfer_env \<Rightarrow> nat \<Rightarrow> int \<Rightarrow> nat \<Rightarrow> byte list \<Rightarrow> edu_dev \<Rightarrow>
    (unit res \<times> byte list \<times> edu_dev) run" where
  "edu_dma_transfers hw xe dma_addr dir len ram d =
     (if DMA_BUF_SIZE < len then Inr (Inl EINVAL, ram, d)
      else if xe_sig xe then Inr (Inl ERESTARTSYS, ram, d)
      else if ed_locked d then Inl Sleeps
      else let d1 = d\<lparr>ed_locked := True\<rparr> in
      if ed_in_flight d1 then Inr (Inl EBUSY, ram, d1\<lparr>ed_locked := False\<rparr>)
      else let d2 = d1\<lparr>ed_in_flight := True, ed_done := 0\<rparr>;
               addr = dma_addr mod 2 ^ 32;
               finish = (\<lambda>(r, ram', d3). Inr (r, ram', d3\<lparr>ed_in_flight := False, ed_locked := False\<rparr>))
      in if dir = EDU_DMA_DIR_RAM_TO_DEV then finish (dma_run hw xe EDU_BAR0_DMA_BUFFER_REG addr dir len ram d2)
         else if dir = EDU_DMA_DIR_DEV_TO_RAM then finish (dma_run hw xe addr EDU_BAR0_DMA_BUFFER_REG dir len ram d2)
         else finish (Inl EINVAL, ram, d2))"

subsection \<open>Read and write\<close>

text \<open>\<open>ulen\<close> bytes of the user's buffer are writable.\<close>

definition edu_read :: "edu_hw \<Rightarrow> xfer_env \<Rightarrow> unit res \<Rightarrow> nat \<Rightarrow> nat \<Rightarrow> edu_dev \<Rightarrow> (byte list res \<times> edu_dev) run" where
  "edu_read hw xe pm ulen count d =
     (let n = min count DMA_BUF_SIZE in
      case pm_get pm d of
        (Inl e, d1) \<Rightarrow> Inr (Inl e, d1)
      | (Inr _, d1) \<Rightarrow> (case edu_dma_transfers hw xe (ed_dma_handle d1) EDU_DMA_DIR_DEV_TO_RAM n (ed_dma_buf d1) d1 of
            Inl s \<Rightarrow> Inl s
          | Inr (r, ram, d2) \<Rightarrow> (let d3 = pm_put (d2\<lparr>ed_dma_buf := ram\<rparr>) in
              case r of
                Inl e \<Rightarrow> Inr (Inl e, d3)
              | Inr _ \<Rightarrow> (if ulen < n then Inr (Inl EFAULT, d3) else Inr (Inr (take n (ed_dma_buf d3)), d3)))))"

text \<open>The two parts of \<open>edu_write\<close>: the copy into the DMA buffer, without a lock, and the transfer.\<close>

definition edu_write_copy :: "byte list \<Rightarrow> nat \<Rightarrow> edu_dev \<Rightarrow> unit res \<times> edu_dev" where
  "edu_write_copy ubuf count d =
     (let n = min count DMA_BUF_SIZE; d1 = d\<lparr>ed_dma_buf := overwrite (ed_dma_buf d) 0 (user_bytes ubuf n)\<rparr>
      in (if length ubuf < n then Inl EFAULT else Inr (), d1))"

definition edu_write_xfer :: "edu_hw \<Rightarrow> xfer_env \<Rightarrow> unit res \<Rightarrow> nat \<Rightarrow> edu_dev \<Rightarrow> (nat res \<times> edu_dev) run" where
  "edu_write_xfer hw xe pm count d =
     (let n = min count DMA_BUF_SIZE in
      case pm_get pm d of
        (Inl e, d1) \<Rightarrow> Inr (Inl e, d1)
      | (Inr _, d1) \<Rightarrow> (case edu_dma_transfers hw xe (ed_dma_handle d1) EDU_DMA_DIR_RAM_TO_DEV n (ed_dma_buf d1) d1 of
            Inl s \<Rightarrow> Inl s
          | Inr (r, ram, d2) \<Rightarrow> (let d3 = pm_put (d2\<lparr>ed_dma_buf := ram\<rparr>) in
              case r of Inl e \<Rightarrow> Inr (Inl e, d3) | Inr _ \<Rightarrow> Inr (Inr n, d3))))"

definition edu_write :: "edu_hw \<Rightarrow> xfer_env \<Rightarrow> unit res \<Rightarrow> byte list \<Rightarrow> nat \<Rightarrow> edu_dev \<Rightarrow> (nat res \<times> edu_dev) run" where
  "edu_write hw xe pm ubuf count d = (case edu_write_copy ubuf count d of
     (Inl e, d1) \<Rightarrow> Inr (Inl e, d1) | (Inr _, d1) \<Rightarrow> edu_write_xfer hw xe pm count d1)"

subsection \<open>What every transfer keeps\<close>

text \<open>The driver's locks between calls, the size of the two buffers, and the 28-bit DMA mask.\<close>

definition edu_idle :: "edu_dev \<Rightarrow> bool" where
  "edu_idle d \<longleftrightarrow> \<not> ed_locked d \<and> \<not> ed_in_flight d \<and> length (ed_dma_buf d) = DMA_BUF_SIZE \<and>
     length (ed_dev_buf d) = DMA_BUF_SIZE \<and> ed_dma_handle d < 2 ^ 28"

lemma edu_irq_threaded_frame:
  "edu_irq_threaded pm st d = (r, d') \<Longrightarrow>
    ed_pm d' = ed_pm d \<and> ed_locked d' = ed_locked d \<and> ed_in_flight d' = ed_in_flight d \<and> ed_irq_depth d' = ed_irq_depth d \<and>
    ed_dma_buf d' = ed_dma_buf d \<and> ed_dev_buf d' = ed_dev_buf d \<and> ed_dma_handle d' = ed_dma_handle d \<and>
    ed_interrupts_enabled d' = ed_interrupts_enabled d"
  by (auto simp: edu_irq_threaded_def pm_get_def pm_put_def iowrite32_def Let_def split: sum.splits if_splits)

lemma edu_irqs_frame:
  "ed_pm (edu_irqs is d) = ed_pm d \<and> ed_locked (edu_irqs is d) = ed_locked d \<and> ed_in_flight (edu_irqs is d) = ed_in_flight d \<and>
    ed_irq_depth (edu_irqs is d) = ed_irq_depth d \<and>
    ed_dma_buf (edu_irqs is d) = ed_dma_buf d \<and> ed_dev_buf (edu_irqs is d) = ed_dev_buf d \<and>
    ed_dma_handle (edu_irqs is d) = ed_dma_handle d \<and> ed_interrupts_enabled (edu_irqs is d) = ed_interrupts_enabled d"
proof (induction "is" d rule: edu_irqs.induct)
  case (2 pm st "is" d)
  obtain r d' where "edu_irq_threaded pm st d = (r, d')" by (cases "edu_irq_threaded pm st d")
  with edu_irq_threaded_frame [OF this] "2.IH" show ?case by simp
qed simp

lemma dma_wait_frame:
  "dma_wait xe d = (r, d') \<Longrightarrow>
    ed_pm d' = ed_pm d \<and> ed_locked d' = ed_locked d \<and> ed_in_flight d' = ed_in_flight d \<and> ed_irq_depth d' = ed_irq_depth d \<and>
    ed_dma_buf d' = ed_dma_buf d \<and> ed_dev_buf d' = ed_dev_buf d \<and> ed_dma_handle d' = ed_dma_handle d \<and>
    ed_interrupts_enabled d' = ed_interrupts_enabled d"
  using edu_irqs_frame [of "xe_irqs xe" d] by (auto simp: dma_wait_def Let_def split: if_splits)

lemma dma_run_frame:
  assumes "dma_run hw xe dst src dir len ram d = (r, ram', d')"
  shows "ed_dma_buf d' = ed_dma_buf d \<and> ed_pm d' = ed_pm d \<and> ed_irq_depth d' = ed_irq_depth d \<and> ed_dma_handle d' = ed_dma_handle d \<and>
    ed_interrupts_enabled d' = ed_interrupts_enabled d \<and>
    (case r of Inl e \<Rightarrow> e = ETIMEDOUT \<and> ram' = ram \<and> ed_dev_buf d' = ed_dev_buf d
     | Inr _ \<Rightarrow> (ram', ed_dev_buf d') =
         hw dst src len (EDU_DMA_CMD_BUILD dir (ed_interrupts_enabled d)) ram (ed_dev_buf d))"
proof -
  define d1 where "d1 = iowrite32 (EDU_DMA_CMD_BUILD dir (ed_interrupts_enabled d)) EDU_BAR0_DMA_CMD_REG
    (iowrite32 len EDU_BAR0_DMA_COUNT_REG (iowrite32 src EDU_BAR0_DMA_SRC_REG (iowrite32 dst EDU_BAR0_DMA_DST_REG d)))"
  have d1: "ed_pm d1 = ed_pm d" "ed_irq_depth d1 = ed_irq_depth d" "ed_dma_handle d1 = ed_dma_handle d" "ed_dma_buf d1 = ed_dma_buf d"
    "ed_dev_buf d1 = ed_dev_buf d" "ed_interrupts_enabled d1 = ed_interrupts_enabled d"
    by (simp_all add: d1_def iowrite32_def)
  obtain q d2 where w: "dma_wait xe d1 = (q, d2)" by (cases "dma_wait xe d1")
  have "poll_cmd vs = Inl e \<Longrightarrow> e = ETIMEDOUT" for vs e by (induction vs) (auto split: if_splits)
  then have q: "q = Inl e \<Longrightarrow> e = ETIMEDOUT" for e
    using w by (auto simp: dma_wait_def Let_def split: if_splits)
  from assms w q dma_wait_frame [OF w] d1 show ?thesis
    by (auto simp: dma_run_def d1_def [symmetric] Let_def split: sum.splits prod.splits)
qed

text \<open>The whole transfer on an idle device.\<close>

lemma edu_dma_transfers_cases:
  assumes idle: "\<not> ed_locked d" "\<not> ed_in_flight d"
  obtains (refused) e where "edu_dma_transfers hw xe addr dir n ram d = Inr (Inl e, ram, d)"
      "e = EINVAL \<and> DMA_BUF_SIZE < n \<or> e = ERESTARTSYS \<and> xe_sig xe"
    | (nodir) d' where "edu_dma_transfers hw xe addr dir n ram d = Inr (Inl EINVAL, ram, d')" "dir \<notin> {0, 2}" "d' = d\<lparr>ed_done := 0\<rparr>"
    | (ran) r ram' d1 dst src where "edu_dma_transfers hw xe addr dir n ram d = Inr (r, ram', d1\<lparr>ed_in_flight := False, ed_locked := False\<rparr>)"
      "dma_run hw xe dst src dir n ram (d\<lparr>ed_locked := True, ed_in_flight := True, ed_done := 0\<rparr>) = (r, ram', d1)" "n \<le> DMA_BUF_SIZE"
      "dir = 0 \<and> dst = EDU_BAR0_DMA_BUFFER_REG \<and> src = addr mod 2 ^ 32 \<or>
       dir = 2 \<and> src = EDU_BAR0_DMA_BUFFER_REG \<and> dst = addr mod 2 ^ 32"
proof (cases "DMA_BUF_SIZE < n \<or> xe_sig xe")
  case True
  then show thesis using refused [of "if DMA_BUF_SIZE < n then EINVAL else ERESTARTSYS"]
    by (auto simp: edu_dma_transfers_def)
next
  case False
  note go = False
  have restored: "d\<lparr>ed_locked := False, ed_in_flight := False, ed_done := 0\<rparr> = d\<lparr>ed_done := 0\<rparr>"
    using idle by (cases d) simp
  show thesis
  proof (cases "dir \<in> {0, 2}")
    case False
    then show thesis using nodir go idle restored
      by (simp add: edu_dma_transfers_def EDU_DMA_DIR_RAM_TO_DEV_def EDU_DMA_DIR_DEV_TO_RAM_def)
  next
    case True
    define dst src where "dst = (if dir = 0 then EDU_BAR0_DMA_BUFFER_REG else addr mod 2 ^ 32)"
      and "src = (if dir = 0 then addr mod 2 ^ 32 else EDU_BAR0_DMA_BUFFER_REG)"
    obtain r ram' d1 where r: "dma_run hw xe dst src dir n ram (d\<lparr>ed_locked := True, ed_in_flight := True, ed_done := 0\<rparr>) = (r, ram', d1)"
      by (cases "dma_run hw xe dst src dir n ram (d\<lparr>ed_locked := True, ed_in_flight := True, ed_done := 0\<rparr>)")
    show thesis
    proof (rule ran)
      show "dma_run hw xe dst src dir n ram (d\<lparr>ed_locked := True, ed_in_flight := True, ed_done := 0\<rparr>) = (r, ram', d1)" by (rule r)
      show "n \<le> DMA_BUF_SIZE" using go by simp
      show "dir = 0 \<and> dst = EDU_BAR0_DMA_BUFFER_REG \<and> src = addr mod 2 ^ 32 \<or>
         dir = 2 \<and> src = EDU_BAR0_DMA_BUFFER_REG \<and> dst = addr mod 2 ^ 32" using True by (auto simp: dst_def src_def)
      show "edu_dma_transfers hw xe addr dir n ram d = Inr (r, ram', d1\<lparr>ed_in_flight := False, ed_locked := False\<rparr>)"
        using go idle True r by (auto simp: edu_dma_transfers_def EDU_DMA_DIR_RAM_TO_DEV_def EDU_DMA_DIR_DEV_TO_RAM_def
            Let_def dst_def src_def)
    qed
  qed
qed

lemma cmd_dir: "EDU_DMA_CMD_BUILD 0 irq AND EDU_DMA_CMD_DIR = 0" "EDU_DMA_CMD_BUILD 2 irq AND EDU_DMA_CMD_DIR \<noteq> 0"
  by (simp_all add: EDU_DMA_CMD_BUILD_def EDU_DMA_CMD_START_def EDU_DMA_CMD_DIR_def EDU_DMA_CMD_IRQ_def)

lemma hw_loopback_to_dev:
  "hw_loopback hw \<Longrightarrow> edu_idle d \<Longrightarrow> n \<le> DMA_BUF_SIZE \<Longrightarrow> n \<le> length ram \<Longrightarrow> addr < 2 ^ 28 \<Longrightarrow>
    hw EDU_BAR0_DMA_BUFFER_REG addr n (EDU_DMA_CMD_BUILD 0 irq) ram (ed_dev_buf d) =
      (ram, overwrite (ed_dev_buf d) 0 (take n ram))"
  using cmd_dir(1) by (simp add: hw_loopback_def edu_idle_def)

lemma hw_loopback_to_ram:
  "hw_loopback hw \<Longrightarrow> edu_idle d \<Longrightarrow> n \<le> DMA_BUF_SIZE \<Longrightarrow> n \<le> length ram \<Longrightarrow> addr < 2 ^ 28 \<Longrightarrow>
    hw addr EDU_BAR0_DMA_BUFFER_REG n (EDU_DMA_CMD_BUILD 2 irq) ram (ed_dev_buf d) =
      (overwrite ram 0 (take n (ed_dev_buf d)), ed_dev_buf d)"
  using cmd_dir(2) by (simp add: hw_loopback_def edu_idle_def)

lemma addr_small: "(addr :: nat) < 2 ^ 28 \<Longrightarrow> addr mod 2 ^ 32 = addr"
  by simp

text \<open>A transfer of an idle device of the documented behaviour.\<close>

lemma transfer_effect:
  assumes hw: "hw_loopback hw" and idle: "edu_idle d" and n: "n \<le> DMA_BUF_SIZE" "n \<le> length ram"
    and addr: "addr < 2 ^ 28" and dir: "dir \<in> {0, 2}"
  obtains (ok) d' where "edu_dma_transfers hw xe addr dir n ram d =
        Inr (Inr (), if dir = 0 then ram else overwrite ram 0 (take n (ed_dev_buf d)), d')"
      "edu_idle d'" "ed_pm d' = ed_pm d" "ed_dma_buf d' = ed_dma_buf d" "ed_interrupts_enabled d' = ed_interrupts_enabled d"
      "ed_dev_buf d' = (if dir = 0 then overwrite (ed_dev_buf d) 0 (take n ram) else ed_dev_buf d)"
    | (fails) e d' where "edu_dma_transfers hw xe addr dir n ram d = Inr (Inl e, ram, d')" "edu_idle d'" "ed_pm d' = ed_pm d"
      "ed_dma_buf d' = ed_dma_buf d" "ed_dev_buf d' = ed_dev_buf d" "e \<in> {ERESTARTSYS, ETIMEDOUT}"
proof -
  have "\<not> ed_locked d" "\<not> ed_in_flight d" using idle by (simp_all add: edu_idle_def)
  then show thesis
  proof (cases rule: edu_dma_transfers_cases [where hw = hw and xe = xe and addr = addr and dir = dir and n = n and ram = ram])
    case (refused e)
    with idle n fails show thesis by fastforce
  next
    case (nodir d')
    with dir show thesis by simp
  next
    case (ran r ram' d1 dst src)
    note fr = dma_run_frame [OF ran(2)]
    show thesis
    proof (cases r)
      case (Inl e)
      then show thesis using ran fr fails idle by (auto simp: edu_idle_def)
    next
      case (Inr u)
      from dir consider "dir = 0" | "dir = 2" by auto
      then show thesis
      proof cases
        case 1
        with Inr ran fr hw_loopback_to_dev [OF hw idle n addr] addr_small [OF addr] idle n show thesis
          by (intro ok [of "d1\<lparr>ed_in_flight := False, ed_locked := False\<rparr>"]) (auto simp: edu_idle_def)
      next
        case 2
        with Inr ran fr hw_loopback_to_ram [OF hw idle n addr] addr_small [OF addr] idle n show thesis
          by (intro ok [of "d1\<lparr>ed_in_flight := False, ed_locked := False\<rparr>"]) (auto simp: edu_idle_def)
      qed
    qed
  qed
qed

lemma edu_write_copy_idle: "edu_idle d \<Longrightarrow> edu_idle (snd (edu_write_copy ubuf count d)) \<and> ed_pm (snd (edu_write_copy ubuf count d)) = ed_pm d"
  by (simp add: edu_write_copy_def edu_idle_def Let_def DMA_BUF_SIZE_def)

lemma edu_write_xfer_cases:
  assumes hw: "hw_loopback hw" and idle: "edu_idle d"
  obtains (ok) d' where "edu_write_xfer hw xe pm count d = Inr (Inr (min count DMA_BUF_SIZE), d')" "edu_idle d'" "ed_pm d' = ed_pm d"
      "ed_dev_buf d' = overwrite (ed_dev_buf d) 0 (take (min count DMA_BUF_SIZE) (ed_dma_buf d))" "ed_interrupts_enabled d' = ed_interrupts_enabled d"
      "ed_dma_buf d' = ed_dma_buf d"
    | (fails) e d' where "edu_write_xfer hw xe pm count d = Inr (Inl e, d')" "edu_idle d'" "ed_pm d' = ed_pm d"
proof (cases pm)
  case (Inl e)
  with idle fails show thesis by (auto simp: edu_write_xfer_def pm_get_def)
next
  case (Inr u)
  define n where "n = min count DMA_BUF_SIZE"
  define d1 where "d1 = d\<lparr>ed_pm := ed_pm d + 1\<rparr>"
  have idle1: "edu_idle d1" using idle by (simp add: edu_idle_def d1_def)
  have n: "n \<le> DMA_BUF_SIZE" "n \<le> length (ed_dma_buf d1)" "ed_dma_handle d1 < 2 ^ 28"
    using idle1 by (simp_all add: n_def edu_idle_def)
  have dir: "(0::int) \<in> {0, 2}" by simp
  show thesis
  proof (cases rule: transfer_effect [OF hw idle1 n dir, of xe])
    case (1 d')
    then show thesis using Inr idle1
      by (intro ok [of "pm_put (d'\<lparr>ed_dma_buf := ed_dma_buf d1\<rparr>)"])
        (auto simp: edu_write_xfer_def pm_get_def n_def [symmetric] d1_def [symmetric] EDU_DMA_DIR_RAM_TO_DEV_def
          pm_put_def edu_idle_def, auto simp: d1_def n_def)
  next
    case (2 e d')
    then show thesis using Inr idle1
      by (intro fails [of e "pm_put (d'\<lparr>ed_dma_buf := ed_dma_buf d1\<rparr>)"])
        (auto simp: edu_write_xfer_def pm_get_def n_def [symmetric] d1_def [symmetric] EDU_DMA_DIR_RAM_TO_DEV_def
          pm_put_def edu_idle_def, auto simp: d1_def)
  qed
qed

lemma edu_read_cases:
  assumes hw: "hw_loopback hw" and idle: "edu_idle d"
  obtains (ok) d' where "edu_read hw xe pm ulen count d = Inr (Inr (take (min count DMA_BUF_SIZE) (ed_dev_buf d)), d')"
      "edu_idle d'" "ed_pm d' = ed_pm d" "ed_dev_buf d' = ed_dev_buf d" "ed_interrupts_enabled d' = ed_interrupts_enabled d"
      "ed_dma_buf d' = overwrite (ed_dma_buf d) 0 (take (min count DMA_BUF_SIZE) (ed_dev_buf d))"
    | (fails) e d' where "edu_read hw xe pm ulen count d = Inr (Inl e, d')" "edu_idle d'" "ed_pm d' = ed_pm d"
proof (cases pm)
  case (Inl e)
  with idle fails show thesis by (auto simp: edu_read_def pm_get_def Let_def)
next
  case (Inr u)
  define n where "n = min count DMA_BUF_SIZE"
  define d1 where "d1 = d\<lparr>ed_pm := ed_pm d + 1\<rparr>"
  have idle1: "edu_idle d1" using idle by (simp add: edu_idle_def d1_def)
  have n: "n \<le> DMA_BUF_SIZE" "n \<le> length (ed_dma_buf d1)" "ed_dma_handle d1 < 2 ^ 28"
    using idle1 by (simp_all add: n_def edu_idle_def)
  have dir: "(2::int) \<in> {0, 2}" by simp
  show thesis
  proof (cases rule: transfer_effect [OF hw idle1 n dir, of xe])
    case (1 d')
    define d2 where "d2 = pm_put (d'\<lparr>ed_dma_buf := overwrite (ed_dma_buf d1) 0 (take n (ed_dev_buf d1))\<rparr>)"
    have len: "length (ed_dev_buf d1) = DMA_BUF_SIZE" "length (ed_dma_buf d1) = DMA_BUF_SIZE" using idle1 by (simp_all add: edu_idle_def)
    then have d2: "edu_idle d2" "ed_pm d2 = ed_pm d" "ed_dev_buf d2 = ed_dev_buf d" "take n (ed_dma_buf d2) = take n (ed_dev_buf d)"
      "ed_interrupts_enabled d2 = ed_interrupts_enabled d" "ed_dma_buf d2 = overwrite (ed_dma_buf d) 0 (take n (ed_dev_buf d))"
      using 1 n by (auto simp: d2_def pm_put_def edu_idle_def d1_def overwrite_def)
    have "edu_read hw xe pm ulen count d =
        Inr (if ulen < n then Inl EFAULT else Inr (take n (ed_dma_buf d2)), d2)"
      using 1(1) Inr by (simp add: edu_read_def pm_get_def n_def [symmetric] d1_def [symmetric] EDU_DMA_DIR_DEV_TO_RAM_def d2_def Let_def)
    with d2 show thesis using ok [of d2] fails [of EFAULT d2] by (cases "ulen < n") (auto simp: n_def)
  next
    case (2 e d')
    then show thesis using Inr idle1
      by (intro fails [of e "pm_put (d'\<lparr>ed_dma_buf := ed_dma_buf d1\<rparr>)"])
        (auto simp: edu_read_def pm_get_def n_def [symmetric] d1_def [symmetric] EDU_DMA_DIR_DEV_TO_RAM_def
          pm_put_def edu_idle_def Let_def, auto simp: d1_def)
  qed
qed

text \<open>A device of the documented behaviour, and an idle driver of it.\<close>

definition example_hw :: edu_hw where
  "example_hw dst src n cmd ram dev =
     (if cmd AND EDU_DMA_CMD_DIR = 0 then (ram, overwrite dev 0 (take n ram)) else (overwrite ram 0 (take n dev), dev))"

definition example_edu :: edu_dev where
  "example_edu = \<lparr>ed_locked = False, ed_in_flight = False, ed_done = 0, ed_interrupts_enabled = True, ed_dma_handle = 4096,
     ed_dma_buf = replicate 4096 0, ed_dev_buf = replicate 4096 0, ed_mmio = [], ed_pm = 0, ed_irq_depth = 0\<rparr>"

lemma example_edu_ok: "hw_loopback example_hw" "edu_idle example_edu"
  by (simp_all add: hw_loopback_def example_hw_def edu_idle_def example_edu_def DMA_BUF_SIZE_def)

subsection \<open>Read and write together\<close>

text \<open>What ends the wait of a transfer in time.\<close>

definition completes :: "xfer_env \<Rightarrow> edu_dev \<Rightarrow> bool" where
  "completes xe d \<longleftrightarrow> \<not> xe_sig xe \<and>
     (if ed_interrupts_enabled d then \<exists>(pm, st)\<in>set (xe_irqs xe). pm = Inr () \<and> st \<noteq> 0
      else \<exists>v\<in>set (xe_polls xe). v AND EDU_DMA_CMD_START = 0)"

lemma completes_cong:
  assumes "completes xe d" and "ed_interrupts_enabled d' = ed_interrupts_enabled d"
  shows "completes xe d'"
  using assms(1) unfolding completes_def assms(2) .

lemma edu_irq_done:
  "edu_irq_threaded pm st d = (r, d') \<Longrightarrow> ed_in_flight d \<Longrightarrow>
    ed_done d' = ed_done d + of_bool (pm = Inr () \<and> st \<noteq> 0)"
  by (cases pm) (auto simp: edu_irq_threaded_def pm_get_def pm_put_def iowrite32_def Let_def split: if_splits)

lemma edu_irqs_done:
  "ed_in_flight d \<Longrightarrow> ed_done d \<le> ed_done (edu_irqs is d) \<and>
    ((\<exists>(pm, st)\<in>set is. pm = Inr () \<and> st \<noteq> 0) \<longrightarrow> 0 < ed_done (edu_irqs is d))"
proof (induction "is" d rule: edu_irqs.induct)
  case (2 pm st "is" d)
  obtain r d' where i: "edu_irq_threaded pm st d = (r, d')" by (cases "edu_irq_threaded pm st d")
  have f: "ed_in_flight d'" using edu_irq_threaded_frame [OF i] "2.prems" by simp
  with "2.IH" i edu_irq_done [OF i "2.prems"] show ?case by auto
qed simp

lemma dma_wait_completes:
  assumes "completes xe d" and "ed_in_flight d"
  shows "\<exists>d'. dma_wait xe d = (Inr (), d')"
proof (cases "ed_interrupts_enabled d")
  case True
  with assms(1) have "\<exists>(pm, st)\<in>set (xe_irqs xe). pm = Inr () \<and> st \<noteq> 0" by (simp add: completes_def)
  with edu_irqs_done [OF assms(2), of "xe_irqs xe"] have "0 < ed_done (edu_irqs (xe_irqs xe) d)" by blast
  with True show ?thesis by (simp add: dma_wait_def Let_def)
next
  case False
  have "\<exists>v\<in>set vs. v AND EDU_DMA_CMD_START = 0 \<Longrightarrow> poll_cmd vs = Inr ()" for vs by (induction vs) auto
  with False assms show ?thesis by (auto simp: dma_wait_def completes_def)
qed

lemma transfer_completes:
  assumes idle: "edu_idle d" and n: "n \<le> DMA_BUF_SIZE" and dir: "dir \<in> {0, 2}" and c: "completes xe d"
  shows "edu_dma_transfers hw xe addr dir n ram d \<noteq> Inr (Inl e, ram', d')"
proof -
  have run: "dma_run hw xe dst src dir n ram (d\<lparr>ed_locked := True, ed_in_flight := True, ed_done := 0\<rparr>) \<noteq> (Inl e, ram', d1)"
    for dst src d1
  proof -
    define d2 where "d2 = iowrite32 (EDU_DMA_CMD_BUILD dir (ed_interrupts_enabled d)) EDU_BAR0_DMA_CMD_REG
      (iowrite32 n EDU_BAR0_DMA_COUNT_REG (iowrite32 src EDU_BAR0_DMA_SRC_REG (iowrite32 dst EDU_BAR0_DMA_DST_REG
        (d\<lparr>ed_locked := True, ed_in_flight := True, ed_done := 0\<rparr>))))"
    have "ed_interrupts_enabled d2 = ed_interrupts_enabled d" "ed_in_flight d2" by (simp_all add: d2_def iowrite32_def)
    with completes_cong [OF c] have "completes xe d2" "ed_in_flight d2" by blast+
    from dma_wait_completes [OF this] obtain d3 where "dma_wait xe d2 = (Inr (), d3)" by blast
    then show ?thesis by (auto simp: dma_run_def Let_def d2_def split: prod.splits)
  qed
  have "\<not> ed_locked d" "\<not> ed_in_flight d" using idle by (simp_all add: edu_idle_def)
  then show ?thesis
  proof (cases rule: edu_dma_transfers_cases [where hw = hw and xe = xe and addr = addr and dir = dir and n = n and ram = ram])
    case (refused e)
    with n c show ?thesis by (auto simp: completes_def)
  next
    case (nodir d1)
    with dir show ?thesis by simp
  next
    case (ran r ram1 d1 dst src)
    with run [of dst src d1] show ?thesis by auto
  qed
qed

lemma edu_write_xfer_completes:
  assumes hw: "hw_loopback hw" and idle: "edu_idle d" and c: "completes xe d"
  shows "\<exists>d'. edu_write_xfer hw xe (Inr ()) count d = Inr (Inr (min count DMA_BUF_SIZE), d') \<and> edu_idle d' \<and> ed_pm d' = ed_pm d \<and>
    ed_dev_buf d' = overwrite (ed_dev_buf d) 0 (take (min count DMA_BUF_SIZE) (ed_dma_buf d)) \<and>
    ed_interrupts_enabled d' = ed_interrupts_enabled d \<and> ed_dma_buf d' = ed_dma_buf d"
proof (cases rule: edu_write_xfer_cases [OF hw idle, of xe "Inr ()" count])
  case (1 d')
  then show ?thesis by blast
next
  case (2 e d')
  define d1 where "d1 = d\<lparr>ed_pm := ed_pm d + 1\<rparr>"
  have "edu_idle d1" "completes xe d1" using idle completes_cong [OF c, of d1] by (simp_all add: d1_def edu_idle_def)
  from transfer_completes [OF this(1) _ _ this(2), of "min count DMA_BUF_SIZE" 0 hw] 2(1) show ?thesis
    by (auto simp: edu_write_xfer_def pm_get_def d1_def EDU_DMA_DIR_RAM_TO_DEV_def Let_def split: sum.splits prod.splits)
qed

lemma edu_read_completes:
  assumes hw: "hw_loopback hw" and idle: "edu_idle d" and c: "completes xe d" and ulen: "min count DMA_BUF_SIZE \<le> ulen"
  shows "\<exists>d'. edu_read hw xe (Inr ()) ulen count d = Inr (Inr (take (min count DMA_BUF_SIZE) (ed_dev_buf d)), d') \<and>
    edu_idle d' \<and> ed_pm d' = ed_pm d \<and> ed_dev_buf d' = ed_dev_buf d \<and> ed_interrupts_enabled d' = ed_interrupts_enabled d \<and>
    ed_dma_buf d' = overwrite (ed_dma_buf d) 0 (take (min count DMA_BUF_SIZE) (ed_dev_buf d))"
proof (cases rule: edu_read_cases [OF hw idle, of xe "Inr ()" ulen count])
  case (1 d')
  then show ?thesis by blast
next
  case (2 e d')
  define d1 where "d1 = d\<lparr>ed_pm := ed_pm d + 1\<rparr>"
  have "edu_idle d1" "completes xe d1" using idle completes_cong [OF c, of d1] by (simp_all add: d1_def edu_idle_def)
  from transfer_completes [OF this(1) _ _ this(2), of "min count DMA_BUF_SIZE" 2 hw] 2(1) ulen show ?thesis
    by (auto simp: edu_read_def pm_get_def d1_def EDU_DMA_DIR_DEV_TO_RAM_def Let_def split: sum.splits prod.splits if_splits)
qed

lemma edu_write_copy_mapped:
  assumes "edu_idle d" and "min count DMA_BUF_SIZE \<le> length ubuf"
  shows "\<exists>d'. edu_write_copy ubuf count d = (Inr (), d') \<and> edu_idle d' \<and> ed_pm d' = ed_pm d \<and> ed_dev_buf d' = ed_dev_buf d \<and>
    ed_interrupts_enabled d' = ed_interrupts_enabled d \<and>
    take (min count DMA_BUF_SIZE) (ed_dma_buf d') = take (min count DMA_BUF_SIZE) ubuf \<and>
    ed_dma_buf d' = overwrite (ed_dma_buf d) 0 (take (min count DMA_BUF_SIZE) ubuf)"
  using assms by (auto simp: edu_write_copy_def edu_idle_def Let_def user_bytes_mapped overwrite_def min_def split: if_splits)

text \<open>C12: a device of the documented behaviour gives back what was written to it: on an idle device
  whose transfers complete, a write of a mapped buffer returns the number of bytes clipped to
  4096, and a read of that many returns the same bytes, with the device idle again and its
  runtime usage count unchanged.\<close>

theorem edu_write_read:
  assumes hw: "hw_loopback hw" and idle: "edu_idle d" and c: "completes xe d" "completes xe' d"
    and n: "n = min count 4096" and mapped: "n \<le> length ubuf" "n \<le> ulen"
  shows "\<exists>d1 d2. edu_write hw xe (Inr ()) ubuf count d = Inr (Inr n, d1) \<and>
    edu_read hw xe' (Inr ()) ulen n d1 = Inr (Inr (take n ubuf), d2) \<and> edu_idle d2 \<and> ed_pm d2 = ed_pm d"
proof -
  have n4: "n = min count DMA_BUF_SIZE" "min n DMA_BUF_SIZE = n" using n by (simp_all add: DMA_BUF_SIZE_def)
  from edu_write_copy_mapped [OF idle, of count ubuf] mapped n4 obtain d0 where d0: "edu_write_copy ubuf count d = (Inr (), d0)"
    "edu_idle d0" "ed_pm d0 = ed_pm d" "ed_interrupts_enabled d0 = ed_interrupts_enabled d" "take n (ed_dma_buf d0) = take n ubuf"
    by auto
  have "completes xe d0" by (rule completes_cong [OF c(1) d0(4)])
  from edu_write_xfer_completes [OF hw d0(2) this, of count] n4 obtain d1
    where d1: "edu_write_xfer hw xe (Inr ()) count d0 = Inr (Inr n, d1)" "edu_idle d1" "ed_pm d1 = ed_pm d0"
      "ed_dev_buf d1 = overwrite (ed_dev_buf d0) 0 (take n (ed_dma_buf d0))" "ed_interrupts_enabled d1 = ed_interrupts_enabled d0"
    by auto
  have "completes xe' d1" using d0(4) d1(5) by (intro completes_cong [OF c(2)]) simp
  from edu_read_completes [OF hw d1(2) this, of n ulen] mapped n4 obtain d2
    where d2: "edu_read hw xe' (Inr ()) ulen n d1 = Inr (Inr (take n (ed_dev_buf d1)), d2)" "edu_idle d2" "ed_pm d2 = ed_pm d1"
    by auto
  have "take n (ed_dev_buf d1) = take n ubuf" using d1(4) d0(5) mapped by (simp add: overwrite_def)
  with d0 d1 d2 show ?thesis by (simp add: edu_write_def)
qed

definition example_xfer :: xfer_env where
  "example_xfer = \<lparr>xe_sig = False, xe_polls = [], xe_irqs = [(Inr (), 0x100)]\<rparr>"

theorem edu_write_read_witness:
  "\<exists>d1 d2. edu_write example_hw example_xfer (Inr ()) [1, 2, 3] 3 example_edu = Inr (Inr 3, d1) \<and>
     edu_read example_hw example_xfer (Inr ()) 3 3 d1 = Inr (Inr [1, 2, 3], d2) \<and> ed_pm d2 = 0"
proof -
  have c: "completes example_xfer example_edu" by (simp add: completes_def example_xfer_def example_edu_def)
  from edu_write_read [OF example_edu_ok c c refl, of 3 "[1, 2, 3]" 3] show ?thesis by (auto simp: example_edu_def)
qed

text \<open>A write copies the user's bytes to the DMA buffer before it takes the lock: when another
  write copies its own in between, the first one still returns success, but the device has
  received the bytes of the other.\<close>

lemma edu_write_torn:
  assumes hw: "hw_loopback hw" and idle: "edu_idle d" and c: "completes xe d"
    and a: "n \<le> length a" and b: "n \<le> m" "m \<le> length b" "m \<le> 4096"
  shows "\<exists>d1 d2 d3. edu_write_copy a n d = (Inr (), d1) \<and> edu_write_copy b m d1 = (Inr (), d2) \<and>
    edu_write_xfer hw xe (Inr ()) n d2 = Inr (Inr n, d3) \<and> take n (ed_dev_buf d3) = take n b"
proof -
  have n: "min n DMA_BUF_SIZE = n" "min m DMA_BUF_SIZE = m" using b by (simp_all add: DMA_BUF_SIZE_def)
  from edu_write_copy_mapped [OF idle, of n a] a n obtain d1 where d1: "edu_write_copy a n d = (Inr (), d1)" "edu_idle d1"
    "ed_interrupts_enabled d1 = ed_interrupts_enabled d" by auto
  from edu_write_copy_mapped [OF d1(2), of m b] b n obtain d2 where d2: "edu_write_copy b m d1 = (Inr (), d2)" "edu_idle d2"
    "ed_interrupts_enabled d2 = ed_interrupts_enabled d1" "take m (ed_dma_buf d2) = take m b" by auto
  have t: "take n (ed_dma_buf d2) = take n b" using arg_cong [OF d2(4), of "take n"] b(1) by (simp add: min_def)
  have "completes xe d2" using d1(3) d2(3) by (intro completes_cong [OF c]) simp
  from edu_write_xfer_completes [OF hw d2(2) this, of n] n obtain d3
    where d3: "edu_write_xfer hw xe (Inr ()) n d2 = Inr (Inr n, d3)"
      "ed_dev_buf d3 = overwrite (ed_dev_buf d2) 0 (take n (ed_dma_buf d2))" by auto
  have "take n (ed_dev_buf d3) = take n b" using d3(2) t b by (simp add: overwrite_def)
  with d1 d2 d3 show ?thesis by blast
qed

lemma edu_write_torn_witness:
  "\<exists>d1 d2 d3. edu_write_copy [1, 1] 2 example_edu = (Inr (), d1) \<and> edu_write_copy [2, 2] 2 d1 = (Inr (), d2) \<and>
     edu_write_xfer example_hw example_xfer (Inr ()) 2 d2 = Inr (Inr 2, d3) \<and> take 2 (ed_dev_buf d3) = [2, 2]"
proof -
  have c: "completes example_xfer example_edu" by (simp add: completes_def example_xfer_def example_edu_def)
  from edu_write_torn [OF example_edu_ok c, of 2 "[1, 1]" 2 "[2, 2]"] show ?thesis by auto
qed

end
