(* ===== verification/EduIoctl.thy ===== *)
theory EduIoctl
  imports EduDma
begin

text \<open>
  The ioctl of the EDU driver (\<open>ch15_mmap_dma/main.c\<close>): one transfer of the coherent buffer, or
  the scatter-gather transfer of a user buffer, which pins its pages, describes them by a
  scatterlist and issues one DMA for each mapped segment.
\<close>

subsection \<open>The pages of a user buffer\<close>

text \<open>\<open>first_page\<close>, \<open>offset\<close> and \<open>nr_pages\<close> of \<open>do_sg_dma\<close>, in 64 bits.\<close>

definition sg_range :: "nat \<Rightarrow> nat \<Rightarrow> nat \<times> nat \<times> nat" where
  "sg_range start len =
     (let last = nat (u64 (int start + int len - 1));
          first_page = start - start mod PAGE_SIZE; last_page = last - last mod PAGE_SIZE
      in (first_page, start mod PAGE_SIZE,
          nat (u64 (u64 (int last_page - int first_page) div int PAGE_SIZE + 1))))"

text \<open>
  The loop that fills the scatterlist: \<open>n\<close> pages are left from page \<open>i\<close> on; an entry is the page,
  the offset in it and the length.  The second component is \<open>remaining\<close>.
\<close>

fun sg_fill :: "nat \<Rightarrow> nat \<Rightarrow> nat \<Rightarrow> nat \<Rightarrow> (nat \<times> nat \<times> nat) list \<times> nat" where
  "sg_fill 0 i offset remaining = ([], remaining)"
| "sg_fill (Suc n) i offset remaining =
     (if remaining = 0 then ([], 0)
      else let len = min (PAGE_SIZE - offset) remaining in
        case sg_fill n (Suc i) 0 (remaining - len) of (sg, r) \<Rightarrow> ((i, offset, len) # sg, r))"

text \<open>The addresses an entry covers, and those of a list.\<close>

definition sg_addrs :: "nat \<Rightarrow> (nat \<times> nat \<times> nat) list \<Rightarrow> nat list" where
  "sg_addrs first_page sg = concat (map (\<lambda>(i, off, len). map (\<lambda>k. first_page + i * PAGE_SIZE + off + k) [0..<len]) sg)"

subsection \<open>\<open>do_sg_dma\<close>\<close>

text \<open>
  The answers of the kernel: the two allocations, the two ways of pinning (an error or the
  number of pages pinned) and the segments that \<open>dma_map_sg\<close> makes of the list (none when it
  fails), each a bus address and a length.
\<close>

record sg_env =
  sge_pages_ok :: bool
  sge_fast :: "errno + nat"
  sge_slow :: "errno + nat"
  sge_sg_ok :: bool
  sge_map :: "(nat \<times> nat \<times> nat) list \<Rightarrow> (nat \<times> nat) list"

text \<open>
  The loop over the segments; \<open>ubuf\<close> is the part of the user's buffer from the segment on, and
  \<open>xes\<close> the environments of the successive transfers.
\<close>

fun sg_transfers :: "edu_hw \<Rightarrow> xfer_env list \<Rightarrow> int \<Rightarrow> (nat \<times> nat) list \<Rightarrow> byte list \<Rightarrow> edu_dev \<Rightarrow>
    (unit res \<times> byte list \<times> edu_dev) run" where
  "sg_transfers hw xes dir [] ubuf d = Inr (Inr (), ubuf, d)"
| "sg_transfers hw xes dir ((dma_addr, len) # segs) ubuf d =
     (case edu_dma_transfers hw (hd xes) dma_addr dir len (take len ubuf) d of
        Inl s \<Rightarrow> Inl s
      | Inr (Inl e, ram, d1) \<Rightarrow> Inr (Inl e, ram @ drop len ubuf, d1)
      | Inr (Inr _, ram, d1) \<Rightarrow> (case sg_transfers hw (tl xes) dir segs (drop len ubuf) d1 of
            Inl s \<Rightarrow> Inl s
          | Inr (r, rest, d2) \<Rightarrow> Inr (r, ram @ rest, d2)))"

text \<open>
  \<open>pins\<close> counts the page references held.  The result: the return value, the references still
  held, the user's buffer, the device.
\<close>

definition have_pages :: "edu_hw \<Rightarrow> xfer_env list \<Rightarrow> sg_env \<Rightarrow> nat \<Rightarrow> nat \<Rightarrow> nat \<Rightarrow> int \<Rightarrow> byte list \<Rightarrow> int \<Rightarrow>
    edu_dev \<Rightarrow> (unit res \<times> int \<times> byte list \<times> edu_dev) run" where
  "have_pages hw xes e pinned offset len dir ubuf pins d =
     (if \<not> sge_sg_ok e then Inr (Inl ENOMEM, pins - int pinned, ubuf, d)
      else case sg_fill pinned 0 offset len of (sg, remaining) \<Rightarrow>
        (if remaining \<noteq> 0 then Inr (Inl EFAULT, pins - int pinned, ubuf, d)
         else if sge_map e sg = [] then Inr (Inl ENOMEM, pins - int pinned, ubuf, d)
         else case sg_transfers hw xes dir (sge_map e sg) ubuf d of
            Inl s \<Rightarrow> Inl s
          | Inr (r, ubuf', d') \<Rightarrow> Inr (r, pins - int pinned, ubuf', d')))"

definition do_sg_dma :: "edu_hw \<Rightarrow> xfer_env list \<Rightarrow> sg_env \<Rightarrow> nat \<Rightarrow> nat \<Rightarrow> int \<Rightarrow> byte list \<Rightarrow> edu_dev \<Rightarrow>
    (unit res \<times> int \<times> byte list \<times> edu_dev) run" where
  "do_sg_dma hw xes e start len dir ubuf d =
     (case sg_range start len of (first_page, offset, nr_pages) \<Rightarrow>
       (if \<not> sge_pages_ok e then Inr (Inl ENOMEM, 0, ubuf, d)
        else if sge_fast e = Inr nr_pages then have_pages hw xes e nr_pages offset len dir ubuf (int nr_pages) d
        else let pins = (case sge_fast e of Inl _ \<Rightarrow> 0 | Inr k \<Rightarrow> int k - int k) in
          case sge_slow e of
            Inl err \<Rightarrow> Inr (Inl err, pins, ubuf, d)
          | Inr k \<Rightarrow> (if k < nr_pages then Inr (Inl EFAULT, pins + int k - int k, ubuf, d)
              else have_pages hw xes e k offset len dir ubuf (pins + int k) d)))"

subsection \<open>The ioctl\<close>

definition EDU_IOC_DMA_TX :: nat where "EDU_IOC_DMA_TX = IOC 1 69 1 4"
definition EDU_IOC_DMA_RX :: nat where "EDU_IOC_DMA_RX = IOC 1 69 2 4"
definition EDU_IOC_STREAM_DMA :: nat where "EDU_IOC_STREAM_DMA = IOC 1 69 3 16"

text \<open>
  What the user has at the address: the length of a transfer (an \<open>int\<close>), or a descriptor with
  its address, length and direction and the buffer it points to; \<open>None\<close> when it cannot be read.
\<close>

record edu_arg =
  ea_len :: "int option"
  ea_desc :: "(nat \<times> nat \<times> int) option"
  ea_ubuf :: "byte list"

definition edu_ioctl :: "edu_hw \<Rightarrow> xfer_env list \<Rightarrow> sg_env \<Rightarrow> unit res \<Rightarrow> nat \<Rightarrow> edu_arg \<Rightarrow> edu_dev \<Rightarrow>
    (unit res \<times> int \<times> byte list \<times> edu_dev) run" where
  "edu_ioctl hw xes e pm cmd arg d =
     (let one = (\<lambda>dir d1. case ea_len arg of
            None \<Rightarrow> Inr (Inl EFAULT, 0, ea_ubuf arg, d1)
          | Some n \<Rightarrow> (case edu_dma_transfers hw (hd xes) (ed_dma_handle d1) dir (nat (u64 (s32 n))) (ed_dma_buf d1) d1 of
              Inl s \<Rightarrow> Inl s
            | Inr (r, ram, d2) \<Rightarrow> Inr (r, 0, ea_ubuf arg, d2\<lparr>ed_dma_buf := ram\<rparr>)));
          body = (\<lambda>d1. if cmd = EDU_IOC_STREAM_DMA then
              (case ea_desc arg of
                 None \<Rightarrow> Inr (Inl EFAULT, 0, ea_ubuf arg, d1)
               | Some (addr, len, dir) \<Rightarrow> do_sg_dma hw xes e addr len dir (ea_ubuf arg) d1)
            else if cmd = EDU_IOC_DMA_TX then one EDU_DMA_DIR_RAM_TO_DEV d1
            else if cmd = EDU_IOC_DMA_RX then one EDU_DMA_DIR_DEV_TO_RAM d1
            else Inr (Inl ENOTTY, 0, ea_ubuf arg, d1))
      in case pm_get pm d of
          (Inl err, d1) \<Rightarrow> Inr (Inl err, 0, ea_ubuf arg, d1)
        | (Inr _, d1) \<Rightarrow> (case body d1 of Inl s \<Rightarrow> Inl s | Inr (r, pins, ubuf, d2) \<Rightarrow> Inr (r, pins, ubuf, pm_put d2)))"

subsection \<open>The scatterlist\<close>

lemma sg_fill_spec:
  "offset < PAGE_SIZE \<Longrightarrow> offset + remaining \<le> n * PAGE_SIZE \<Longrightarrow> sg_fill n i offset remaining = (sg, r) \<Longrightarrow>
    r = 0 \<and> sg_addrs base sg = map (\<lambda>k. base + i * PAGE_SIZE + offset + k) [0..<remaining] \<and>
    (\<forall>(j, off, len)\<in>set sg. i \<le> j \<and> j < i + n \<and> 0 < len \<and> off + len \<le> PAGE_SIZE)"
proof (induction n i offset remaining arbitrary: sg r rule: sg_fill.induct)
  case (1 i offset remaining)
  then show ?case by (auto simp: sg_addrs_def)
next
  case (2 n i offset remaining)
  show ?case
  proof (cases "remaining = 0")
    case True
    with "2.prems" show ?thesis by (auto simp: sg_addrs_def)
  next
    case False
    define len where "len = min (PAGE_SIZE - offset) remaining"
    obtain sg1 r1 where rec: "sg_fill n (Suc i) 0 (remaining - len) = (sg1, r1)"
      by (cases "sg_fill n (Suc i) 0 (remaining - len)")
    have page: "0 < PAGE_SIZE" by (simp add: PAGE_SIZE_def)
    have len: "0 < len" "offset + len \<le> PAGE_SIZE" "len \<le> remaining" "len < remaining \<Longrightarrow> offset + len = PAGE_SIZE"
      using False "2.prems"(1) by (auto simp: len_def)
    have "0 + (remaining - len) \<le> n * PAGE_SIZE" using "2.prems"(2) len(3,4) by (cases "len < remaining") auto
    from "2.IH" [OF False len_def page this] rec
    have ih: "r1 = 0" "sg_addrs base sg1 = map (\<lambda>k. base + Suc i * PAGE_SIZE + k) [0..<remaining - len]"
      "\<forall>(j, off, l)\<in>set sg1. Suc i \<le> j \<and> j < Suc i + n \<and> 0 < l \<and> off + l \<le> PAGE_SIZE" by auto
    have sg: "sg = (i, offset, len) # sg1" "r = r1"
      using "2.prems"(3) False rec by (simp_all add: Let_def len_def [symmetric])
    have split: "[0..<remaining] = [0..<len] @ map (\<lambda>k. len + k) [0..<remaining - len]"
      using len(3) map_add_upt [of len "remaining - len"] upt_add_eq_append [of 0 len "remaining - len"]
      by (simp add: add.commute)
    have "map (\<lambda>k. base + Suc i * PAGE_SIZE + k) [0..<remaining - len] =
        map (\<lambda>k. base + i * PAGE_SIZE + offset + (len + k)) [0..<remaining - len]"
      using len(3,4) by (cases "len < remaining") auto
    then have "sg_addrs base sg = map (\<lambda>k. base + i * PAGE_SIZE + offset + k) [0..<remaining]"
      unfolding split sg using ih(2) by (simp add: sg_addrs_def comp_def)
    moreover have "\<forall>(j, off, l)\<in>set sg. i \<le> j \<and> j < i + Suc n \<and> 0 < l \<and> off + l \<le> PAGE_SIZE"
      using ih(3) len unfolding sg by auto
    ultimately show ?thesis using ih(1) sg(2) by simp
  qed
qed

lemma sg_range_covers:
  assumes len: "0 < len" and wrap: "start + len \<le> 2 ^ 64"
    and r: "sg_range start len = (first_page, offset, nr_pages)"
  shows "first_page + offset = start" and "offset < PAGE_SIZE" and "offset + len \<le> nr_pages * PAGE_SIZE"
    and "nr_pages * PAGE_SIZE < offset + len + PAGE_SIZE"
proof -
  define last where "last = start + len - 1"
  define a b where "a = start div 4096" and "b = last div 4096"
  have page: "PAGE_SIZE = 4096" by (rule PAGE_SIZE_eq)
  have "last < 2 ^ 64" "int start + int len - 1 = int last" using len wrap by (auto simp: last_def of_nat_diff)
  then have last: "nat (u64 (int start + int len - 1)) = last" by (simp add: u64_id)
  have ab: "a \<le> b" "b < 2 ^ 52" using len \<open>last < 2 ^ 64\<close> by (auto simp: a_def b_def last_def div_le_mono)
  have pages: "x - x mod 4096 = x div 4096 * 4096" for x :: nat by (simp add: minus_mod_eq_div_mult)
  have "int (b * 4096) - int (a * 4096) = int ((b - a) * 4096)" using ab(1) by (simp add: of_nat_diff algebra_simps)
  moreover have "int ((b - a) * 4096) < 2 ^ 64" using ab by simp
  ultimately have "u64 (int (b * 4096) - int (a * 4096)) = int ((b - a) * 4096)" by (simp only: u64_id of_nat_0_le_iff)
  then have "u64 (int (b * 4096) - int (a * 4096)) div int PAGE_SIZE = int (b - a)" by (simp add: page)
  moreover have "u64 (int (b - a) + 1) = int (b - a + 1)" using ab by (subst u64_id) auto
  ultimately have nr: "nr_pages = b - a + 1" "first_page = a * 4096" "offset = start mod 4096"
    using r by (auto simp: sg_range_def Let_def last pages page a_def [symmetric] b_def [symmetric] nat_add_distrib)
  show "first_page + offset = start" using nr by (simp add: a_def)
  show "offset < PAGE_SIZE" using nr by (simp add: page)
  have st: "start = a * 4096 + offset" using nr by (simp add: a_def)
  have la: "last < b * 4096 + 4096" "b * 4096 \<le> last" by (simp_all add: b_def div_times_less_eq_dividend dividend_less_div_times)
  have sum: "start + len = last + 1" using len by (simp add: last_def)
  have nrp: "nr_pages * PAGE_SIZE + a * 4096 = b * 4096 + 4096" using ab(1) by (simp add: nr page algebra_simps)
  show "offset + len \<le> nr_pages * PAGE_SIZE" using st la sum nrp by linarith
  show "nr_pages * PAGE_SIZE < offset + len + PAGE_SIZE" using st la sum nrp by (simp add: page)
qed

text \<open>C14: the scatterlist of a user buffer that is not empty and does not wrap around: as many pages
  are pinned as the buffer touches, the loop leaves nothing over (its error branch is dead), every
  entry stays in its page, and the entries cover exactly the addresses of the buffer, in order.\<close>

theorem edu_sg_covers:
  assumes len: "0 < len" and wrap: "start + len \<le> 2 ^ 64" and r: "sg_range start len = (first_page, offset, nr_pages)"
  shows "nr_pages = (start + len - 1) div PAGE_SIZE - start div PAGE_SIZE + 1 \<and>
    (\<exists>sg. sg_fill nr_pages 0 offset len = (sg, 0) \<and> sg_addrs first_page sg = [start..<start + len] \<and>
      (\<forall>(i, off, n)\<in>set sg. i < nr_pages \<and> 0 < n \<and> off + n \<le> PAGE_SIZE))"
proof -
  note c = sg_range_covers [OF len wrap r]
  obtain sg rem where f: "sg_fill nr_pages 0 offset len = (sg, rem)" by (cases "sg_fill nr_pages 0 offset len")
  have "map (\<lambda>k. first_page + 0 * PAGE_SIZE + offset + k) [0..<len] = [start..<start + len]"
    using map_add_upt [of start len] c(1) by (simp add: add.commute [of start])
  with sg_fill_spec [OF c(2,3) f, of first_page] have "rem = 0" "sg_addrs first_page sg = [start..<start + len]"
    "\<forall>(i, off, n)\<in>set sg. i < nr_pages \<and> 0 < n \<and> off + n \<le> PAGE_SIZE" by auto
  moreover have "nr_pages = (start + len - 1) div PAGE_SIZE - start div PAGE_SIZE + 1"
  proof -
    define q where "q = start div PAGE_SIZE"
    have fp: "first_page = q * PAGE_SIZE" using r by (simp add: sg_range_def Let_def q_def minus_mod_eq_div_mult)
    have p: "0 < PAGE_SIZE" by (simp add: PAGE_SIZE_eq)
    have "start + len - 1 = first_page + (offset + len - 1)" using c(1) len by simp
    then have "(start + len - 1) div PAGE_SIZE = q + (offset + len - 1) div PAGE_SIZE" using p by (simp add: fp)
    moreover have "(offset + len - 1) div PAGE_SIZE = nr_pages - 1"
    proof (rule div_nat_eqI)
      show "PAGE_SIZE * (nr_pages - 1) \<le> offset + len - 1" using c(4) len by (cases nr_pages) (auto simp: algebra_simps)
      show "offset + len - 1 < PAGE_SIZE * Suc (nr_pages - 1)" using c(3) len by (cases nr_pages) (auto simp: algebra_simps)
    qed
    moreover have "0 < nr_pages" using c(3) len by (cases nr_pages) auto
    ultimately show ?thesis by (simp add: q_def)
  qed
  ultimately show ?thesis using f by auto
qed

theorem edu_sg_covers_witness:
  "\<exists>sg. sg_range 8000 5000 = (4096, 3904, 3) \<and> sg_fill 3 0 3904 5000 = (sg, 0) \<and> sg_addrs 4096 sg = [8000..<13000]"
proof -
  have r: "sg_range 8000 5000 = (4096, 3904, 3)" by (simp add: sg_range_def PAGE_SIZE_eq u64_def Let_def)
  have "\<exists>sg. sg_fill 3 0 3904 5000 = (sg, 0) \<and> sg_addrs 4096 sg = [8000..<8000 + 5000]"
    using edu_sg_covers [OF _ _ r] by (simp del: upt_rec_numeral) blast
  moreover have "(8000 :: nat) + 5000 = 13000" by simp
  ultimately show ?thesis using r by (metis (no_types))
qed

subsection \<open>Every ioctl returns\<close>

text \<open>What \<open>dma_map_sg\<close> documents: the segments have the length of the list, within the DMA mask.\<close>

definition sg_map_ok :: "((nat \<times> nat \<times> nat) list \<Rightarrow> (nat \<times> nat) list) \<Rightarrow> bool" where
  "sg_map_ok f \<longleftrightarrow> (\<forall>sg. f sg \<noteq> [] \<longrightarrow> sum_list (map snd (f sg)) = sum_list (map (\<lambda>(i, off, n). n) sg) \<and>
     (\<forall>(addr, n)\<in>set (f sg). addr < 2 ^ 28))"

definition same_edu :: "edu_dev \<Rightarrow> edu_dev \<Rightarrow> bool" where
  "same_edu d d' \<longleftrightarrow> edu_idle d' \<and> ed_pm d' = ed_pm d \<and> ed_dma_buf d' = ed_dma_buf d"

lemma transfer_returns:
  assumes hw: "hw_loopback hw" and idle: "edu_idle d" and n: "n \<le> length ram \<or> DMA_BUF_SIZE < n"
    and addr: "addr < 2 ^ 28" and dir: "dir \<in> {0, 2}"
  shows "\<exists>r ram' d'. edu_dma_transfers hw xe addr dir n ram d = Inr (r, ram', d') \<and> length ram' = length ram \<and>
    same_edu d d'"
proof (cases "DMA_BUF_SIZE < n")
  case True
  then show ?thesis using idle by (simp add: edu_dma_transfers_def same_edu_def)
next
  case False
  with n have n: "n \<le> DMA_BUF_SIZE" "n \<le> length ram" by auto
  have "length (ed_dev_buf d) = DMA_BUF_SIZE" using idle by (simp add: edu_idle_def)
  then have "length (overwrite ram 0 (take n (ed_dev_buf d))) = length ram" using n by simp
  then show ?thesis
    by (cases rule: transfer_effect [OF hw idle n addr dir, of xe]) (auto simp: same_edu_def)
qed

text \<open>A direction that is neither is refused with the device idle.\<close>

lemma transfer_nodir:
  assumes "edu_idle d" and "dir \<notin> {0, 2}"
  shows "\<exists>e d'. edu_dma_transfers hw xe addr dir n ram d = Inr (Inl e, ram, d') \<and> same_edu d d'"
  using assms by (auto simp: edu_dma_transfers_def EDU_DMA_DIR_RAM_TO_DEV_def EDU_DMA_DIR_DEV_TO_RAM_def
      edu_idle_def same_edu_def Let_def)

lemma sg_transfers_return:
  "hw_loopback hw \<Longrightarrow> edu_idle d \<Longrightarrow> \<forall>(addr, n)\<in>set segs. addr < 2 ^ 28 \<Longrightarrow> sum_list (map snd segs) \<le> length ubuf \<Longrightarrow>
    \<exists>r ubuf' d'. sg_transfers hw xes dir segs ubuf d = Inr (r, ubuf', d') \<and> length ubuf' = length ubuf \<and> same_edu d d'"
proof (induction hw xes dir segs ubuf d rule: sg_transfers.induct)
  case (1 hw xes dir ubuf d)
  then show ?case by (simp add: same_edu_def)
next
  case (2 hw xes dir addr len segs ubuf d)
  have len: "len \<le> length (take len ubuf)" and rest: "sum_list (map snd segs) \<le> length (drop len ubuf)"
    and addr: "addr < 2 ^ 28" and addrs: "\<forall>(addr, n)\<in>set segs. addr < 2 ^ 28"
    using "2.prems" by auto
  show ?case
  proof (cases "dir \<in> {0, 2}")
    case False
    from transfer_nodir [OF "2.prems"(2) False, of hw "hd xes" addr len "take len ubuf"]
    show ?thesis by auto
  next
    case True
    from transfer_returns [OF "2.prems"(1,2) disjI1 [OF len] addr True, of "hd xes"]
    obtain r ram d1 where t: "edu_dma_transfers hw (hd xes) addr dir len (take len ubuf) d = Inr (r, ram, d1)"
      "length ram = length (take len ubuf)" "same_edu d d1" by blast
    show ?thesis
    proof (cases r)
      case (Inl e)
      with t show ?thesis by (auto simp: min_def)
    next
      case (Inr u)
      from t(3) have "edu_idle d1" by (simp add: same_edu_def)
      from "2.IH" [OF t(1) refl Inr refl "2.prems"(1) this addrs rest] t Inr show ?thesis
        by (auto simp: same_edu_def min_def)
    qed
  qed
qed

lemma sg_fill_total: "sg_fill n i offset remaining = (sg, r) \<Longrightarrow> sum_list (map (\<lambda>(i, off, n). n) sg) + r = remaining"
proof (induction n i offset remaining arbitrary: sg r rule: sg_fill.induct)
  case (2 n i offset remaining)
  define len where "len = min (PAGE_SIZE - offset) remaining"
  obtain sg1 r1 where rec: "sg_fill n (Suc i) 0 (remaining - len) = (sg1, r1)"
    by (cases "sg_fill n (Suc i) 0 (remaining - len)")
  have "len \<le> remaining" by (simp add: len_def)
  with "2.prems" rec "2.IH" [OF _ len_def rec] show ?case by (auto simp: Let_def len_def [symmetric] split: if_splits)
qed simp

lemma have_pages_return:
  assumes hw: "hw_loopback hw" and idle: "edu_idle d" and map: "sg_map_ok (sge_map e)" and len: "len = length ubuf"
  shows "\<exists>r ubuf' d'. have_pages hw xes e pinned offset len dir ubuf pins d = Inr (r, pins - int pinned, ubuf', d') \<and>
    length ubuf' = length ubuf \<and> same_edu d d'"
proof -
  obtain sg rem where f: "sg_fill pinned 0 offset len = (sg, rem)" by (cases "sg_fill pinned 0 offset len")
  have self: "same_edu d d" using idle by (simp add: same_edu_def)
  show ?thesis
  proof (cases "sge_sg_ok e \<and> rem = 0 \<and> sge_map e sg \<noteq> []")
    case False
    with f self show ?thesis by (auto simp: have_pages_def)
  next
    case True
    with map sg_fill_total [OF f] len have "\<forall>(addr, n)\<in>set (sge_map e sg). addr < 2 ^ 28"
      "sum_list (map snd (sge_map e sg)) \<le> length ubuf" by (auto simp: sg_map_ok_def)
    from sg_transfers_return [OF hw idle this, of xes dir] True f show ?thesis by (auto simp: have_pages_def)
  qed
qed

lemma do_sg_dma_return:
  assumes "hw_loopback hw" and "edu_idle d" and "sg_map_ok (sge_map e)" and "len = length ubuf"
  shows "\<exists>r ubuf' d'. do_sg_dma hw xes e start len dir ubuf d = Inr (r, 0, ubuf', d') \<and> length ubuf' = length ubuf \<and> same_edu d d'"
proof -
  obtain first_page offset nr where g: "sg_range start len = (first_page, offset, nr)" by (metis prod_cases3)
  have self: "same_edu d d" using assms(2) by (simp add: same_edu_def)
  have pages: "\<exists>r ubuf' d'. have_pages hw xes e k offset len dir ubuf (int k) d = Inr (r, 0, ubuf', d') \<and>
      length ubuf' = length ubuf \<and> same_edu d d'" for k
    using have_pages_return [OF assms, of xes k offset dir "int k"] by simp
  show ?thesis
  proof (cases "sge_pages_ok e \<and> sge_fast e \<noteq> Inr nr")
    case False
    with pages [of nr] self show ?thesis by (auto simp: do_sg_dma_def g)
  next
    case True
    show ?thesis
    proof (cases "sge_slow e")
      case (Inl err)
      with True self show ?thesis by (auto simp: do_sg_dma_def g split: sum.splits)
    next
      case (Inr k)
      with True self pages [of k] show ?thesis by (auto simp: do_sg_dma_def g split: sum.splits)
    qed
  qed
qed

lemma edu_ioc_numbers: "EDU_IOC_DMA_TX = 1074021633" "EDU_IOC_DMA_RX = 1074021634" "EDU_IOC_STREAM_DMA = 1074808067"
  by (simp_all add: EDU_IOC_DMA_TX_def EDU_IOC_DMA_RX_def EDU_IOC_STREAM_DMA_def IOC_def)

lemma u64_s32_big: "0 \<le> s32 n \<and> s32 n \<le> 4096 \<or> 4096 < u64 (s32 n)"
proof (cases "0 \<le> s32 n")
  case True
  then have "u64 (s32 n) = s32 n" using s32_range [of n] by (simp add: u64_id)
  with True show ?thesis by auto
next
  case False
  have "u64 (s32 n) = (s32 n + 2 ^ 64) mod 2 ^ 64" by (simp add: u64_def)
  also have "\<dots> = s32 n + 2 ^ 64" using False s32_range [of n] by (intro mod_pos_pos_trivial) auto
  finally show ?thesis using s32_range [of n] by simp
qed

text \<open>An ioctl on an idle device returns whatever its command, its argument, the answers of the
  kernel and the interrupts are: the locks are free, every page it pinned is unpinned and the
  runtime usage count is as before; a transfer of a negative length or of more than the device's
  buffer is refused before any register is written.\<close>

lemma edu_ioctl_returns:
  assumes hw: "hw_loopback hw" and idle: "edu_idle d" and map: "sg_map_ok (sge_map e)"
    and desc: "case ea_desc arg of None \<Rightarrow> True | Some (addr, len, dir) \<Rightarrow> len = length (ea_ubuf arg)"
  shows "\<exists>r ubuf d'. edu_ioctl hw xes e pm cmd arg d = Inr (r, 0, ubuf, d') \<and> edu_idle d' \<and> ed_pm d' = ed_pm d \<and>
    length ubuf = length (ea_ubuf arg) \<and>
    (cmd \<in> {EDU_IOC_DMA_TX, EDU_IOC_DMA_RX} \<and> pm = Inr () \<and>
       (\<exists>n. ea_len arg = Some n \<and> \<not> (0 \<le> s32 n \<and> s32 n \<le> 4096)) \<longrightarrow> r = Inl EINVAL \<and> ed_mmio d' = ed_mmio d)"
proof (cases pm)
  case (Inl err)
  with idle show ?thesis by (auto simp: edu_ioctl_def pm_get_def)
next
  case (Inr u)
  define d1 where "d1 = d\<lparr>ed_pm := ed_pm d + 1\<rparr>"
  have get: "pm_get pm d = (Inr (), d1)" using Inr by (simp add: pm_get_def d1_def)
  have idle1: "edu_idle d1" using idle by (simp add: d1_def edu_idle_def)
  have put: "edu_idle (pm_put d2) \<and> ed_pm (pm_put d2) = ed_pm d" if "same_edu d1 d2" for d2
    using that by (auto simp: same_edu_def edu_idle_def pm_put_def d1_def)
  have mem: "length (ed_dma_buf d1) = DMA_BUF_SIZE" "ed_dma_handle d1 < 2 ^ 28" using idle1 by (simp_all add: edu_idle_def)
  have one: "\<exists>r ram d2. edu_dma_transfers hw (hd xes) (ed_dma_handle d1) dir n (ed_dma_buf d1) d1 = Inr (r, ram, d2) \<and>
      edu_idle (pm_put (d2\<lparr>ed_dma_buf := ram\<rparr>)) \<and> ed_pm (pm_put (d2\<lparr>ed_dma_buf := ram\<rparr>)) = ed_pm d \<and>
      (4096 < n \<longrightarrow> r = Inl EINVAL \<and> ed_mmio (pm_put (d2\<lparr>ed_dma_buf := ram\<rparr>)) = ed_mmio d)" if "dir \<in> {0, 2}" for dir n
  proof (cases "DMA_BUF_SIZE < n")
    case True
    then show ?thesis using idle1 by (auto simp: edu_dma_transfers_def pm_put_def edu_idle_def d1_def)
  next
    case False
    with transfer_returns [OF hw idle1 _ mem(2) that, of n "ed_dma_buf d1" "hd xes"] mem(1) show ?thesis
      by (auto simp: same_edu_def edu_idle_def pm_put_def d1_def DMA_BUF_SIZE_def)
  qed
  have big: "\<not> (0 \<le> s32 n \<and> s32 n \<le> 4096) \<Longrightarrow> 4096 < nat (u64 (s32 n))" for n
    using u64_s32_big [of n] by auto
  consider (stream) "cmd = EDU_IOC_STREAM_DMA" "cmd \<notin> {EDU_IOC_DMA_TX, EDU_IOC_DMA_RX}"
    | (tx) "cmd = EDU_IOC_DMA_TX" "cmd \<noteq> EDU_IOC_STREAM_DMA" | (rx) "cmd = EDU_IOC_DMA_RX" "cmd \<noteq> EDU_IOC_STREAM_DMA" "cmd \<noteq> EDU_IOC_DMA_TX"
    | (other) "cmd \<notin> {EDU_IOC_STREAM_DMA, EDU_IOC_DMA_TX, EDU_IOC_DMA_RX}"
    by (auto simp: edu_ioc_numbers)
  then show ?thesis
  proof cases
    case stream
    show ?thesis
    proof (cases "ea_desc arg")
      case None
      with stream put [of d1] idle1 get show ?thesis by (simp add: edu_ioctl_def Let_def same_edu_def)
    next
      case (Some x)
      then obtain addr len dir where x: "ea_desc arg = Some (addr, len, dir)" by (cases x) auto
      with desc have "len = length (ea_ubuf arg)" by simp
      from do_sg_dma_return [OF hw idle1 map this, of xes addr dir] put stream get x show ?thesis
        by (auto simp: edu_ioctl_def Let_def)
    qed
  next
    case tx
    show ?thesis
    proof (cases "ea_len arg")
      case None
      with tx put [of d1] idle1 get show ?thesis by (simp add: edu_ioctl_def Let_def same_edu_def)
    next
      case (Some n)
      with tx get one [of EDU_DMA_DIR_RAM_TO_DEV "nat (u64 (s32 n))"] big [of n] show ?thesis
        by (auto simp: edu_ioctl_def Let_def EDU_DMA_DIR_RAM_TO_DEV_def)
    qed
  next
    case rx
    show ?thesis
    proof (cases "ea_len arg")
      case None
      with rx put [of d1] idle1 get show ?thesis by (simp add: edu_ioctl_def Let_def same_edu_def)
    next
      case (Some n)
      with rx get one [of EDU_DMA_DIR_DEV_TO_RAM "nat (u64 (s32 n))"] big [of n] show ?thesis
        by (auto simp: edu_ioctl_def Let_def EDU_DMA_DIR_DEV_TO_RAM_def)
    qed
  next
    case other
    with put [of d1] idle1 get show ?thesis by (simp add: edu_ioctl_def Let_def same_edu_def)
  qed
qed

lemma edu_ioctl_returns_witness:
  "\<exists>d'. edu_ioctl example_hw [] \<lparr>sge_pages_ok = True, sge_fast = Inr 1, sge_slow = Inr 1, sge_sg_ok = True, sge_map = (\<lambda>_. [])\<rparr>
      (Inr ()) EDU_IOC_DMA_TX \<lparr>ea_len = Some (- 1), ea_desc = None, ea_ubuf = []\<rparr> example_edu =
    Inr (Inl EINVAL, 0, [], d') \<and> ed_mmio d' = []"
proof -
  have m: "sg_map_ok (sge_map \<lparr>sge_pages_ok = True, sge_fast = Inr 1, sge_slow = Inr 1, sge_sg_ok = True, sge_map = (\<lambda>_. [])\<rparr>)"
    by (simp add: sg_map_ok_def)
  have "\<exists>n. Some (- 1 :: int) = Some n \<and> \<not> (0 \<le> s32 n \<and> s32 n \<le> 4096)" by (simp add: s32_def)
  then show ?thesis
    using edu_ioctl_returns [OF example_edu_ok m,
        of "\<lparr>ea_len = Some (- 1), ea_desc = None, ea_ubuf = []\<rparr>" "[]" "Inr ()" EDU_IOC_DMA_TX]
    by (auto simp: example_edu_def)
qed

end
