(* ===== verification/EduRace.thy ===== *)
theory EduRace
  imports EduDma
begin

text \<open>
  Transfers of the EDU driver with interrupts enabled, interleaved with the device and the
  interrupt handler: \<open>edu_dma_transfers\<close> and \<open>edu_irq_threaded\<close> of \<open>common_edu/edu_core.c\<close> split at
  their critical sections.  Jobs are numbered in the order in which their command register is
  written; the device finishes the started ones at any time and then latches its interrupt.
\<close>

subsection \<open>State and steps\<close>

text \<open>\<open>TWait j\<close> waits for the completion of job \<open>j\<close>; the log lists the jobs returned and their results.\<close>

datatype xfer_task = TIdle | TWait nat

record edu_sys =
  es_locked :: bool
  es_in_flight :: bool
  es_done :: nat
  es_tasks :: "xfer_task list"
  es_next :: nat
  es_running :: "nat list"
  es_irq :: bool
  es_log :: "(nat \<times> unit res) list"

inductive edu_step :: "edu_sys \<Rightarrow> edu_sys \<Rightarrow> bool" where
  start: "t < length (es_tasks s) \<Longrightarrow> es_tasks s ! t = TIdle \<Longrightarrow> \<not> es_locked s \<Longrightarrow> \<not> es_in_flight s \<Longrightarrow>
     edu_step s (s\<lparr>es_locked := True, es_in_flight := True, es_done := 0, es_tasks := (es_tasks s)[t := TWait (es_next s)],
       es_next := Suc (es_next s), es_running := es_next s # es_running s\<rparr>)"
| device: "j \<in> set (es_running s) \<Longrightarrow> edu_step s (s\<lparr>es_running := removeAll j (es_running s), es_irq := True\<rparr>)"
| isr: "es_irq s \<Longrightarrow>
     edu_step s (s\<lparr>es_irq := False, es_done := (if es_in_flight s then es_done s + 1 else es_done s)\<rparr>)"
| complete: "t < length (es_tasks s) \<Longrightarrow> es_tasks s ! t = TWait j \<Longrightarrow> 0 < es_done s \<Longrightarrow>
     edu_step s (s\<lparr>es_done := es_done s - 1, es_in_flight := False, es_locked := False,
       es_tasks := (es_tasks s)[t := TIdle], es_log := (j, Inr ()) # es_log s\<rparr>)"
| timeout: "t < length (es_tasks s) \<Longrightarrow> es_tasks s ! t = TWait j \<Longrightarrow> es_done s = 0 \<Longrightarrow>
     edu_step s (s\<lparr>es_in_flight := False, es_locked := False,
       es_tasks := (es_tasks s)[t := TIdle], es_log := (j, Inl ETIMEDOUT) # es_log s\<rparr>)"

inductive edu_reach :: "edu_sys \<Rightarrow> bool" where
  init: "edu_reach \<lparr>es_locked = False, es_in_flight = False, es_done = 0, es_tasks = replicate n TIdle,
     es_next = 0, es_running = [], es_irq = False, es_log = []\<rparr>"
| step: "edu_reach s \<Longrightarrow> edu_step s s' \<Longrightarrow> edu_reach s'"

subsection \<open>The invariant\<close>

text \<open>One task waits exactly while the lock is held and a transfer is in flight; its job is the last one.\<close>

definition waiting_ok :: "edu_sys \<Rightarrow> bool" where
  "waiting_ok s \<longleftrightarrow> es_locked s = es_in_flight s \<and>
     tasks_in (\<lambda>t. t \<noteq> TIdle) (es_tasks s) = of_bool (es_in_flight s) \<and>
     (\<forall>j. TWait j \<in> set (es_tasks s) \<longrightarrow> Suc j = es_next s) \<and>
     (\<forall>j\<in>set (es_running s). j < es_next s)"

text \<open>Without a timeout so far: what the device, the interrupt and the completion say of the last job.\<close>

definition no_timeout :: "edu_sys \<Rightarrow> bool" where
  "no_timeout s \<longleftrightarrow> (\<forall>(j, r)\<in>set (es_log s). r = Inr ())"

definition done_ok :: "edu_sys \<Rightarrow> bool" where
  "done_ok s \<longleftrightarrow> es_done s + of_bool (es_irq s) + length (es_running s) = of_bool (es_in_flight s) \<and>
     (\<forall>(j, r)\<in>set (es_log s). j \<notin> set (es_running s) \<and> j < es_next s)"

lemma waiting_ok_step:
  assumes "edu_step s s'" and "waiting_ok s"
  shows "waiting_ok s'"
  using assms
proof (induction rule: edu_step.induct)
  case (start t s)
  have "tasks_in (\<lambda>t. t \<noteq> TIdle) (es_tasks s) = 0" using start by (simp add: waiting_ok_def)
  then have none: "x = TIdle" if "x \<in> set (es_tasks s)" for x using that by (auto simp: tasks_in_def filter_empty_conv)
  have "TWait j \<in> set ((es_tasks s)[t := TWait (es_next s)]) \<Longrightarrow> j = es_next s" for j
    using none by (auto dest!: subsetD [OF set_update_subset_insert])
  then show ?case
    using start tasks_in_update [OF start(1), of "\<lambda>t. t \<noteq> TIdle" "TWait (es_next s)"]
    by (auto simp: waiting_ok_def less_Suc_eq)
next
  case (complete t s j)
  have "TWait j' \<in> set ((es_tasks s)[t := TIdle]) \<Longrightarrow> TWait j' \<in> set (es_tasks s)" for j'
    by (auto dest!: subsetD [OF set_update_subset_insert])
  then show ?case
    using complete tasks_in_update [OF complete(1), of "\<lambda>t. t \<noteq> TIdle" TIdle]
    by (auto simp: waiting_ok_def split: if_splits)
next
  case (timeout t s j)
  have "TWait j' \<in> set ((es_tasks s)[t := TIdle]) \<Longrightarrow> TWait j' \<in> set (es_tasks s)" for j'
    by (auto dest!: subsetD [OF set_update_subset_insert])
  then show ?case
    using timeout tasks_in_update [OF timeout(1), of "\<lambda>t. t \<noteq> TIdle" TIdle]
    by (auto simp: waiting_ok_def split: if_splits)
qed (auto simp: waiting_ok_def)

lemma reach_waiting: "edu_reach s \<Longrightarrow> waiting_ok s"
proof (induction rule: edu_reach.induct)
  case (init n)
  then show ?case by (auto simp: waiting_ok_def)
qed (rule waiting_ok_step)

lemma waiting_in_flight:
  assumes "waiting_ok s" and "t < length (es_tasks s)" and "es_tasks s ! t = TWait j"
  shows "es_in_flight s" and "Suc j = es_next s"
proof -
  have "0 < tasks_in (\<lambda>t. t \<noteq> TIdle) (es_tasks s)" using assms tasks_in_pos [of t "es_tasks s" "\<lambda>t. t \<noteq> TIdle"] by simp
  then show "es_in_flight s" using assms(1) by (simp add: waiting_ok_def split: if_splits)
  have "TWait j \<in> set (es_tasks s)" using assms(2,3) nth_mem by metis
  then show "Suc j = es_next s" using assms(1) by (simp add: waiting_ok_def)
qed

lemma done_ok_step:
  assumes "edu_step s s'" and "waiting_ok s" and "no_timeout s \<longrightarrow> done_ok s" and "no_timeout s'"
  shows "done_ok s'"
  using assms
proof (induction rule: edu_step.induct)
  case (start t s)
  then have "done_ok s" by (simp add: no_timeout_def)
  with start show ?case by (auto simp: done_ok_def)
next
  case (device j s)
  then have d: "done_ok s" by (simp add: no_timeout_def)
  obtain x xs where r: "es_running s = x # xs" using device(1) by (cases "es_running s") auto
  from d have "es_done s + of_bool (es_irq s) + Suc (length xs) = of_bool (es_in_flight s)" by (simp add: done_ok_def r)
  then have "es_in_flight s" "es_done s = 0" "\<not> es_irq s" "xs = []" by (auto simp: of_bool_def split: if_splits)
  with r device(1) d show ?case by (auto simp: done_ok_def)
next
  case (isr s)
  then have "done_ok s" by (simp add: no_timeout_def)
  with isr show ?case by (auto simp: done_ok_def split: if_splits)
next
  case (complete t s j)
  then have d: "done_ok s" by (auto simp: no_timeout_def)
  note w = waiting_in_flight [OF complete.prems(1) complete.hyps(1,2)]
  have "es_done s = 1" "\<not> es_irq s" "length (es_running s) = 0" using d w complete.hyps(3)
    by (auto simp: done_ok_def of_bool_def simp del: length_0_conv split: if_splits)
  with d w show ?case by (auto simp: done_ok_def)
next
  case (timeout t s j)
  then show ?case by (simp add: no_timeout_def)
qed

lemma reach_done: "edu_reach s \<Longrightarrow> no_timeout s \<Longrightarrow> done_ok s"
proof (induction rule: edu_reach.induct)
  case (init n)
  then show ?case by (simp add: done_ok_def)
next
  case (step s s')
  then show ?case using done_ok_step reach_waiting by blast
qed

subsection \<open>Properties\<close>


definition edu_sys0 :: edu_sys where
  "edu_sys0 = \<lparr>es_locked = False, es_in_flight = False, es_done = 0, es_tasks = [TIdle, TIdle],
     es_next = 0, es_running = [], es_irq = False, es_log = []\<rparr>"

lemma edu_sys0_reach: "edu_reach edu_sys0"
  using edu_reach.init [of 2] by (simp add: edu_sys0_def numeral_2_eq_2)

lemma edu_start_reach:
  "edu_reach (edu_sys0\<lparr>es_locked := True, es_in_flight := True, es_tasks := [TWait 0, TIdle], es_next := 1, es_running := [0]\<rparr>)"
  using edu_reach.step [OF edu_sys0_reach edu_step.start [of 0]] by (simp add: edu_sys0_def)


text \<open>After a timeout this fails: the late interrupt of the transfer that timed out completes
  the next transfer, which returns success while the device is still executing it.\<close>

lemma edu_late_interrupt:
  "\<exists>s. edu_reach s \<and> es_log s = [(1, Inr ()), (0, Inl ETIMEDOUT)] \<and> 1 \<in> set (es_running s)"
proof -
  define s1 where "s1 = edu_sys0\<lparr>es_locked := True, es_in_flight := True, es_tasks := [TWait 0, TIdle], es_next := 1, es_running := [0]\<rparr>"
  define s2 where "s2 = edu_sys0\<lparr>es_next := 1, es_running := [0], es_log := [(0, Inl ETIMEDOUT)]\<rparr>"
  define s3 where "s3 = s2\<lparr>es_locked := True, es_in_flight := True, es_tasks := [TWait 1, TIdle], es_next := 2, es_running := [1, 0]\<rparr>"
  define s4 where "s4 = s3\<lparr>es_running := [1], es_irq := True\<rparr>"
  define s5 where "s5 = s4\<lparr>es_irq := False, es_done := 1\<rparr>"
  define s6 where "s6 = s5\<lparr>es_done := 0, es_in_flight := False, es_locked := False, es_tasks := [TIdle, TIdle],
    es_log := [(1, Inr ()), (0, Inl ETIMEDOUT)]\<rparr>"
  have a: "edu_step s1 s2" using edu_step.timeout [of 0 s1 0] by (simp add: s1_def s2_def edu_sys0_def)
  have b: "edu_step s2 s3" using edu_step.start [of 0 s2] by (simp add: s2_def s3_def edu_sys0_def numeral_2_eq_2)
  have c: "edu_step s3 s4" using edu_step.device [of 0 s3] by (simp add: s3_def s4_def)
  have d: "edu_step s4 s5" using edu_step.isr [of s4] by (simp add: s4_def s5_def s3_def s2_def edu_sys0_def)
  have e: "edu_step s5 s6" using edu_step.complete [of 0 s5 1] by (simp add: s6_def s5_def s4_def s3_def s2_def edu_sys0_def)
  have "edu_reach s1" unfolding s1_def by (rule edu_start_reach)
  note edu_reach.step [OF edu_reach.step [OF edu_reach.step [OF edu_reach.step [OF edu_reach.step [OF this a] b] c] d] e]
  moreover have "es_log s6 = [(1, Inr ()), (0, Inl ETIMEDOUT)]" "1 \<in> set (es_running s6)"
    by (simp_all add: s6_def s5_def s4_def)
  ultimately show ?thesis by blast
qed

end
