(* ===== verification/EduProbe.thy ===== *)
theory EduProbe
  imports ModuleLife EduDma
begin

text \<open>
  The life of the EDU device (\<open>common_edu/edu_core.c\<close>, \<open>ch15_mmap_dma/main.c\<close>): probe with its
  labels and remove, open and mmap, the power management handlers, and the handlers of PCI
  errors in the order in which the PCI core calls them.
\<close>

subsection \<open>Probe and remove\<close>

datatype edu_resource = Enabled | Regions | Bar0 | Vectors | Irq | DmaBuf | Misc

text \<open>The kernel's answers, and the values of the identification and liveness registers.\<close>

record probe_env =
  pb_zalloc :: bool
  pb_enable :: "unit res"
  pb_regions :: "unit res"
  pb_iomap :: bool
  pb_id :: nat
  pb_live :: nat
  pb_vectors :: "unit res"
  pb_irq :: "unit res"
  pb_mask :: "unit res"
  pb_dma :: bool
  pb_misc :: "unit res"

definition disable_dev :: "edu_resource list \<Rightarrow> edu_resource list" where "disable_dev held = removeAll Enabled held"
definition release_mem :: "edu_resource list \<Rightarrow> edu_resource list" where "release_mem held = disable_dev (removeAll Regions held)"
definition unmap :: "edu_resource list \<Rightarrow> edu_resource list" where "unmap held = release_mem (removeAll Bar0 held)"
definition err_vectors :: "edu_resource list \<Rightarrow> edu_resource list" where "err_vectors held = unmap (removeAll Vectors held)"
definition err_irq :: "edu_resource list \<Rightarrow> edu_resource list" where "err_irq held = err_vectors (removeAll Irq held)"
definition err_free_dma :: "edu_resource list \<Rightarrow> edu_resource list" where "err_free_dma held = err_irq (removeAll DmaBuf held)"

lemmas probe_labels = disable_dev_def release_mem_def unmap_def err_vectors_def err_irq_def err_free_dma_def

text \<open>
  The result: the return value, what is held, and whether the driver data is set.  The checks of
  the registers jump to \<open>release_mem\<close> with \<open>ret\<close> still 0 from \<open>pci_request_mem_regions\<close>.
\<close>

definition edu_probe :: "probe_env \<Rightarrow> (unit res \<times> edu_resource list \<times> bool) run" where
  "edu_probe e =
     (if \<not> pb_zalloc e then Inl NullDeref
      else case pb_enable e of Inl x \<Rightarrow> Inr (Inl x, [], False)
      | Inr _ \<Rightarrow> (let h1 = [Enabled] in
      case pb_regions e of Inl x \<Rightarrow> Inr (Inl x, disable_dev h1, False)
      | Inr _ \<Rightarrow> (let h2 = Regions # h1 in
      if \<not> pb_iomap e then Inr (Inl ENODEV, release_mem h2, False)
      else let h3 = Bar0 # h2 in
      if pb_id e AND 0xFF \<noteq> 0xED then Inr (Inr (), release_mem h3, False)
      else if drop_bit 24 (pb_id e) AND 0xFF = 0 \<and> drop_bit 16 (pb_id e) AND 0xFF = 0
        then Inr (Inr (), release_mem h3, False)
      else if pb_live e \<noteq> 0 then Inr (Inr (), release_mem h3, False)
      else case pb_vectors e of Inl _ \<Rightarrow> Inr (Inl ENODEV, unmap h3, False)
      | Inr _ \<Rightarrow> (let h4 = Vectors # h3 in
      case pb_irq e of Inl x \<Rightarrow> Inr (Inl x, err_vectors h4, False)
      | Inr _ \<Rightarrow> (let h5 = Irq # h4 in
      case pb_mask e of Inl x \<Rightarrow> Inr (Inl x, err_irq h5, False)
      | Inr _ \<Rightarrow> (if \<not> pb_dma e then Inr (Inl ENOMEM, err_irq h5, False)
      else let h6 = DmaBuf # h5 in
      case pb_misc e of Inl x \<Rightarrow> Inr (Inl x, err_free_dma h6, False)
      | Inr _ \<Rightarrow> Inr (Inr (), Misc # h6, True)))))))"

definition edu_remove :: "bool \<Rightarrow> edu_resource list \<Rightarrow> edu_resource list run" where
  "edu_remove drvdata held =
     (if \<not> drvdata then Inl NullDeref
      else Inr (removeAll Misc (removeAll Enabled (removeAll Regions (removeAll Bar0 (removeAll Vectors
        (removeAll Irq (removeAll DmaBuf held))))))))"

text \<open>When probe fails it holds nothing; when it returns success the device has the EDU
  signature, everything is held and remove releases all of it \<emdash> or a check of the registers
  failed: then the driver is bound without its data, the mapping of the registers leaks and
  remove dereferences a null pointer.\<close>

lemma edu_probe_remove:
  "case edu_probe e of
     Inl s \<Rightarrow> s = NullDeref \<and> \<not> pb_zalloc e
   | Inr (Inl _, held, drvdata) \<Rightarrow> held = [] \<and> \<not> drvdata
   | Inr (Inr _, held, drvdata) \<Rightarrow>
       (if drvdata then pb_id e AND 0xFF = 0xED \<and> pb_live e = 0 \<and> length held = 7 \<and> edu_remove drvdata held = Inr []
        else (pb_id e AND 0xFF \<noteq> 0xED \<or> drop_bit 24 (pb_id e) AND 0xFF = 0 \<and> drop_bit 16 (pb_id e) AND 0xFF = 0 \<or> pb_live e \<noteq> 0) \<and> held = [Bar0] \<and>
          edu_remove drvdata held = Inl NullDeref)"
  by (simp add: edu_probe_def edu_remove_def probe_labels Let_def split: sum.split)

definition example_pci :: probe_env where
  "example_pci = \<lparr>pb_zalloc = True, pb_enable = Inr (), pb_regions = Inr (), pb_iomap = True, pb_id = 0x010000FF, pb_live = 0,
     pb_vectors = Inr (), pb_irq = Inr (), pb_mask = Inr (), pb_dma = True, pb_misc = Inr ()\<rparr>"

lemma edu_probe_remove_witness:
  "edu_probe example_pci = Inr (Inr (), [Bar0], False) \<and> edu_remove False [Bar0] = Inl NullDeref"
proof -
  have "edu_probe example_pci = Inr (Inr (), [Bar0], False)"
    by (simp add: edu_probe_def example_pci_def probe_labels)
  with edu_probe_remove [of example_pci] show ?thesis by simp
qed

subsection \<open>Open and mmap\<close>

text \<open>\<open>drvdata\<close> is the data of the misc device, which probe sets after registering it.\<close>

definition edu_open :: "bool \<Rightarrow> edu_dev option \<Rightarrow> (unit res \<times> edu_dev) run" where
  "edu_open interrupts_enabled drvdata = (case drvdata of
     None \<Rightarrow> Inl NullDeref
   | Some d \<Rightarrow> Inr (Inr (), d\<lparr>ed_interrupts_enabled := interrupts_enabled\<rparr>))"

text \<open>The driver of chapter 12 is the shared code with an open of its own, which differs in nothing.\<close>

definition ch12_edu_open :: "bool \<Rightarrow> edu_dev option \<Rightarrow> (unit res \<times> edu_dev) run" where
  "ch12_edu_open interrupts_enabled drvdata = (case drvdata of
     None \<Rightarrow> Inl NullDeref
   | Some d \<Rightarrow> Inr (Inr (), d\<lparr>ed_interrupts_enabled := interrupts_enabled\<rparr>))"

lemma ch12_edu_open_same: "ch12_edu_open = edu_open"
  by (simp add: ch12_edu_open_def edu_open_def fun_eq_iff)

text \<open>What a mapping shows: the coherent buffer, or the page frame of the device's buffer.\<close>

datatype edu_mapping = MapCoherent | MapPfn nat

definition edu_mmap :: "nat \<Rightarrow> nat \<Rightarrow> edu_mapping res" where
  "edu_mmap bar_start vm_pgoff =
     (if vm_pgoff = 0 then Inr MapCoherent
      else if vm_pgoff = 1 then Inr (MapPfn ((bar_start + EDU_BAR0_DMA_BUFFER_REG) div 2 ^ PAGE_SHIFT))
      else Inl EINVAL)"

subsection \<open>Power management\<close>

text \<open>\<open>st\<close> is the value of the interrupt status register.\<close>

definition edu_ack :: "nat \<Rightarrow> edu_dev \<Rightarrow> edu_dev" where
  "edu_ack st d = (if st \<noteq> 0 then iowrite32 st EDU_BAR0_IRQ_ACK_REG d else d)"

definition edu_pm_suspend :: "nat \<Rightarrow> edu_dev \<Rightarrow> (unit res \<times> edu_dev) run" where
  "edu_pm_suspend st d =
     (if ed_locked d then Inl Sleeps
      else let d1 = edu_ack st (d\<lparr>ed_locked := True\<rparr>) in Inr (Inr (), d1\<lparr>ed_locked := False\<rparr>))"

definition edu_pm_resume :: "nat \<Rightarrow> edu_dev \<Rightarrow> unit res \<times> edu_dev" where
  "edu_pm_resume st d = (Inr (), edu_ack st d)"

subsection \<open>PCI error recovery\<close>

datatype pci_channel_state = pci_channel_io_normal | pci_channel_io_frozen | pci_channel_io_perm_failure

datatype pci_ers_result = PCI_ERS_RESULT_CAN_RECOVER | PCI_ERS_RESULT_NEED_RESET | PCI_ERS_RESULT_DISCONNECT
  | PCI_ERS_RESULT_RECOVERED

definition edu_error_detected :: "pci_channel_state \<Rightarrow> nat \<Rightarrow> edu_dev \<Rightarrow> (pci_ers_result \<times> edu_dev) run" where
  "edu_error_detected state st d =
     (if state = pci_channel_io_perm_failure then Inr (PCI_ERS_RESULT_DISCONNECT, d)
      else if state = pci_channel_io_frozen then Inr (PCI_ERS_RESULT_NEED_RESET, d)
      else let d1 = d\<lparr>ed_irq_depth := ed_irq_depth d + 1\<rparr> in
      if ed_locked d1 then Inl Sleeps
      else Inr (PCI_ERS_RESULT_CAN_RECOVER, (edu_ack st d1)\<lparr>ed_in_flight := False\<rparr>))"

text \<open>\<open>reg\<close> is the value read back from the liveness register.\<close>

definition edu_mmio_enabled :: "nat \<Rightarrow> edu_dev \<Rightarrow> pci_ers_result \<times> edu_dev" where
  "edu_mmio_enabled reg d =
     (if reg \<noteq> 0 then PCI_ERS_RESULT_NEED_RESET else PCI_ERS_RESULT_RECOVERED,
      iowrite32 (2 ^ 32 - 1) EDU_BAR0_LIVENESS_REG d)"

text \<open>\<open>enable_irq\<close>; it warns when the interrupt is not disabled.\<close>

definition enable_irq :: "edu_dev \<Rightarrow> bool \<times> edu_dev" where
  "enable_irq d = (ed_irq_depth d = 0, d\<lparr>ed_irq_depth := ed_irq_depth d - 1\<rparr>)"

text \<open>The second component says whether \<open>enable_irq\<close> warned.\<close>

definition edu_slot_reset :: "unit res \<Rightarrow> nat \<Rightarrow> edu_dev \<Rightarrow> pci_ers_result \<times> bool \<times> edu_dev" where
  "edu_slot_reset enable reg d =
     (case enable of Inl _ \<Rightarrow> (PCI_ERS_RESULT_DISCONNECT, False, d)
      | Inr _ \<Rightarrow> (let d1 = iowrite32 (2 ^ 32 - 1) EDU_BAR0_LIVENESS_REG d in
          if reg \<noteq> 0 then (PCI_ERS_RESULT_DISCONNECT, False, d1)
          else case enable_irq d1 of (warned, d2) \<Rightarrow> (PCI_ERS_RESULT_RECOVERED, warned, d2)))"

definition edu_resume :: "edu_dev \<Rightarrow> edu_dev" where
  "edu_resume d = d"

text \<open>
  The order of the PCI core: detection; then, as it asks, \<open>mmio_enabled\<close> or the reset of the
  slot; then resume.  \<open>reg1\<close> and \<open>reg2\<close> are the two readings of the liveness register.
\<close>

definition edu_recover :: "pci_channel_state \<Rightarrow> nat \<Rightarrow> nat \<Rightarrow> unit res \<Rightarrow> nat \<Rightarrow> edu_dev \<Rightarrow>
    (pci_ers_result \<times> bool \<times> edu_dev) run" where
  "edu_recover state st reg1 enable reg2 d =
     (let reset = (\<lambda>d. case edu_slot_reset enable reg2 d of (r, w, d') \<Rightarrow>
            Inr (r, w, if r = PCI_ERS_RESULT_RECOVERED then edu_resume d' else d'))
      in case edu_error_detected state st d of
          Inl s \<Rightarrow> Inl s
        | Inr (PCI_ERS_RESULT_CAN_RECOVER, d1) \<Rightarrow> (case edu_mmio_enabled reg1 d1 of
              (PCI_ERS_RESULT_RECOVERED, d2) \<Rightarrow> Inr (PCI_ERS_RESULT_RECOVERED, False, edu_resume d2)
            | (_, d2) \<Rightarrow> reset d2)
        | Inr (PCI_ERS_RESULT_NEED_RESET, d1) \<Rightarrow> reset d1
        | Inr (r, d1) \<Rightarrow> Inr (r, False, d1))"

lemma edu_ack_frame:
  "edu_idle (edu_ack st d) = edu_idle d" "ed_locked (edu_ack st d) = ed_locked d" "ed_irq_depth (edu_ack st d) = ed_irq_depth d"
  "ed_interrupts_enabled (edu_ack st d) = ed_interrupts_enabled d"
  by (simp_all add: edu_ack_def iowrite32_def edu_idle_def)

text \<open>No run of the handler, no completion.\<close>

lemma dma_wait_masked:
  "ed_interrupts_enabled d \<Longrightarrow> ed_done d = 0 \<Longrightarrow> xe_irqs xe = [] \<Longrightarrow> dma_wait xe d = (Inl ETIMEDOUT, d)"
  by (simp add: dma_wait_def)

lemma transfer_masked:
  assumes "edu_idle d" and "ed_interrupts_enabled d" and "xe_irqs xe = []" and "\<not> xe_sig xe" and "n \<le> DMA_BUF_SIZE"
  shows "\<exists>d'. edu_dma_transfers hw xe addr 0 n ram d = Inr (Inl ETIMEDOUT, ram, d')"
  using assms by (simp add: edu_dma_transfers_def edu_idle_def EDU_DMA_DIR_RAM_TO_DEV_def dma_run_def iowrite32_def
      dma_wait_masked Let_def)



subsection \<open>Binding and unbinding\<close>

text \<open>With a device of the EDU signature and memory for its data, probe and remove keep the contract of
  loading and unloading.\<close>

definition edu_signature :: "probe_env \<Rightarrow> bool" where
  "edu_signature e \<longleftrightarrow> pb_id e AND 0xFF = 0xED \<and> \<not> (drop_bit 24 (pb_id e) AND 0xFF = 0 \<and> drop_bit 16 (pb_id e) AND 0xFF = 0) \<and> pb_live e = 0"

definition edu_unbind :: "edu_resource list \<times> bool \<Rightarrow> (edu_resource list \<times> bool) run" where
  "edu_unbind m = (case edu_remove (snd m) (fst m) of Inl x \<Rightarrow> Inl x | Inr h \<Rightarrow> Inr (h, False))"

interpretation edu_mod: unwinding edu_probe edu_unbind "\<lambda>m. fst m = []" "\<lambda>e. pb_zalloc e \<and> edu_signature e"
proof (rule unwindingI)
  fix e assume "pb_zalloc e \<and> edu_signature e"
  with edu_probe_remove [of e] show "case edu_probe e of Inl _ \<Rightarrow> False | Inr (Inl _, m) \<Rightarrow> fst m = []
    | Inr (Inr _, m) \<Rightarrow> (case edu_unbind m of Inl _ \<Rightarrow> False | Inr m' \<Rightarrow> fst m' = [])"
    by (auto simp: edu_unbind_def edu_signature_def split: sum.splits prod.splits if_splits)
qed

end
