(* ===== verification/Kfifo.thy ===== *)
theory Kfifo
  imports BoundedQueue
begin

text \<open>
  The kernel's fifo as the drivers use it, of bytes or of samples: its contents, and a size that \<open>kfifo_alloc\<close>
  rounds up to a power of two.  It is an interpretation of the bounded queue.
\<close>

definition kfifo_in :: "nat \<Rightarrow> 'a list \<Rightarrow> 'a list \<Rightarrow> nat \<times> 'a list" where
  "kfifo_in sz buf q = (let n = min (length buf) (sz - length q) in (n, q @ take n buf))"

definition kfifo_out :: "nat \<Rightarrow> 'a list \<Rightarrow> 'a list \<times> 'a list" where
  "kfifo_out n q = (take n q, drop n q)"

definition kfifo_avail :: "nat \<Rightarrow> 'a list \<Rightarrow> nat" where
  "kfifo_avail sz q = sz - length q"

lemmas kfifo_ops = kfifo_in_def kfifo_out_def kfifo_avail_def

interpretation kf: bounded_queue "\<lambda>q. length q \<le> sz" "\<lambda>q. q" "\<lambda>_. sz" "kfifo_in sz" kfifo_out for sz :: nat
  by unfold_locales (auto simp: kfifo_ops Let_def)

lemma kfifo_in_bounded: "length q \<le> sz \<Longrightarrow> kfifo_in sz buf q = (n, q') \<Longrightarrow> length q' \<le> sz \<and> n \<le> length buf \<and> q' = q @ take n buf"
  using kf.put_ok [of q sz buf n q'] by fastforce

lemma kfifo_out_append: "kfifo_out n q = (out, q') \<Longrightarrow> q = out @ q' \<and> length out = min n (length q)"
  by (auto simp: kfifo_out_def)

end
