(* ===== verification/EchoTty.thy ===== *)
theory EchoTty
  imports ModuleLife Kfifo
begin

text \<open>
  The echoing tty (\<open>ch18_tty/echo_tty.c\<close>): writes go into a fifo of the port, a work item drains
  it into the port's own receive buffer, and the tty layer's flow control stops and starts it.
  The kfifo is an interpretation of the bounded queue; writer, flow control and work item are
  interleaved at their critical sections.
\<close>

subsection \<open>State and operations of a port\<close>

definition MAX_BUFFER :: nat where "MAX_BUFFER = 100"
definition MAX_PORTS :: nat where "MAX_PORTS = 2"

text \<open>\<open>kfifo_alloc\<close> rounds the size up to a power of two.\<close>

definition tx_fifo_size :: nat where "tx_fifo_size = 128"

text \<open>
  \<open>ec_queued\<close> says whether \<open>tx_work\<close> is scheduled; \<open>ec_rx\<close> is what the flip buffer of the port
  was given, \<open>ec_room\<close> how much more it takes.
\<close>

record echo_dev =
  ec_connected :: bool
  ec_tx_fifo :: "byte list"
  ec_queued :: bool
  ec_stopped :: bool
  ec_rx :: "byte list"
  ec_room :: nat

definition activate_tty :: "'a echo_dev_scheme \<Rightarrow> 'a echo_dev_scheme" where
  "activate_tty d = d\<lparr>ec_connected := True\<rparr>"

definition shutdown_tty :: "'a echo_dev_scheme \<Rightarrow> 'a echo_dev_scheme" where
  "shutdown_tty d = d\<lparr>ec_connected := False\<rparr>"

text \<open>\<open>tty_insert_flip_string\<close> takes what fits; the driver ignores how much that was.\<close>

definition insert_flip :: "byte list \<Rightarrow> 'a echo_dev_scheme \<Rightarrow> 'a echo_dev_scheme" where
  "insert_flip tmp d = (let k = min (length tmp) (ec_room d)
     in d\<lparr>ec_rx := ec_rx d @ take k tmp, ec_room := ec_room d - k\<rparr>)"

definition schedule_work :: "'a echo_dev_scheme \<Rightarrow> 'a echo_dev_scheme" where
  "schedule_work d = d\<lparr>ec_queued := True\<rparr>"

text \<open>\<open>None\<close> is a tty without driver data.\<close>

definition write_room :: "'a echo_dev_scheme option \<Rightarrow> nat" where
  "write_room tty = (case tty of None \<Rightarrow> 0
     | Some d \<Rightarrow> (if \<not> ec_connected d then 0 else kfifo_avail tx_fifo_size (ec_tx_fifo d)))"

definition chars_in_buffer :: "'a echo_dev_scheme option \<Rightarrow> nat" where
  "chars_in_buffer tty = (case tty of None \<Rightarrow> 0 | Some d \<Rightarrow> length (ec_tx_fifo d))"

text \<open>One iteration of the loop of \<open>transmit_work\<close>, the loop, and the work item.\<close>

definition transmit_chunk :: "'a echo_dev_scheme \<Rightarrow> 'a echo_dev_scheme" where
  "transmit_chunk d = (case kfifo_out MAX_BUFFER (ec_tx_fifo d) of (tmp, q) \<Rightarrow> insert_flip tmp (d\<lparr>ec_tx_fifo := q\<rparr>))"

lemma transmit_chunk_fifo: "ec_tx_fifo (transmit_chunk d) = drop MAX_BUFFER (ec_tx_fifo d)"
  by (simp add: transmit_chunk_def kfifo_ops insert_flip_def Let_def)

function transmit_loop :: "'a echo_dev_scheme \<Rightarrow> 'a echo_dev_scheme" where
  "transmit_loop d = (if ec_tx_fifo d = [] then d else transmit_loop (transmit_chunk d))"
  by pat_completeness auto
termination
  by (relation "measure (\<lambda>d. length (ec_tx_fifo d))") (auto simp: transmit_chunk_fifo MAX_BUFFER_def)

declare transmit_loop.simps [simp del]

definition transmit_work :: "'a echo_dev_scheme \<Rightarrow> 'a echo_dev_scheme" where
  "transmit_work d = (let d1 = d\<lparr>ec_queued := False\<rparr>
     in if \<not> ec_connected d1 \<or> ec_stopped d1 then d1 else transmit_loop d1)"

definition tty_start :: "'a echo_dev_scheme \<Rightarrow> 'a echo_dev_scheme" where
  "tty_start d = (let d1 = d\<lparr>ec_stopped := False\<rparr>
     in if chars_in_buffer (Some d1) \<noteq> 0 then schedule_work d1 else d1)"

definition tty_stop :: "'a echo_dev_scheme \<Rightarrow> 'a echo_dev_scheme" where
  "tty_stop d = d\<lparr>ec_stopped := True, ec_queued := False\<rparr>"

text \<open>\<open>buf\<close> are the \<open>count\<close> bytes of the tty layer.\<close>

definition my_link_write :: "byte list \<Rightarrow> 'a echo_dev_scheme option \<Rightarrow> nat res \<times> 'a echo_dev_scheme option" where
  "my_link_write buf tty = (case tty of None \<Rightarrow> (Inl EIO, None)
     | Some d \<Rightarrow> (if \<not> ec_connected d \<or> ec_stopped d then (Inl EIO, tty)
         else case kfifo_in tx_fifo_size buf (ec_tx_fifo d) of (n, q) \<Rightarrow>
           (let d1 = d\<lparr>ec_tx_fifo := q\<rparr> in
            if n = 0 then (Inl EAGAIN, Some d1) else (Inr n, Some (schedule_work d1)))))"

definition fifo_ok :: "'a echo_dev_scheme \<Rightarrow> bool" where
  "fifo_ok d \<longleftrightarrow> length (ec_tx_fifo d) \<le> tx_fifo_size"

subsection \<open>What is written comes back\<close>

lemma transmit_loop_spec:
  "length (ec_tx_fifo d) \<le> ec_room d \<Longrightarrow>
    transmit_loop d = d\<lparr>ec_tx_fifo := [], ec_rx := ec_rx d @ ec_tx_fifo d, ec_room := ec_room d - length (ec_tx_fifo d)\<rparr>"
proof (induction d rule: transmit_loop.induct)
  case (1 d)
  show ?case
  proof (cases "ec_tx_fifo d = []")
    case True
    then show ?thesis by (simp add: transmit_loop.simps [of d])
  next
    case False
    define d1 where "d1 = transmit_chunk d"
    define k where "k = min MAX_BUFFER (length (ec_tx_fifo d))"
    have d1: "d1 = d\<lparr>ec_tx_fifo := drop MAX_BUFFER (ec_tx_fifo d), ec_rx := ec_rx d @ take MAX_BUFFER (ec_tx_fifo d),
        ec_room := ec_room d - k\<rparr>"
      using "1.prems" by (simp add: d1_def k_def transmit_chunk_def kfifo_ops insert_flip_def Let_def min_def)
    have "length (ec_tx_fifo d1) \<le> ec_room d1" using "1.prems" by (auto simp: d1 k_def)
    from "1.IH" [OF False, folded d1_def, OF this]
    have "transmit_loop d1 = d1\<lparr>ec_tx_fifo := [], ec_rx := ec_rx d1 @ ec_tx_fifo d1, ec_room := ec_room d1 - length (ec_tx_fifo d1)\<rparr>" .
    also have "\<dots> = d\<lparr>ec_tx_fifo := [], ec_rx := ec_rx d @ ec_tx_fifo d, ec_room := ec_room d - length (ec_tx_fifo d)\<rparr>"
      by (simp add: d1 k_def min_def)
    finally show ?thesis using False by (simp add: transmit_loop.simps [of d] d1_def)
  qed
qed

text \<open>On an open port that is not stopped a write is accepted up to the room of the fifo, and
  the work item then gives back all that was waiting and what was accepted, in order, and leaves
  the fifo empty; a write to a full fifo fails with \<open>EAGAIN\<close> and changes nothing.\<close>

lemma echo_write_echoes:
  assumes d: "ec_connected d" "\<not> ec_stopped d" "fifo_ok d" and room: "tx_fifo_size \<le> ec_room d" and buf: "buf \<noteq> []"
    and w: "my_link_write buf (Some d) = (r, Some d')"
  shows "if write_room (Some d) = 0 then r = Inl EAGAIN \<and> d' = d
    else (let n = min (length buf) (write_room (Some d)) in r = Inr n \<and> ec_queued d' \<and>
      ec_rx (transmit_work d') = ec_rx d @ ec_tx_fifo d @ take n buf \<and> ec_tx_fifo (transmit_work d') = [])"
proof -
  define n where "n = min (length buf) (write_room (Some d))"
  define d1 where "d1 = d\<lparr>ec_tx_fifo := ec_tx_fifo d @ take n buf\<rparr>"
  have in_eq: "kfifo_in tx_fifo_size buf (ec_tx_fifo d) = (n, ec_tx_fifo d1)"
    using d by (simp add: kfifo_ops n_def d1_def write_room_def Let_def)
  show ?thesis
  proof (cases "n = 0")
    case True
    then have "write_room (Some d) = 0" using buf by (simp add: n_def min_def split: if_splits)
    with True w d in_eq show ?thesis by (simp add: my_link_write_def d1_def)
  next
    case False
    then have "write_room (Some d) \<noteq> 0" by (auto simp: n_def)
    moreover have w2: "r = Inr n" "d' = schedule_work d1" using False w d in_eq by (auto simp: my_link_write_def d1_def)
    moreover have "length (ec_tx_fifo d1) \<le> ec_room d1"
      using d room by (auto simp: d1_def n_def write_room_def fifo_ok_def kfifo_avail_def)
    ultimately show ?thesis using d transmit_loop_spec [of "d'\<lparr>ec_queued := False\<rparr>"]
      by (simp add: transmit_work_def schedule_work_def d1_def n_def [symmetric])
  qed
qed

definition example_echo :: echo_dev where
  "example_echo = \<lparr>ec_connected = True, ec_tx_fifo = [7], ec_queued = False, ec_stopped = False, ec_rx = [], ec_room = 512\<rparr>"

lemma echo_write_echoes_witness:
  "\<exists>d'. my_link_write [1, 2] (Some example_echo) = (Inr 2, Some d') \<and> ec_rx (transmit_work d') = [7, 1, 2]"
proof -
  define d' where "d' = schedule_work (example_echo\<lparr>ec_tx_fifo := [7, 1, 2]\<rparr>)"
  have "my_link_write [1, 2] (Some example_echo) = (Inr 2, Some d')"
    by (simp add: my_link_write_def example_echo_def kfifo_ops tx_fifo_size_def d'_def)
  with echo_write_echoes [OF _ _ _ _ _ this] show ?thesis
    by (auto simp: example_echo_def fifo_ok_def tx_fifo_size_def write_room_def kfifo_avail_def)
qed

subsection \<open>Writer, flow control and work item interleaved\<close>

text \<open>
  The tty layer runs one writer at a time and one call of \<open>start\<close> or \<open>stop\<close> at a time.  A writer
  has checked the flags, then queued its bytes, then schedules the work; \<open>FStart\<close> has cleared
  \<open>stopped\<close> and looks at the fifo next, \<open>FStop\<close> has set it and cancels the work, which waits for
  a running one.  \<open>ey_accepted\<close> and \<open>ey_taken\<close> are the bytes put into and taken out of the fifo
  so far, \<open>ey_shut\<close> says whether the port has ever been shut down.
\<close>

datatype echo_flow = FIdle | FStart | FStop
datatype echo_writer = WIdle | WChecked "byte list" | WQueued

record echo_sys = echo_dev +
  ey_running :: bool
  ey_flow :: echo_flow
  ey_writer :: echo_writer
  ey_accepted :: "byte list"
  ey_taken :: "byte list"
  ey_shut :: bool

inductive echo_step :: "echo_sys \<Rightarrow> echo_sys \<Rightarrow> bool" where
  activate: "\<not> ec_connected s \<Longrightarrow> echo_step s (activate_tty s)"
| shutdown: "ec_connected s \<Longrightarrow> echo_step s ((shutdown_tty s)\<lparr>ey_shut := True\<rparr>)"
| write_check: "ey_writer s = WIdle \<Longrightarrow> ec_connected s \<Longrightarrow> \<not> ec_stopped s \<Longrightarrow> echo_step s (s\<lparr>ey_writer := WChecked buf\<rparr>)"
| write_fifo: "ey_writer s = WChecked buf \<Longrightarrow> kfifo_in tx_fifo_size buf (ec_tx_fifo s) = (n, q) \<Longrightarrow>
     echo_step s (s\<lparr>ec_tx_fifo := q, ey_accepted := ey_accepted s @ take n buf, ey_writer := (if n = 0 then WIdle else WQueued)\<rparr>)"
| write_schedule: "ey_writer s = WQueued \<Longrightarrow> echo_step s ((schedule_work s)\<lparr>ey_writer := WIdle\<rparr>)"
| start: "ey_flow s = FIdle \<Longrightarrow> echo_step s (s\<lparr>ec_stopped := False, ey_flow := FStart\<rparr>)"
| start_schedule: "ey_flow s = FStart \<Longrightarrow>
     echo_step s ((if ec_tx_fifo s \<noteq> [] then schedule_work s else s)\<lparr>ey_flow := FIdle\<rparr>)"
| stop: "ey_flow s = FIdle \<Longrightarrow> echo_step s (s\<lparr>ec_stopped := True, ey_flow := FStop\<rparr>)"
| stop_cancel: "ey_flow s = FStop \<Longrightarrow> \<not> ey_running s \<Longrightarrow> echo_step s (s\<lparr>ec_queued := False, ey_flow := FIdle\<rparr>)"
| work: "ec_queued s \<Longrightarrow> \<not> ey_running s \<Longrightarrow>
     echo_step s (s\<lparr>ec_queued := False, ey_running := ec_connected s \<and> \<not> ec_stopped s\<rparr>)"
| work_chunk: "ey_running s \<Longrightarrow> ec_tx_fifo s \<noteq> [] \<Longrightarrow>
     echo_step s ((transmit_chunk s)\<lparr>ey_taken := ey_taken s @ take MAX_BUFFER (ec_tx_fifo s)\<rparr>)"
| work_end: "ey_running s \<Longrightarrow> ec_tx_fifo s = [] \<Longrightarrow> echo_step s (s\<lparr>ey_running := False\<rparr>)"

definition echo_sys0 :: "nat \<Rightarrow> echo_sys" where
  "echo_sys0 room = \<lparr>ec_connected = False, ec_tx_fifo = [], ec_queued = False, ec_stopped = False, ec_rx = [], ec_room = room,
     ey_running = False, ey_flow = FIdle, ey_writer = WIdle, ey_accepted = [], ey_taken = [], ey_shut = False\<rparr>"

inductive echo_reach :: "nat \<Rightarrow> echo_sys \<Rightarrow> bool" for room where
  init: "echo_reach room (echo_sys0 room)"
| step: "echo_reach room s \<Longrightarrow> echo_step s s' \<Longrightarrow> echo_reach room s'"

text \<open>
  The order of the bytes; that a completed stop leaves no work running; and that bytes of a
  connected port that is not stopped never wait for nothing, unless it was shut down before.
\<close>

definition echo_order :: "nat \<Rightarrow> echo_sys \<Rightarrow> bool" where
  "echo_order room s \<longleftrightarrow> length (ec_tx_fifo s) \<le> tx_fifo_size \<and> ey_accepted s = ey_taken s @ ec_tx_fifo s \<and>
     length (ec_rx s) + ec_room s = room \<and> (length (ey_taken s) \<le> room \<longrightarrow> ec_rx s = ey_taken s)"

definition echo_quiet :: "echo_sys \<Rightarrow> bool" where
  "echo_quiet s \<longleftrightarrow> (ey_flow s = FStop \<longrightarrow> ec_stopped s) \<and> (ey_flow s = FStart \<longrightarrow> \<not> ec_stopped s) \<and>
     (ec_stopped s \<and> ey_flow s = FIdle \<longrightarrow> \<not> ey_running s)"

definition echo_driven :: "echo_sys \<Rightarrow> bool" where
  "echo_driven s \<longleftrightarrow> (\<not> ec_connected s \<and> \<not> ey_shut s \<longrightarrow> ec_tx_fifo s = [] \<and> ey_writer s = WIdle) \<and>
     (\<not> ey_shut s \<and> \<not> ec_stopped s \<and> ec_tx_fifo s \<noteq> [] \<longrightarrow>
        ec_queued s \<or> ey_running s \<or> ey_flow s = FStart \<or> ey_writer s = WQueued)"

lemmas echo_ops = activate_tty_def shutdown_tty_def schedule_work_def kfifo_ops transmit_chunk_def
  insert_flip_def Let_def

lemma take_min_room: "min (length xs) n \<le> r \<Longrightarrow> take (min r n) xs = take n xs"
  by (auto simp: min_def split: if_splits)

lemma echo_order_step:
  assumes "echo_step s s'" and "echo_order room s"
  shows "echo_order room s'"
  using assms
proof (induction rule: echo_step.induct)
  case (write_fifo s buf n q)
  with kfifo_in_bounded [OF _ write_fifo(2)] show ?case by (auto simp: echo_order_def)
next
  case (work_chunk s)
  then show ?case by (auto simp: echo_order_def echo_ops take_min_room)
qed (auto simp: echo_order_def echo_ops)

lemma echo_quiet_step: "echo_step s s' \<Longrightarrow> echo_quiet s \<Longrightarrow> echo_quiet s'"
  by (induction rule: echo_step.induct) (auto simp: echo_quiet_def echo_ops)

lemma echo_driven_step: "echo_step s s' \<Longrightarrow> echo_quiet s \<Longrightarrow> echo_driven s \<Longrightarrow> echo_driven s'"
  by (induction rule: echo_step.induct) (auto simp: echo_driven_def echo_quiet_def echo_ops)

lemma echo_reach_inv: "echo_reach room s \<Longrightarrow> echo_order room s \<and> echo_quiet s \<and> echo_driven s"
proof (induction rule: echo_reach.induct)
  case init
  then show ?case by (simp add: echo_order_def echo_quiet_def echo_driven_def echo_sys0_def)
next
  case (step s s')
  then show ?case using echo_order_step echo_quiet_step echo_driven_step by blast
qed


lemma echo_accept_reach:
  "echo_reach room (echo_sys0 room\<lparr>ec_connected := True, ec_tx_fifo := [1], ey_accepted := [1], ey_writer := WQueued\<rparr>)"
proof -
  have 1: "echo_reach room (echo_sys0 room\<lparr>ec_connected := True\<rparr>)"
    using echo_reach.step [OF echo_reach.init echo_step.activate, of room] by (simp add: echo_sys0_def activate_tty_def)
  have 2: "echo_reach room (echo_sys0 room\<lparr>ec_connected := True, ey_writer := WChecked [1]\<rparr>)"
    using echo_reach.step [OF 1 echo_step.write_check [of _ "[1]"]] by (simp add: echo_sys0_def)
  show ?thesis
    using echo_reach.step [OF 2 echo_step.write_fifo [OF _ refl [THEN trans [OF prod.collapse [symmetric]]]]]
    by (simp add: echo_sys0_def kfifo_ops tx_fifo_size_def Let_def)
qed


text \<open>After a shutdown this fails: bytes still in the fifo when the port is closed stay there,
  and when it is opened again no work item is scheduled for them and no step but a new write,
  \<open>start\<close>, \<open>stop\<close> or shutdown changes that.\<close>

lemma echo_stuck_after_reopen:
  "\<exists>s. echo_reach room s \<and> ec_connected s \<and> \<not> ec_stopped s \<and> ec_tx_fifo s = [1] \<and> ey_writer s = WIdle \<and> ey_flow s = FIdle \<and>
     (\<forall>s'. echo_step s s' \<longrightarrow> ec_tx_fifo s' = [1] \<and> \<not> ec_queued s' \<and> \<not> ey_running s' \<and>
        (ec_connected s' \<and> ey_writer s' = WIdle \<and> ey_flow s' = FIdle \<longrightarrow> s' = s))"
proof -
  define s1 where "s1 = echo_sys0 room\<lparr>ec_connected := True, ec_tx_fifo := [1], ey_accepted := [1]\<rparr>"
  have 1: "echo_reach room (s1\<lparr>ec_queued := True\<rparr>)"
    using echo_reach.step [OF echo_accept_reach echo_step.write_schedule, of room] by (simp add: echo_sys0_def schedule_work_def s1_def)
  have 2: "echo_reach room (s1\<lparr>ec_queued := True, ec_connected := False, ey_shut := True\<rparr>)"
    using echo_reach.step [OF 1 echo_step.shutdown] by (simp add: echo_sys0_def shutdown_tty_def s1_def)
  have 3: "echo_reach room (s1\<lparr>ec_connected := False, ey_shut := True\<rparr>)"
    using echo_reach.step [OF 2 echo_step.work] by (simp add: echo_sys0_def s1_def)
  have 4: "echo_reach room (s1\<lparr>ey_shut := True\<rparr>)"
    using echo_reach.step [OF 3 echo_step.activate] by (simp add: echo_sys0_def s1_def activate_tty_def)
  show ?thesis
  proof (intro exI conjI allI impI)
    show "echo_reach room (s1\<lparr>ey_shut := True\<rparr>)" by (rule 4)
  next
    fix s'
    assume st: "echo_step (s1\<lparr>ey_shut := True\<rparr>) s'"
    show "ec_tx_fifo s' = [1]" "\<not> ec_queued s'" "\<not> ey_running s'"
      using st by (cases; simp add: s1_def echo_sys0_def shutdown_tty_def)+
    show "ec_connected s' \<and> ey_writer s' = WIdle \<and> ey_flow s' = FIdle \<Longrightarrow> s' = s1\<lparr>ey_shut := True\<rparr>"
      using st by (cases; simp add: s1_def echo_sys0_def shutdown_tty_def)
  qed (simp_all add: s1_def echo_sys0_def)
qed

subsection \<open>Loading and unloading\<close>

datatype tty_resource = TtyDriver | Registered | Links | TtyPort nat | TxFifo nat | TtyDevice nat

record tty_env =
  te_alloc :: "unit res"
  te_register :: "unit res"
  te_links :: bool
  te_fifo :: "nat \<Rightarrow> unit res"
  te_device :: "nat \<Rightarrow> unit res"

text \<open>One iteration of the loop of \<open>tty_init\<close>, the loop over \<open>n\<close> more ports, and the unwinding.\<close>

definition init_port :: "tty_env \<Rightarrow> nat \<Rightarrow> tty_resource list \<Rightarrow> unit res \<times> tty_resource list" where
  "init_port e i held =
     (let h1 = TtyPort i # held in
      case te_fifo e i of Inl x \<Rightarrow> (Inl x, h1)
      | Inr _ \<Rightarrow> (let h2 = TxFifo i # h1 in
          case te_device e i of Inl x \<Rightarrow> (Inl x, removeAll (TxFifo i) h2)
          | Inr _ \<Rightarrow> (Inr (), TtyDevice i # h2)))"

fun init_ports :: "tty_env \<Rightarrow> nat \<Rightarrow> nat \<Rightarrow> tty_resource list \<Rightarrow> unit res \<times> nat \<times> tty_resource list" where
  "init_ports e 0 i held = (Inr (), i, held)"
| "init_ports e (Suc n) i held = (case init_port e i held of
     (Inl x, h) \<Rightarrow> (Inl x, i, h) | (Inr _, h) \<Rightarrow> init_ports e n (Suc i) h)"

definition release_port :: "nat \<Rightarrow> tty_resource list \<Rightarrow> tty_resource list" where
  "release_port i held = removeAll (TtyPort i) (removeAll (TxFifo i) (removeAll (TtyDevice i) held))"

fun unwind_ports :: "nat \<Rightarrow> tty_resource list \<Rightarrow> tty_resource list" where
  "unwind_ports 0 held = held"
| "unwind_ports (Suc i) held = unwind_ports i (release_port i held)"

definition err_unreg_driver :: "tty_resource list \<Rightarrow> tty_resource list" where
  "err_unreg_driver held = removeAll TtyDriver (removeAll Registered held)"

definition tty_init :: "tty_env \<Rightarrow> unit res \<times> tty_resource list" where
  "tty_init e =
     (case te_alloc e of Inl x \<Rightarrow> (Inl x, [])
      | Inr _ \<Rightarrow> (let h1 = [TtyDriver] in
      case te_register e of Inl x \<Rightarrow> (Inl x, removeAll TtyDriver h1)
      | Inr _ \<Rightarrow> (let h2 = Registered # h1 in
      if \<not> te_links e then (Inl ENOMEM, err_unreg_driver h2)
      else case init_ports e MAX_PORTS 0 (Links # h2) of
          (Inl x, i, h) \<Rightarrow> (Inl x, err_unreg_driver (removeAll Links (unwind_ports i h)))
        | (Inr _, i, h) \<Rightarrow> (Inr (), h))))"

definition tty_exit :: "tty_resource list \<Rightarrow> tty_resource list" where
  "tty_exit held = removeAll Links (removeAll TtyDriver (removeAll Registered (fold release_port [0..<MAX_PORTS] held)))"

lemma two_ports: "(\<exists>i<MAX_PORTS. P i) \<longleftrightarrow> P 0 \<or> P 1" "(\<forall>i<MAX_PORTS. P i) \<longleftrightarrow> P 0 \<and> P 1" "[0..<MAX_PORTS] = [0, 1]"
  "init_ports e MAX_PORTS 0 held = init_ports e (Suc (Suc 0)) 0 held"
  by (auto simp: MAX_PORTS_def numeral_2_eq_2 less_Suc_eq)

text \<open>Loading the tty sets up the driver with its two ports, and unloading releases all of it; a
  failed load releases everything but, at most, the port at which it failed, which is initialised
  and never destroyed.\<close>

lemma echo_load:
  "case tty_init e of
     (Inl _, held) \<Rightarrow> held = [] \<or> (\<exists>i<MAX_PORTS. held = [TtyPort i])
   | (Inr _, held) \<Rightarrow> length held = 9 \<and> (\<forall>i<MAX_PORTS. {TtyPort i, TxFifo i, TtyDevice i} \<subseteq> set held) \<and> tty_exit held = []"
  by (simp add: tty_init_def tty_exit_def two_ports init_port_def release_port_def err_unreg_driver_def Let_def split: sum.split)

subsection \<open>Opening and closing a port\<close>

text \<open>
  \<open>port_open\<close> and \<open>port_close\<close> are \<open>tty_port_open\<close> and \<open>tty_port_close\<close> of the kernel on the port of
  a device.  The result: what open returns, the driver data of the tty (the number of its device),
  the devices.
\<close>

definition my_link_open :: "('d \<Rightarrow> unit res \<times> 'd) \<Rightarrow> nat \<Rightarrow> 'd list \<Rightarrow> unit res \<times> nat option \<times> 'd list" where
  "my_link_open port_open index links = (case port_open (links ! index) of (r, d) \<Rightarrow> (r, Some index, links[index := d]))"

definition my_link_close :: "('d \<Rightarrow> 'd) \<Rightarrow> nat option \<Rightarrow> 'd list \<Rightarrow> 'd list run" where
  "my_link_close port_close driver_data links = (case driver_data of None \<Rightarrow> Inl NullDeref
     | Some i \<Rightarrow> Inr (links[i := port_close (links ! i)]))"

record echo_port = echo_dev +
  ep_count :: nat

text \<open>The kernel counts the opens of a port; the first one activates it, the last close shuts it down.\<close>

definition port_counts :: "(echo_port \<Rightarrow> unit res \<times> echo_port) \<Rightarrow> (echo_port \<Rightarrow> echo_port) \<Rightarrow> bool" where
  "port_counts port_open port_close \<longleftrightarrow>
     (\<forall>d. port_open d = (Inr (), (if ep_count d = 0 then activate_tty d else d)\<lparr>ep_count := ep_count d + 1\<rparr>)) \<and>
     (\<forall>d. ep_count d > 0 \<longrightarrow> port_close d = (if ep_count d = 1 then shutdown_tty d else d)\<lparr>ep_count := ep_count d - 1\<rparr>)"

definition links_ok :: "echo_port list \<Rightarrow> bool" where
  "links_ok links \<longleftrightarrow> (\<forall>d\<in>set links. ec_connected d \<longleftrightarrow> 0 < ep_count d)"

text \<open>A port is connected, and takes bytes, exactly while somebody has it open.\<close>

lemma link_open_connects:
  assumes "port_counts po pc" and "links_ok links" and "i < length links" and "my_link_open po i links = (r, dd, links')"
  shows "r = Inr () \<and> dd = Some i \<and> links_ok links' \<and> ep_count (links' ! i) = ep_count (links ! i) + 1 \<and> ec_connected (links' ! i)"
proof -
  have "ec_connected (links ! i) \<longleftrightarrow> 0 < ep_count (links ! i)" using assms(2,3) by (simp add: links_ok_def)
  with assms show ?thesis
    by (auto simp: my_link_open_def port_counts_def links_ok_def activate_tty_def dest: set_update_subset_insert [THEN subsetD])
qed

lemma link_close_disconnects:
  assumes "port_counts po pc" and "links_ok links" and "i < length links" and "0 < ep_count (links ! i)"
    and "my_link_close pc (Some i) links = Inr links'"
  shows "links_ok links' \<and> ep_count (links' ! i) = ep_count (links ! i) - 1 \<and> (write_room (Some (links' ! i)) = 0 \<longleftrightarrow>
    ep_count (links ! i) = 1 \<or> kfifo_avail tx_fifo_size (ec_tx_fifo (links ! i)) = 0)"
proof -
  have c: "ec_connected (links ! i)" using assms(2-4) by (simp add: links_ok_def)
  have l: "links' = links[i := (if ep_count (links ! i) = 1 then shutdown_tty (links ! i) else links ! i)\<lparr>ep_count := ep_count (links ! i) - 1\<rparr>]"
    using assms(1,4,5) by (simp add: my_link_close_def port_counts_def)
  show ?thesis using assms(2-4) c unfolding l
    by (auto simp: links_ok_def shutdown_tty_def write_room_def dest: set_update_subset_insert [THEN subsetD])
qed

text \<open>A failed load of the module may leave something; an unload does not.\<close>

interpretation echo_mod: loadable "\<lambda>e. Inr (tty_init e)" "\<lambda>h. Inr (tty_exit h)" "\<lambda>h. h = []" "\<lambda>_. True"
  by (rule loadableI) (use echo_load in \<open>fastforce split: sum.splits prod.splits\<close>)

end
