(* ===== verification/CNumbers.thy ===== *)
theory CNumbers
  imports KernelPrelude Complex_Main
begin

unbundle bit_operations_syntax

text \<open>
  The numbers of a C program in user space, as \<open>ch13_usb/uacctl.c\<close> uses them: values of type
  \<open>double\<close>, and \<open>strtol\<close> and \<open>strtod\<close> on C strings.  A double is a rational, an infinity or not a
  number.  How a result is rounded is a parameter \<open>rnd\<close> of the arithmetic, of which
  \<open>ieee_rounding\<close> states what is used: numbers of few bits are exact, and the order is kept.
\<close>

subsection \<open>Doubles\<close>

datatype double = Fin rat | PInf | NInf | NaN

type_synonym rounding = "rat \<Rightarrow> double"

fun dneg :: "double \<Rightarrow> double" where
  "dneg (Fin a) = Fin (- a)"
| "dneg PInf = NInf"
| "dneg NInf = PInf"
| "dneg NaN = NaN"

fun dadd :: "rounding \<Rightarrow> double \<Rightarrow> double \<Rightarrow> double" where
  "dadd rnd (Fin a) (Fin b) = rnd (a + b)"
| "dadd rnd NaN y = NaN"
| "dadd rnd x NaN = NaN"
| "dadd rnd PInf NInf = NaN"
| "dadd rnd NInf PInf = NaN"
| "dadd rnd PInf y = PInf"
| "dadd rnd NInf y = NInf"
| "dadd rnd x PInf = PInf"
| "dadd rnd x NInf = NInf"

definition dsub :: "rounding \<Rightarrow> double \<Rightarrow> double \<Rightarrow> double" where
  "dsub rnd x y = dadd rnd x (dneg y)"

fun dsgn :: "double \<Rightarrow> int" where
  "dsgn (Fin a) = (if a < 0 then - 1 else if a = 0 then 0 else 1)"
| "dsgn PInf = 1"
| "dsgn NInf = - 1"
| "dsgn NaN = 0"

definition signed_inf :: "int \<Rightarrow> double" where
  "signed_inf k = (if 0 < k then PInf else if k < 0 then NInf else NaN)"

fun dmul :: "rounding \<Rightarrow> double \<Rightarrow> double \<Rightarrow> double" where
  "dmul rnd (Fin a) (Fin b) = rnd (a * b)"
| "dmul rnd NaN y = NaN"
| "dmul rnd x NaN = NaN"
| "dmul rnd x y = signed_inf (dsgn x * dsgn y)"

fun ddiv :: "rounding \<Rightarrow> double \<Rightarrow> double \<Rightarrow> double" where
  "ddiv rnd (Fin a) (Fin b) = (if b = 0 then signed_inf (dsgn (Fin a)) else rnd (a / b))"
| "ddiv rnd NaN y = NaN"
| "ddiv rnd x NaN = NaN"
| "ddiv rnd (Fin a) y = Fin 0"
| "ddiv rnd x (Fin b) = signed_inf (dsgn x * (if b < 0 then - 1 else 1))"
| "ddiv rnd x y = NaN"

fun dless :: "double \<Rightarrow> double \<Rightarrow> bool" where
  "dless (Fin a) (Fin b) \<longleftrightarrow> a < b"
| "dless NaN y \<longleftrightarrow> False"
| "dless x NaN \<longleftrightarrow> False"
| "dless x NInf \<longleftrightarrow> False"
| "dless NInf y \<longleftrightarrow> True"
| "dless PInf y \<longleftrightarrow> False"
| "dless x PInf \<longleftrightarrow> True"

definition dle :: "double \<Rightarrow> double \<Rightarrow> bool" where
  "dle x y \<longleftrightarrow> dless x y \<or> (x = y \<and> x \<noteq> NaN)"

definition of_i :: "int \<Rightarrow> double" where
  "of_i k = Fin (of_int k)"

text \<open>The conversion \<open>(int)\<close>: towards zero, and only of what fits.\<close>

fun to_int :: "double \<Rightarrow> int run" where
  "to_int (Fin r) = (let k = (if r < 0 then \<lceil>r\<rceil> else \<lfloor>r\<rfloor>) in if - (2 ^ 31) \<le> k \<and> k < 2 ^ 31 then Inr k else Inl BadConversion)"
| "to_int d = Inl BadConversion"

text \<open>Exact up to 53 bits; it keeps the order of numbers of the size that occurs; and it is a number.\<close>

definition ieee_rounding :: "rounding \<Rightarrow> bool" where
  "ieee_rounding rnd \<longleftrightarrow> (\<forall>k e. \<bar>k\<bar> < 2 ^ 53 \<and> e \<le> 60 \<longrightarrow> rnd (of_int k / 2 ^ e) = Fin (of_int k / 2 ^ e)) \<and>
     (\<forall>a b. a \<le> b \<and> - (2 ^ 52) \<le> a \<and> b \<le> 2 ^ 52 \<longrightarrow> (\<exists>x y. rnd a = Fin x \<and> rnd b = Fin y \<and> x \<le> y)) \<and> (\<forall>a. rnd a \<noteq> NaN)"

lemma ieee_exact: "ieee_rounding rnd \<Longrightarrow> \<bar>k\<bar> < 2 ^ 53 \<Longrightarrow> e \<le> 60 \<Longrightarrow> rnd (of_int k / 2 ^ e) = Fin (of_int k / 2 ^ e)"
  by (simp add: ieee_rounding_def)

lemma ieee_int: "ieee_rounding rnd \<Longrightarrow> \<bar>k\<bar> < 2 ^ 53 \<Longrightarrow> rnd (of_int k) = Fin (of_int k)"
  using ieee_exact [of rnd k 0] by simp

lemma ieee_mono: "ieee_rounding rnd \<Longrightarrow> a \<le> b \<Longrightarrow> - (2 ^ 52) \<le> a \<Longrightarrow> b \<le> 2 ^ 52 \<Longrightarrow> \<exists>x y. rnd a = Fin x \<and> rnd b = Fin y \<and> x \<le> y"
  unfolding ieee_rounding_def by blast

lemma ieee_rounding_Fin: "ieee_rounding Fin"
  by (simp add: ieee_rounding_def)

subsection \<open>Characters\<close>

definition code :: "char \<Rightarrow> nat" where
  "code c = of_char c"

definition isspace :: "char \<Rightarrow> bool" where
  "isspace c \<longleftrightarrow> code c = 32 \<or> 9 \<le> code c \<and> code c \<le> 13"

text \<open>The value of a digit or letter; 99 for any other character.\<close>

definition digit_val :: "char \<Rightarrow> nat" where
  "digit_val c = (let k = code c in
     if 48 \<le> k \<and> k \<le> 57 then k - 48
     else if 65 \<le> k \<and> k \<le> 90 then k - 55
     else if 97 \<le> k \<and> k \<le> 122 then k - 87 else 99)"

definition lower :: "char \<Rightarrow> nat" where
  "lower c = (if 65 \<le> code c \<and> code c \<le> 90 then code c + 32 else code c)"

definition digits :: "nat \<Rightarrow> string \<Rightarrow> string" where
  "digits base s = takeWhile (\<lambda>c. digit_val c < base) s"

definition digits_val :: "nat \<Rightarrow> string \<Rightarrow> nat" where
  "digits_val base ds = foldl (\<lambda>v c. v * base + digit_val c) 0 ds"

fun sign_of :: "string \<Rightarrow> bool \<times> string" where
  "sign_of [] = (False, [])"
| "sign_of (c # s) = (if code c = 45 then (True, s) else if code c = 43 then (False, s) else (False, c # s))"

definition starts_hex :: "string \<Rightarrow> bool" where
  "starts_hex s \<longleftrightarrow> 2 \<le> length s \<and> code (s ! 0) = 48 \<and> lower (s ! 1) = 120"

subsection \<open>\<open>strtol(s, &end, 0)\<close>\<close>

text \<open>The value, how many characters were used, and whether it was out of the range of a \<open>long\<close>.\<close>

definition strtol :: "string \<Rightarrow> int \<times> nat \<times> bool" where
  "strtol s = (let s1 = dropWhile isspace s in case sign_of s1 of (neg, s2) \<Rightarrow>
     let hex = starts_hex s2 \<and> digits 16 (drop 2 s2) \<noteq> [];
         base = (if hex then 16 else if s2 \<noteq> [] \<and> code (hd s2) = 48 then 8 else 10);
         s3 = (if hex then drop 2 s2 else s2); ds = digits base s3
     in if ds = [] then (0, 0, False)
        else let v = (if neg then - int (digits_val base ds) else int (digits_val base ds));
                 used = length s - length s3 + length ds in
          if v < - (2 ^ 63) then (- (2 ^ 63), used, True)
          else if 2 ^ 63 - 1 < v then (2 ^ 63 - 1, used, True) else (v, used, False))"

subsection \<open>\<open>atoi\<close>: \<open>strtol\<close> in base 10, converted to an \<open>int\<close>\<close>

definition atoi :: "string \<Rightarrow> int" where
  "atoi s = (case sign_of (dropWhile isspace s) of (neg, r) \<Rightarrow>
     let v = int (digits_val 10 (digits 10 r)) in s32 (if neg then max (- (2 ^ 63)) (- v) else min (2 ^ 63 - 1) v))"

subsection \<open>\<open>strtod\<close>\<close>

definition pow_z :: "rat \<Rightarrow> int \<Rightarrow> rat" where
  "pow_z b e = (if 0 \<le> e then b ^ nat e else 1 / b ^ nat (- e))"

text \<open>Digits with an optional point: their value and the length used, 0 when there is no digit.\<close>

definition mantissa :: "nat \<Rightarrow> string \<Rightarrow> rat \<times> nat" where
  "mantissa base s = (let ip = digits base s; r = drop (length ip) s;
       point = (r \<noteq> [] \<and> code (hd r) = 46); fp = (if point then digits base (tl r) else [])
     in if ip = [] \<and> fp = [] then (0, 0)
        else (of_nat (digits_val base (ip @ fp)) * pow_z (of_nat base) (- int (length fp)), length ip + (if point then 1 + length fp else 0)))"

text \<open>An exponent after the letter \<open>letter\<close>: its value and the length used, 0 when it is not complete.\<close>

definition exponent :: "nat \<Rightarrow> string \<Rightarrow> int \<times> nat" where
  "exponent letter s =
     (if s = [] \<or> lower (hd s) \<noteq> letter then (0, 0)
      else case sign_of (tl s) of (neg, r) \<Rightarrow> (let ds = digits 10 r in
        if ds = [] then (0, 0)
        else ((if neg then - int (digits_val 10 ds) else int (digits_val 10 ds)), length s - length r + length ds)))"

definition word_at :: "nat list \<Rightarrow> string \<Rightarrow> bool" where
  "word_at w s \<longleftrightarrow> take (length w) (map lower s) = w"

text \<open>\<open>nan\<close> may be followed by characters in parentheses.\<close>

definition nan_length :: "string \<Rightarrow> nat" where
  "nan_length s = (let r = drop 3 s; body = takeWhile (\<lambda>c. digit_val c < 36 \<or> code c = 95) (drop 1 r)
     in if r \<noteq> [] \<and> code (hd r) = 40 \<and> drop (1 + length body) r \<noteq> [] \<and> code (r ! (1 + length body)) = 41 then 5 + length body else 3)"

definition unsigned_strtod :: "rounding \<Rightarrow> string \<Rightarrow> (bool \<Rightarrow> double) \<times> nat" where
  "unsigned_strtod rnd s =
     (if word_at [105, 110, 102, 105, 110, 105, 116, 121] s then (\<lambda>neg. if neg then NInf else PInf, 8)
      else if word_at [105, 110, 102] s then (\<lambda>neg. if neg then NInf else PInf, 3)
      else if word_at [110, 97, 110] s then (\<lambda>neg. NaN, nan_length s)
      else case (if starts_hex s then mantissa 16 (drop 2 s) else (0, 0)) of (hv, hn) \<Rightarrow>
        if 0 < hn then (case exponent 112 (drop (2 + hn) s) of (e, en) \<Rightarrow>
          let v = hv * pow_z 2 e in (\<lambda>neg. rnd (if neg then - v else v), 2 + hn + en))
        else (case mantissa 10 s of (m, mn) \<Rightarrow>
          if mn = 0 then (\<lambda>neg. Fin 0, 0)
          else case exponent 101 (drop mn s) of (e, en) \<Rightarrow>
            let v = m * pow_z 10 e in (\<lambda>neg. rnd (if neg then - v else v), mn + en)))"

definition strtod :: "rounding \<Rightarrow> string \<Rightarrow> double \<times> nat" where
  "strtod rnd s = (let s1 = dropWhile isspace s in case sign_of s1 of (neg, s2) \<Rightarrow>
     case unsigned_strtod rnd s2 of (f, n) \<Rightarrow>
       if n = 0 then (Fin 0, 0) else (f neg, length s - length s2 + n))"

lemma strtod_example: "strtod Fin ''-10.5dB'' = (Fin (- 21 / 2), 5)"
  by (simp add: strtod_def unsigned_strtod_def word_at_def lower_def code_def isspace_def starts_hex_def mantissa_def digits_def
      digit_val_def digits_val_def exponent_def pow_z_def Let_def)

end
