(* ===== verification/UacControl.thy ===== *)
theory UacControl
  imports KernelPrelude
begin

unbundle bit_operations_syntax

text \<open>
  The control path of the USB audio driver (\<open>ch13_usb/uac_ctrl.c\<close>): volume and mute through
  control messages, the ioctl, and the search of the feature unit among the descriptors.  The
  device is a parameter: what it answers to a control message, and how the message changes it.
\<close>

subsection \<open>Requests\<close>

definition CH_MASTER :: nat where "CH_MASTER = 0"
definition CH_L :: nat where "CH_L = 1"
definition CH_R :: nat where "CH_R = 2"
definition UAC_SET_CUR :: nat where "UAC_SET_CUR = 0x01"
definition UAC_GET_CUR :: nat where "UAC_GET_CUR = 0x81"
definition UAC_GET_MIN :: nat where "UAC_GET_MIN = 0x82"
definition UAC_GET_MAX :: nat where "UAC_GET_MAX = 0x83"
definition UAC_GET_RES :: nat where "UAC_GET_RES = 0x84"
definition UAC_FU_MUTE :: nat where "UAC_FU_MUTE = 0x01"
definition UAC_FU_VOLUME :: nat where "UAC_FU_VOLUME = 0x02"
definition UAC_FU_DESCRIPTOR :: byte where "UAC_FU_DESCRIPTOR = 0x06"
definition USB_DT_CS_INTERFACE :: byte where "USB_DT_CS_INTERFACE = 0x24"

definition uac_wValue :: "nat \<Rightarrow> nat \<Rightarrow> nat" where
  "uac_wValue cs ch = (push_bit 8 cs OR ch) mod 2 ^ 16"

definition uac_wIndex :: "nat \<Rightarrow> nat \<Rightarrow> nat" where
  "uac_wIndex fu_id ifnum = (push_bit 8 fu_id OR ifnum) mod 2 ^ 16"

lemmas uac_requests = CH_MASTER_def CH_L_def CH_R_def UAC_SET_CUR_def UAC_GET_CUR_def UAC_GET_MIN_def UAC_GET_MAX_def
  UAC_GET_RES_def UAC_FU_MUTE_def UAC_FU_VOLUME_def

text \<open>
  \<open>uh_in hw request value index s\<close> are the bytes the device returns, \<open>uh_out\<close> how many of the
  bytes sent it took and its next state; either may be an error of the USB core.
\<close>

record 's uac_hw =
  uh_in :: "nat \<Rightarrow> nat \<Rightarrow> nat \<Rightarrow> 's \<Rightarrow> byte list res"
  uh_out :: "nat \<Rightarrow> nat \<Rightarrow> nat \<Rightarrow> byte list \<Rightarrow> 's \<Rightarrow> nat res \<times> 's"

record uac_ctl =
  uc_ac_ifnum :: nat
  uc_fu_id :: nat
  uc_max_vol :: int
  uc_min_vol :: int
  uc_res_vol :: int

definition le16 :: "int \<Rightarrow> byte list" where
  "le16 v = [word_of_int v, word_of_int (v div 256)]"

definition le16_s16 :: "byte list \<Rightarrow> int" where
  "le16_s16 bs = s16 (uint (bs ! 0) + 256 * uint (bs ! 1))"

lemma length_le16 [simp]: "length (le16 v) = 2"
  by (simp add: le16_def)

lemma le16_s16_le16: "- (2 ^ 15) \<le> v \<Longrightarrow> v < 2 ^ 15 \<Longrightarrow> le16_s16 (le16 v) = v"
proof -
  assume v: "- (2 ^ 15) \<le> v" "v < 2 ^ 15"
  have "v mod 256 + 256 * (v div 256 mod 256) = v mod (256 * 256)"
    using zmod_zmult2_eq [of 256 v 256] by simp
  then show ?thesis using v by (simp add: le16_s16_def le16_def unsigned_of_int take_bit_eq_mod s16_def mod_simps)
qed

subsection \<open>Volume and mute\<close>

text \<open>The rounding to the next step, with the result cut to 16 bits before it is clamped.\<close>

definition round_vol :: "uac_ctl \<Rightarrow> int \<Rightarrow> int run" where
  "round_vol d vol =
     (if uc_res_vol d = 0 then Inl DivByZero
      else let offset = s32 (vol - uc_min_vol d);
               steps = s32 (s32 (offset + uc_res_vol d sdiv 2) sdiv uc_res_vol d * uc_res_vol d);
               v = s16 (uc_min_vol d + steps);
               v1 = (if v < uc_min_vol d then uc_min_vol d else v)
      in Inr (if uc_max_vol d < v1 then uc_max_vol d else v1))"

definition uac_set_volume_ch :: "'s uac_hw \<Rightarrow> uac_ctl \<Rightarrow> nat \<Rightarrow> int \<Rightarrow> bool \<Rightarrow> 's \<Rightarrow> (unit res \<times> 's) run" where
  "uac_set_volume_ch hw d ch vol alloc s =
     (if \<not> alloc then Inr (Inl ENOMEM, s)
      else case round_vol d vol of Inl x \<Rightarrow> Inl x
      | Inr v \<Rightarrow> (case uh_out hw UAC_SET_CUR (uac_wValue UAC_FU_VOLUME ch) (uac_wIndex (uc_fu_id d) (uc_ac_ifnum d)) (le16 v) s of
            (Inl e, s1) \<Rightarrow> Inr (Inl e, s1)
          | (Inr n, s1) \<Rightarrow> Inr (if n \<noteq> 2 then Inl EIO else Inr (), s1)))"

definition uac_set_volume :: "'s uac_hw \<Rightarrow> uac_ctl \<Rightarrow> int \<Rightarrow> bool list \<Rightarrow> 's \<Rightarrow> (unit res \<times> 's) run" where
  "uac_set_volume hw d vol allocs s =
     (case kalloc allocs of (a1, allocs1) \<Rightarrow>
      case uac_set_volume_ch hw d CH_L vol a1 s of Inl x \<Rightarrow> Inl x
      | Inr (Inl e, s1) \<Rightarrow> Inr (Inl e, s1)
      | Inr (Inr _, s1) \<Rightarrow> (case kalloc allocs1 of (a2, _) \<Rightarrow> uac_set_volume_ch hw d CH_R vol a2 s1))"

definition uac_get_volume_param :: "'s uac_hw \<Rightarrow> uac_ctl \<Rightarrow> nat \<Rightarrow> nat \<Rightarrow> bool \<Rightarrow> 's \<Rightarrow> int res" where
  "uac_get_volume_param hw d ch parameter alloc s =
     (if \<not> alloc then Inl ENOMEM
      else case uh_in hw parameter (uac_wValue UAC_FU_VOLUME ch) (uac_wIndex (uc_fu_id d) (uc_ac_ifnum d)) s of
        Inl e \<Rightarrow> Inl e
      | Inr bs \<Rightarrow> (if length bs \<noteq> 2 then Inl EIO else Inr (le16_s16 bs)))"

definition uac_get_volume :: "'s uac_hw \<Rightarrow> uac_ctl \<Rightarrow> nat \<Rightarrow> bool list \<Rightarrow> 's \<Rightarrow> int res \<times> bool list" where
  "uac_get_volume hw d parameter allocs s =
     (case kalloc allocs of (a1, allocs1) \<Rightarrow>
      case uac_get_volume_param hw d CH_L parameter a1 s of Inl e \<Rightarrow> (Inl e, allocs1)
      | Inr l \<Rightarrow> (case kalloc allocs1 of (a2, allocs2) \<Rightarrow>
          case uac_get_volume_param hw d CH_R parameter a2 s of Inl e \<Rightarrow> (Inl e, allocs2)
          | Inr r \<Rightarrow> (Inr (s16 (s32 (l + r) sdiv 2)), allocs2)))"

definition uac_get_mute :: "'s uac_hw \<Rightarrow> uac_ctl \<Rightarrow> bool \<Rightarrow> 's \<Rightarrow> bool res" where
  "uac_get_mute hw d alloc s =
     (if \<not> alloc then Inl ENOMEM
      else case uh_in hw UAC_GET_CUR (uac_wValue UAC_FU_MUTE CH_MASTER) (uac_wIndex (uc_fu_id d) (uc_ac_ifnum d)) s of
        Inl e \<Rightarrow> Inl e
      | Inr bs \<Rightarrow> (if length bs \<noteq> 1 then Inl EIO else Inr (bs ! 0 = 1)))"

definition uac_set_mute :: "'s uac_hw \<Rightarrow> uac_ctl \<Rightarrow> bool \<Rightarrow> bool \<Rightarrow> 's \<Rightarrow> unit res \<times> 's" where
  "uac_set_mute hw d mute alloc s =
     (if \<not> alloc then (Inl ENOMEM, s)
      else case uh_out hw UAC_SET_CUR (uac_wValue UAC_FU_MUTE CH_MASTER) (uac_wIndex (uc_fu_id d) (uc_ac_ifnum d))
          [if mute then 1 else 0] s of
        (Inl e, s1) \<Rightarrow> (Inl e, s1)
      | (Inr n, s1) \<Rightarrow> (if n \<noteq> 1 then Inl EIO else Inr (), s1))"

subsection \<open>The ioctl\<close>

definition UAC_IOC_SET_MUTE :: nat where "UAC_IOC_SET_MUTE = IOC 1 117 0 4"
definition UAC_IOC_GET_MUTE :: nat where "UAC_IOC_GET_MUTE = IOC 2 117 1 4"
definition UAC_IOC_GET_MIN_VOL :: nat where "UAC_IOC_GET_MIN_VOL = IOC 2 117 2 4"
definition UAC_IOC_GET_MAX_VOL :: nat where "UAC_IOC_GET_MAX_VOL = IOC 2 117 3 4"
definition UAC_IOC_GET_RES_VOL :: nat where "UAC_IOC_GET_RES_VOL = IOC 2 117 4 4"
definition UAC_IOC_SET_VOL :: nat where "UAC_IOC_SET_VOL = IOC 1 117 5 4"
definition UAC_IOC_GET_VOL :: nat where "UAC_IOC_GET_VOL = IOC 2 117 6 4"

lemmas uac_ioc = UAC_IOC_SET_MUTE_def UAC_IOC_GET_MUTE_def UAC_IOC_GET_MIN_VOL_def UAC_IOC_GET_MAX_VOL_def
  UAC_IOC_GET_RES_VOL_def UAC_IOC_SET_VOL_def UAC_IOC_GET_VOL_def IOC_def

text \<open>
  What the user has at the address, \<open>None\<close> when it cannot be read, and whether it can be written;
  and what is written there.
\<close>

record uac_arg =
  ua_mute :: "bool option"
  ua_vol :: "int option"
  ua_writable :: bool

datatype uac_out = OutNone | OutMute bool | OutVol int

definition uac_ioctl :: "'s uac_hw \<Rightarrow> uac_ctl \<Rightarrow> nat \<Rightarrow> uac_arg \<Rightarrow> bool list \<Rightarrow> 's \<Rightarrow> (uac_out res \<times> 's) run" where
  "uac_ioctl hw d cmd arg allocs s =
     (let get = (\<lambda>parameter. Inr (case uac_get_volume hw d parameter allocs s of
            (Inl e, _) \<Rightarrow> Inl e
          | (Inr v, _) \<Rightarrow> (if ua_writable arg then Inr (OutVol v) else Inl EFAULT), s))
      in if cmd = UAC_IOC_SET_MUTE then
          (case ua_mute arg of None \<Rightarrow> Inr (Inl EFAULT, s)
           | Some m \<Rightarrow> (case uac_set_mute hw d m (fst (kalloc allocs)) s of
               (Inl e, s1) \<Rightarrow> Inr (Inl e, s1) | (Inr _, s1) \<Rightarrow> Inr (Inr OutNone, s1)))
        else if cmd = UAC_IOC_GET_MUTE then
          Inr (case uac_get_mute hw d (fst (kalloc allocs)) s of
              Inl e \<Rightarrow> Inl e | Inr m \<Rightarrow> (if ua_writable arg then Inr (OutMute m) else Inl EFAULT), s)
        else if cmd = UAC_IOC_GET_MIN_VOL then get UAC_GET_MIN
        else if cmd = UAC_IOC_GET_MAX_VOL then get UAC_GET_MAX
        else if cmd = UAC_IOC_GET_RES_VOL then get UAC_GET_RES
        else if cmd = UAC_IOC_GET_VOL then get UAC_GET_CUR
        else if cmd = UAC_IOC_SET_VOL then
          (case ua_vol arg of None \<Rightarrow> Inr (Inl EFAULT, s)
           | Some v \<Rightarrow> (if v < uc_min_vol d \<or> uc_max_vol d < v then Inr (Inl EINVAL, s)
               else case uac_set_volume hw d v allocs s of
                 Inl x \<Rightarrow> Inl x | Inr (Inl e, s1) \<Rightarrow> Inr (Inl e, s1) | Inr (Inr _, s1) \<Rightarrow> Inr (Inr OutNone, s1)))
        else Inr (Inl EINVAL, s))"

subsection \<open>The feature unit\<close>

text \<open>The loop over the extra descriptors of the control interface.\<close>

function find_fu :: "byte list \<Rightarrow> nat res" where
  "find_fu ptr =
     (if length ptr \<le> 3 then Inl ENODEV
      else let d_len = unat (ptr ! 0) in
        if d_len = 0 \<or> length ptr < d_len then Inl EINVAL
        else if ptr ! 1 = USB_DT_CS_INTERFACE \<and> ptr ! 2 = UAC_FU_DESCRIPTOR then Inr (unat (ptr ! 3))
        else find_fu (drop d_len ptr))"
  by pat_completeness auto
termination
  by (relation "measure length") auto

declare find_fu.simps [simp del]

definition uac_parse_feature_unit :: "'s uac_hw \<Rightarrow> nat \<Rightarrow> byte list \<Rightarrow> uac_ctl \<Rightarrow> bool list \<Rightarrow> 's \<Rightarrow> unit res \<times> uac_ctl" where
  "uac_parse_feature_unit hw ifnum extra d allocs s =
     (let d1 = d\<lparr>uc_ac_ifnum := ifnum\<rparr> in
      case find_fu extra of Inl e \<Rightarrow> (Inl e, d1)
      | Inr fu \<Rightarrow> (let d2 = d1\<lparr>uc_fu_id := fu\<rparr> in
          case uac_get_volume hw d2 UAC_GET_MIN allocs s of (Inl e, _) \<Rightarrow> (Inl e, d2)
          | (Inr v, a1) \<Rightarrow> (let d3 = d2\<lparr>uc_min_vol := v\<rparr> in
              case uac_get_volume hw d3 UAC_GET_MAX a1 s of (Inl e, _) \<Rightarrow> (Inl e, d3)
              | (Inr v, a2) \<Rightarrow> (let d4 = d3\<lparr>uc_max_vol := v\<rparr> in
                  case uac_get_volume hw d4 UAC_GET_RES a2 s of (Inl e, _) \<Rightarrow> (Inl e, d4)
                  | (Inr v, _) \<Rightarrow> (Inr (), d4\<lparr>uc_res_vol := v\<rparr>)))))"

subsection \<open>Rounding the volume\<close>

definition uac_ctl_ok :: "uac_ctl \<Rightarrow> bool" where
  "uac_ctl_ok d \<longleftrightarrow> - (2 ^ 15) \<le> uc_min_vol d \<and> uc_max_vol d < 2 ^ 15 \<and> 0 < uc_res_vol d \<and> uc_res_vol d < 2 ^ 15"

text \<open>The nearest multiple of \<open>r\<close>.\<close>

lemma nearest_step:
  assumes "0 < (r::int)" and "0 \<le> x"
  defines "k \<equiv> (x + r div 2) div r"
  shows "0 \<le> k * r" and "k * r \<le> x + r div 2" and "x \<le> k * r + r div 2"
proof -
  have eq: "k * r + (x + r div 2) mod r = x + r div 2" by (simp add: k_def)
  moreover have "0 \<le> (x + r div 2) mod r" "(x + r div 2) mod r < r" using assms(1) by simp_all
  moreover have "r - 1 - r div 2 \<le> r div 2" by presburger
  ultimately show "k * r \<le> x + r div 2" "x \<le> k * r + r div 2" by linarith+
  show "0 \<le> k * r" using assms by (simp add: k_def pos_imp_zdiv_nonneg_iff)
qed

lemma round_vol_eq:
  assumes "uac_ctl_ok d" and "uc_min_vol d \<le> vol" and "vol \<le> uc_max_vol d"
  shows "round_vol d vol = Inr (min (uc_max_vol d) (max (uc_min_vol d)
    (s16 (uc_min_vol d + (vol - uc_min_vol d + uc_res_vol d div 2) div uc_res_vol d * uc_res_vol d))))"
proof -
  define x where "x = vol - uc_min_vol d"
  define r where "r = uc_res_vol d"
  have r: "0 < r" "r < 2 ^ 15" and x: "0 \<le> x" "x < 2 ^ 16" using assms by (simp_all add: uac_ctl_ok_def x_def r_def)
  note step = nearest_step [OF r(1) x(1)]
  have "0 \<le> (x + r div 2) div r" using r x by (simp add: pos_imp_zdiv_nonneg_iff)
  moreover from this have "(x + r div 2) div r \<le> x + r div 2"
    using mult_left_mono [of 1 r "(x + r div 2) div r"] r step(2) by simp
  ultimately have "s32 (s32 (s32 x + r sdiv 2) sdiv r * r) = (x + r div 2) div r * r"
    using r x step by (simp add: s32_id sdiv_nonneg)
  then show ?thesis using r
    by (simp add: round_vol_def x_def [symmetric] r_def [symmetric] Let_def min_def max_def)
qed

text \<open>A requested volume in the range of the device is sent rounded to the nearest step: within
  half a step of the request, in the range, and a whole number of steps above the minimum unless it
  is the maximum -- as long as half a step above the maximum still is a 16-bit value.\<close>

lemma uac_volume_steps:
  assumes ok: "uac_ctl_ok d" and vol: "uc_min_vol d \<le> vol" "vol \<le> uc_max_vol d"
    and top: "uc_max_vol d + uc_res_vol d div 2 < 2 ^ 15"
  shows "\<exists>v. round_vol d vol = Inr v \<and> uc_min_vol d \<le> v \<and> v \<le> uc_max_vol d \<and> \<bar>v - vol\<bar> \<le> uc_res_vol d div 2 \<and>
    (v = uc_max_vol d \<or> uc_res_vol d dvd v - uc_min_vol d)"
proof -
  define k where "k = (vol - uc_min_vol d + uc_res_vol d div 2) div uc_res_vol d * uc_res_vol d"
  have r: "0 < uc_res_vol d" and x: "0 \<le> vol - uc_min_vol d" using ok vol by (simp_all add: uac_ctl_ok_def)
  note step = nearest_step [OF r x, folded k_def]
  have "s16 (uc_min_vol d + k) = uc_min_vol d + k" using step ok vol top by (intro s16_id) (auto simp: uac_ctl_ok_def)
  then have "round_vol d vol = Inr (min (uc_max_vol d) (uc_min_vol d + k))"
    using round_vol_eq [OF ok vol] step by (simp add: k_def [symmetric])
  moreover have "uc_res_vol d dvd k" by (simp add: k_def)
  ultimately show ?thesis using step vol by (auto simp: min_def)
qed

definition example_ctl :: uac_ctl where
  "example_ctl = \<lparr>uc_ac_ifnum = 0, uc_fu_id = 2, uc_max_vol = 2048, uc_min_vol = - 32767, uc_res_vol = 136\<rparr>"

lemma uac_volume_steps_witness:
  "\<exists>v. round_vol example_ctl 1000 = Inr v \<and> \<bar>v - 1000\<bar> \<le> 68 \<and> 136 dvd v + 32767"
  using uac_volume_steps [of example_ctl 1000]
  by (auto simp: example_ctl_def uac_ctl_ok_def round_vol_def s32_def s16_def sdiv_nonneg Let_def)

text \<open>Without that room the rounded value wraps to a negative one: for a device whose minimum is
  at least -16384, a request that rounds past 32767 sets the minimum volume.\<close>

lemma uac_volume_overflow:
  assumes ok: "uac_ctl_ok d" and vol: "uc_min_vol d \<le> vol" "vol \<le> uc_max_vol d" and min: "- 16384 \<le> uc_min_vol d"
    and past: "2 ^ 15 \<le> uc_min_vol d + (vol - uc_min_vol d + uc_res_vol d div 2) div uc_res_vol d * uc_res_vol d"
  shows "round_vol d vol = Inr (uc_min_vol d)"
proof -
  define v where "v = uc_min_vol d + (vol - uc_min_vol d + uc_res_vol d div 2) div uc_res_vol d * uc_res_vol d"
  have r: "0 < uc_res_vol d" "uc_res_vol d < 2 ^ 15" and x: "0 \<le> vol - uc_min_vol d" using ok vol by (simp_all add: uac_ctl_ok_def)
  have "v \<le> vol + uc_res_vol d div 2" using nearest_step(2) [OF r(1) x] by (simp add: v_def)
  moreover have "uc_res_vol d div 2 \<le> 16383" using r by simp
  ultimately have v: "2 ^ 15 \<le> v" "v < 2 ^ 15 + 16383" using past ok vol r by (simp_all add: uac_ctl_ok_def v_def)
  have "s16 v = v - 2 ^ 16"
  proof -
    have "(v + 2 ^ 15) mod 2 ^ 16 = (v + 2 ^ 15 - 2 ^ 16) mod 2 ^ 16" by (metis minus_mod_self2)
    also have "\<dots> = v - 2 ^ 15" using v by (subst mod_pos_pos_trivial) auto
    finally show ?thesis by (simp add: s16_def)
  qed
  with round_vol_eq [OF ok vol] v min vol show ?thesis by (auto simp: v_def [symmetric])
qed

lemma uac_volume_overflow_witness:
  "round_vol \<lparr>uc_ac_ifnum = 0, uc_fu_id = 2, uc_max_vol = 32767, uc_min_vol = 0, uc_res_vol = 256\<rparr> 32767 = Inr 0"
  using uac_volume_overflow [of "\<lparr>uc_ac_ifnum = 0, uc_fu_id = 2, uc_max_vol = 32767, uc_min_vol = 0, uc_res_vol = 256\<rparr>" 32767]
  by (simp add: uac_ctl_ok_def)

subsection \<open>Set and get\<close>

text \<open>A device that keeps the volume of each channel.\<close>

definition uac_stores :: "'s uac_hw \<Rightarrow> bool" where
  "uac_stores hw \<longleftrightarrow> (\<forall>ch\<in>{CH_L, CH_R}. \<forall>ch'\<in>{CH_L, CH_R}. \<forall>index v s.
     case uh_out hw UAC_SET_CUR (uac_wValue UAC_FU_VOLUME ch) index (le16 v) s of (r, s') \<Rightarrow>
       r = Inr 2 \<and> uh_in hw UAC_GET_CUR (uac_wValue UAC_FU_VOLUME ch') index s' =
         (if ch' = ch then Inr (le16 v) else uh_in hw UAC_GET_CUR (uac_wValue UAC_FU_VOLUME ch') index s))"

lemma uac_stores_set:
  assumes "uac_stores hw" and "ch \<in> {CH_L, CH_R}"
  shows "\<exists>s'. uh_out hw UAC_SET_CUR (uac_wValue UAC_FU_VOLUME ch) index (le16 v) s = (Inr 2, s') \<and>
    uh_in hw UAC_GET_CUR (uac_wValue UAC_FU_VOLUME ch) index s' = Inr (le16 v) \<and>
    (\<forall>ch'\<in>{CH_L, CH_R} - {ch}. uh_in hw UAC_GET_CUR (uac_wValue UAC_FU_VOLUME ch') index s' =
       uh_in hw UAC_GET_CUR (uac_wValue UAC_FU_VOLUME ch') index s)"
proof -
  obtain r s' where o: "uh_out hw UAC_SET_CUR (uac_wValue UAC_FU_VOLUME ch) index (le16 v) s = (r, s')"
    by (cases "uh_out hw UAC_SET_CUR (uac_wValue UAC_FU_VOLUME ch) index (le16 v) s")
  have law: "r = Inr 2 \<and> uh_in hw UAC_GET_CUR (uac_wValue UAC_FU_VOLUME ch') index s' =
      (if ch' = ch then Inr (le16 v) else uh_in hw UAC_GET_CUR (uac_wValue UAC_FU_VOLUME ch') index s)"
    if "ch' \<in> {CH_L, CH_R}" for ch'
  proof -
    have "case uh_out hw UAC_SET_CUR (uac_wValue UAC_FU_VOLUME ch) index (le16 v) s of (r, s') \<Rightarrow>
       r = Inr 2 \<and> uh_in hw UAC_GET_CUR (uac_wValue UAC_FU_VOLUME ch') index s' =
         (if ch' = ch then Inr (le16 v) else uh_in hw UAC_GET_CUR (uac_wValue UAC_FU_VOLUME ch') index s)"
      using assms(1) [unfolded uac_stores_def, THEN bspec [of _ _ ch], OF assms(2), THEN bspec [of _ _ ch'], OF that]
      by (elim allE)
    then show ?thesis unfolding o by simp
  qed
  from law [OF assms(2)] have "r = Inr 2" "uh_in hw UAC_GET_CUR (uac_wValue UAC_FU_VOLUME ch) index s' = Inr (le16 v)" by simp_all
  with o law show ?thesis by auto
qed

lemma uac_set_get:
  assumes hw: "uac_stores hw" and ok: "uac_ctl_ok d" and vol: "uc_min_vol d \<le> vol" "vol \<le> uc_max_vol d"
  shows "\<exists>v s1. round_vol d vol = Inr v \<and> - (2 ^ 15) \<le> v \<and> v < 2 ^ 15 \<and> uac_set_volume hw d vol [] s = Inr (Inr (), s1) \<and>
    fst (uac_get_volume hw d UAC_GET_CUR [] s1) = Inr v"
proof -
  define v where "v = min (uc_max_vol d) (max (uc_min_vol d)
    (s16 (uc_min_vol d + (vol - uc_min_vol d + uc_res_vol d div 2) div uc_res_vol d * uc_res_vol d)))"
  have r: "round_vol d vol = Inr v" using round_vol_eq [OF ok vol] by (simp add: v_def)
  have v: "- (2 ^ 15) \<le> v" "v < 2 ^ 15" using ok vol by (auto simp: uac_ctl_ok_def v_def)
  define ix where "ix = uac_wIndex (uc_fu_id d) (uc_ac_ifnum d)"
  from uac_stores_set [OF hw, of CH_L ix v s] obtain s1
    where s1: "uh_out hw UAC_SET_CUR (uac_wValue UAC_FU_VOLUME CH_L) ix (le16 v) s = (Inr 2, s1)"
      "uh_in hw UAC_GET_CUR (uac_wValue UAC_FU_VOLUME CH_L) ix s1 = Inr (le16 v)" by blast
  have mem: "CH_L \<in> {CH_L, CH_R} - {CH_R}" "CH_R \<in> {CH_L, CH_R}" by (simp_all add: CH_L_def CH_R_def)
  from uac_stores_set [OF hw mem(2), of ix v s1] obtain s2
    where s2: "uh_out hw UAC_SET_CUR (uac_wValue UAC_FU_VOLUME CH_R) ix (le16 v) s1 = (Inr 2, s2)"
      "uh_in hw UAC_GET_CUR (uac_wValue UAC_FU_VOLUME CH_R) ix s2 = Inr (le16 v)"
      "\<forall>ch'\<in>{CH_L, CH_R} - {CH_R}. uh_in hw UAC_GET_CUR (uac_wValue UAC_FU_VOLUME ch') ix s2 =
        uh_in hw UAC_GET_CUR (uac_wValue UAC_FU_VOLUME ch') ix s1" by blast
  have l: "uh_in hw UAC_GET_CUR (uac_wValue UAC_FU_VOLUME CH_L) ix s2 = Inr (le16 v)"
    using s2(3) mem(1) s1(2) by (metis (no_types))
  have set: "uac_set_volume hw d vol [] s = Inr (Inr (), s2)"
    using s1 s2 r by (simp add: uac_set_volume_def uac_set_volume_ch_def ix_def [symmetric])
  have avg: "s16 (s32 (v + v) sdiv 2) = v"
  proof -
    have "(2 * v) sdiv 2 = v" by (simp add: signed_divide_int_def sgn_mult abs_mult mult_sgn_abs)
    then show ?thesis using v by (simp add: s32_id s16_id mult_2 [symmetric] del: mult_2)
  qed
  have get: "fst (uac_get_volume hw d UAC_GET_CUR [] s2) = Inr v"
    using s2 l avg le16_s16_le16 [OF v] by (simp add: uac_get_volume_def uac_get_volume_param_def ix_def [symmetric])
  show ?thesis using r set get v by (intro exI [of _ v] exI [of _ s2]) simp
qed

text \<open>On a device that keeps its volume, a volume in its range that is set is the one that is read
  back, rounded to a step.\<close>

lemma uac_volume_roundtrip:
  assumes hw: "uac_stores hw" and ok: "uac_ctl_ok d" and vol: "uc_min_vol d \<le> vol" "vol \<le> uc_max_vol d"
  shows "\<exists>v s1. round_vol d vol = Inr v \<and>
    uac_ioctl hw d UAC_IOC_SET_VOL \<lparr>ua_mute = None, ua_vol = Some vol, ua_writable = True\<rparr> [] s = Inr (Inr OutNone, s1) \<and>
    uac_ioctl hw d UAC_IOC_GET_VOL \<lparr>ua_mute = None, ua_vol = None, ua_writable = True\<rparr> [] s1 = Inr (Inr (OutVol v), s1)"
  using uac_set_get [OF assms, of s] vol by (fastforce simp: uac_ioctl_def uac_ioc split: prod.splits)

definition example_uac_hw :: "(nat \<Rightarrow> byte list) uac_hw" where
  "example_uac_hw = \<lparr>uh_in = (\<lambda>request value index s. Inr (s value)),
     uh_out = (\<lambda>request value index bs s. (Inr (length bs), s(value := bs)))\<rparr>"

lemma example_uac_hw_ok: "uac_stores example_uac_hw"
proof -
  have "uac_wValue UAC_FU_VOLUME CH_L = 513" "uac_wValue UAC_FU_VOLUME CH_R = 514"
    by (simp_all add: uac_wValue_def uac_requests push_bit_eq_mult)
  then show ?thesis by (auto simp: uac_stores_def example_uac_hw_def)
qed

lemma uac_volume_roundtrip_witness:
  "\<exists>s1. uac_ioctl example_uac_hw example_ctl UAC_IOC_SET_VOL \<lparr>ua_mute = None, ua_vol = Some 1000, ua_writable = True\<rparr> [] (\<lambda>_. []) =
     Inr (Inr OutNone, s1) \<and>
   uac_ioctl example_uac_hw example_ctl UAC_IOC_GET_VOL \<lparr>ua_mute = None, ua_vol = None, ua_writable = True\<rparr> [] s1 =
     Inr (Inr (OutVol 961), s1)"
proof -
  have "round_vol example_ctl 1000 = Inr 961"
    by (simp add: round_vol_def example_ctl_def s32_def s16_def sdiv_nonneg Let_def)
  with uac_volume_roundtrip [OF example_uac_hw_ok, of example_ctl 1000 "\<lambda>_. []"] show ?thesis
    by (auto simp: example_ctl_def uac_ctl_ok_def)
qed

subsection \<open>The search of the feature unit\<close>

text \<open>A descriptor gives its length in its first byte; a feature unit has at least four bytes.\<close>

definition is_fu :: "byte list \<Rightarrow> bool" where
  "is_fu ds \<longleftrightarrow> ds ! 1 = USB_DT_CS_INTERFACE \<and> ds ! 2 = UAC_FU_DESCRIPTOR"

definition descriptor_ok :: "byte list \<Rightarrow> bool" where
  "descriptor_ok ds \<longleftrightarrow> 3 \<le> length ds \<and> length ds = unat (ds ! 0) \<and> (is_fu ds \<longrightarrow> 4 \<le> length ds)"

lemma find_fu_Cons:
  assumes "descriptor_ok d" and "4 \<le> length d + length rest"
  shows "find_fu (d @ rest) = (if is_fu d then Inr (unat (d ! 3)) else find_fu rest)"
proof -
  have l: "3 \<le> length d" "length d = unat (d ! 0)" using assms by (auto simp: descriptor_ok_def)
  then have "(d @ rest) ! 0 = d ! 0" "(d @ rest) ! 1 = d ! 1" "(d @ rest) ! 2 = d ! 2" "is_fu d \<Longrightarrow> (d @ rest) ! 3 = d ! 3"
    using assms(1) by (auto simp: nth_append descriptor_ok_def)
  then show ?thesis
    using l assms(2) by (cases "is_fu d") (auto simp: find_fu.simps [of "d @ rest"] is_fu_def Let_def)
qed

text \<open>Among well-formed descriptors the loop finds the first feature unit, and none exactly when there
  is none.\<close>

lemma find_fu_first:
  assumes "\<forall>d\<in>set ds. descriptor_ok d"
  shows "find_fu (concat ds) = (case find is_fu ds of Some d \<Rightarrow> Inr (unat (d ! 3)) | None \<Rightarrow> Inl ENODEV)"
  using assms
proof (induction ds)
  case Nil
  then show ?case by (simp add: find_fu.simps)
next
  case (Cons d ds)
  then have d: "descriptor_ok d" by simp
  show ?case
  proof (cases "4 \<le> length d + length (concat ds)")
    case True
    with find_fu_Cons [OF d True] Cons show ?thesis by simp
  next
    case False
    then have l: "length d = 3" "length (concat ds) = 0" and "\<not> is_fu d"
      using d unfolding descriptor_ok_def by linarith+
    moreover have "ds = []" using Cons.prems l(2) by (cases ds) (auto simp: descriptor_ok_def)
    ultimately show ?thesis by (simp add: find_fu.simps)
  qed
qed

lemma find_fu_first_witness:
  "find_fu (concat [[4, 0x24, 1, 0], [5, 0x24, 6, 2, 1]]) = Inr 2"
proof -
  have "\<forall>d\<in>set [[4, 0x24, 1, 0], [5, 0x24, 6, 2, 1 :: byte]]. descriptor_ok d"
    by (simp add: descriptor_ok_def is_fu_def USB_DT_CS_INTERFACE_def UAC_FU_DESCRIPTOR_def)
  from find_fu_first [OF this] show ?thesis by (simp add: is_fu_def USB_DT_CS_INTERFACE_def UAC_FU_DESCRIPTOR_def)
qed

end
