(* ===== verification/UacTool.thy ===== *)
theory UacTool
  imports CNumbers UacControl
begin

unbundle bit_operations_syntax

text \<open>
  The command line tool of the USB audio driver (\<open>ch13_usb/uacctl.c\<close>): it reads a volume given
  as a number of 1/256 dB, in dB or in percent of the range, and talks to the driver by \<open>ioctl\<close>.
  \<open>rnd\<close> rounds the arithmetic of doubles.  \<open>ioctl\<close> is a function of the request, the integer at
  the address and the state behind it, and gives the integer that is there afterwards.
\<close>

type_synonym 's ioctl_fn = "nat \<Rightarrow> int \<Rightarrow> 's \<Rightarrow> (int res \<times> 's) run"

definition se16 :: "int \<Rightarrow> int" where
  "se16 v = s16 (v AND 0xFFFF)"

definition lo8 :: "int \<Rightarrow> int" where
  "lo8 v = v AND 0xFF"

definition ioctl_get_int :: "'s ioctl_fn \<Rightarrow> nat \<Rightarrow> int \<Rightarrow> 's \<Rightarrow> (int res \<times> 's) run" where
  "ioctl_get_int ioctl req out s = ioctl req out s"

definition ioctl_set_int :: "'s ioctl_fn \<Rightarrow> nat \<Rightarrow> int \<Rightarrow> 's \<Rightarrow> (unit res \<times> 's) run" where
  "ioctl_set_int ioctl req val s = (case ioctl req val s of Inl x \<Rightarrow> Inl x
     | Inr (Inl e, s1) \<Rightarrow> Inr (Inl e, s1) | Inr (Inr _, s1) \<Rightarrow> Inr (Inr (), s1))"

subsection \<open>Volumes\<close>

definition q88_to_db :: "rounding \<Rightarrow> int \<Rightarrow> double" where
  "q88_to_db rnd q88 = ddiv rnd (of_i q88) (Fin 256)"

definition db_to_q88 :: "rounding \<Rightarrow> double \<Rightarrow> int run" where
  "db_to_q88 rnd db =
     (let q = dmul rnd db (Fin 256);
          q1 = (if dle (Fin 0) q then dadd rnd q (Fin (1 / 2)) else dsub rnd q (Fin (1 / 2)));
          q2 = (if dless q1 (Fin (- 32768)) then Fin (- 32768) else q1);
          q3 = (if dless (Fin 32767) q2 then Fin 32767 else q2)
      in to_int q3)"

definition clampi :: "int \<Rightarrow> int \<Rightarrow> int \<Rightarrow> int" where
  "clampi v lo hi = (if v < lo then lo else if v > hi then hi else v)"

text \<open>In type \<open>long\<close>, where nothing overflows.\<close>

definition snap_to_res :: "int \<Rightarrow> int \<Rightarrow> int \<Rightarrow> int \<Rightarrow> int" where
  "snap_to_res v mn mx res =
     (let step = (if res \<le> 0 then 1 else res); off = v - mn;
          snapped = (off + step sdiv 2) sdiv step * step; out = mn + snapped;
          out1 = (if out < mn then mn else out); out2 = (if out1 > mx then mx else out1)
      in s32 out2)"

datatype volfmt = FMT_DEFAULT | FMT_RAW | FMT_DB | FMT_PCT

text \<open>What is printed; the texts around the numbers are left out.\<close>

datatype uline = LInt int | LVol double double | LDb double | LUsage | LError string | LErrno errno | LApplied uline

definition print_vol :: "rounding \<Rightarrow> int \<Rightarrow> int \<Rightarrow> int \<Rightarrow> volfmt \<Rightarrow> uline" where
  "print_vol rnd q88 min_q88 max_q88 fmt =
     (if fmt = FMT_RAW then LInt q88
      else let db = q88_to_db rnd q88; db_min = q88_to_db rnd min_q88; db_max = q88_to_db rnd max_q88;
               pct = (if db_max \<noteq> db_min
                 then ddiv rnd (dmul rnd (Fin 100) (dsub rnd db db_min)) (dsub rnd db_max db_min) else Fin 0);
               pct1 = (if dless pct (Fin 0) then Fin 0 else pct); pct2 = (if dless (Fin 100) pct1 then Fin 100 else pct1)
           in LVol db pct2)"

text \<open>The three reads and their correction; on an error nothing is kept.\<close>

definition load_limits :: "'s ioctl_fn \<Rightarrow> 's \<Rightarrow> ((int \<times> int \<times> int) res \<times> 's) run" where
  "load_limits ioctl s =
     (case ioctl_get_int ioctl UAC_IOC_GET_MIN_VOL 0 s of Inl x \<Rightarrow> Inl x
      | Inr (Inl e, s1) \<Rightarrow> Inr (Inl e, s1)
      | Inr (Inr mn, s1) \<Rightarrow> (case ioctl_get_int ioctl UAC_IOC_GET_MAX_VOL 0 s1 of Inl x \<Rightarrow> Inl x
        | Inr (Inl e, s2) \<Rightarrow> Inr (Inl e, s2)
        | Inr (Inr mx, s2) \<Rightarrow> (case ioctl_get_int ioctl UAC_IOC_GET_RES_VOL 0 s2 of Inl x \<Rightarrow> Inl x
          | Inr (Inl e, s3) \<Rightarrow> Inr (Inl e, s3)
          | Inr (Inr rs, s3) \<Rightarrow> (let mn1 = se16 mn; mx1 = se16 mx; rs1 = se16 rs; rs2 = (if rs1 \<le> 0 then 1 else rs1)
              in Inr (Inr (if mn1 > mx1 then (mx1, mn1, rs2) else (mn1, mx1, rs2)), s3)))))"

text \<open>What all branches of the parser end with.\<close>

definition apply_q88 :: "int \<Rightarrow> int \<Rightarrow> int \<Rightarrow> int \<Rightarrow> int" where
  "apply_q88 q mn mx res = clampi (snap_to_res q mn mx res) mn mx"

definition volume_of_db :: "rounding \<Rightarrow> double \<Rightarrow> int \<Rightarrow> int \<Rightarrow> int \<Rightarrow> int res run" where
  "volume_of_db rnd db mn mx res = (case db_to_q88 rnd db of Inl x \<Rightarrow> Inl x | Inr q \<Rightarrow> Inr (Inr (apply_q88 q mn mx res)))"

definition volume_of_pct :: "rounding \<Rightarrow> double \<Rightarrow> int \<Rightarrow> int \<Rightarrow> int \<Rightarrow> int res run" where
  "volume_of_pct rnd pct mn mx res =
     (let pct1 = (if dless pct (Fin 0) then Fin 0 else pct); pct2 = (if dless (Fin 100) pct1 then Fin 100 else pct1);
          db_min = q88_to_db rnd mn; db_max = q88_to_db rnd mx;
          db = dadd rnd db_min (dmul rnd (ddiv rnd pct2 (Fin 100)) (dsub rnd db_max db_min))
      in case db_to_q88 rnd db of Inl x \<Rightarrow> Inl x | Inr q \<Rightarrow> Inr (Inr (apply_q88 q mn mx res)))"

definition parse_volume_arg :: "rounding \<Rightarrow> string \<Rightarrow> volfmt \<Rightarrow> int \<Rightarrow> int \<Rightarrow> int \<Rightarrow> int res run" where
  "parse_volume_arg rnd s hint mn mx res =
     (let n = length s in
      if n \<ge> 2 \<and> lower (s ! (n - 2)) = 100 \<and> lower (s ! (n - 1)) = 98 then
        (case strtod rnd s of (db, used) \<Rightarrow> if used \<noteq> n - 2 then Inr (Inl EINVAL) else volume_of_db rnd db mn mx res)
      else if n \<ge> 1 \<and> code (s ! (n - 1)) = 37 then
        (case strtod rnd s of (pct, used) \<Rightarrow> if used \<noteq> n - 1 then Inr (Inl EINVAL) else volume_of_pct rnd pct mn mx res)
      else if hint = FMT_DB then
        (case strtod rnd s of (db, used) \<Rightarrow> if used = 0 \<or> used \<noteq> n then Inr (Inl EINVAL) else volume_of_db rnd db mn mx res)
      else if hint = FMT_PCT then
        (case strtod rnd s of (pct, used) \<Rightarrow> if used = 0 \<or> used \<noteq> n then Inr (Inl EINVAL) else volume_of_pct rnd pct mn mx res)
      else (case strtol s of (v, used, erange) \<Rightarrow>
          if used = 0 \<or> used \<noteq> n \<or> erange then Inr (Inl EINVAL) else Inr (Inr (apply_q88 (s32 v) mn mx res))))"

subsection \<open>The commands\<close>

text \<open>Each gives the exit code, the lines printed and the state behind the device.\<close>

type_synonym 's outcome = "(int \<times> uline list \<times> 's) run"

definition cmd_get_mute :: "'s ioctl_fn \<Rightarrow> 's \<Rightarrow> 's outcome" where
  "cmd_get_mute ioctl s = (case ioctl_get_int ioctl UAC_IOC_GET_MUTE 0 s of Inl x \<Rightarrow> Inl x
     | Inr (Inl e, s1) \<Rightarrow> Inr (1, [LErrno e], s1) | Inr (Inr v, s1) \<Rightarrow> Inr (0, [LInt (lo8 v)], s1))"

definition cmd_set_mute :: "'s ioctl_fn \<Rightarrow> string list \<Rightarrow> 's \<Rightarrow> 's outcome" where
  "cmd_set_mute ioctl args s = (case args of [] \<Rightarrow> Inr (2, [LError ''set-mute''], s)
     | a # _ \<Rightarrow> (case ioctl_set_int ioctl UAC_IOC_SET_MUTE (if atoi a \<noteq> 0 then 1 else 0) s of Inl x \<Rightarrow> Inl x
         | Inr (Inl e, s1) \<Rightarrow> Inr (1, [LErrno e], s1) | Inr (Inr _, s1) \<Rightarrow> Inr (0, [], s1)))"

definition cmd_get_vol :: "rounding \<Rightarrow> 's ioctl_fn \<Rightarrow> volfmt \<Rightarrow> 's \<Rightarrow> 's outcome" where
  "cmd_get_vol rnd ioctl fmt s = (case load_limits ioctl s of Inl x \<Rightarrow> Inl x
     | Inr (Inl e, s1) \<Rightarrow> Inr (1, [LErrno e], s1)
     | Inr (Inr (mn, mx, rs), s1) \<Rightarrow> (case ioctl_get_int ioctl UAC_IOC_GET_VOL 0 s1 of Inl x \<Rightarrow> Inl x
         | Inr (Inl e, s2) \<Rightarrow> Inr (1, [LErrno e], s2)
         | Inr (Inr v, s2) \<Rightarrow> Inr (0, [print_vol rnd (se16 v) mn mx fmt], s2)))"

definition cmd_get_limit :: "rounding \<Rightarrow> 's ioctl_fn \<Rightarrow> nat \<Rightarrow> volfmt \<Rightarrow> 's \<Rightarrow> 's outcome" where
  "cmd_get_limit rnd ioctl req fmt s = (case ioctl_get_int ioctl req 0 s of Inl x \<Rightarrow> Inl x
     | Inr (Inl e, s1) \<Rightarrow> Inr (1, [LErrno e], s1)
     | Inr (Inr v, s1) \<Rightarrow> Inr (0, [if fmt = FMT_RAW then LInt (se16 v) else LDb (q88_to_db rnd (se16 v))], s1))"

definition cmd_set_vol :: "rounding \<Rightarrow> 's ioctl_fn \<Rightarrow> volfmt \<Rightarrow> bool \<Rightarrow> string list \<Rightarrow> 's \<Rightarrow> 's outcome" where
  "cmd_set_vol rnd ioctl fmt fmt_seen args s = (case args of [] \<Rightarrow> Inr (2, [LError ''set-vol''], s)
     | a # _ \<Rightarrow> (case load_limits ioctl s of Inl x \<Rightarrow> Inl x
         | Inr (Inl e, s1) \<Rightarrow> Inr (1, [LErrno e], s1)
         | Inr (Inr (mn, mx, rs), s1) \<Rightarrow> (let parse_hint = (if fmt_seen then fmt else FMT_DEFAULT) in
             case parse_volume_arg rnd a parse_hint mn mx rs of Inl x \<Rightarrow> Inl x
             | Inr (Inl _) \<Rightarrow> Inr (2, [LError a], s1)
             | Inr (Inr q88) \<Rightarrow> (case ioctl_set_int ioctl UAC_IOC_SET_VOL q88 s1 of Inl x \<Rightarrow> Inl x
                 | Inr (Inl e, s2) \<Rightarrow> Inr (1, [LErrno e], s2)
                 | Inr (Inr _, s2) \<Rightarrow> (case ioctl_get_int ioctl UAC_IOC_GET_VOL 0 s2 of Inl x \<Rightarrow> Inl x
                     | Inr (Inl _, s3) \<Rightarrow> Inr (0, [], s3)
                     | Inr (Inr cur, s3) \<Rightarrow> Inr (0, [LApplied (print_vol rnd (se16 cur) mn mx FMT_DEFAULT)], s3))))))"

text \<open>The flags before the command: the last one counts, and whether the loop ran out of arguments.\<close>

fun format_flags :: "string list \<Rightarrow> volfmt \<Rightarrow> volfmt \<times> bool \<times> string list" where
  "format_flags [] fmt = (fmt, True, [])"
| "format_flags (a # as) fmt =
     (if a = ''--raw'' then format_flags as FMT_RAW
      else if a = ''--db'' then format_flags as FMT_DB
      else if a = ''--pct'' then format_flags as FMT_PCT
      else (fmt, False, a # as))"

definition run_command :: "rounding \<Rightarrow> 's ioctl_fn \<Rightarrow> volfmt \<Rightarrow> bool \<Rightarrow> string \<Rightarrow> string list \<Rightarrow> 's \<Rightarrow> 's outcome" where
  "run_command rnd ioctl fmt fmt_seen cmd args s =
     (if cmd = ''get-mute'' then cmd_get_mute ioctl s
      else if cmd = ''set-mute'' then cmd_set_mute ioctl args s
      else if cmd = ''get-vol'' then cmd_get_vol rnd ioctl fmt s
      else if cmd = ''get-vol-min'' then cmd_get_limit rnd ioctl UAC_IOC_GET_MIN_VOL fmt s
      else if cmd = ''get-vol-max'' then cmd_get_limit rnd ioctl UAC_IOC_GET_MAX_VOL fmt s
      else if cmd = ''get-vol-res'' then cmd_get_limit rnd ioctl UAC_IOC_GET_RES_VOL fmt s
      else if cmd = ''set-vol'' then cmd_set_vol rnd ioctl fmt fmt_seen args s
      else Inr (2, [LUsage], s))"

text \<open>The arguments without the program's name; \<open>opens dev\<close> is the result of opening the device.\<close>

definition uacctl_main :: "rounding \<Rightarrow> 's ioctl_fn \<Rightarrow> (string \<Rightarrow> unit res) \<Rightarrow> string list \<Rightarrow> 's \<Rightarrow> 's outcome" where
  "uacctl_main rnd ioctl opens args s =
     (if args = [] then Inr (2, [LUsage], s)
      else case (if 2 \<le> length args \<and> args ! 0 = ''--dev'' then (args ! 1, drop 2 args) else (''/dev/uac0'', args)) of (dev, args1) \<Rightarrow>
        if args1 = [] then Inr (2, [LUsage], s)
        else case format_flags args1 FMT_DEFAULT of (fmt, fmt_seen, args2) \<Rightarrow>
          (case args2 of [] \<Rightarrow> Inr (2, [LUsage], s)
           | cmd # args3 \<Rightarrow> (case opens dev of Inl e \<Rightarrow> Inr (1, [LErrno e], s)
               | Inr _ \<Rightarrow> run_command rnd ioctl fmt fmt_seen cmd args3 s)))"

subsection \<open>Rounding\<close>

definition limits_ok :: "int \<Rightarrow> int \<Rightarrow> int \<Rightarrow> bool" where
  "limits_ok mn mx rs \<longleftrightarrow> - (2 ^ 15) \<le> mn \<and> mn \<le> mx \<and> mx < 2 ^ 15 \<and> 0 < rs \<and> rs < 2 ^ 15"

lemma apply_q88_range: "mn \<le> mx \<Longrightarrow> mn \<le> apply_q88 q mn mx rs \<and> apply_q88 q mn mx rs \<le> mx"
  by (simp add: apply_q88_def clampi_def)

lemma sdiv_nonpos: "x \<le> 0 \<Longrightarrow> 0 < r \<Longrightarrow> x sdiv r \<le> (0 :: int)"
  by (simp add: signed_divide_int_def sgn_if pos_imp_zdiv_nonneg_iff)

text \<open>The nearest step, cut off at the maximum; below the minimum, the minimum.\<close>

lemma apply_q88_eq:
  assumes "limits_ok mn mx rs"
  shows "apply_q88 q mn mx rs = (if q < mn then mn else min mx (mn + (q - mn + rs div 2) div rs * rs))"
proof (cases "q < mn")
  case True
  have r: "0 < rs" using assms by (simp add: limits_ok_def)
  have "(q - mn + rs sdiv 2) sdiv rs \<le> 0"
  proof (cases "q - mn + rs sdiv 2 \<le> 0")
    case False
    moreover have "rs div 2 < rs" using r by simp
    ultimately show ?thesis using True r by (simp add: sdiv_nonneg)
  qed (use r sdiv_nonpos in auto)
  then have "mn + (q - mn + rs sdiv 2) sdiv rs * rs \<le> mn" using r by (simp add: mult_nonpos_nonneg)
  then show ?thesis using True assms by (simp add: apply_q88_def snap_to_res_def clampi_def limits_ok_def Let_def c_int)
next
  case False
  have r: "0 < rs" and x: "0 \<le> q - mn" using assms False by (simp_all add: limits_ok_def)
  have "0 \<le> (q - mn + rs div 2) div rs * rs" using nearest_step(1) [OF r x] .
  then show ?thesis using False assms r
    by (simp add: apply_q88_def snap_to_res_def clampi_def limits_ok_def Let_def c_int sdiv_nonneg min_def)
qed

lemma apply_q88_near:
  assumes "limits_ok mn mx rs" and "mn \<le> q" "q \<le> mx"
  shows "\<bar>apply_q88 q mn mx rs - q\<bar> \<le> rs div 2 \<and> (apply_q88 q mn mx rs = mx \<or> rs dvd apply_q88 q mn mx rs - mn)"
proof -
  define k where "k = (q - mn + rs div 2) div rs * rs"
  have r: "0 < rs" and x: "0 \<le> q - mn" using assms by (simp_all add: limits_ok_def)
  note step = nearest_step [OF r x, folded k_def]
  have "rs dvd k" by (simp add: k_def)
  then show ?thesis using apply_q88_eq [OF assms(1), of q] step assms(2,3) by (auto simp: k_def [symmetric] min_def)
qed

text \<open>Rounding twice is rounding once.\<close>

lemma apply_q88_idem:
  assumes "limits_ok mn mx rs" and "mn \<le> q" "q \<le> mx"
  shows "apply_q88 (apply_q88 q mn mx rs) mn mx rs = apply_q88 q mn mx rs"
proof -
  define j where "j = (q - mn + rs div 2) div rs"
  have r: "0 < rs" and x: "0 \<le> q - mn" using assms by (simp_all add: limits_ok_def)
  have eq: "apply_q88 q mn mx rs = min mx (mn + j * rs)" using apply_q88_eq [OF assms(1), of q] assms(2) by (simp add: j_def)
  have half: "0 \<le> rs div 2" "rs div 2 < rs" using r by auto
  show ?thesis
  proof (cases "mn + j * rs \<le> mx")
    case True
    have "(j * rs + rs div 2) div rs = j" using half r by simp
    moreover have "0 \<le> j * rs" using nearest_step(1) [OF r x] by (simp add: j_def)
    ultimately show ?thesis using True apply_q88_eq [OF assms(1), of "mn + j * rs"] by (simp add: eq)
  next
    case False
    have "j \<le> (mx - mn + rs div 2) div rs" unfolding j_def using assms(3) r by (intro zdiv_mono1) auto
    then have "mx < mn + (mx - mn + rs div 2) div rs * rs" using False r mult_right_mono [of j "(mx - mn + rs div 2) div rs" rs] by linarith
    then show ?thesis using False apply_q88_eq [OF assms(1), of mx] assms by (simp add: eq limits_ok_def)
  qed
qed

lemma round_vol_apply_q88:
  assumes lim: "limits_ok (uc_min_vol d) (uc_max_vol d) (uc_res_vol d)" and q: "uc_min_vol d \<le> q" "q \<le> uc_max_vol d"
    and top: "uc_max_vol d + uc_res_vol d div 2 < 2 ^ 15"
  shows "round_vol d q = Inr (apply_q88 q (uc_min_vol d) (uc_max_vol d) (uc_res_vol d))"
proof -
  have ctl: "uac_ctl_ok d" using lim by (simp add: uac_ctl_ok_def limits_ok_def)
  have r: "0 < uc_res_vol d" and x: "0 \<le> q - uc_min_vol d" using lim q by (simp_all add: limits_ok_def)
  define k where "k = (q - uc_min_vol d + uc_res_vol d div 2) div uc_res_vol d * uc_res_vol d"
  note step = nearest_step [OF r x, folded k_def]
  have "s16 (uc_min_vol d + k) = uc_min_vol d + k" using step q lim top by (intro s16_id) (auto simp: limits_ok_def)
  then show ?thesis using round_vol_eq [OF ctl q] apply_q88_eq [OF lim, of q] q step by (simp add: k_def [symmetric])
qed



subsection \<open>What the parser accepts\<close>

lemma to_int_range: "- 32768 \<le> r \<Longrightarrow> r \<le> 32767 \<Longrightarrow> \<exists>k. to_int (Fin r) = Inr k"
proof -
  assume r: "- 32768 \<le> r" "r \<le> 32767"
  then have "- 32768 \<le> \<lceil>r\<rceil>" "\<lfloor>r\<rfloor> \<le> 32767" "\<lceil>r\<rceil> \<le> 32767" "- 32768 \<le> \<lfloor>r\<rfloor>"
    by (simp_all add: le_ceiling_iff floor_le_iff ceiling_le_iff le_floor_iff)
  then show ?thesis by (auto simp: Let_def)
qed

lemma clamp_finite: "q \<noteq> NaN \<Longrightarrow> \<not> dless q (Fin (- 32768)) \<Longrightarrow> \<not> dless (Fin 32767) q \<Longrightarrow>
    \<exists>r. q = Fin r \<and> - 32768 \<le> r \<and> r \<le> 32767"
  by (cases q) auto

text \<open>Only a value that is no number makes the conversion undefined.\<close>

lemma db_to_q88_total:
  assumes "ieee_rounding rnd" and "db \<noteq> NaN"
  shows "\<exists>k. db_to_q88 rnd db = Inr k"
proof -
  have nan: "rnd a \<noteq> NaN" for a using assms(1) by (simp add: ieee_rounding_def)
  define q where "q = dmul rnd db (Fin 256)"
  have q: "q \<noteq> NaN" using assms(2) nan by (cases db) (auto simp: q_def signed_inf_def)
  define q1 where "q1 = (if dle (Fin 0) q then dadd rnd q (Fin (1 / 2)) else dsub rnd q (Fin (1 / 2)))"
  have q1: "q1 \<noteq> NaN" using q nan by (cases q) (auto simp: q1_def dsub_def)
  define q3 where "q3 = (let q2 = (if dless q1 (Fin (- 32768)) then Fin (- 32768) else q1) in if dless (Fin 32767) q2 then Fin 32767 else q2)"
  have "\<exists>r. q3 = Fin r \<and> - 32768 \<le> r \<and> r \<le> 32767"
    using q1 clamp_finite [of q1] by (auto simp: q3_def Let_def)
  then obtain k where "to_int q3 = Inr k" using to_int_range by blast
  moreover have "db_to_q88 rnd db = to_int q3" by (simp only: db_to_q88_def q_def q1_def q3_def Let_def)
  ultimately show ?thesis by auto
qed

definition in_db :: "int \<Rightarrow> rat" where
  "in_db k = of_int k / 256"

lemma q88_to_db_exact: "ieee_rounding rnd \<Longrightarrow> \<bar>k\<bar> < 2 ^ 53 \<Longrightarrow> q88_to_db rnd k = Fin (in_db k)"
  using ieee_exact [of rnd k 8] by (simp add: q88_to_db_def of_i_def in_db_def)

lemma dsub_db_exact: "ieee_rounding rnd \<Longrightarrow> \<bar>a - b\<bar> < 2 ^ 53 \<Longrightarrow> dsub rnd (Fin (in_db a)) (Fin (in_db b)) = Fin (in_db (a - b))"
  using ieee_exact [of rnd "a - b" 8] by (simp add: dsub_def in_db_def diff_divide_distrib)

text \<open>The position in the range that a percentage gives, before it is rounded to a step.\<close>

definition pct_db :: "rounding \<Rightarrow> rat \<Rightarrow> int \<Rightarrow> int \<Rightarrow> double" where
  "pct_db rnd p mn mx = dadd rnd (q88_to_db rnd mn) (dmul rnd (ddiv rnd (Fin p) (Fin 100)) (dsub rnd (q88_to_db rnd mx) (q88_to_db rnd mn)))"

lemma pct_db_mono:
  assumes r: "ieee_rounding rnd" and l: "limits_ok mn mx rs" and p: "0 \<le> p" "p \<le> p'" "p' \<le> 100"
  shows "\<exists>x y. pct_db rnd p mn mx = Fin x \<and> pct_db rnd p' mn mx = Fin y \<and> x \<le> y \<and> in_db mn \<le> x \<and> y \<le> in_db mx"
proof -
  define w where "w = in_db (mx - mn)"
  have w: "0 \<le> w" "w \<le> 256" using l by (auto simp: w_def in_db_def limits_ok_def)
  have small: "\<bar>mx\<bar> < 2 ^ 53" "\<bar>mn\<bar> < 2 ^ 53" "\<bar>mx - mn\<bar> < 2 ^ 53" using l by (auto simp: limits_ok_def)
  have diff: "dsub rnd (Fin (in_db mx)) (Fin (in_db mn)) = Fin w" using dsub_db_exact [OF r small(3)] by (simp add: w_def)
  have zero: "rnd 0 = Fin 0" and one: "rnd 1 = Fin 1" using ieee_int [OF r, of 0] ieee_int [OF r, of 1] by simp_all
  have top: "rnd w = Fin w" using ieee_exact [OF r small(3), of 8] by (simp add: w_def in_db_def)
  have ends: "rnd (in_db mn) = Fin (in_db mn)" "rnd (in_db mx) = Fin (in_db mx)"
    using ieee_exact [OF r small(2), of 8] ieee_exact [OF r small(1), of 8] by (simp_all add: in_db_def)
  obtain a b where ab: "rnd (p / 100) = Fin a" "rnd (p' / 100) = Fin b" "a \<le> b" using ieee_mono [OF r, of "p / 100" "p' / 100"] p by auto
  have a: "0 \<le> a" using ieee_mono [OF r, of 0 "p / 100"] p ab zero by auto
  have b: "b \<le> 1" using ieee_mono [OF r, of "p' / 100" 1] p ab one by auto
  have aw: "0 \<le> a * w" "a * w \<le> b * w" "b * w \<le> w" using a b ab(3) w by (auto intro: mult_nonneg_nonneg mult_right_mono mult_left_le_one_le order_trans)
  obtain c d where cd: "rnd (a * w) = Fin c" "rnd (b * w) = Fin d" "c \<le> d" using ieee_mono [OF r aw(2)] aw w by auto
  have c: "0 \<le> c" using ieee_mono [OF r aw(1)] cd zero aw w by auto
  have d: "d \<le> w" using ieee_mono [OF r aw(3)] cd top aw w by auto
  have mn: "- 128 \<le> in_db mn" "in_db mn \<le> 128" using l by (auto simp: in_db_def limits_ok_def)
  have sum: "in_db mn + w = in_db mx" by (simp add: in_db_def w_def diff_divide_distrib)
  obtain x y where xy: "rnd (in_db mn + c) = Fin x" "rnd (in_db mn + d) = Fin y" "x \<le> y"
    using ieee_mono [OF r, of "in_db mn + c" "in_db mn + d"] c cd(3) d w mn by auto
  have "in_db mn \<le> x" using ieee_mono [OF r, of "in_db mn" "in_db mn + c"] c cd(3) d w mn ends xy by auto
  moreover have "y \<le> in_db mx" using ieee_mono [OF r, of "in_db mn + d" "in_db mx"] c cd(3) d w mn ends xy sum by auto
  ultimately show ?thesis using xy l
    by (simp add: pct_db_def q88_to_db_exact [OF r small(1)] q88_to_db_exact [OF r small(2)] diff ab cd)
qed

lemma pct_db_ends:
  assumes r: "ieee_rounding rnd" and l: "limits_ok mn mx rs"
  shows "pct_db rnd 0 mn mx = Fin (in_db mn)" and "pct_db rnd 100 mn mx = Fin (in_db mx)"
proof -
  have small: "\<bar>mx\<bar> < 2 ^ 53" "\<bar>mn\<bar> < 2 ^ 53" "\<bar>mx - mn\<bar> < 2 ^ 53" using l by (auto simp: limits_ok_def)
  note diff = dsub_db_exact [OF r small(3)]
  have zero: "rnd 0 = Fin 0" and one: "rnd 1 = Fin 1" using ieee_int [OF r, of 0] ieee_int [OF r, of 1] by simp_all
  have ends: "rnd (in_db mn) = Fin (in_db mn)" "rnd (in_db mx) = Fin (in_db mx)" "rnd (in_db (mx - mn)) = Fin (in_db (mx - mn))"
    using ieee_exact [OF r small(2), of 8] ieee_exact [OF r small(1), of 8] ieee_exact [OF r small(3), of 8] by (simp_all add: in_db_def)
  have "in_db mn + in_db (mx - mn) = in_db mx" by (simp add: in_db_def diff_divide_distrib)
  then show "pct_db rnd 0 mn mx = Fin (in_db mn)" "pct_db rnd 100 mn mx = Fin (in_db mx)"
    by (simp_all add: pct_db_def q88_to_db_exact [OF r small(1)] q88_to_db_exact [OF r small(2)] diff zero one ends)
qed

text \<open>The conversion to steps of 1/256 dB, on the numbers that are in range.\<close>

definition half_up :: "rounding \<Rightarrow> rat \<Rightarrow> double" where
  "half_up rnd a = (if 0 \<le> a then rnd (a + 1 / 2) else rnd (a - 1 / 2))"

lemma half_up_mono:
  assumes r: "ieee_rounding rnd" and a: "- 40000 \<le> a" "a \<le> b" "b \<le> 40000"
  shows "\<exists>x y. half_up rnd a = Fin x \<and> half_up rnd b = Fin y \<and> x \<le> y"
proof -
  have half: "rnd (1 / 2) = Fin (1 / 2)" "rnd (- (1 / 2)) = Fin (- (1 / 2))"
    using ieee_exact [OF r, of 1 1] ieee_exact [OF r, of "- 1" 1] by simp_all
  consider "0 \<le> a" | "a < 0" "0 \<le> b" | "b < 0" by linarith
  then show ?thesis
  proof cases
    case 1
    with a ieee_mono [OF r, of "a + 1 / 2" "b + 1 / 2"] show ?thesis by (auto simp: half_up_def)
  next
    case 2
    obtain x where x: "rnd (a - 1 / 2) = Fin x" "x \<le> - (1 / 2)" using ieee_mono [OF r, of "a - 1 / 2" "- (1 / 2)"] a 2 half by auto
    obtain y where y: "rnd (b + 1 / 2) = Fin y" "1 / 2 \<le> y" using ieee_mono [OF r, of "1 / 2" "b + 1 / 2"] a 2 half by auto
    from x y 2 show ?thesis by (auto simp: half_up_def)
  next
    case 3
    with a ieee_mono [OF r, of "a - 1 / 2" "b - 1 / 2"] show ?thesis by (auto simp: half_up_def)
  qed
qed

definition cut :: "rat \<Rightarrow> int" where
  "cut x = (if x < - 32768 then - 32768 else if 32767 < x then 32767 else if x < 0 then \<lceil>x\<rceil> else \<lfloor>x\<rfloor>)"

lemma cut_mono: "x \<le> y \<Longrightarrow> cut x \<le> cut y"
proof -
  assume le: "x \<le> y"
  have low: "- 32768 \<le> z \<Longrightarrow> - 32768 \<le> \<lceil>z\<rceil> \<and> - 32768 \<le> \<lfloor>z\<rfloor>" for z :: rat by (simp add: le_ceiling_iff le_floor_iff)
  have high: "z \<le> 32767 \<Longrightarrow> \<lceil>z\<rceil> \<le> 32767 \<and> \<lfloor>z\<rfloor> \<le> 32767" for z :: rat by (simp add: ceiling_le_iff floor_le_iff)
  have across: "x < 0 \<Longrightarrow> \<not> y < 0 \<Longrightarrow> \<lceil>x\<rceil> \<le> \<lfloor>y\<rfloor>" by (rule order_trans [of _ 0]) auto
  show ?thesis
    using le low [of x] low [of y] high [of x] high [of y] across ceiling_mono [OF le] floor_mono [OF le]
    by (auto simp: cut_def)
qed

lemma db_to_q88_cut:
  assumes "rnd (x * 256) = Fin a" and "half_up rnd a = Fin y"
  shows "db_to_q88 rnd (Fin x) = Inr (cut y)"
proof -
  have q1: "(if dle (Fin 0) (Fin a) then dadd rnd (Fin a) (Fin (1 / 2)) else dsub rnd (Fin a) (Fin (1 / 2))) = Fin y"
    using assms(2) by (auto simp: half_up_def dle_def dsub_def split: if_splits)
  have "- 32768 \<le> z \<Longrightarrow> z \<le> 32767 \<Longrightarrow> to_int (Fin z) = Inr (if z < 0 then \<lceil>z\<rceil> else \<lfloor>z\<rfloor>)" for z
    using to_int_range [of z] by (auto simp: Let_def split: if_splits)
  then show ?thesis by (auto simp: db_to_q88_def assms(1) q1 cut_def Let_def simp del: to_int.simps)
qed

lemma db_to_q88_mono:
  assumes r: "ieee_rounding rnd" and x: "- 128 \<le> x" "x \<le> y" "y \<le> 128"
  shows "\<exists>k l. db_to_q88 rnd (Fin x) = Inr k \<and> db_to_q88 rnd (Fin y) = Inr l \<and> k \<le> l"
proof -
  have ends: "rnd (- 32768) = Fin (- 32768)" "rnd 32768 = Fin 32768" using ieee_int [OF r, of "- 32768"] ieee_int [OF r, of 32768] by simp_all
  obtain a b where ab: "rnd (x * 256) = Fin a" "rnd (y * 256) = Fin b" "a \<le> b" using ieee_mono [OF r, of "x * 256" "y * 256"] x by auto
  have "- 32768 \<le> a" using ieee_mono [OF r, of "- 32768" "x * 256"] x ab ends by auto
  moreover have "b \<le> 32768" using ieee_mono [OF r, of "y * 256" 32768] x ab ends by auto
  ultimately obtain c d where "half_up rnd a = Fin c" "half_up rnd b = Fin d" "c \<le> d" using half_up_mono [OF r _ ab(3)] by auto
  then show ?thesis using db_to_q88_cut ab cut_mono by blast
qed

lemma db_to_q88_exact:
  assumes r: "ieee_rounding rnd" and k: "- 32768 \<le> k" "k \<le> 32767"
  shows "db_to_q88 rnd (Fin (in_db k)) = Inr k"
proof -
  have a: "rnd (in_db k * 256) = Fin (of_int k)" using ieee_int [OF r, of k] k by (simp add: in_db_def)
  have h: "half_up rnd (of_int k) = Fin (if 0 \<le> k then of_int k + 1 / 2 else of_int k - 1 / 2)"
    using ieee_exact [OF r, of "2 * k + 1" 1] ieee_exact [OF r, of "2 * k - 1" 1] k
    by (auto simp: half_up_def add_divide_distrib diff_divide_distrib)
  have up: "\<lceil>of_int k - 1 / 2 :: rat\<rceil> = k" by (rule ceiling_unique) auto
  have down: "\<lfloor>of_int k + 1 / 2 :: rat\<rfloor> = k" by (rule floor_unique) auto
  have "cut (if 0 \<le> k then of_int k + 1 / 2 else of_int k - 1 / 2) = k"
  proof (cases "0 \<le> k")
    case True
    then have "\<not> (of_int k + 1 / 2 :: rat) < 0" "\<not> (of_int k + 1 / 2 :: rat) < - 32768" by simp_all
    moreover have "(32767 :: rat) < of_int k + 1 / 2 \<Longrightarrow> k = 32767"
    proof -
      assume "(32767 :: rat) < of_int k + 1 / 2"
      then have "(32766 :: rat) < of_int k" by linarith
      then have "32766 < k" by linarith
      with k show ?thesis by simp
    qed
    ultimately show ?thesis using True down by (auto simp: cut_def)
  next
    case False
    then have "(of_int k - 1 / 2 :: rat) < 0" "\<not> (32767 :: rat) < of_int k - 1 / 2" by (simp_all add: less_le)
    moreover have "(of_int k - 1 / 2 :: rat) < - 32768 \<Longrightarrow> k = - 32768"
    proof -
      assume "(of_int k - 1 / 2 :: rat) < - 32768"
      then have "(of_int k :: rat) < - 32767" by linarith
      then have "k < - 32767" by linarith
      with k show ?thesis by simp
    qed
    ultimately show ?thesis using False up by (auto simp: cut_def)
  qed
  then show ?thesis using db_to_q88_cut [OF a h] by simp
qed

lemma apply_q88_mono:
  assumes "limits_ok mn mx rs" and "q \<le> q'"
  shows "apply_q88 q mn mx rs \<le> apply_q88 q' mn mx rs"
proof (cases "q < mn")
  case True
  then show ?thesis using apply_q88_range [of mn mx q' rs] apply_q88_eq [OF assms(1), of q] assms(1) by (simp add: limits_ok_def)
next
  case False
  have "(q - mn + rs div 2) div rs * rs \<le> (q' - mn + rs div 2) div rs * rs"
    using assms by (intro mult_right_mono zdiv_mono1) (auto simp: limits_ok_def)
  then show ?thesis using False assms(2) apply_q88_eq [OF assms(1), of q] apply_q88_eq [OF assms(1), of q'] by (auto simp: min_def)
qed

lemma volume_of_pct_eq:
  "0 \<le> p \<Longrightarrow> p \<le> 100 \<Longrightarrow> volume_of_pct rnd (Fin p) mn mx rs =
    (case db_to_q88 rnd (pct_db rnd p mn mx) of Inl x \<Rightarrow> Inl x | Inr q \<Rightarrow> Inr (Inr (apply_q88 q mn mx rs)))"
  by (simp add: volume_of_pct_def pct_db_def Let_def)

lemma tool_percent_ends:
  assumes r: "ieee_rounding rnd" and l: "limits_ok mn mx rs"
  shows "volume_of_pct rnd (Fin 0) mn mx rs = Inr (Inr mn)"
    and "volume_of_pct rnd (Fin 100) mn mx rs = Inr (Inr (apply_q88 mx mn mx rs))"
proof -
  have lim: "- 32768 \<le> mn" "mn \<le> mx" "mx \<le> 32767" "mn \<le> 32767" "- 32768 \<le> mx" using l by (auto simp: limits_ok_def)
  have "0 < rs" using l by (simp add: limits_ok_def)
  then have "rs div 2 div rs = 0" by simp
  then have "apply_q88 mn mn mx rs = mn" using apply_q88_eq [OF l, of mn] lim by simp
  then show "volume_of_pct rnd (Fin 0) mn mx rs = Inr (Inr mn)"
    using pct_db_ends(1) [OF r l] db_to_q88_exact [OF r lim(1,4)] by (simp add: volume_of_pct_eq)
  show "volume_of_pct rnd (Fin 100) mn mx rs = Inr (Inr (apply_q88 mx mn mx rs))"
    using pct_db_ends(2) [OF r l] db_to_q88_exact [OF r lim(5,3)] by (simp add: volume_of_pct_eq)
qed

text \<open>C18: a larger percentage never gives a lower volume; 0 gives the minimum and 100 the highest step of the
  device, and all are inside its range, with every rounding that is exact on small numbers and
  keeps the order.\<close>

theorem tool_percent:
  assumes r: "ieee_rounding rnd" and l: "limits_ok mn mx rs" and p: "0 \<le> p" "p \<le> p'" "p' \<le> 100"
  shows "\<exists>v v'. volume_of_pct rnd (Fin p) mn mx rs = Inr (Inr v) \<and> volume_of_pct rnd (Fin p') mn mx rs = Inr (Inr v') \<and>
    mn \<le> v \<and> v \<le> v' \<and> v' \<le> mx \<and>
    volume_of_pct rnd (Fin 0) mn mx rs = Inr (Inr mn) \<and> volume_of_pct rnd (Fin 100) mn mx rs = Inr (Inr (apply_q88 mx mn mx rs))"
proof -
  have lim: "- 32768 \<le> mn" "mn \<le> mx" "mx \<le> 32767" "mn \<le> 32767" "- 32768 \<le> mx" using l by (auto simp: limits_ok_def)
  obtain x y where xy: "pct_db rnd p mn mx = Fin x" "pct_db rnd p' mn mx = Fin y" "x \<le> y" "in_db mn \<le> x" "y \<le> in_db mx"
    using pct_db_mono [OF r l p] by blast
  have "- 128 \<le> in_db mn" "in_db mx \<le> 128" using lim by (simp_all add: in_db_def)
  then obtain k k' where k: "db_to_q88 rnd (Fin x) = Inr k" "db_to_q88 rnd (Fin y) = Inr k'" "k \<le> k'"
    using db_to_q88_mono [OF r, of x y] xy by auto
  then show ?thesis
    using xy k p tool_percent_ends [OF r l] apply_q88_mono [OF l k(3)] apply_q88_range [OF lim(2), of k rs] apply_q88_range [OF lim(2), of k' rs]
    by (simp add: volume_of_pct_eq)
qed

theorem tool_percent_witness:
  "\<exists>v v'. volume_of_pct Fin (Fin 10) (- 32767) 2048 136 = Inr (Inr v) \<and> volume_of_pct Fin (Fin 90) (- 32767) 2048 136 = Inr (Inr v') \<and> v \<le> v'"
  using tool_percent [OF ieee_rounding_Fin, of "- 32767" 2048 136 10 90] by (auto simp: limits_ok_def)

text \<open>A volume in dB of 1/256 dB steps is taken as it is and rounded to the steps of the device.\<close>

lemma tool_db_exact:
  "ieee_rounding rnd \<Longrightarrow> - 32768 \<le> k \<Longrightarrow> k \<le> 32767 \<Longrightarrow> volume_of_db rnd (Fin (in_db k)) mn mx rs = Inr (Inr (apply_q88 k mn mx rs))"
  by (simp add: volume_of_db_def db_to_q88_exact)

lemma volume_of_pct_total:
  assumes r: "ieee_rounding rnd" and l: "limits_ok mn mx rs" and "pct \<noteq> NaN"
  shows "\<exists>v. volume_of_pct rnd pct mn mx rs = Inr (Inr v) \<and> mn \<le> v \<and> v \<le> mx"
proof -
  define p where "p = (case pct of Fin p \<Rightarrow> min 100 (max 0 p) | PInf \<Rightarrow> 100 | _ \<Rightarrow> 0)"
  have "volume_of_pct rnd pct mn mx rs = volume_of_pct rnd (Fin p) mn mx rs"
    using assms(3) by (cases pct) (auto simp: volume_of_pct_def p_def Let_def)
  moreover have "0 \<le> p \<and> p \<le> 100" by (auto simp: p_def split: double.split)
  ultimately show ?thesis using tool_percent [OF r l, of p p] by auto
qed

lemma db_to_q88_stop: "db_to_q88 rnd db = Inl x \<Longrightarrow> x = BadConversion"
proof -
  have "to_int q = Inl x \<Longrightarrow> x = BadConversion" for q by (cases q) (auto simp: Let_def split: if_splits)
  then show "db_to_q88 rnd db = Inl x \<Longrightarrow> x = BadConversion" by (auto simp: db_to_q88_def Let_def)
qed

lemma volume_of_db_cases:
  assumes r: "ieee_rounding rnd" and l: "limits_ok mn mx rs"
  shows "case volume_of_db rnd db mn mx rs of Inl x \<Rightarrow> x = BadConversion \<and> db = NaN
    | Inr (Inl e) \<Rightarrow> False | Inr (Inr v) \<Rightarrow> mn \<le> v \<and> v \<le> mx"
proof (cases "db = NaN")
  case True
  then show ?thesis using db_to_q88_stop apply_q88_range [of mn mx _ rs] l
    by (auto simp: volume_of_db_def limits_ok_def split: sum.splits)
next
  case False
  then obtain k where "db_to_q88 rnd db = Inr k" using db_to_q88_total [OF r] by blast
  then show ?thesis using apply_q88_range [of mn mx k rs] l by (simp add: volume_of_db_def limits_ok_def)
qed

lemma volume_of_pct_cases:
  assumes r: "ieee_rounding rnd" and l: "limits_ok mn mx rs"
  shows "case volume_of_pct rnd pct mn mx rs of Inl x \<Rightarrow> x = BadConversion \<and> pct = NaN
    | Inr (Inl e) \<Rightarrow> False | Inr (Inr v) \<Rightarrow> mn \<le> v \<and> v \<le> mx"
proof (cases "pct = NaN")
  case True
  then show ?thesis using db_to_q88_stop apply_q88_range [of mn mx _ rs] l
    by (auto simp: volume_of_pct_def limits_ok_def Let_def split: sum.splits)
next
  case False
  then obtain v where "volume_of_pct rnd pct mn mx rs = Inr (Inr v)" "mn \<le> v" "v \<le> mx" using volume_of_pct_total [OF r l] by blast
  then show ?thesis by simp
qed

lemma parse_volume_cases:
  assumes "ieee_rounding rnd" and "limits_ok mn mx rs"
  shows "case parse_volume_arg rnd s hint mn mx rs of
      Inl x \<Rightarrow> x = BadConversion \<and> fst (strtod rnd s) = NaN
    | Inr (Inl e) \<Rightarrow> e = EINVAL
    | Inr (Inr v) \<Rightarrow> mn \<le> v \<and> v \<le> mx"
proof -
  have db: "case volume_of_db rnd d mn mx rs of Inl x \<Rightarrow> x = BadConversion \<and> d = NaN | Inr (Inl e) \<Rightarrow> e = EINVAL | Inr (Inr v) \<Rightarrow> mn \<le> v \<and> v \<le> mx"
   and pct: "case volume_of_pct rnd d mn mx rs of Inl x \<Rightarrow> x = BadConversion \<and> d = NaN | Inr (Inl e) \<Rightarrow> e = EINVAL | Inr (Inr v) \<Rightarrow> mn \<le> v \<and> v \<le> mx" for d
    using volume_of_db_cases [OF assms, of d] volume_of_pct_cases [OF assms, of d] by (auto split: sum.splits)
  have raw: "mn \<le> apply_q88 q mn mx rs \<and> apply_q88 q mn mx rs \<le> mx" for q
    using apply_q88_range [of mn mx q rs] assms(2) by (simp add: limits_ok_def)
  obtain d used where d: "strtod rnd s = (d, used)" by (cases "strtod rnd s")
  obtain v n e where v: "strtol s = (v, n, e)" by (cases "strtol s")
  have "parse_volume_arg rnd s hint mn mx rs \<in>
      {Inr (Inl EINVAL), volume_of_db rnd d mn mx rs, volume_of_pct rnd d mn mx rs, Inr (Inr (apply_q88 (s32 v) mn mx rs))}"
    by (simp add: parse_volume_arg_def d v Let_def)
  then consider "parse_volume_arg rnd s hint mn mx rs = Inr (Inl EINVAL)"
    | "parse_volume_arg rnd s hint mn mx rs = volume_of_db rnd d mn mx rs"
    | "parse_volume_arg rnd s hint mn mx rs = volume_of_pct rnd d mn mx rs"
    | "parse_volume_arg rnd s hint mn mx rs = Inr (Inr (apply_q88 (s32 v) mn mx rs))" by blast
  then show ?thesis unfolding d fst_conv using db [of d] pct [of d] raw [of "s32 v"] by cases simp_all
qed

text \<open>Whatever text is given, the parser refuses it with \<open>EINVAL\<close> or gives a volume in the range of the
  device; only a text that reads as not-a-number, such as \<open>nandB\<close>, makes it convert an undefined value.\<close>

lemma tool_parse_safe:
  assumes "ieee_rounding rnd" and "limits_ok mn mx rs"
  shows "case parse_volume_arg rnd s hint mn mx rs of
      Inl x \<Rightarrow> x = BadConversion \<and> fst (strtod rnd s) = NaN
    | Inr (Inl e) \<Rightarrow> e = EINVAL
    | Inr (Inr v) \<Rightarrow> mn \<le> v \<and> v \<le> mx"
  by (rule parse_volume_cases [OF assms])

lemma tool_parse_safe_witness:
  "\<exists>v. parse_volume_arg Fin ''-10dB'' FMT_DEFAULT (- 32767) 2048 136 = Inr (Inr v) \<and> - 32767 \<le> v \<and> v \<le> 2048"
proof -
  have d: "strtod Fin ''-10dB'' = (Fin (- 10), 3)"
    by (simp add: strtod_def unsigned_strtod_def word_at_def lower_def code_def isspace_def starts_hex_def mantissa_def digits_def
        digit_val_def digits_val_def exponent_def pow_z_def Let_def)
  have q: "volume_of_db Fin (Fin (- 10)) (- 32767) 2048 136 = Inr (Inr (apply_q88 (- 2560) (- 32767) 2048 136))"
    using db_to_q88_exact [OF ieee_rounding_Fin, of "- 2560"] by (simp add: volume_of_db_def in_db_def)
  have "parse_volume_arg Fin ''-10dB'' FMT_DEFAULT (- 32767) 2048 136 = volume_of_db Fin (Fin (- 10)) (- 32767) 2048 136"
    by (simp add: parse_volume_arg_def d lower_def code_def)
  then show ?thesis
    using tool_parse_safe [OF ieee_rounding_Fin, of "- 32767" 2048 136 "''-10dB''" FMT_DEFAULT] by (simp add: limits_ok_def q)
qed

text \<open>A suffix alone is taken as the number zero.\<close>

lemma tool_empty_number:
  "parse_volume_arg Fin ''%'' FMT_DEFAULT 0 2048 1 = Inr (Inr 0)" "parse_volume_arg Fin ''dB'' FMT_DEFAULT (- 32767) 2048 1 = Inr (Inr 0)"
proof -
  have d: "strtod Fin ''%'' = (Fin 0, 0)" "strtod Fin ''dB'' = (Fin 0, 0)"
    by (simp_all add: strtod_def unsigned_strtod_def word_at_def lower_def code_def isspace_def starts_hex_def mantissa_def digits_def
        digit_val_def Let_def)
  have q: "db_to_q88 Fin (Fin 0) = Inr 0" using db_to_q88_exact [OF ieee_rounding_Fin, of 0] by (simp add: in_db_def)
  have "volume_of_pct Fin (Fin 0) 0 2048 1 = Inr (Inr 0)"
    using tool_percent_ends(1) [OF ieee_rounding_Fin, of 0 2048 1] by (simp add: limits_ok_def)
  then show "parse_volume_arg Fin ''%'' FMT_DEFAULT 0 2048 1 = Inr (Inr 0)"
    by (simp add: parse_volume_arg_def d lower_def code_def)
  have "apply_q88 0 (- 32767) 2048 1 = 0" by (simp add: apply_q88_eq limits_ok_def)
  then show "parse_volume_arg Fin ''dB'' FMT_DEFAULT (- 32767) 2048 1 = Inr (Inr 0)"
    by (simp add: parse_volume_arg_def d lower_def code_def volume_of_db_def q)
qed

text \<open>A command always follows the flags, so that \<open>fmt_seen\<close> is never set where it is used: the flags have no
  effect on \<open>set-vol\<close>.\<close>

lemma flags_ignored:
  assumes "format_flags args FMT_DEFAULT = (fmt, seen, ''set-vol'' # rest)"
  shows "run_command rnd ioctl fmt seen ''set-vol'' rest s = run_command rnd ioctl FMT_DEFAULT False ''set-vol'' rest s"
proof -
  have "format_flags as f = (fmt, seen, c # cs) \<Longrightarrow> \<not> seen" for as f c cs
    by (induction as f rule: format_flags.induct) (auto split: if_splits)
  with assms have "\<not> seen" by blast
  then show ?thesis by (cases rest) (simp_all add: run_command_def cmd_set_vol_def)
qed

end
