(* ===== verification/UacSession.thy ===== *)
theory UacSession
  imports UacTool
begin

text \<open>
  The command line tool on the driver: what the tool needs of the device is a locale, which
  \<open>uac_ioctl\<close> of a device that keeps its volume satisfies.
\<close>

subsection \<open>What the tool relies on\<close>

locale volume_device =
  fixes ioctl :: "'s ioctl_fn" and ready :: bool and mn mx rs :: int
  assumes range: "ready \<Longrightarrow> limits_ok mn mx rs"
    and get_min: "ready \<Longrightarrow> \<exists>a. ioctl UAC_IOC_GET_MIN_VOL 0 s = Inr (Inr a, s) \<and> se16 a = mn"
    and get_max: "ready \<Longrightarrow> \<exists>a. ioctl UAC_IOC_GET_MAX_VOL 0 s = Inr (Inr a, s) \<and> se16 a = mx"
    and get_res: "ready \<Longrightarrow> \<exists>a. ioctl UAC_IOC_GET_RES_VOL 0 s = Inr (Inr a, s) \<and> se16 a = rs"
    and set_get: "ready \<Longrightarrow> mn \<le> v \<Longrightarrow> v \<le> mx \<Longrightarrow> \<exists>a s1 c. ioctl UAC_IOC_SET_VOL v s = Inr (Inr a, s1) \<and>
      ioctl UAC_IOC_GET_VOL 0 s1 = Inr (Inr c, s1) \<and> se16 c = apply_q88 v mn mx rs"
begin

lemma limits: "ready \<Longrightarrow> load_limits ioctl s = Inr (Inr (mn, mx, rs), s)"
proof -
  assume r: "ready"
  obtain a b c where "ioctl UAC_IOC_GET_MIN_VOL 0 s = Inr (Inr a, s)" "se16 a = mn" "ioctl UAC_IOC_GET_MAX_VOL 0 s = Inr (Inr b, s)" "se16 b = mx"
      "ioctl UAC_IOC_GET_RES_VOL 0 s = Inr (Inr c, s)" "se16 c = rs"
    using get_min [OF r, of s] get_max [OF r, of s] get_res [OF r, of s] by blast
  then show ?thesis using range [OF r] by (simp add: load_limits_def ioctl_get_int_def limits_ok_def Let_def)
qed

lemma refused:
  assumes "ready" and "parse_volume_arg rnd a FMT_DEFAULT mn mx rs = Inr (Inl e)"
  shows "cmd_set_vol rnd ioctl fmt False [a] s = Inr (2, [LError a], s)"
  using assms(2) by (simp add: cmd_set_vol_def limits [OF assms(1)])

lemma applied:
  assumes "ready" and "parse_volume_arg rnd a FMT_DEFAULT mn mx rs = Inr (Inr v)" and "mn \<le> v" "v \<le> mx"
  shows "\<exists>s1. cmd_set_vol rnd ioctl fmt False [a] s = Inr (0, [LApplied (print_vol rnd (apply_q88 v mn mx rs) mn mx FMT_DEFAULT)], s1) \<and>
    cmd_get_vol rnd ioctl FMT_RAW s1 = Inr (0, [LInt (apply_q88 v mn mx rs)], s1)"
proof -
  obtain b s1 c where "ioctl UAC_IOC_SET_VOL v s = Inr (Inr b, s1)" "ioctl UAC_IOC_GET_VOL 0 s1 = Inr (Inr c, s1)"
      "se16 c = apply_q88 v mn mx rs" using set_get [OF assms(1,3,4), of s] by blast
  then show ?thesis
    by (intro exI [of _ s1]) (simp add: cmd_set_vol_def cmd_get_vol_def limits [OF assms(1)] assms(2) ioctl_get_int_def ioctl_set_int_def print_vol_def)
qed

end

subsection \<open>The driver below the tool\<close>

text \<open>
  One \<open>ioctl\<close> with the address of an \<open>int\<close> that holds \<open>a\<close>, on a little-endian machine with memory to
  spare: the driver reads and writes a \<open>bool\<close> or an \<open>s16\<close> there, and leaves the other bytes.
\<close>

definition uac_dev_ioctl :: "'s uac_hw \<Rightarrow> uac_ctl \<Rightarrow> 's ioctl_fn" where
  "uac_dev_ioctl hw d req a s =
     (case uac_ioctl hw d req \<lparr>ua_mute = Some (a mod 2 ^ 8 \<noteq> 0), ua_vol = Some (s16 a), ua_writable = True\<rparr> [] s of
        Inl x \<Rightarrow> Inl x
      | Inr (Inl e, s1) \<Rightarrow> Inr (Inl e, s1)
      | Inr (Inr out, s1) \<Rightarrow> Inr (Inr (case out of OutNone \<Rightarrow> a
          | OutMute m \<Rightarrow> a - a mod 2 ^ 8 + of_bool m
          | OutVol v \<Rightarrow> s32 (a - a mod 2 ^ 16 + v mod 2 ^ 16)), s1))"

text \<open>A device that keeps its volume and answers with the limits it gave when it was probed.\<close>

definition uac_limits :: "'s uac_hw \<Rightarrow> uac_ctl \<Rightarrow> bool" where
  "uac_limits hw d \<longleftrightarrow> (\<forall>s. fst (uac_get_volume hw d UAC_GET_MIN [] s) = Inr (uc_min_vol d) \<and>
     fst (uac_get_volume hw d UAC_GET_MAX [] s) = Inr (uc_max_vol d) \<and>
     fst (uac_get_volume hw d UAC_GET_RES [] s) = Inr (uc_res_vol d))"

definition uac_ready :: "'s uac_hw \<Rightarrow> uac_ctl \<Rightarrow> bool" where
  "uac_ready hw d \<longleftrightarrow> uac_stores hw \<and> uac_limits hw d \<and> limits_ok (uc_min_vol d) (uc_max_vol d) (uc_res_vol d) \<and>
     uc_max_vol d + uc_res_vol d div 2 < 2 ^ 15"

lemma se16_written: "- (2 ^ 15) \<le> v \<Longrightarrow> v < 2 ^ 15 \<Longrightarrow> se16 (s32 (v mod 2 ^ 16)) = v"
proof -
  assume v: "- (2 ^ 15) \<le> v" "v < 2 ^ 15"
  have and16: "x AND 0xFFFF = x mod 2 ^ 16" for x :: int using take_bit_eq_mask [of 16 x] by (simp add: take_bit_eq_mod mask_eq_exp_minus_1)
  have "s32 (v mod 2 ^ 16) = v mod 2 ^ 16" by (rule s32_id) (auto intro: order_less_trans [OF pos_mod_bound])
  moreover have "s16 (v mod 2 ^ 16) = s16 v" by (simp add: s16_def mod_simps)
  ultimately show ?thesis using v by (simp add: se16_def and16 s16_id)
qed

lemma uac_dev_get:
  assumes "fst (uac_get_volume hw d p [] s) = Inr v" and "- (2 ^ 15) \<le> v" "v < 2 ^ 15"
    and "(req, p) \<in> {(UAC_IOC_GET_MIN_VOL, UAC_GET_MIN), (UAC_IOC_GET_MAX_VOL, UAC_GET_MAX), (UAC_IOC_GET_RES_VOL, UAC_GET_RES), (UAC_IOC_GET_VOL, UAC_GET_CUR)}"
  shows "\<exists>a. uac_dev_ioctl hw d req 0 s = Inr (Inr a, s) \<and> se16 a = v"
proof -
  have "uac_ioctl hw d req \<lparr>ua_mute = Some m, ua_vol = Some w, ua_writable = True\<rparr> [] s = Inr (Inr (OutVol v), s)" for m w
    using assms(1,4) by (auto simp: uac_ioctl_def uac_ioc split: prod.splits)
  then show ?thesis using se16_written [OF assms(2,3)] by (simp add: uac_dev_ioctl_def)
qed

lemma uac_dev_set:
  assumes ready: "uac_ready hw d" and v: "uc_min_vol d \<le> v" "v \<le> uc_max_vol d"
  shows "\<exists>a s1 c. uac_dev_ioctl hw d UAC_IOC_SET_VOL v s = Inr (Inr a, s1) \<and> uac_dev_ioctl hw d UAC_IOC_GET_VOL 0 s1 = Inr (Inr c, s1) \<and>
    se16 c = apply_q88 v (uc_min_vol d) (uc_max_vol d) (uc_res_vol d)"
proof -
  have lim: "limits_ok (uc_min_vol d) (uc_max_vol d) (uc_res_vol d)" "uc_max_vol d + uc_res_vol d div 2 < 2 ^ 15" "uac_stores hw"
    using ready by (simp_all add: uac_ready_def)
  have ctl: "uac_ctl_ok d" using lim(1) by (simp add: uac_ctl_ok_def limits_ok_def)
  define w where "w = apply_q88 v (uc_min_vol d) (uc_max_vol d) (uc_res_vol d)"
  have r: "round_vol d v = Inr w" using round_vol_apply_q88 [OF lim(1) v lim(2)] by (simp add: w_def)
  obtain s1 where s1: "- (2 ^ 15) \<le> w" "w < 2 ^ 15" "uac_set_volume hw d v [] s = Inr (Inr (), s1)"
      "fst (uac_get_volume hw d UAC_GET_CUR [] s1) = Inr w"
    using uac_set_get [OF lim(3) ctl v, of s] r by auto
  have "s16 v = v" using v lim(1) by (intro s16_id) (auto simp: limits_ok_def)
  then have "uac_dev_ioctl hw d UAC_IOC_SET_VOL v s = Inr (Inr v, s1)"
    using s1(3) v by (simp add: uac_dev_ioctl_def uac_ioctl_def uac_ioc)
  moreover obtain c where "uac_dev_ioctl hw d UAC_IOC_GET_VOL 0 s1 = Inr (Inr c, s1)" "se16 c = w"
    using uac_dev_get [OF s1(4,1,2), of UAC_IOC_GET_VOL] by auto
  ultimately show ?thesis by (auto simp: w_def)
qed

interpretation uac_driver: volume_device "uac_dev_ioctl hw d" "uac_ready hw d" "uc_min_vol d" "uc_max_vol d" "uc_res_vol d"
  for hw :: "'s uac_hw" and d
proof unfold_locales
  assume ready: "uac_ready hw d"
  then show lim: "limits_ok (uc_min_vol d) (uc_max_vol d) (uc_res_vol d)" by (simp add: uac_ready_def)
  have lims: "uac_limits hw d" using ready by (simp add: uac_ready_def)
  show "\<exists>a. uac_dev_ioctl hw d UAC_IOC_GET_MIN_VOL 0 s = Inr (Inr a, s) \<and> se16 a = uc_min_vol d" for s
    using lims lim by (intro uac_dev_get [where p = UAC_GET_MIN]) (auto simp: uac_limits_def limits_ok_def)
  show "\<exists>a. uac_dev_ioctl hw d UAC_IOC_GET_MAX_VOL 0 s = Inr (Inr a, s) \<and> se16 a = uc_max_vol d" for s
    using lims lim by (intro uac_dev_get [where p = UAC_GET_MAX]) (auto simp: uac_limits_def limits_ok_def)
  show "\<exists>a. uac_dev_ioctl hw d UAC_IOC_GET_RES_VOL 0 s = Inr (Inr a, s) \<and> se16 a = uc_res_vol d" for s
    using lims lim by (intro uac_dev_get [where p = UAC_GET_RES]) (auto simp: uac_limits_def limits_ok_def)
qed (rule uac_dev_set)

lemma uacctl_set_vol: "opens ''/dev/uac0'' = Inr () \<Longrightarrow>
    uacctl_main rnd ioctl opens [''set-vol'', a] s = cmd_set_vol rnd ioctl FMT_DEFAULT False [a] s"
  by (simp add: uacctl_main_def run_command_def)

lemma uacctl_raw_get_vol: "opens ''/dev/uac0'' = Inr () \<Longrightarrow>
    uacctl_main rnd ioctl opens [''--raw'', ''get-vol''] s = cmd_get_vol rnd ioctl FMT_RAW s"
  by (simp add: uacctl_main_def run_command_def)


text \<open>A device that keeps its volume and answers with fixed limits.\<close>

definition example_vol_hw :: "(nat \<Rightarrow> byte list) uac_hw" where
  "example_vol_hw = \<lparr>uh_in = (\<lambda>request value index s. Inr (if request = UAC_GET_MIN then le16 (- 32767)
       else if request = UAC_GET_MAX then le16 2048 else if request = UAC_GET_RES then le16 136 else s value)),
     uh_out = (\<lambda>request value index bs s. (Inr (length bs), s(value := bs)))\<rparr>"

lemma example_vol_ready: "uac_ready example_vol_hw example_ctl"
proof -
  have "uac_wValue UAC_FU_VOLUME CH_L = 513" "uac_wValue UAC_FU_VOLUME CH_R = 514"
    by (simp_all add: uac_wValue_def uac_requests push_bit_eq_mult)
  then have "uac_stores example_vol_hw" by (auto simp: uac_stores_def example_vol_hw_def uac_requests)
  moreover have "uac_limits example_vol_hw example_ctl"
    by (simp add: uac_limits_def uac_get_volume_def uac_get_volume_param_def example_vol_hw_def uac_requests le16_s16_le16 example_ctl_def
        s32_id s16_id signed_divide_int_def)
  ultimately show ?thesis by (simp add: uac_ready_def example_ctl_def limits_ok_def)
qed


end
