(* ===== verification/UacStream.thy ===== *)
theory UacStream
  imports Kfifo
begin

unbundle bit_operations_syntax

text \<open>
  The streaming path of the USB audio driver (\<open>ch13_usb/usb_uac.c\<close>): the ring between the user and
  the isochronous URBs, the completion handler that refills an URB, read and write, and probe and
  disconnect with what they hold.
\<close>

subsection \<open>The ring and the completion handler\<close>

definition BUF_SIZE :: nat where "BUF_SIZE = 192"
definition NUM_OF_PACKETS :: nat where "NUM_OF_PACKETS = 16"
definition NUM_OF_URBS :: nat where "NUM_OF_URBS = 8"
definition AUDIO_RING_SIZE :: nat where "AUDIO_RING_SIZE = 64 * 1024"

text \<open>
  A packet of an URB takes a frame from the ring, pads it, and puts it back, for the readers.  The
  result is the frame and the ring.
\<close>

definition uac_frame :: "byte list \<Rightarrow> byte list \<times> byte list" where
  "uac_frame ring =
     (case kfifo_out BUF_SIZE ring of (got, ring1) \<Rightarrow>
      let dst = got @ replicate (BUF_SIZE - length got) 0
      in (dst, snd (kfifo_in AUDIO_RING_SIZE dst ring1)))"

fun uac_fill_iso_frames :: "nat \<Rightarrow> byte list \<Rightarrow> byte list list \<times> byte list" where
  "uac_fill_iso_frames 0 ring = ([], ring)"
| "uac_fill_iso_frames (Suc n) ring = (case uac_frame ring of (dst, ring1) \<Rightarrow>
     case uac_fill_iso_frames n ring1 of (frames, ring2) \<Rightarrow> (dst # frames, ring2))"

text \<open>The status of a completed URB, and what the handler does: the frames, if any, and whether it
  submits the URB again.\<close>

datatype urb_status = UrbOk | UrbError | UrbENOENT | UrbECONNRESET | UrbESHUTDOWN

definition uac_callback :: "bool \<Rightarrow> urb_status \<Rightarrow> nat \<Rightarrow> byte list \<Rightarrow> byte list list option \<times> byte list" where
  "uac_callback shutting_down status number_of_packets ring =
     (if shutting_down \<or> status = UrbENOENT \<or> status = UrbECONNRESET \<or> status = UrbESHUTDOWN then (None, ring)
      else case uac_fill_iso_frames number_of_packets ring of (frames, ring') \<Rightarrow> (Some frames, ring'))"

subsection \<open>Read and write\<close>

text \<open>What happens at a wait: the task is woken and finds this ring, or it gets a signal.\<close>

datatype uac_wake = Woken "byte list" | Signal

fun wait_ring :: "(byte list \<Rightarrow> bool) \<Rightarrow> uac_wake list \<Rightarrow> (byte list res \<times> uac_wake list) run" where
  "wait_ring cond [] = Inl Sleeps"
| "wait_ring cond (Signal # ws) = Inr (Inl ERESTARTSYS, ws)"
| "wait_ring cond (Woken ring # ws) = (if cond ring then Inr (Inr ring, ws) else wait_ring cond ws)"

lemma wait_ring_less: "wait_ring cond ws = Inr (r, ws') \<Longrightarrow> length ws' < length ws"
  by (induction cond ws rule: wait_ring.induct) (auto split: if_splits)

text \<open>The loop of \<open>uac_write\<close> from \<open>off\<close> on.\<close>

function uac_write_from :: "byte list \<Rightarrow> nat \<Rightarrow> nat \<Rightarrow> uac_wake list \<Rightarrow> byte list \<Rightarrow> (nat res \<times> byte list) run" where
  "uac_write_from ubuf count off ws ring =
     (if count \<le> off then Inr (Inr off, ring)
      else let chunk = min (count - off) BUF_SIZE in
      if length ubuf < off + chunk then Inr (if off \<noteq> 0 then Inr off else Inl EFAULT, ring)
      else case kfifo_in AUDIO_RING_SIZE (take chunk (drop off ubuf)) ring of (n, ring1) \<Rightarrow>
      if n = 0 then
        (case wait_ring (\<lambda>r. BUF_SIZE \<le> kfifo_avail AUDIO_RING_SIZE r) ws of
           Inl s \<Rightarrow> Inl s
         | Inr (Inl e, ws1) \<Rightarrow> Inr (if off \<noteq> 0 then Inr off else Inl e, ring1)
         | Inr (Inr ring2, ws1) \<Rightarrow> uac_write_from ubuf count off ws1 ring2)
      else uac_write_from ubuf count (off + n) ws ring1)"
  by pat_completeness auto
termination
  by (relation "measures [\<lambda>(ubuf, count, off, ws, ring). length ws, \<lambda>(ubuf, count, off, ws, ring). count - off]")
    (auto dest: wait_ring_less)

declare uac_write_from.simps [simp del]

definition uac_write :: "byte list \<Rightarrow> nat \<Rightarrow> uac_wake list \<Rightarrow> byte list \<Rightarrow> (nat res \<times> byte list) run" where
  "uac_write ubuf count ws ring = uac_write_from ubuf count 0 ws ring"

text \<open>
  \<open>alloc\<close> says whether the bounce buffer was allocated, \<open>ulen\<close> how much of the user's buffer is
  writable.  The result: the bytes delivered or the error, whether the bounce buffer leaks, the ring.
\<close>

definition uac_read :: "bool \<Rightarrow> nat \<Rightarrow> nat \<Rightarrow> uac_wake list \<Rightarrow> byte list \<Rightarrow> (byte list res \<times> bool \<times> byte list) run" where
  "uac_read alloc ulen count ws ring =
     (let deliver = (\<lambda>ring. let count1 = min (length ring) count in
          case kfifo_out count1 ring of (out, ring') \<Rightarrow>
            (if \<not> alloc \<and> out \<noteq> [] then Inl NullDeref
             else Inr (if ulen < length out then Inl EFAULT else Inr out, False, ring')))
      in if ring = [] then
          (case wait_ring (\<lambda>r. r \<noteq> []) ws of Inl s \<Rightarrow> Inl s
           | Inr (Inl e, _) \<Rightarrow> Inr (Inl e, alloc, ring)
           | Inr (Inr ring1, _) \<Rightarrow> deliver ring1)
        else deliver ring)"

subsection \<open>What playing does to the ring\<close>

lemma uac_frame_length:
  assumes "length ring \<le> AUDIO_RING_SIZE" and "uac_frame ring = (dst, ring')"
  shows "length dst = BUF_SIZE \<and> length ring \<le> length ring' \<and> length ring' \<le> AUDIO_RING_SIZE"
  using assms by (auto simp: uac_frame_def kfifo_ops Let_def BUF_SIZE_def AUDIO_RING_SIZE_def)

lemma uac_frame_rotates:
  assumes "BUF_SIZE \<le> length ring" and "length ring \<le> AUDIO_RING_SIZE"
  shows "uac_frame ring = (take BUF_SIZE ring, rotate BUF_SIZE ring)"
proof -
  have "drop BUF_SIZE ring @ take BUF_SIZE ring = rotate BUF_SIZE ring"
    using assms by (cases "length ring = BUF_SIZE") (auto simp: rotate_drop_take)
  moreover have "min BUF_SIZE (AUDIO_RING_SIZE - (length ring - BUF_SIZE)) = BUF_SIZE" using assms by simp
  ultimately show ?thesis using assms by (simp add: uac_frame_def kfifo_ops Let_def)
qed

lemma fill_length:
  "length ring \<le> AUDIO_RING_SIZE \<Longrightarrow> uac_fill_iso_frames n ring = (frames, ring') \<Longrightarrow>
    length frames = n \<and> (\<forall>f\<in>set frames. length f = BUF_SIZE) \<and> length ring \<le> length ring' \<and> length ring' \<le> AUDIO_RING_SIZE"
proof (induction n arbitrary: ring frames ring')
  case (Suc n)
  obtain dst ring1 where f: "uac_frame ring = (dst, ring1)" by (cases "uac_frame ring")
  obtain fs ring2 where rec: "uac_fill_iso_frames n ring1 = (fs, ring2)" by (cases "uac_fill_iso_frames n ring1")
  from uac_frame_length [OF Suc.prems(1) f] Suc.IH [OF _ rec] Suc.prems(2) f rec show ?case by auto
qed simp

lemma fill_rotates:
  "BUF_SIZE \<le> length ring \<Longrightarrow> length ring \<le> AUDIO_RING_SIZE \<Longrightarrow>
    snd (uac_fill_iso_frames n ring) = rotate (n * BUF_SIZE) ring"
proof (induction n arbitrary: ring)
  case (Suc n)
  have "snd (uac_fill_iso_frames (Suc n) ring) = snd (uac_fill_iso_frames n (rotate BUF_SIZE ring))"
    using uac_frame_rotates [OF Suc.prems] by (simp split: prod.split)
  with Suc show ?case by (simp add: rotate_rotate add.commute)
qed simp

text \<open>Playing never makes room: a refill never shortens the ring, so that a writer that waits for
  room sleeps for ever as long as nobody reads, whatever is played.\<close>

lemma uac_playing_keeps_full:
  assumes "length ring = AUDIO_RING_SIZE" and "0 < count" and "count \<le> length ubuf"
    and "\<forall>w\<in>set ws. \<exists>n. w = Woken (snd (uac_fill_iso_frames n ring))"
  shows "uac_write ubuf count ws ring = Inl Sleeps"
proof -
  have "wait_ring (\<lambda>r. BUF_SIZE \<le> kfifo_avail AUDIO_RING_SIZE r) ws = Inl Sleeps" using assms(4)
  proof (induction ws)
    case (Cons w ws)
    then obtain n where w: "w = Woken (snd (uac_fill_iso_frames n ring))" by auto
    have "length (snd (uac_fill_iso_frames n ring)) = AUDIO_RING_SIZE"
      using fill_length [of ring n] assms(1) by (cases "uac_fill_iso_frames n ring") fastforce
    then have "\<not> BUF_SIZE \<le> kfifo_avail AUDIO_RING_SIZE (snd (uac_fill_iso_frames n ring))"
      by (simp add: kfifo_avail_def BUF_SIZE_def)
    with Cons w show ?case by simp
  qed simp
  then show ?thesis
    using assms(1,2,3) by (simp add: uac_write_def uac_write_from.simps [of ubuf count 0] kfifo_in_def Let_def)
qed

lemma uac_playing_keeps_full_witness:
  "uac_write [1, 2] 2 [Woken (snd (uac_fill_iso_frames 16 (replicate 65536 0)))] (replicate 65536 0) = Inl Sleeps"
  by (rule uac_playing_keeps_full) (auto simp: AUDIO_RING_SIZE_def BUF_SIZE_def)

text \<open>What is played goes back into the ring it was taken from: after as many packets as the ring
  holds, the ring is the same again, so that the device repeats what it has played.\<close>

lemma uac_playing_repeats:
  assumes "length ring = n * BUF_SIZE" and "0 < n" and "length ring \<le> AUDIO_RING_SIZE"
  shows "snd (uac_fill_iso_frames n ring) = ring"
proof -
  have "BUF_SIZE \<le> length ring" using assms(1,2) by (cases n) auto
  from fill_rotates [OF this assms(3), of n] assms(1) show ?thesis using rotate_id [of "n * BUF_SIZE" ring] by simp
qed

lemma uac_playing_repeats_witness:
  "snd (uac_fill_iso_frames 2 (replicate 192 1 @ replicate 192 2)) = replicate 192 1 @ replicate 192 2"
  by (rule uac_playing_repeats) (simp_all add: BUF_SIZE_def AUDIO_RING_SIZE_def)

subsection \<open>What is written is read\<close>

lemma uac_write_from_fits:
  "off \<le> count \<Longrightarrow> count \<le> length ubuf \<Longrightarrow> length ring + (count - off) \<le> AUDIO_RING_SIZE \<Longrightarrow>
    uac_write_from ubuf count off ws ring = Inr (Inr count, ring @ take (count - off) (drop off ubuf))"
proof (induction "count - off" arbitrary: off ring rule: less_induct)
  case less
  show ?case
  proof (cases "off = count")
    case True
    then show ?thesis by (simp add: uac_write_from.simps)
  next
    case False
    define chunk where "chunk = min (count - off) BUF_SIZE"
    have c: "0 < chunk" "chunk \<le> count - off" "off + chunk \<le> length ubuf"
      using False less.prems by (auto simp: chunk_def BUF_SIZE_def)
    then have fits: "kfifo_in AUDIO_RING_SIZE (take chunk (drop off ubuf)) ring = (chunk, ring @ take chunk (drop off ubuf))"
      using less.prems by (auto simp: kfifo_in_def Let_def)
    have "uac_write_from ubuf count off ws ring = uac_write_from ubuf count (off + chunk) ws (ring @ take chunk (drop off ubuf))"
      using c less.prems False fits by (simp add: uac_write_from.simps [of ubuf count off] chunk_def [symmetric] Let_def)
    also have "\<dots> = Inr (Inr count, (ring @ take chunk (drop off ubuf)) @ take (count - (off + chunk)) (drop (off + chunk) ubuf))"
      using c less.prems by (intro less.hyps) auto
    also have "\<dots> = Inr (Inr count, ring @ take (count - off) (drop off ubuf))"
      using c take_add [of chunk "count - (off + chunk)" "drop off ubuf"] by (simp add: add.commute)
    finally show ?thesis .
  qed
qed

text \<open>As long as nothing is played, a write that fits the ring returns its count without waiting,
  and reads deliver what was in the ring and then what was written, in order.\<close>

lemma uac_write_read:
  assumes "count \<le> length ubuf" and "length ring + count \<le> AUDIO_RING_SIZE" and "0 < count" and "m \<le> ulen"
  shows "\<exists>ring1. uac_write ubuf count ws ring = Inr (Inr count, ring1) \<and>
    uac_read True ulen m ws' ring1 = Inr (Inr (take m (ring @ take count ubuf)), False, drop m (ring @ take count ubuf))"
proof (intro exI conjI)
  show "uac_write ubuf count ws ring = Inr (Inr count, ring @ take count ubuf)"
    using uac_write_from_fits [of 0 count ubuf ring ws] assms by (simp add: uac_write_def)
  define q where "q = ring @ take count ubuf"
  have "q \<noteq> []" using assms by (auto simp: q_def)
  moreover have "take (min (length q) m) q = take m q" "drop (min (length q) m) q = drop m q" by (simp_all add: min_def)
  ultimately have "uac_read True ulen m ws' q = Inr (Inr (take m q), False, drop m q)"
    using assms(4) by (simp add: uac_read_def kfifo_out_def Let_def)
  then show "uac_read True ulen m ws' (ring @ take count ubuf) =
      Inr (Inr (take m (ring @ take count ubuf)), False, drop m (ring @ take count ubuf))" by (simp add: q_def)
qed

lemma uac_write_read_witness:
  "\<exists>ring1. uac_write [1, 2, 3] 3 [] [9] = Inr (Inr 3, ring1) \<and> uac_read True 2 2 [] ring1 = Inr (Inr [9, 1], False, [2, 3])"
  using uac_write_read [of 3 "[1, 2, 3]" "[9]" 2 2 "[]" "[]"] by (simp add: AUDIO_RING_SIZE_def)

subsection \<open>Probe and disconnect\<close>

text \<open>An endpoint is given by its attributes and its address.\<close>

fun uac_find_iso_out_ep :: "(nat \<times> nat) list \<Rightarrow> nat res" where
  "uac_find_iso_out_ep [] = Inl ENODEV"
| "uac_find_iso_out_ep ((attributes, address) # eps) =
     (if attributes AND 3 = 1 \<and> address AND 0x80 = 0 then Inr address else uac_find_iso_out_ep eps)"

datatype uac_resource = StreamClaim | ClassDev | AudioRing | Urb nat | UrbBuf nat

record uac_probe_env =
  up_zalloc :: bool
  up_ifnum :: nat
  up_stream :: bool
  up_claim :: "unit res"
  up_parse :: "unit res"
  up_register :: bool
  up_eps :: "(nat \<times> nat) list"
  up_ring :: "unit res"
  up_urb :: "nat \<Rightarrow> bool"
  up_buf :: "nat \<Rightarrow> bool"

definition AUDIO_CONTROL_INTERFACE :: nat where "AUDIO_CONTROL_INTERFACE = 0"
definition AUDIO_STREAMING_INTERFACE :: nat where "AUDIO_STREAMING_INTERFACE = 1"

lemmas uac_interfaces = AUDIO_CONTROL_INTERFACE_def AUDIO_STREAMING_INTERFACE_def

text \<open>The URBs from \<open>i\<close> on, \<open>n\<close> of them; a failed submission is only reported.\<close>

fun uac_urbs :: "uac_probe_env \<Rightarrow> nat \<Rightarrow> nat \<Rightarrow> uac_resource list \<Rightarrow> unit res \<times> uac_resource list" where
  "uac_urbs e 0 i held = (Inr (), held)"
| "uac_urbs e (Suc n) i held =
     (if \<not> up_urb e i then (Inl ENOMEM, held)
      else if \<not> up_buf e i then (Inl ENOMEM, removeAll (Urb i) (Urb i # held))
      else uac_urbs e n (Suc i) (UrbBuf i # Urb i # held))"

text \<open>The control interface claims the streaming one; any other interface keeps only a ring.\<close>

definition uac_claim :: "uac_probe_env \<Rightarrow> unit res \<times> uac_resource list" where
  "uac_claim e =
     (if up_ifnum e = AUDIO_CONTROL_INTERFACE then
        (if \<not> up_stream e then (Inl ENODEV, [])
         else case up_claim e of Inl x \<Rightarrow> (Inl x, []) | Inr _ \<Rightarrow> (up_parse e, [StreamClaim]))
      else (Inr (), []))"

text \<open>Up to the allocation of the ring, and the whole of probe.\<close>

definition uac_setup :: "uac_probe_env \<Rightarrow> bool \<Rightarrow> unit res \<times> uac_resource list" where
  "uac_setup e stream =
     (case uac_claim e of (Inl x, h) \<Rightarrow> (Inl x, h)
      | (Inr _, h) \<Rightarrow> (let h1 = (if stream \<and> up_register e then ClassDev # h else h) in
      case (if stream then uac_find_iso_out_ep (up_eps e) else Inr 0) of Inl x \<Rightarrow> (Inl x, h1)
      | Inr _ \<Rightarrow> (case up_ring e of Inl x \<Rightarrow> (Inl x, h1) | Inr _ \<Rightarrow> (Inr (), AudioRing # h1))))"

definition uac_probe :: "uac_probe_env \<Rightarrow> (unit res \<times> uac_resource list) run" where
  "uac_probe e =
     (let stream = up_ifnum e = AUDIO_STREAMING_INTERFACE \<or> up_ifnum e = AUDIO_CONTROL_INTERFACE in
      if \<not> up_zalloc e then Inl NullDeref
      else Inr (case uac_setup e stream of (Inl x, h) \<Rightarrow> (Inl x, h)
      | (Inr _, h) \<Rightarrow> (if stream then uac_urbs e NUM_OF_URBS 0 h else (Inr (), h))))"

definition kill_urbs :: "nat \<Rightarrow> uac_resource list \<Rightarrow> uac_resource list" where
  "kill_urbs n held = fold (\<lambda>i h. removeAll (Urb i) (removeAll (UrbBuf i) h)) [0..<n] held"

definition uac_disconnect :: "bool \<Rightarrow> nat \<Rightarrow> uac_resource list \<Rightarrow> uac_resource list" where
  "uac_disconnect intfdata ifnum held =
     (if \<not> intfdata then held
      else if ifnum = AUDIO_STREAMING_INTERFACE
        then removeAll AudioRing (kill_urbs NUM_OF_URBS (removeAll ClassDev held))
      else held)"

definition urbs_of :: "nat set \<Rightarrow> uac_resource set" where
  "urbs_of is = Urb ` is \<union> UrbBuf ` is"

lemma uac_urbs_spec:
  "uac_urbs e n i held = (r, held') \<Longrightarrow> (\<forall>j\<ge>i. Urb j \<notin> set held) \<Longrightarrow>
    (case r of Inr _ \<Rightarrow> set held' = set held \<union> urbs_of {i..<i + n}
     | Inl x \<Rightarrow> x = ENOMEM \<and> (\<exists>k<i + n. i \<le> k \<and> \<not> (up_urb e k \<and> up_buf e k) \<and> set held' = set held \<union> urbs_of {i..<k}))"
proof (induction e n i held rule: uac_urbs.induct)
  case (1 e i held)
  then show ?case by (auto simp: urbs_of_def)
next
  case (2 e n i held)
  show ?case
  proof (cases "up_urb e i \<and> up_buf e i")
    case True
    have dis: "\<forall>j\<ge>Suc i. Urb j \<notin> set (UrbBuf i # Urb i # held)" using "2.prems"(2) by auto
    have eq: "insert (UrbBuf i) (insert (Urb i) (set held)) \<union> urbs_of {Suc i..<m} = set held \<union> urbs_of {i..<m}" if "i < m" for m
      using that by (auto simp: urbs_of_def atLeastLessThan_nat_numeral atLeastSucLessThan_greaterThanLessThan image_iff
          intro: order.strict_trans2 dest: order.strict_iff_order [THEN iffD1] le_neq_implies_less)
    show ?thesis
    proof (cases r)
      case (Inl x)
      with "2.IH" [OF _ _ _ dis] True "2.prems"(1) obtain k where "x = ENOMEM" "k < i + Suc n" "Suc i \<le> k"
        "\<not> (up_urb e k \<and> up_buf e k)" "set held' = insert (UrbBuf i) (insert (Urb i) (set held)) \<union> urbs_of {Suc i..<k}" by auto
      then show ?thesis unfolding Inl using eq [of k] by auto
    next
      case (Inr u)
      with "2.IH" [OF _ _ _ dis] True "2.prems"(1) eq [of "i + Suc n"] show ?thesis by simp
    qed
  next
    case False
    then have "held' = held" "r = Inl ENOMEM"
      using "2.prems" by (auto simp: removeAll_id split: if_splits)
    with False show ?thesis by (auto simp: urbs_of_def intro!: exI [of _ i])
  qed
qed

lemma set_kill_urbs: "set (kill_urbs n held) = set held - urbs_of {..<n}"
  by (induction n) (auto simp: kill_urbs_def urbs_of_def lessThan_Suc)

lemma uac_setup_held:
  assumes "uac_setup e stream = (r, h)"
  shows "set h \<subseteq> {StreamClaim, ClassDev, AudioRing}" and "AudioRing \<in> set h \<longleftrightarrow> r = Inr ()"
  using assms by (auto simp: uac_setup_def uac_claim_def Let_def split: sum.splits if_splits)


definition example_probe :: uac_probe_env where
  "example_probe = \<lparr>up_zalloc = True, up_ifnum = 0, up_stream = True, up_claim = Inr (), up_parse = Inr (), up_register = True,
     up_eps = [(1, 1)], up_ring = Inr (), up_urb = (\<lambda>i. i \<noteq> 1), up_buf = (\<lambda>_. True)\<rparr>"


subsection \<open>Opening the device\<close>

text \<open>What \<open>usb_find_interface\<close> finds for the minor number, and the data of that interface.\<close>

definition uac_open :: "'d option option \<Rightarrow> 'd res" where
  "uac_open intf = (case intf of None \<Rightarrow> Inl ENODEV
     | Some intfdata \<Rightarrow> (case intfdata of None \<Rightarrow> Inl ENODEV | Some dev \<Rightarrow> Inr dev))"

definition uac_release :: "'d \<Rightarrow> unit res \<times> 'd" where
  "uac_release private_data = (Inr (), private_data)"

lemma uac_open_found: "uac_open intf = Inr dev \<longleftrightarrow> intf = Some (Some dev)"
  by (auto simp: uac_open_def split: option.splits)

end
