(* ===== verification/UsbGadget.thy ===== *)
theory UsbGadget
  imports KernelPrelude
begin

text \<open>
  The serial gadget (\<open>ch13_usb/usb_g_acm.c\<close>): a composite device whose only configuration has the
  kernel's \<open>acm\<close> function.  What the composite framework answers is an argument; the state is the
  references held and what the driver writes of its own data.
\<close>

subsection \<open>State\<close>

datatype usb_speed = USB_SPEED_FULL | USB_SPEED_HIGH | USB_SPEED_SUPER

text \<open>\<open>struct usb_device_descriptor\<close>, without its length and the fields that stay zero; the strings by number.\<close>

record usb_desc =
  bDescriptorType :: nat
  bcdUSB :: nat
  bDeviceClass :: nat
  bMaxPacketSize0 :: nat
  bcdDevice :: nat
  idVendor :: nat
  idProduct :: nat
  bNumConfigurations :: nat
  iManufacturer :: nat
  iProduct :: nat
  iSerialNumber :: nat

definition g_dev :: usb_desc where
  "g_dev = \<lparr>bDescriptorType = 1, bcdUSB = 0x0200, bDeviceClass = 0, bMaxPacketSize0 = 64, bcdDevice = 0x0100,
     idVendor = 0x1d6b, idProduct = 0x0104, bNumConfigurations = 1, iManufacturer = 0, iProduct = 0, iSerialNumber = 0\<rparr>"

record usb_cfg =
  cf_label :: string
  cf_attributes :: nat
  cf_max_power :: nat
  cf_value :: nat

text \<open>The references to the function and its instance, and whether the function is in the configuration.\<close>

record gadget =
  gd_max_speed :: usb_speed
  gd_desc :: usb_desc
  gd_instances :: nat
  gd_functions :: nat
  gd_added :: bool
  gd_configs :: "usb_cfg list"

text \<open>The answers of the framework.\<close>

record gadget_env =
  ge_strings :: "(nat \<times> nat \<times> nat) res"
  ge_alloc :: bool
  ge_instance :: "unit res"
  ge_function :: "unit res"
  ge_add :: "unit res"
  ge_config :: "unit res"

subsection \<open>Operations\<close>

definition acm_do_config :: "gadget_env \<Rightarrow> gadget \<Rightarrow> unit res \<times> gadget" where
  "acm_do_config e g =
     (case ge_instance e of Inl err \<Rightarrow> (Inl err, g)
      | Inr _ \<Rightarrow> (let g1 = g\<lparr>gd_instances := gd_instances g + 1\<rparr> in
          case ge_function e of Inl err \<Rightarrow> (Inl err, g1\<lparr>gd_instances := gd_instances g1 - 1\<rparr>)
          | Inr _ \<Rightarrow> (let g2 = g1\<lparr>gd_functions := gd_functions g1 + 1\<rparr> in
              case ge_add e of Inl err \<Rightarrow> (Inl err, g2\<lparr>gd_functions := gd_functions g2 - 1, gd_instances := gd_instances g2 - 1\<rparr>)
              | Inr _ \<Rightarrow> (Inr (), g2\<lparr>gd_added := True\<rparr>))))"

text \<open>
  \<open>usb_add_config\<close> refuses the configuration, or puts it on its list and calls \<open>bind\<close>, and takes
  it off again when that fails.
\<close>

definition usb_add_config :: "unit res \<Rightarrow> usb_cfg \<Rightarrow> (gadget \<Rightarrow> unit res \<times> gadget) \<Rightarrow> gadget \<Rightarrow> unit res \<times> gadget" where
  "usb_add_config ans cfg bind g = (case ans of Inl err \<Rightarrow> (Inl err, g)
     | Inr _ \<Rightarrow> (case bind (g\<lparr>gd_configs := gd_configs g @ [cfg]\<rparr>) of
         (Inl err, g1) \<Rightarrow> (Inl err, g1\<lparr>gd_configs := gd_configs g\<rparr>) | (Inr _, g1) \<Rightarrow> (Inr (), g1)))"

definition acm_cfg :: usb_cfg where
  "acm_cfg = \<lparr>cf_label = ''CDC ACM'', cf_attributes = 0x80, cf_max_power = 250, cf_value = 1\<rparr>"

definition g_acm_bind :: "gadget_env \<Rightarrow> gadget \<Rightarrow> unit res \<times> gadget" where
  "g_acm_bind e g =
     (case ge_strings e of Inl err \<Rightarrow> (Inl err, g)
      | Inr (m, p, n) \<Rightarrow> (let g1 = g\<lparr>gd_desc := (gd_desc g)\<lparr>iManufacturer := m, iProduct := p, iSerialNumber := n\<rparr>\<rparr> in
          if \<not> ge_alloc e then (Inl ENOMEM, g1)
          else let old = gd_max_speed g1 in
            case usb_add_config (ge_config e) acm_cfg (acm_do_config e) (g1\<lparr>gd_max_speed := USB_SPEED_FULL\<rparr>) of
              (r, g2) \<Rightarrow> (r, g2\<lparr>gd_max_speed := old\<rparr>)))"

text \<open>
  \<open>usb_composite_probe\<close> calls \<open>bind\<close>; \<open>usb_composite_unregister\<close> takes the function out of its
  configuration and drops the configuration, and calls \<open>unbind\<close>, which this driver does not have.
\<close>

definition g_acm_init :: "unit res \<Rightarrow> gadget_env \<Rightarrow> gadget \<Rightarrow> unit res \<times> gadget" where
  "g_acm_init probe e g = (case probe of Inl err \<Rightarrow> (Inl err, g) | Inr _ \<Rightarrow> g_acm_bind e g)"

definition g_acm_exit :: "gadget \<Rightarrow> gadget" where
  "g_acm_exit g = g\<lparr>gd_added := False, gd_configs := []\<rparr>"

subsection \<open>Properties\<close>

text \<open>A bind that fails holds nothing more than before; in every case the speed limit is what it was.\<close>

lemma acm_bind_balanced:
  "case g_acm_bind e g of (r, g') \<Rightarrow> gd_max_speed g' = gd_max_speed g \<and>
     (case r of Inl _ \<Rightarrow> gd_instances g' = gd_instances g \<and> gd_functions g' = gd_functions g \<and> gd_configs g' = gd_configs g \<and> gd_added g' = gd_added g
      | Inr _ \<Rightarrow> gd_instances g' = gd_instances g + 1 \<and> gd_functions g' = gd_functions g + 1 \<and> gd_configs g' = gd_configs g @ [acm_cfg] \<and> gd_added g')"
  by (auto simp: g_acm_bind_def acm_do_config_def usb_add_config_def Let_def split: sum.splits prod.splits)

text \<open>Unloading keeps the references to the function and its instance, one more of each for every load.\<close>

lemma acm_exit_leaks:
  assumes "g_acm_init (Inr ()) e g = (Inr (), g')"
  shows "gd_instances (g_acm_exit g') = gd_instances g + 1 \<and> gd_functions (g_acm_exit g') = gd_functions g + 1"
  using acm_bind_balanced [where e = e and g = g] assms by (simp add: g_acm_init_def g_acm_exit_def)

end
