(* ===== verification/IrqEvents.thy ===== *)
theory IrqEvents
  imports ModuleLife KernelPrelude
begin

text \<open>
  The interrupt loggers \<open>ch10_interrupts/shortirq.c\<close> and \<open>pci_eduirq.c\<close>: the handler stores the
  time of each interrupt in an array of 1024 entries and wakes the readers through a tasklet, a
  thread or a work item; a read returns the oldest time as a decimal line.  Both drivers share the
  array, its two counters and the read; they differ in how the interrupt is recognised and raised.
\<close>

subsection \<open>The event log\<close>

definition MAX_EVENTS :: int where "MAX_EVENTS = 1024"

text \<open>The counters are \<open>atomic_t\<close>, 32-bit integers.\<close>

record irq_log =
  il_timestamps :: "nat list"
  il_index :: int
  il_count :: int

definition log_init :: irq_log where
  "log_init = \<lparr>il_timestamps = replicate (nat MAX_EVENTS) 0, il_index = 0, il_count = 0\<rparr>"

text \<open>The critical section of the handlers.\<close>

definition log_event :: "nat \<Rightarrow> irq_log \<Rightarrow> irq_log run" where
  "log_event tk d =
     (let i = il_index d smod (MAX_EVENTS - 1) in
      if i < 0 then Inl OutOfBounds
      else Inr (d\<lparr>il_timestamps := (il_timestamps d)[nat i := tk], il_index := s32 (il_index d + 1),
        il_count := (if il_count d < MAX_EVENTS then il_count d + 1 else il_count d)\<rparr>))"

text \<open>The critical section of the read; nothing is checked again under the lock.\<close>

definition log_take :: "irq_log \<Rightarrow> (nat \<times> irq_log) run" where
  "log_take d =
     (let i = s32 (il_index d - il_count d) in
      if i < 0 \<or> MAX_EVENTS \<le> i then Inl OutOfBounds
      else Inr (il_timestamps d ! nat i, d\<lparr>il_count := s32 (il_count d - 1)\<rparr>))"

subsection \<open>The handlers\<close>

datatype irq_result = IRQ_NONE | IRQ_HANDLED | IRQ_WAKE_THREAD

datatype bh_type = BH_TASKLET | BH_THREADED | BH_WORKQUEUE

text \<open>What the handler hands the wake-up to.\<close>

definition shortirq_handler :: "bh_type \<Rightarrow> nat \<Rightarrow> irq_log \<Rightarrow> (irq_result \<times> bh_type option \<times> irq_log) run" where
  "shortirq_handler bh_mode tk d = (case log_event tk d of Inl s \<Rightarrow> Inl s
     | Inr d1 \<Rightarrow> Inr (if bh_mode = BH_THREADED then (IRQ_WAKE_THREAD, None, d1)
         else if bh_mode = BH_WORKQUEUE then (IRQ_HANDLED, Some BH_WORKQUEUE, d1)
         else (IRQ_HANDLED, Some BH_TASKLET, d1)))"

text \<open>\<open>st\<close> is the value of the status register; the fourth component is what is acknowledged.\<close>

definition eduirq_handler :: "nat \<Rightarrow> nat \<Rightarrow> irq_log \<Rightarrow> (irq_result \<times> bh_type option \<times> nat option \<times> irq_log) run" where
  "eduirq_handler st tk d =
     (if st = 0 then Inr (IRQ_NONE, None, None, d)
      else case log_event tk d of Inl s \<Rightarrow> Inl s | Inr d1 \<Rightarrow> Inr (IRQ_HANDLED, Some BH_WORKQUEUE, Some st, d1))"

text \<open>The three bottom halves do the same: they wake the readers when there is an event.\<close>

definition bottom_half :: "irq_log \<Rightarrow> bool" where
  "bottom_half d \<longleftrightarrow> il_count d \<noteq> 0"

subsection \<open>Read and write\<close>

text \<open>
  \<open>wake\<close> is the log as the reader finds it when it is woken with an event there, \<open>None\<close> when a
  signal ends the wait.
\<close>

definition log_read :: "nat \<Rightarrow> nat \<Rightarrow> irq_log option \<Rightarrow> irq_log \<Rightarrow> (byte list res \<times> irq_log) run" where
  "log_read ulen count wake d =
     (let deliver = (\<lambda>d. case log_take d of Inl s \<Rightarrow> Inl s
          | Inr (kt, d1) \<Rightarrow> (let line = line_of kt in
              if count < length line then Inr (Inl EINVAL, d1)
              else if ulen < length line then Inr (Inl EFAULT, d1)
              else Inr (Inr line, d1)))
      in if il_count d = 0 then
           (case wake of None \<Rightarrow> Inr (Inl ERESTARTSYS, d)
            | Some d1 \<Rightarrow> if il_count d1 > 0 then deliver d1 else Inl Sleeps)
         else deliver d)"

text \<open>Writes raise the interrupt: a pulse on a port, or a register of the device, if it is mapped.\<close>

definition shortirq_write :: "nat \<Rightarrow> nat \<Rightarrow> nat \<Rightarrow> nat res \<times> (nat \<times> nat) list" where
  "shortirq_write poke_base irq count = (Inr count, [(poke_base + irq, 1), (poke_base + irq, 0)])"

definition eduirq_write :: "bool \<Rightarrow> nat \<Rightarrow> nat res \<times> (nat \<times> nat) list" where
  "eduirq_write bar0 count = (if \<not> bar0 then (Inl ENODEV, []) else (Inr count, [(0x60, 1)]))"

subsection \<open>The order of the events\<close>

datatype log_op = Event nat | Take

text \<open>Interrupts and reads one after the other; a read of an empty log waits and is left out.\<close>

fun log_run :: "log_op list \<Rightarrow> irq_log \<Rightarrow> (nat list \<times> irq_log) run" where
  "log_run [] d = Inr ([], d)"
| "log_run (Event t # ops) d = (case log_event t d of Inl s \<Rightarrow> Inl s | Inr d1 \<Rightarrow> log_run ops d1)"
| "log_run (Take # ops) d =
     (if il_count d = 0 then log_run ops d
      else case log_take d of Inl s \<Rightarrow> Inl s
      | Inr (t, d1) \<Rightarrow> (case log_run ops d1 of Inl s \<Rightarrow> Inl s | Inr (out, d2) \<Rightarrow> Inr (t # out, d2)))"

fun events_of :: "log_op list \<Rightarrow> nat list" where
  "events_of [] = []"
| "events_of (Event t # ops) = t # events_of ops"
| "events_of (Take # ops) = events_of ops"

text \<open>\<open>ts\<close> are the events so far, of which the last \<open>il_count\<close> are not read yet.\<close>

definition log_holds :: "nat list \<Rightarrow> irq_log \<Rightarrow> bool" where
  "log_holds ts d \<longleftrightarrow> length (il_timestamps d) = 1024 \<and> il_index d = int (length ts) \<and> length ts \<le> 1023 \<and>
     0 \<le> il_count d \<and> il_count d \<le> int (length ts) \<and> take (length ts) (il_timestamps d) = ts"

lemma log_event_holds:
  assumes h: "log_holds ts d" and room: "length ts < 1023"
  shows "\<exists>d'. log_event t d = Inr d' \<and> log_holds (ts @ [t]) d' \<and> il_count d' = il_count d + 1"
proof -
  have "il_index d smod (MAX_EVENTS - 1) = int (length ts)"
    using h room by (simp add: log_holds_def MAX_EVENTS_def smod_nonneg)
  moreover have "take (Suc (length ts)) ((il_timestamps d)[length ts := t]) = ts @ [t]"
    using h room by (simp add: log_holds_def take_Suc_conv_app_nth)
  ultimately show ?thesis
    using h room by (simp add: log_event_def log_holds_def MAX_EVENTS_def Let_def s32_id)
qed

lemma log_take_holds:
  assumes h: "log_holds ts d" and some: "il_count d \<noteq> 0"
  shows "\<exists>d'. log_take d = Inr (ts ! (length ts - nat (il_count d)), d') \<and> log_holds ts d' \<and> il_count d' = il_count d - 1"
proof -
  define i where "i = length ts - nat (il_count d)"
  have i: "il_index d - il_count d = int i" "i < length ts" "i < 1024" using h some by (auto simp: log_holds_def i_def)
  have "il_timestamps d ! i = take (length ts) (il_timestamps d) ! i" using i by simp
  also have "\<dots> = ts ! i" using h by (simp add: log_holds_def)
  finally have "il_timestamps d ! i = ts ! i" .
  moreover have "s32 (int i) = int i" "s32 (il_count d - 1) = il_count d - 1"
    using i h by (auto simp: log_holds_def intro!: s32_id)
  ultimately show ?thesis
    using i h some by (auto simp: log_take_def i_def [symmetric] MAX_EVENTS_def log_holds_def)
qed

lemma log_run_holds:
  "log_holds ts d \<Longrightarrow> length ts + length (events_of ops) \<le> 1023 \<Longrightarrow>
    \<exists>out d'. log_run ops d = Inr (out, d') \<and> log_holds (ts @ events_of ops) d' \<and>
      drop (length ts - nat (il_count d)) (ts @ events_of ops) = out @ drop (length ts + length (events_of ops) - nat (il_count d')) (ts @ events_of ops)"
proof (induction ops d arbitrary: ts rule: log_run.induct)
  case (1 d)
  then show ?case by simp
next
  case (2 t ops d)
  from log_event_holds [OF "2.prems"(1), of t] "2.prems"(2) obtain d1
    where d1: "log_event t d = Inr d1" "log_holds (ts @ [t]) d1" "il_count d1 = il_count d + 1" by auto
  have "0 \<le> il_count d" "il_count d \<le> int (length ts)" using "2.prems"(1) by (simp_all add: log_holds_def)
  then have "length (ts @ [t]) - nat (il_count d1) = length ts - nat (il_count d)" using d1(3) by auto
  with "2.IH" [OF d1(1) d1(2)] "2.prems"(2) d1(1) show ?case by auto
next
  case (3 ops d)
  show ?case
  proof (cases "il_count d = 0")
    case True
    with "3.IH"(1) [OF True "3.prems"(1)] "3.prems"(2) show ?thesis by auto
  next
    case False
    define i where "i = length ts - nat (il_count d)"
    from log_take_holds [OF "3.prems"(1) False] obtain d1
      where d1: "log_take d = Inr (ts ! i, d1)" "log_holds ts d1" "il_count d1 = il_count d - 1" by (auto simp: i_def)
    have c: "0 \<le> il_count d" "il_count d \<le> int (length ts)" using "3.prems"(1) by (simp_all add: log_holds_def)
    then have i: "length ts - nat (il_count d1) = Suc i" "i < length ts" using d1(3) False by (auto simp: i_def)
    have "drop i (ts @ events_of ops) = ts ! i # drop (Suc i) (ts @ events_of ops)"
      using i(2) Cons_nth_drop_Suc [of i "ts @ events_of ops"] by (simp add: nth_append del: drop_append)
    with "3.IH"(2) [OF False d1(1) refl d1(2)] "3.prems"(2) d1(1) False i show ?thesis
      by (auto simp: i_def [symmetric] simp del: drop_append)
  qed
qed

text \<open>C20: up to 1023 interrupts after loading, interleaved with reads in any way, are logged without a
  fault, and the reads return their times in order, the rest being still in the log.\<close>

theorem irq_log_fifo:
  assumes "length (events_of ops) \<le> 1023"
  shows "\<exists>out d. log_run ops log_init = Inr (out, d) \<and> out = take (length out) (events_of ops) \<and>
    il_count d = int (length (events_of ops)) - int (length out)"
proof -
  have "log_holds [] log_init" by (simp add: log_holds_def log_init_def MAX_EVENTS_def)
  from log_run_holds [OF this, of ops] assms obtain out d where
    r: "log_run ops log_init = Inr (out, d)" "log_holds (events_of ops) d"
      "events_of ops = out @ drop (length (events_of ops) - nat (il_count d)) (events_of ops)" by auto
  from arg_cong [OF r(3), of length] r(2) have "il_count d = int (length (events_of ops)) - int (length out)"
    by (auto simp: log_holds_def)
  moreover from arg_cong [OF r(3), of "take (length out)"] have "out = take (length out) (events_of ops)" by simp
  ultimately show ?thesis using r(1) by blast
qed

theorem irq_log_fifo_witness:
  "\<exists>out d. log_run [Event 5, Event 6, Take, Event 7, Take] log_init = Inr (out, d) \<and> out = take (length out) [5, 6, 7]"
  using irq_log_fifo [of "[Event 5, Event 6, Take, Event 7, Take]"] by auto

lemma log_pairs:
  "n \<le> 1024 \<Longrightarrow> length (il_timestamps d) = 1024 \<Longrightarrow> il_index d = int k \<Longrightarrow> il_count d = 0 \<Longrightarrow> k + n \<le> 1024 \<Longrightarrow>
    \<exists>out d'. log_run (concat (replicate n [Event t, Take]) @ ops) d =
       (case log_run ops d' of Inl s \<Rightarrow> Inl s | Inr (out2, d2) \<Rightarrow> Inr (out @ out2, d2)) \<and>
      length (il_timestamps d') = 1024 \<and> il_index d' = int (k + n) \<and> il_count d' = 0"
proof (induction n arbitrary: d k)
  case 0
  then show ?case by (intro exI [of _ "[]"] exI [of _ d]) (auto split: sum.split)
next
  case (Suc n)
  define d1 where "d1 = d\<lparr>il_timestamps := (il_timestamps d)[nat (int k mod 1023) := t], il_index := int (Suc k), il_count := 1\<rparr>"
  have e: "log_event t d = Inr d1"
    using Suc.prems by (simp add: log_event_def d1_def MAX_EVENTS_def smod_nonneg s32_id Let_def ac_simps)
  define d2 where "d2 = d1\<lparr>il_count := 0\<rparr>"
  have take: "log_take d1 = Inr (il_timestamps d1 ! k, d2)"
    using Suc.prems by (simp add: log_take_def d1_def d2_def MAX_EVENTS_def s32_id Let_def)
  from Suc.IH [of d2 "Suc k"] Suc.prems obtain out d' where rec:
    "log_run (concat (replicate n [Event t, Take]) @ ops) d2 =
       (case log_run ops d' of Inl s \<Rightarrow> Inl s | Inr (out2, d2) \<Rightarrow> Inr (out @ out2, d2))"
    "length (il_timestamps d') = 1024" "il_index d' = int (Suc k + n)" "il_count d' = 0"
    by (auto simp: d2_def d1_def)
  have "log_run (concat (replicate (Suc n) [Event t, Take]) @ ops) d =
       (case log_run ops d' of Inl s \<Rightarrow> Inl s | Inr (out2, d2) \<Rightarrow> Inr ((il_timestamps d1 ! k # out) @ out2, d2))"
    using e take rec(1) by (simp add: d1_def split: sum.splits)
  with rec show ?case by auto
qed

text \<open>The array is written modulo 1023 and read without a modulus: the 1025th interrupt, even when
  all before it were read, makes the read leave the array.\<close>

lemma irq_log_overrun:
  "log_run (concat (replicate 1025 [Event t, Take])) log_init = Inl OutOfBounds"
proof -
  have init: "length (il_timestamps log_init) = 1024" "il_index log_init = int 0" "il_count log_init = 0"
    by (simp_all add: log_init_def MAX_EVENTS_def)
  have split: "concat (replicate 1025 [Event t, Take]) = concat (replicate 1024 [Event t, Take]) @ [Event t, Take]"
    by (simp add: replicate_add [of 1024 1, simplified])
  from log_pairs [OF _ init, of 1024 t "[Event t, Take]"] obtain out d' where r:
    "log_run (concat (replicate 1024 [Event t, Take]) @ [Event t, Take]) log_init =
       (case log_run [Event t, Take] d' of Inl s \<Rightarrow> Inl s | Inr (out2, d2) \<Rightarrow> Inr (out @ out2, d2))"
    and d': "length (il_timestamps d') = 1024" "il_index d' = 1024" "il_count d' = 0" by auto
  have "log_run [Event t, Take] d' = Inl OutOfBounds"
    using d' by (simp add: log_event_def log_take_def MAX_EVENTS_def smod_nonneg s32_id Let_def)
  with r split show ?thesis by simp
qed

text \<open>Two readers that both saw the one event: the second reads a slot that was not written, and the
  count becomes negative, so that later reads do not wait.\<close>

lemma irq_two_readers:
  assumes "log_holds ts d" and "il_count d = 1" and "length ts < 1023"
  shows "\<exists>d1 d2 x. log_take d = Inr (last ts, d1) \<and> log_take d1 = Inr (x, d2) \<and> il_count d2 = -1 \<and>
    log_read 100 100 None d2 \<noteq> Inr (Inl ERESTARTSYS, d2)"
proof -
  have ne: "ts \<noteq> []" using assms by (auto simp: log_holds_def)
  from log_take_holds [OF assms(1)] assms(2) ne obtain d1 where d1: "log_take d = Inr (last ts, d1)" "log_holds ts d1" "il_count d1 = 0"
    by (auto simp: last_conv_nth)
  define d2 where "d2 = d1\<lparr>il_count := -1\<rparr>"
  have t2: "log_take d1 = Inr (il_timestamps d1 ! length ts, d2)"
    using d1 assms(3) by (simp add: log_take_def log_holds_def d2_def MAX_EVENTS_def s32_id Let_def)
  have "log_read 100 100 None d2 \<noteq> Inr (Inl ERESTARTSYS, d2)"
    using d1 by (auto simp: log_read_def d2_def Let_def split: sum.split)
  with d1(1) t2 show ?thesis by (auto simp: d2_def)
qed

subsection \<open>Loading and unloading\<close>

datatype irq_resource = PortRegion | MiscDev | IrqLine | Enabled | Regions | Bar0 | Vectors

record shortirq_env =
  sq_region :: bool
  sq_misc :: "unit res"
  sq_irq :: "unit res"

text \<open>After a failed request of the interrupt the function goes on and returns 0.\<close>

definition shortirq_init :: "shortirq_env \<Rightarrow> unit res \<times> irq_resource list" where
  "shortirq_init e =
     (if \<not> sq_region e then (Inl EBUSY, [])
      else let h1 = [PortRegion] in
      case sq_misc e of Inl x \<Rightarrow> (Inl x, removeAll PortRegion h1)
      | Inr _ \<Rightarrow> (let h2 = MiscDev # h1; h3 = (case sq_irq e of Inl _ \<Rightarrow> removeAll PortRegion (removeAll MiscDev h2)
            | Inr _ \<Rightarrow> IrqLine # h2)
          in (Inr (), h3)))"

text \<open>What is released, and whether all of it was held.\<close>

definition shortirq_exit :: "irq_resource list \<Rightarrow> irq_resource list \<times> bool" where
  "shortirq_exit held = (removeAll PortRegion (removeAll MiscDev (removeAll IrqLine held)),
     {PortRegion, MiscDev, IrqLine} \<subseteq> set held)"

record eduirq_env =
  eq_enable :: "unit res"
  eq_regions :: "unit res"
  eq_iomap :: bool
  eq_vectors :: "unit res"
  eq_irq :: "unit res"
  eq_misc :: "unit res"

definition eq_disable_dev :: "irq_resource list \<Rightarrow> irq_resource list" where "eq_disable_dev held = removeAll Enabled held"
definition eq_release_mem :: "irq_resource list \<Rightarrow> irq_resource list" where "eq_release_mem held = eq_disable_dev (removeAll Regions held)"
definition eq_unmap :: "irq_resource list \<Rightarrow> irq_resource list" where "eq_unmap held = eq_release_mem (removeAll Bar0 held)"
definition eq_err_vectors :: "irq_resource list \<Rightarrow> irq_resource list" where "eq_err_vectors held = eq_unmap (removeAll Vectors held)"
definition eq_err_irq :: "irq_resource list \<Rightarrow> irq_resource list" where "eq_err_irq held = eq_err_vectors (removeAll IrqLine held)"

lemmas eduirq_labels = eq_disable_dev_def eq_release_mem_def eq_unmap_def eq_err_vectors_def eq_err_irq_def

definition eduirq_probe :: "eduirq_env \<Rightarrow> unit res \<times> irq_resource list" where
  "eduirq_probe e =
     (case eq_enable e of Inl x \<Rightarrow> (Inl x, [])
      | Inr _ \<Rightarrow> (let h1 = [Enabled] in
      case eq_regions e of Inl x \<Rightarrow> (Inl x, eq_disable_dev h1)
      | Inr _ \<Rightarrow> (let h2 = Regions # h1 in
      if \<not> eq_iomap e then (Inl ENODEV, eq_release_mem h2)
      else let h3 = Bar0 # h2 in
      case eq_vectors e of Inl _ \<Rightarrow> (Inl ENODEV, eq_unmap h3)
      | Inr _ \<Rightarrow> (let h4 = Vectors # h3 in
      case eq_irq e of Inl x \<Rightarrow> (Inl x, eq_err_vectors h4)
      | Inr _ \<Rightarrow> (let h5 = IrqLine # h4 in
      case eq_misc e of Inl x \<Rightarrow> (Inl x, eq_err_irq h5)
      | Inr _ \<Rightarrow> (Inr (), MiscDev # h5))))))"

definition eduirq_remove :: "irq_resource list \<Rightarrow> irq_resource list" where
  "eduirq_remove held = removeAll MiscDev (removeAll Enabled (removeAll Regions (removeAll Bar0 (removeAll Vectors
     (removeAll IrqLine held)))))"

lemma eduirq_load:
  "case eduirq_probe e of (Inl _, held) \<Rightarrow> held = [] | (Inr _, held) \<Rightarrow> length held = 6 \<and> eduirq_remove held = []"
  by (simp add: eduirq_probe_def eduirq_labels eduirq_remove_def Let_def split: sum.split)

text \<open>Loading \<open>shortirq\<close> succeeds also when its interrupt is refused; it then holds nothing, and
  unloading releases what it does not hold.\<close>

lemma shortirq_load:
  "case shortirq_init e of
     (Inl _, held) \<Rightarrow> held = []
   | (Inr _, held) \<Rightarrow> (if sq_irq e = Inr () then shortirq_exit held = ([], True) else held = [] \<and> shortirq_exit held = ([], False))"
  by (auto simp: shortirq_init_def shortirq_exit_def Let_def split: sum.splits)

subsection \<open>The parameter that chooses the bottom half\<close>

definition bh_modes :: "(bh_type \<times> byte list) list" where
  "bh_modes = [(BH_TASKLET, text_of ''tasklet''), (BH_THREADED, text_of ''threaded''), (BH_WORKQUEUE, text_of ''workqueue'')]"

text \<open>The first name that the value equals, up to a newline at the end.\<close>

definition param_set_bh_mode :: "byte list \<Rightarrow> bh_type \<Rightarrow> unit res \<times> bh_type" where
  "param_set_bh_mode val bh_mode = (case find (\<lambda>(m, name). sysfs_streq val name) bh_modes of
     None \<Rightarrow> (Inl EINVAL, bh_mode) | Some (m, _) \<Rightarrow> (Inr (), m))"

definition param_get_bh_mode :: "bh_type \<Rightarrow> byte list" where
  "param_get_bh_mode bh_mode = the (map_of bh_modes bh_mode) @ [10]"

text \<open>What is shown can be written back, and anything that is not a name is refused and changes nothing.\<close>

lemma bh_mode_roundtrip: "param_set_bh_mode (param_get_bh_mode m @ [0]) m' = (Inr (), m)"
  by (cases m) (simp_all add: param_set_bh_mode_def param_get_bh_mode_def bh_modes_def sysfs_streq_def cstr_def text_of_def)

lemma bh_mode_refused:
  assumes "param_set_bh_mode val m = (Inl e, m')"
  shows "e = EINVAL \<and> m' = m \<and> (\<forall>(k, name)\<in>set bh_modes. cstr val \<noteq> name)"
proof -
  have plain: "cstr name = name" if "(k, name) \<in> set bh_modes" for k name
    using that by (auto simp: bh_modes_def cstr_def text_of_def)
  have f: "find (\<lambda>(m, name). sysfs_streq val name) bh_modes = None" and e: "e = EINVAL \<and> m' = m"
    using assms by (auto simp: param_set_bh_mode_def split: option.splits prod.splits)
  have "cstr val \<noteq> name" if "(k, name) \<in> set bh_modes" for k name
    using f that plain [OF that] by (fastforce simp: find_None_iff sysfs_streq_def Let_def)
  with e show ?thesis by blast
qed

subsection \<open>The driver of the EDU device\<close>

text \<open>\<open>pci_eduirq.c\<close> repeats the read and the bottom half.\<close>

definition eduirq_read :: "nat \<Rightarrow> nat \<Rightarrow> irq_log option \<Rightarrow> irq_log \<Rightarrow> (byte list res \<times> irq_log) run" where
  "eduirq_read = log_read"

definition eduirq_work :: "irq_log \<Rightarrow> bool" where
  "eduirq_work = bottom_half"

text \<open>An interrupt of the device is stored with its time, acknowledged with the bits that were pending, and
  what a read of an empty log then returns; other interrupts on the line are left alone.\<close>

lemma eduirq_event_read:
  assumes "log_holds ts d" and "length ts < 1023" and "il_count d = 0" and "0 < st" and "length (line_of tk) \<le> min count ulen"
  shows "\<exists>d1 d2. eduirq_handler st tk d = Inr (IRQ_HANDLED, Some BH_WORKQUEUE, Some st, d1) \<and> eduirq_work d1 \<and>
    eduirq_read ulen count None d1 = Inr (Inr (line_of tk), d2) \<and> eduirq_handler 0 tk d = Inr (IRQ_NONE, None, None, d)"
proof -
  obtain d1 where d1: "log_event tk d = Inr d1" "log_holds (ts @ [tk]) d1" "il_count d1 = 1"
    using log_event_holds [OF assms(1,2), of tk] assms(1,3) by (auto simp: log_event_def MAX_EVENTS_def Let_def split: if_splits)
  then obtain d2 where "log_take d1 = Inr (tk, d2)" using log_take_holds [OF d1(2)] by (auto simp: nth_append log_holds_def)
  then show ?thesis using d1 assms(4,5) by (auto simp: eduirq_handler_def eduirq_work_def bottom_half_def eduirq_read_def log_read_def Let_def)
qed

text \<open>The modules keep the contract of loading and unloading, \<open>shortirq\<close> as long as its interrupt is granted.\<close>

interpretation eduirq_mod: unwinding "\<lambda>e. Inr (eduirq_probe e)" "\<lambda>h. Inr (eduirq_remove h)" "\<lambda>h. h = []" "\<lambda>_. True"
  by (rule unwindingI) (use eduirq_load in \<open>fastforce split: sum.splits prod.splits\<close>)

interpretation shortirq_mod: unwinding "\<lambda>e. Inr (shortirq_init e)" "\<lambda>h. Inr (fst (shortirq_exit h))" "\<lambda>h. h = []" "\<lambda>e. sq_irq e = Inr ()"
  by (rule unwindingI) (use shortirq_load in \<open>fastforce split: sum.splits prod.splits\<close>)

end
