(* ===== verification/ShortPort.thy ===== *)
theory ShortPort
  imports ModuleLife KernelPrelude
begin

text \<open>
  The port driver \<open>ch09_hw_communication/short.c\<close>: three registers, data, status and control, of
  which the file position selects one.  The device is a parameter: the values that the successive
  accesses read are an input, and every access is recorded.
\<close>

definition SPAN :: int where "SPAN = 3"

definition reg_ok :: "int \<Rightarrow> bool" where
  "reg_ok pos \<longleftrightarrow> pos \<ge> 0 \<and> pos < SPAN"

text \<open>\<open>f_pos\<close> of the file before and after.\<close>

definition short_llseek :: "int \<Rightarrow> int \<Rightarrow> int \<Rightarrow> int res \<times> int" where
  "short_llseek f_pos off whence =
     (let seek = (\<lambda>newpos. if \<not> reg_ok newpos then (Inl EINVAL, f_pos) else (Inr newpos, newpos))
      in if whence = 0 then seek off
         else if whence = 1 then seek (s64 (f_pos + off))
         else if whence = 2 then seek (s64 (SPAN + off))
         else (Inl EINVAL, f_pos))"

text \<open>An access: a memory or port read, or a write of a value, at an address.\<close>

datatype short_io = In bool int | Out bool int byte

text \<open>\<open>base\<close> is the address of the ports or of the mapping, \<open>vs i\<close> the \<open>i\<close>-th value read.\<close>

fun read_regs :: "bool \<Rightarrow> int \<Rightarrow> (nat \<Rightarrow> byte) \<Rightarrow> nat \<Rightarrow> nat \<Rightarrow> nat \<Rightarrow> byte list \<times> bool \<times> short_io list" where
  "read_regs use_mem a vs ulen i 0 = ([], False, [])"
| "read_regs use_mem a vs ulen i (Suc n) =
     (if ulen \<le> i then ([], True, [In use_mem a])
      else case read_regs use_mem a vs ulen (Suc i) n of (bs, fault, io) \<Rightarrow> (vs i # bs, fault, In use_mem a # io))"

definition short_read :: "bool \<Rightarrow> int \<Rightarrow> (nat \<Rightarrow> byte) \<Rightarrow> nat \<Rightarrow> nat \<Rightarrow> int \<Rightarrow> nat res \<times> byte list \<times> short_io list" where
  "short_read use_mem base vs ulen count f_pos =
     (if count = 0 then (Inr 0, [], [])
      else if \<not> reg_ok f_pos then (Inl EINVAL, [], [])
      else case read_regs use_mem (base + f_pos) vs ulen 0 count of (bs, fault, io) \<Rightarrow>
        (if fault then (if bs \<noteq> [] then Inr (length bs) else Inl EFAULT) else Inr count, bs, io))"

fun write_regs :: "bool \<Rightarrow> int \<Rightarrow> byte list \<Rightarrow> nat \<Rightarrow> nat \<times> short_io list" where
  "write_regs use_mem a ubuf 0 = (0, [])"
| "write_regs use_mem a [] (Suc n) = (0, [])"
| "write_regs use_mem a (v # ubuf) (Suc n) = (case write_regs use_mem a ubuf n of (i, io) \<Rightarrow> (Suc i, Out use_mem a v # io))"

definition short_write :: "bool \<Rightarrow> int \<Rightarrow> byte list \<Rightarrow> nat \<Rightarrow> int \<Rightarrow> nat res \<times> short_io list" where
  "short_write use_mem base ubuf count f_pos =
     (if count = 0 then (Inr 0, [])
      else if \<not> reg_ok f_pos then (Inl EINVAL, [])
      else if f_pos = 1 then (Inl EPERM, [])
      else case write_regs use_mem (base + f_pos) ubuf count of (i, io) \<Rightarrow>
        (if i < count then (if i \<noteq> 0 then Inr i else Inl EFAULT) else Inr count, io))"

subsection \<open>Loading and unloading\<close>

datatype short_resource = ShortRegion | ShortMap | ShortMisc

record short_env =
  sh_region :: bool
  sh_map :: bool
  sh_misc :: "unit res"

definition short_port_init :: "bool \<Rightarrow> short_env \<Rightarrow> unit res \<times> short_resource list" where
  "short_port_init use_mem e =
     (if \<not> sh_region e then (Inl EBUSY, [])
      else if use_mem \<and> \<not> sh_map e then (Inl ENOMEM, removeAll ShortRegion [ShortRegion])
      else let h = (if use_mem then [ShortMap, ShortRegion] else [ShortRegion]) in
      case sh_misc e of
        Inl x \<Rightarrow> (Inl x, if use_mem then removeAll ShortRegion (removeAll ShortMap h) else removeAll ShortRegion h)
      | Inr _ \<Rightarrow> (Inr (), ShortMisc # h))"

definition short_port_exit :: "bool \<Rightarrow> short_resource list \<Rightarrow> short_resource list" where
  "short_port_exit use_mem held = (let h = removeAll ShortMisc held
     in if use_mem then removeAll ShortRegion (removeAll ShortMap h) else removeAll ShortRegion h)"

lemma short_port_load:
  "case short_port_init use_mem e of (Inl _, held) \<Rightarrow> held = []
   | (Inr _, held) \<Rightarrow> ShortMisc \<in> set held \<and> (ShortMap \<in> set held \<longleftrightarrow> use_mem) \<and> short_port_exit use_mem held = []"
  by (simp add: short_port_init_def short_port_exit_def Let_def split: sum.split)

subsection \<open>Properties\<close>

lemma read_regs_spec:
  "read_regs use_mem a vs ulen i n = (bs, fault, io) \<Longrightarrow>
    bs = map vs [i..<i + min n (ulen - i)] \<and> fault = (ulen - i < n) \<and> set io \<subseteq> {In use_mem a}"
proof (induction n arbitrary: i bs fault io)
  case (Suc n)
  show ?case
  proof (cases "ulen \<le> i")
    case False
    obtain bs1 fault1 io1 where r: "read_regs use_mem a vs ulen (Suc i) n = (bs1, fault1, io1)" by (metis prod_cases3)
    have "[i..<i + min (Suc n) (ulen - i)] = i # [Suc i..<Suc i + min n (ulen - Suc i)]"
    proof -
      have "i + min (Suc n) (ulen - i) = Suc i + min n (ulen - Suc i)" using False by auto
      then show ?thesis by (simp add: upt_conv_Cons del: upt_Suc)
    qed
    with Suc.IH [OF r] Suc.prems r False show ?thesis by auto
  qed (use Suc.prems in auto)
qed simp

lemma write_regs_spec:
  "write_regs use_mem a ubuf n = (i, io) \<Longrightarrow> i = min n (length ubuf) \<and> io = map (Out use_mem a) (take n ubuf)"
  by (induction use_mem a ubuf n arbitrary: i io rule: write_regs.induct) (auto split: prod.splits)

lemma short_read_spec:
  "short_read use_mem base vs ulen count f_pos = (r, bs, io) \<Longrightarrow>
    set io \<subseteq> (if reg_ok f_pos then {In use_mem (base + f_pos)} else {}) \<and>
    (if count = 0 then r = Inr 0 else if \<not> reg_ok f_pos then r = Inl EINVAL
     else bs = map vs [0..<min count ulen] \<and> r = (if ulen = 0 then Inl EFAULT else Inr (min count ulen)))"
  by (auto simp: short_read_def min_def split: prod.splits if_splits dest!: read_regs_spec)

lemma short_write_spec:
  "short_write use_mem base ubuf count f_pos = (r, io) \<Longrightarrow>
    (if count = 0 then r = Inr 0 \<and> io = [] else if \<not> reg_ok f_pos then r = Inl EINVAL \<and> io = []
     else if f_pos = 1 then r = Inl EPERM \<and> io = []
     else io = map (Out use_mem (base + f_pos)) (take count ubuf) \<and>
       r = (if ubuf = [] then Inl EFAULT else Inr (min count (length ubuf))))"
  by (auto simp: short_write_def min_def split: prod.splits if_splits dest!: write_regs_spec)

text \<open>A read or write touches only the register that the position selects, never writes the status
  register, and transfers as many bytes as the user's buffer has, in order, failing only when that
  is none.\<close>

lemma short_registers:
  "(case short_read use_mem base vs ulen count f_pos of (r, bs, rio) \<Rightarrow>
     set rio \<subseteq> (if reg_ok f_pos then {In use_mem (base + f_pos)} else {}) \<and>
     (if count = 0 then r = Inr 0 else if \<not> reg_ok f_pos then r = Inl EINVAL
      else bs = map vs [0..<min count ulen] \<and> r = (if ulen = 0 then Inl EFAULT else Inr (min count ulen)))) \<and>
   (case short_write use_mem base ubuf count f_pos of (r, wio) \<Rightarrow>
     (if count = 0 then r = Inr 0 \<and> wio = [] else if \<not> reg_ok f_pos then r = Inl EINVAL \<and> wio = []
      else if f_pos = 1 then r = Inl EPERM \<and> wio = []
      else wio = map (Out use_mem (base + f_pos)) (take count ubuf) \<and>
        r = (if ubuf = [] then Inl EFAULT else Inr (min count (length ubuf)))))"
proof -
  obtain r bs rio where r: "short_read use_mem base vs ulen count f_pos = (r, bs, rio)" by (metis prod_cases3)
  obtain w wio where w: "short_write use_mem base ubuf count f_pos = (w, wio)" by (metis prod.exhaust)
  show ?thesis unfolding r w prod.case using short_read_spec [OF r] short_write_spec [OF w] by (rule conjI)
qed

text \<open>The module keeps the contract of loading and unloading.\<close>

interpretation short_mod: unwinding "\<lambda>e. Inr (short_port_init use_mem e)" "\<lambda>h. Inr (short_port_exit use_mem h)" "\<lambda>h. h = []" "\<lambda>_. True"
  for use_mem :: bool
  by (rule unwindingI) (use short_port_load [of use_mem] in \<open>fastforce split: sum.splits prod.splits\<close>)

end
