(* ===== verification/MintBus.thy ===== *)
theory MintBus
  imports ModuleLife KernelPrelude
begin

text \<open>
  The mint bus (\<open>ch14_device_model\<close>): \<open>mint_bus.c\<close> with its devices, which are added and removed
  by writing their names to attributes of the bus, \<open>mint_class.c\<close> with the character device that
  selects one of them and stores a text in it, and the driver of \<open>mint_driver.c\<close>.  Devices are
  objects with a reference count on a heap.
\<close>

subsection \<open>State\<close>

definition MAX_MINT_ID_LEN :: nat where "MAX_MINT_ID_LEN = 32"

text \<open>
  The references that the driver core takes and drops in pairs (for the bus and for the class
  device) are not counted in \<open>md_refs\<close>; \<open>md_class\<close> says whether \<open>class_dev\<close> is a device or an
  error pointer.
\<close>

record mint_dev =
  md_name :: string
  md_refs :: nat
  md_priv :: "string option"
  md_class :: bool

text \<open>The heap, the devices on the bus, the tables of the registered drivers, the selected device.\<close>

record mint_sys =
  mi_heap :: "nat \<Rightarrow> mint_dev option"
  mi_next :: nat
  mi_bus :: "nat list"
  mi_tables :: "string list list"
  mi_selected :: "nat option"

definition dev_name :: "mint_sys \<Rightarrow> nat \<Rightarrow> string option" where
  "dev_name s i = map_option md_name (mi_heap s i)"

definition get_device :: "nat \<Rightarrow> mint_sys \<Rightarrow> mint_sys" where
  "get_device i s = s\<lparr>mi_heap := (mi_heap s)(i := map_option (\<lambda>d. d\<lparr>md_refs := md_refs d + 1\<rparr>) (mi_heap s i))\<rparr>"

text \<open>The last reference runs \<open>mint_release\<close>, which frees the text and the device.\<close>

definition put_device :: "nat \<Rightarrow> mint_sys \<Rightarrow> mint_sys" where
  "put_device i s = s\<lparr>mi_heap := (mi_heap s)(i := (case mi_heap s i of None \<Rightarrow> None
     | Some d \<Rightarrow> (if md_refs d \<le> 1 then None else Some (d\<lparr>md_refs := md_refs d - 1\<rparr>))))\<rparr>"

text \<open>\<open>bus_find_device_by_name\<close> takes a reference to what it finds.\<close>

definition bus_find :: "string \<Rightarrow> mint_sys \<Rightarrow> nat option \<times> mint_sys" where
  "bus_find name s = (case find (\<lambda>i. dev_name s i = Some name) (mi_bus s) of
     None \<Rightarrow> (None, s) | Some i \<Rightarrow> (Some i, get_device i s))"

subsection \<open>Matching\<close>

text \<open>
  The loop ends at an entry without a name, but \<open>name\<close> is an array, whose address is never null:
  behind the last entry it reads past the table.
\<close>

fun minibus_match :: "string list \<Rightarrow> string \<Rightarrow> bool run" where
  "minibus_match [] name = Inl OutOfBounds"
| "minibus_match (x # xs) name = (if x = name then Inr True else minibus_match xs name)"

definition mint_id_table :: "string list" where
  "mint_id_table = [''peppermint'', ''spearmint'', '''']"

text \<open>The core tries the drivers of the bus in turn until one matches; the probe of this one succeeds.\<close>

fun bus_probe :: "string list list \<Rightarrow> string \<Rightarrow> bool run" where
  "bus_probe [] name = Inr False"
| "bus_probe (t # ts) name = (case minibus_match t name of Inl s \<Rightarrow> Inl s
     | Inr b \<Rightarrow> (if b then Inr True else bus_probe ts name))"

definition mint_core_probe :: "unit res option \<Rightarrow> unit res" where
  "mint_core_probe probe = (case probe of None \<Rightarrow> Inr () | Some r \<Rightarrow> r)"

subsection \<open>The attributes of the bus\<close>

definition newline :: char where "newline = CHR 0x0A"
definition nul :: char where "nul = CHR 0x00"

text \<open>\<open>strcspn (buf, "\<newline>")\<close>; the name, if its length is admissible.\<close>

definition strcspn_nl :: "string \<Rightarrow> nat" where
  "strcspn_nl buf = length (takeWhile (\<lambda>c. c \<noteq> newline \<and> c \<noteq> nul) buf)"

definition parse_name :: "string \<Rightarrow> string option" where
  "parse_name buf = (let len = strcspn_nl buf in
     if len = 0 \<or> MAX_MINT_ID_LEN \<le> len then None else Some (take len buf))"

text \<open>\<open>alloc\<close>, \<open>add\<close> and \<open>class_ok\<close> are the answers of the allocator and of the driver core.\<close>

definition add_device_store :: "bool \<Rightarrow> unit res \<Rightarrow> bool \<Rightarrow> string \<Rightarrow> nat \<Rightarrow> mint_sys \<Rightarrow> (nat res \<times> mint_sys) run" where
  "add_device_store alloc add class_ok buf count s =
     (case parse_name buf of None \<Rightarrow> Inr (Inl EINVAL, s)
      | Some name \<Rightarrow> (case bus_find name s of
          (Some _, s1) \<Rightarrow> Inr (Inl EEXIST, s1)
        | (None, s1) \<Rightarrow>
            (if \<not> alloc then Inr (Inl ENOMEM, s1)
             else let i = mi_next s1;
                 s2 = s1\<lparr>mi_heap := (mi_heap s1)(i \<mapsto> \<lparr>md_name = name, md_refs = 1, md_priv = None, md_class = False\<rparr>),
                   mi_next := Suc i\<rparr>
             in case add of
                 Inl e \<Rightarrow> Inr (Inl e, put_device i s2)
               | Inr _ \<Rightarrow> (case bus_probe (mi_tables s2) name of
                   Inl st \<Rightarrow> Inl st
                 | Inr _ \<Rightarrow> Inr (Inr count, s2\<lparr>mi_bus := mi_bus s2 @ [i],
                     mi_heap := (mi_heap s2)(i := map_option (\<lambda>d. d\<lparr>md_class := class_ok\<rparr>) (mi_heap s2 i))\<rparr>)))))"

text \<open>Unregistering an error pointer is an invalid access.\<close>

definition remove_device_store :: "string \<Rightarrow> nat \<Rightarrow> mint_sys \<Rightarrow> (nat res \<times> mint_sys) run" where
  "remove_device_store buf count s =
     (case parse_name buf of None \<Rightarrow> Inr (Inl EINVAL, s)
      | Some name \<Rightarrow> (case bus_find name s of
          (None, s1) \<Rightarrow> Inr (Inl ENODEV, s1)
        | (Some i, s1) \<Rightarrow>
            (case mi_heap s1 i of None \<Rightarrow> Inl NullDeref
             | Some d \<Rightarrow> (if \<not> md_class d then Inl NullDeref
                 else let s2 = s1\<lparr>mi_heap := (mi_heap s1)(i \<mapsto> d\<lparr>md_class := False\<rparr>)\<rparr>;
                          s3 = s2\<lparr>mi_bus := removeAll i (mi_bus s2)\<rparr>
                      in Inr (Inr count, put_device i s3)))))"

subsection \<open>The character device\<close>

text \<open>\<open>ubuf\<close> is what is mapped of the user's buffer, \<open>dup\<close> says whether the text was duplicated.\<close>

definition mint_write :: "bool \<Rightarrow> string \<Rightarrow> nat \<Rightarrow> mint_sys \<Rightarrow> (nat res \<times> mint_sys) run" where
  "mint_write dup ubuf count s =
     (let n = (if MAX_MINT_ID_LEN \<le> count then MAX_MINT_ID_LEN - 1 else count) in
      if length ubuf < n then Inr (Inl EFAULT, s)
      else let raw = take n ubuf; name = take (strcspn_nl raw) raw in
      case bus_find name s of
        (Some i, s1) \<Rightarrow> Inr (Inr n, s1\<lparr>mi_selected := Some i\<rparr>)
      | (None, s1) \<Rightarrow> (case mi_selected s1 of
            None \<Rightarrow> Inr (Inl ENODEV, s1)
          | Some i \<Rightarrow> (case mi_heap s1 i of None \<Rightarrow> Inl NullDeref
              | Some d \<Rightarrow> (let s2 = s1\<lparr>mi_heap := (mi_heap s1)(i \<mapsto> d\<lparr>md_priv := (if dup then Some name else None)\<rparr>)\<rparr>
                  in Inr (if dup then Inr n else Inl ENOMEM, s2)))))"

definition mint_read :: "nat \<Rightarrow> nat \<Rightarrow> int \<Rightarrow> mint_sys \<Rightarrow> (string res \<times> int) run" where
  "mint_read ulen count pos s =
     (case mi_selected s of None \<Rightarrow> Inr (Inr [], pos)
      | Some i \<Rightarrow> (case mi_heap s i of None \<Rightarrow> Inl NullDeref
          | Some d \<Rightarrow> (case md_priv d of None \<Rightarrow> Inr (Inr [], pos)
              | Some text \<Rightarrow> Inr (simple_read_from_buffer ulen count pos text))))"

subsection \<open>Loading and unloading\<close>

datatype mint_resource = MintRoot | MintClass | MintBusType | MintRegion | MintCdev | MintNode

text \<open>\<open>class_create\<close> returns an error pointer, not null, so that its failure goes unnoticed.\<close>

definition mintbus_init :: "unit res \<Rightarrow> unit res \<Rightarrow> unit res \<Rightarrow> unit res \<times> mint_resource list" where
  "mintbus_init root cls bus =
     (case root of Inl e \<Rightarrow> (Inl e, [])
      | Inr _ \<Rightarrow> (let h = (case cls of Inl _ \<Rightarrow> [MintRoot] | Inr _ \<Rightarrow> [MintClass, MintRoot])
          in case bus of Inl e \<Rightarrow> (Inl e, h) | Inr _ \<Rightarrow> (Inr (), MintBusType # h)))"

definition mintbus_exit :: "unit res \<Rightarrow> mint_resource list \<Rightarrow> mint_resource list" where
  "mintbus_exit cls held = removeAll MintRoot (removeAll MintBusType
     (case cls of Inl _ \<Rightarrow> held | Inr _ \<Rightarrow> MintClass # held))"

definition mintclass_init :: "bool \<Rightarrow> unit res \<Rightarrow> (unit res \<times> mint_resource list) run" where
  "mintclass_init class_valid region =
     (if \<not> class_valid then Inl NullDeref
      else Inr (case region of Inl e \<Rightarrow> (Inl e, []) | Inr _ \<Rightarrow> (Inr (), [MintNode, MintCdev, MintRegion])))"

definition mintclass_exit :: "mint_resource list \<Rightarrow> mint_resource list" where
  "mintclass_exit held = removeAll MintRegion (removeAll MintCdev (removeAll MintNode held))"

lemma mintclass_load:
  "mintclass_init True region = Inr (Inr (), held) \<Longrightarrow> mintclass_exit held = []"
  by (auto simp: mintclass_init_def mintclass_exit_def split: sum.splits)

text \<open>Unloading the bus keeps its class, and the exit function creates it once more.\<close>

lemma mintbus_load:
  "mintbus_init (Inr ()) (Inr ()) (Inr ()) = (Inr (), held) \<Longrightarrow> mintbus_exit again held \<noteq> []"
  by (auto simp: mintbus_init_def mintbus_exit_def split: sum.splits)

subsection \<open>Steps and invariant\<close>

inductive mint_step :: "mint_sys \<Rightarrow> mint_sys \<Rightarrow> bool" where
  add: "add_device_store alloc add class_ok buf count s = Inr (r, s') \<Longrightarrow> mint_step s s'"
| remove: "remove_device_store buf count s = Inr (r, s') \<Longrightarrow> mint_step s s'"
| store: "mint_write dup ubuf count s = Inr (r, s') \<Longrightarrow> mint_step s s'"
| driver: "mint_step s (s\<lparr>mi_tables := ts\<rparr>)"

inductive mint_reach :: "mint_sys \<Rightarrow> bool" where
  init: "mint_reach \<lparr>mi_heap = Map.empty, mi_next = 0, mi_bus = [], mi_tables = [], mi_selected = None\<rparr>"
| step: "mint_reach s \<Longrightarrow> mint_step s s' \<Longrightarrow> mint_reach s'"

text \<open>Every device on the bus or selected is on the heap; names on the bus are distinct and admissible.\<close>

definition mint_ok :: "mint_sys \<Rightarrow> bool" where
  "mint_ok s \<longleftrightarrow> (\<forall>i d. mi_heap s i = Some d \<longrightarrow> i < mi_next s \<and> 0 < md_refs d) \<and>
     distinct (mi_bus s) \<and> (\<forall>i\<in>set (mi_bus s). mi_heap s i \<noteq> None) \<and>
     inj_on (dev_name s) (set (mi_bus s)) \<and> (\<forall>i. mi_selected s = Some i \<longrightarrow> mi_heap s i \<noteq> None)"

lemma bus_find_cases:
  assumes "mint_ok s"
  obtains (none) "bus_find name s = (None, s)" "\<forall>i\<in>set (mi_bus s). dev_name s i \<noteq> Some name"
    | (some) i d where "bus_find name s = (Some i, s\<lparr>mi_heap := (mi_heap s)(i \<mapsto> d\<lparr>md_refs := md_refs d + 1\<rparr>)\<rparr>)"
      "i \<in> set (mi_bus s)" "mi_heap s i = Some d" "md_name d = name"
proof (cases "find (\<lambda>i. dev_name s i = Some name) (mi_bus s)")
  case None
  then have "bus_find name s = (None, s)" by (simp add: bus_find_def)
  moreover have "\<forall>i\<in>set (mi_bus s). dev_name s i \<noteq> Some name" using None by (auto simp: find_None_iff)
  ultimately show thesis by (rule none)
next
  case (Some i)
  then have i: "i \<in> set (mi_bus s)" "dev_name s i = Some name" by (auto simp: find_Some_iff)
  then obtain d where "mi_heap s i = Some d" "md_name d = name" by (auto simp: dev_name_def)
  with Some i show thesis by (intro some [of i d]) (auto simp: bus_find_def get_device_def)
qed

text \<open>Changing a device but for its name, without dropping its last reference.\<close>

lemma mint_ok_update:
  assumes "mint_ok s" and "mi_heap s i = Some d" and "md_name d' = md_name d" and "0 < md_refs d'"
  shows "mint_ok (s\<lparr>mi_heap := (mi_heap s)(i \<mapsto> d')\<rparr>)"
proof -
  have "dev_name (s\<lparr>mi_heap := (mi_heap s)(i \<mapsto> d')\<rparr>) = dev_name s" using assms(2,3) by (auto simp: dev_name_def)
  with assms show ?thesis by (auto simp: mint_ok_def)
qed

lemma dev_name_simps [simp]:
  "dev_name (s\<lparr>mi_bus := b\<rparr>) = dev_name s" "dev_name (s\<lparr>mi_selected := x\<rparr>) = dev_name s" "dev_name (s\<lparr>mi_next := n\<rparr>) = dev_name s"
  "dev_name (s\<lparr>mi_tables := t\<rparr>) = dev_name s"
  by (auto simp: dev_name_def)

lemma mint_ok_shrink: "mint_ok s \<Longrightarrow> mint_ok (s\<lparr>mi_bus := removeAll i (mi_bus s)\<rparr>)"
  by (auto simp: mint_ok_def distinct_removeAll intro: inj_on_subset)

lemma mint_ok_select: "mint_ok s \<Longrightarrow> mi_heap s i \<noteq> None \<Longrightarrow> mint_ok (s\<lparr>mi_selected := Some i\<rparr>)"
  by (auto simp: mint_ok_def)

lemma mint_ok_fresh:
  assumes "mint_ok s"
  shows "mi_heap s (mi_next s) = None" "mi_next s \<notin> set (mi_bus s)" "mi_selected s \<noteq> Some (mi_next s)"
proof -
  show h: "mi_heap s (mi_next s) = None" using assms by (cases "mi_heap s (mi_next s)") (auto simp: mint_ok_def)
  then show "mi_next s \<notin> set (mi_bus s)" "mi_selected s \<noteq> Some (mi_next s)" using assms by (auto simp: mint_ok_def)
qed

lemma mint_ok_find:
  assumes "mint_ok s" and "bus_find name s = (r, s1)"
  shows "mint_ok s1 \<and> mi_bus s1 = mi_bus s \<and> mi_selected s1 = mi_selected s \<and> mi_tables s1 = mi_tables s \<and> mi_next s1 = mi_next s \<and>
    (\<forall>i. mi_heap s i \<noteq> None \<longrightarrow> mi_heap s1 i \<noteq> None)"
  using assms(1)
proof (cases rule: bus_find_cases [where name = name])
  case none
  with assms show ?thesis by simp
next
  case (some i d)
  with assms mint_ok_update [OF assms(1) some(3), of "d\<lparr>md_refs := md_refs d + 1\<rparr>"] show ?thesis by auto
qed

lemma add_device_ok:
  assumes ok: "mint_ok s" and a: "add_device_store alloc add class_ok buf count s = Inr (r, s')"
  shows "mint_ok s' \<and> (\<forall>i. mi_heap s i \<noteq> None \<longrightarrow> mi_heap s' i \<noteq> None)"
proof (cases "parse_name buf")
  case None
  with a ok show ?thesis by (simp add: add_device_store_def)
next
  case (Some name)
  show ?thesis using ok
  proof (cases rule: bus_find_cases [where name = name])
    case (some i d)
    with a Some mint_ok_find [OF ok some(1)] show ?thesis by (auto simp: add_device_store_def)
  next
    case none
    define i where "i = mi_next s"
    have fresh: "mi_heap s i = None" "i \<notin> set (mi_bus s)" "mi_selected s \<noteq> Some i" using mint_ok_fresh [OF ok] by (simp_all add: i_def)
    show ?thesis
    proof (cases "alloc \<and> add = Inr ()")
      case False
      then have "s' = s \<or> s' = s\<lparr>mi_next := Suc i\<rparr>"
        using a Some none fresh by (auto simp: add_device_store_def put_device_def i_def Let_def fun_upd_idem split: if_splits sum.splits)
      then show ?thesis using ok by (auto simp: mint_ok_def i_def dev_name_def inj_on_def less_Suc_eq)
    next
      case True
      define d where "d = \<lparr>md_name = name, md_refs = 1, md_priv = None, md_class = class_ok\<rparr>"
      have s': "s' = s\<lparr>mi_heap := (mi_heap s)(i \<mapsto> d), mi_next := Suc i, mi_bus := mi_bus s @ [i]\<rparr>"
        using a Some none True by (auto simp: add_device_store_def i_def d_def Let_def split: sum.splits)
      have n: "dev_name s' j = (if j = i then Some name else dev_name s j)" for j by (simp add: s' dev_name_def d_def)
      have "inj_on (dev_name s') (set (mi_bus s'))"
        using ok none fresh(2) unfolding inj_on_def n by (auto simp: s' mint_ok_def inj_on_def)
      then show ?thesis using ok fresh by (auto simp: s' mint_ok_def d_def i_def less_Suc_eq)
    qed
  qed
qed

lemma remove_device_ok:
  assumes ok: "mint_ok s" and a: "remove_device_store buf count s = Inr (r, s')"
  shows "mint_ok s' \<and> (\<forall>i. mi_heap s i \<noteq> None \<longrightarrow> mi_heap s' i \<noteq> None)"
proof (cases "parse_name buf")
  case None
  with a ok show ?thesis by (simp add: remove_device_store_def)
next
  case (Some name)
  show ?thesis using ok
  proof (cases rule: bus_find_cases [where name = name])
    case none
    with a Some ok show ?thesis by (auto simp: remove_device_store_def)
  next
    case (some i d)
    have refs: "0 < md_refs d" using ok some(3) by (auto simp: mint_ok_def)
    define s1 where "s1 = s\<lparr>mi_heap := (mi_heap s)(i \<mapsto> d\<lparr>md_class := False\<rparr>)\<rparr>"
    have s': "s' = s1\<lparr>mi_bus := removeAll i (mi_bus s1)\<rparr>"
      using a Some some refs by (auto simp: remove_device_store_def put_device_def s1_def Let_def split: if_splits)
    have "mint_ok s1" unfolding s1_def by (rule mint_ok_update [OF ok some(3)]) (simp_all add: refs)
    then have "mint_ok s'" unfolding s' by (rule mint_ok_shrink)
    moreover have "mi_heap s j \<noteq> None \<longrightarrow> mi_heap s' j \<noteq> None" for j by (simp add: s' s1_def)
    ultimately show ?thesis by blast
  qed
qed

lemma mint_write_eq:
  assumes "n = (if MAX_MINT_ID_LEN \<le> count then MAX_MINT_ID_LEN - 1 else count)"
    and "name = take (strcspn_nl (take n ubuf)) (take n ubuf)"
  shows "mint_write dup ubuf count s = (if length ubuf < n then Inr (Inl EFAULT, s) else case bus_find name s of
        (Some i, s1) \<Rightarrow> Inr (Inr n, s1\<lparr>mi_selected := Some i\<rparr>)
      | (None, s1) \<Rightarrow> (case mi_selected s1 of
            None \<Rightarrow> Inr (Inl ENODEV, s1)
          | Some i \<Rightarrow> (case mi_heap s1 i of None \<Rightarrow> Inl NullDeref
              | Some d \<Rightarrow> Inr (if dup then Inr n else Inl ENOMEM,
                  s1\<lparr>mi_heap := (mi_heap s1)(i \<mapsto> d\<lparr>md_priv := (if dup then Some name else None)\<rparr>)\<rparr>))))"
  unfolding mint_write_def Let_def assms(1) [symmetric] assms(2) [symmetric] ..

lemma mint_write_ok:
  assumes ok: "mint_ok s" and a: "mint_write dup ubuf count s = Inr (r, s')"
  shows "mint_ok s' \<and> (\<forall>i. mi_heap s i \<noteq> None \<longrightarrow> mi_heap s' i \<noteq> None)"
proof -
  define n where "n = (if MAX_MINT_ID_LEN \<le> count then MAX_MINT_ID_LEN - 1 else count)"
  define name where "name = take (strcspn_nl (take n ubuf)) (take n ubuf)"
  note eq = mint_write_eq [OF n_def name_def, of dup s]
  show ?thesis
  proof (cases "length ubuf < n")
    case True
    with a ok show ?thesis by (simp add: eq)
  next
    case False
    show ?thesis using ok
    proof (cases rule: bus_find_cases [where name = name])
      case (some i d)
      with a False have "s' = (snd (bus_find name s))\<lparr>mi_selected := Some i\<rparr>" by (simp add: eq)
      with mint_ok_find [OF ok some(1)] some show ?thesis by (auto intro: mint_ok_select)
    next
      case none
      show ?thesis
      proof (cases "mi_selected s")
        case None
        with a False none ok show ?thesis by (simp add: eq)
      next
        case (Some i)
        then obtain d where d: "mi_heap s i = Some d" "0 < md_refs d" using ok by (auto simp: mint_ok_def)
        have "s' = s\<lparr>mi_heap := (mi_heap s)(i \<mapsto> d\<lparr>md_priv := (if dup then Some name else None)\<rparr>)\<rparr>"
          using a False none Some d by (simp add: eq)
        with mint_ok_update [OF ok d(1)] d(2) show ?thesis by simp
      qed
    qed
  qed
qed

lemma mint_step_ok:
  assumes "mint_step s s'" and "mint_ok s"
  shows "mint_ok s' \<and> (\<forall>i. mi_heap s i \<noteq> None \<longrightarrow> mi_heap s' i \<noteq> None)"
  using assms
proof (induction rule: mint_step.induct)
  case (add alloc add class_ok buf count s r s')
  then show ?case using add_device_ok by blast
next
  case (remove buf count s r s')
  then show ?case using remove_device_ok by blast
next
  case (store dup ubuf count s r s')
  then show ?case using mint_write_ok by blast
next
  case (driver s ts)
  then show ?case by (auto simp: mint_ok_def)
qed

lemma mint_reach_ok: "mint_reach s \<Longrightarrow> mint_ok s"
  by (induction rule: mint_reach.induct) (auto simp: mint_ok_def dest: mint_step_ok)

definition mint_empty :: mint_sys where
  "mint_empty = \<lparr>mi_heap = Map.empty, mi_next = 0, mi_bus = [], mi_tables = [], mi_selected = None\<rparr>"

definition mint_one :: "mint_sys" where
  "mint_one = mint_empty\<lparr>mi_heap := [0 \<mapsto> \<lparr>md_name = ''mint'', md_refs = 1, md_priv = None, md_class = True\<rparr>], mi_next := 1, mi_bus := [0]\<rparr>"

definition mint_two :: "mint_sys" where
  "mint_two = mint_one\<lparr>mi_heap := [0 \<mapsto> \<lparr>md_name = ''mint'', md_refs = 2, md_priv = None, md_class = True\<rparr>], mi_selected := Some 0\<rparr>"

lemma example_mint_reach: "mint_reach mint_two"
proof -
  have 0: "mint_reach mint_empty" using mint_reach.init by (simp add: mint_empty_def)
  have "add_device_store True (Inr ()) True ''mint'' 4 mint_empty = Inr (Inr 4, mint_one)"
    by (simp add: add_device_store_def parse_name_def strcspn_nl_def newline_def nul_def MAX_MINT_ID_LEN_def bus_find_def
        mint_one_def mint_empty_def Let_def)
  from mint_reach.step [OF 0 mint_step.add [OF this]] have 1: "mint_reach mint_one" .
  have "mint_write True ''mint'' 4 mint_one = Inr (Inr 4, mint_two)"
    by (simp add: mint_write_def strcspn_nl_def newline_def nul_def MAX_MINT_ID_LEN_def bus_find_def get_device_def dev_name_def
        mint_two_def mint_one_def mint_empty_def Let_def numeral_2_eq_2)
  from mint_reach.step [OF 1 mint_step.store [OF this]] show ?thesis .
qed

text \<open>In every reachable state the selected device and those on the bus are on the heap and the
  names on the bus are distinct, so that a read of the character device never faults -- because no
  device is ever freed: the references taken by the lookups are never dropped.\<close>

lemma mint_selected_valid:
  assumes "mint_reach s"
  shows "distinct (mi_bus s) \<and> inj_on (dev_name s) (set (mi_bus s)) \<and> (\<exists>r. mint_read ulen count pos s = Inr r) \<and>
    (\<forall>s' i. mint_step s s' \<longrightarrow> mi_heap s i \<noteq> None \<longrightarrow> mi_heap s' i \<noteq> None)"
proof -
  have ok: "mint_ok s" by (rule mint_reach_ok [OF assms])
  then have "\<exists>r. mint_read ulen count pos s = Inr r"
    by (auto simp: mint_read_def mint_ok_def split: option.split)
  with ok mint_step_ok show ?thesis by (auto simp: mint_ok_def)
qed

lemma mint_selected_valid_witness:
  "\<exists>r. mint_read 8 8 0 mint_two = Inr r"
  using mint_selected_valid [OF example_mint_reach, of 8 8 0] by simp

text \<open>A driver matches a device whose name is in its table; for any other name the search leaves the table.\<close>

lemma minibus_match_eq: "minibus_match table name = (if name \<in> set table then Inr True else Inl OutOfBounds)"
  by (induction table) auto

text \<open>With the sample driver loaded, adding a device works for the names of its table; for any other
  admissible name that is not on the bus yet the match reads past the end of the table.\<close>

lemma mint_unknown_name:
  assumes s: "mint_reach s" and drv: "mi_tables s = [mint_id_table]" and name: "parse_name buf = Some name"
    and free: "\<forall>j\<in>set (mi_bus s). dev_name s j \<noteq> Some name"
  shows "if name \<in> {''peppermint'', ''spearmint''}
    then \<exists>s'. add_device_store True (Inr ()) ok buf count s = Inr (Inr count, s') \<and> mi_bus s' = mi_bus s @ [mi_next s]
    else add_device_store True (Inr ()) ok buf count s = Inl OutOfBounds"
proof -
  have "name \<noteq> []" using name by (auto simp: parse_name_def strcspn_nl_def Let_def split: if_splits)
  then have probe: "bus_probe [mint_id_table] name =
      (if name \<in> {''peppermint'', ''spearmint''} then Inr True else Inl OutOfBounds)"
    by (auto simp: minibus_match_eq mint_id_table_def)
  have "bus_find name s = (None, s)" using mint_reach_ok [OF s] free
    by (cases rule: bus_find_cases [where name = name]) (auto simp: dev_name_def)
  then show ?thesis using name drv probe by (simp add: add_device_store_def Let_def del: bus_probe.simps)
qed

lemma mint_unknown_name_witness:
  "add_device_store True (Inr ()) True ''mojito'' 6 (mint_two\<lparr>mi_tables := [mint_id_table]\<rparr>) = Inl OutOfBounds"
proof -
  have r: "mint_reach (mint_two\<lparr>mi_tables := [mint_id_table]\<rparr>)"
    by (rule mint_reach.step [OF example_mint_reach mint_step.driver])
  show ?thesis
    using mint_unknown_name [OF r, of "''mojito''" "''mojito''" True 6]
    by (simp add: parse_name_def strcspn_nl_def newline_def nul_def MAX_MINT_ID_LEN_def mint_two_def mint_one_def mint_empty_def dev_name_def)
qed

text \<open>What is written to the character device, once a device is selected and as long as it is no
  device's name, is what reads return, up to its first newline.\<close>

lemma mint_write_read:
  assumes s: "mint_reach s" and sel: "mi_selected s = Some i" and n: "n < MAX_MINT_ID_LEN" "n \<le> length ubuf"
    and name: "name = takeWhile (\<lambda>c. c \<noteq> newline \<and> c \<noteq> nul) (take n ubuf)" "name \<noteq> []"
    and free: "\<forall>j\<in>set (mi_bus s). dev_name s j \<noteq> Some name" and r: "length name \<le> count" "length name \<le> ulen"
  shows "\<exists>s'. mint_write True ubuf n s = Inr (Inr n, s') \<and> mint_read ulen count 0 s' = Inr (Inr name, int (length name))"
proof -
  have ok: "mint_ok s" by (rule mint_reach_ok [OF s])
  then obtain d where d: "mi_heap s i = Some d" using sel by (auto simp: mint_ok_def)
  have nm: "name = take (strcspn_nl (take n ubuf)) (take n ubuf)"
    unfolding strcspn_nl_def takeWhile_eq_take [symmetric] by (rule name(1))
  have none: "bus_find name s = (None, s)" using ok free by (cases rule: bus_find_cases [where name = name]) (auto simp: dev_name_def)
  define s' where "s' = s\<lparr>mi_heap := (mi_heap s)(i \<mapsto> d\<lparr>md_priv := Some name\<rparr>)\<rparr>"
  have "mint_write True ubuf n s = Inr (Inr n, s')"
    using n none sel d mint_write_eq [OF _ nm, of n True s] by (simp add: s'_def)
  moreover have "mint_read ulen count 0 s' = Inr (Inr name, int (length name))"
    using r name(2) sel by (simp add: mint_read_def s'_def simple_read_from_buffer_def Let_def min_def)
  ultimately show ?thesis by blast
qed

lemma mint_write_read_witness:
  "\<exists>s'. mint_write True ''cool'' 4 mint_two = Inr (Inr 4, s') \<and> mint_read 8 8 0 s' = Inr (Inr ''cool'', 4)"
  using mint_write_read [OF example_mint_reach, of 0 4 "''cool''" "''cool''" 8 8]
  by (simp add: mint_two_def mint_one_def mint_empty_def dev_name_def MAX_MINT_ID_LEN_def newline_def nul_def)

text \<open>The class keeps the contract of loading and unloading while the bus module has made it.\<close>

interpretation mintclass_mod: unwinding "mintclass_init True" "\<lambda>h. Inr (mintclass_exit h)" "\<lambda>h. h = []" "\<lambda>_. True"
  by (rule unwindingI) (auto simp: mintclass_init_def mintclass_exit_def split: sum.splits)

end
