(* ===== verification/MintDriver.thy ===== *)
theory MintDriver
  imports MintBus
begin

text \<open>
  Drivers on the mint bus (\<open>mint_bus.c\<close>, \<open>mint_driver.c\<close>): registering and unregistering them, what
  the bus does when a device and a driver meet or part, and the variables of an event.  The order
  of the calls is that of the driver core: a new driver is tried on every device of the bus without
  a driver, a new device with every driver until one takes it.
\<close>

subsection \<open>State\<close>

text \<open>\<open>struct mint_driver\<close>; the functions may be missing.\<close>

record mint_driver =
  dv_name :: string
  dv_table :: "string list"
  dv_probe :: "(string \<Rightarrow> unit res) option"
  dv_remove :: bool

datatype mint_event = MProbed nat | MRemoved nat

record mint_core =
  mc_sys :: mint_sys
  mc_drivers :: "mint_driver list"
  mc_bound :: "nat \<rightharpoonup> string"
  mc_log :: "mint_event list"

definition with_tables :: "mint_core \<Rightarrow> mint_sys" where
  "with_tables c = (mc_sys c)\<lparr>mi_tables := map dv_table (mc_drivers c)\<rparr>"

definition device_name :: "mint_core \<Rightarrow> nat \<Rightarrow> string" where
  "device_name c i = (case dev_name (mc_sys c) i of None \<Rightarrow> [] | Some n \<Rightarrow> n)"

subsection \<open>A device and a driver\<close>

definition mint_core_remove :: "nat \<Rightarrow> mint_core \<Rightarrow> mint_core" where
  "mint_core_remove i c = c\<lparr>mc_bound := (mc_bound c)(i := None), mc_log := mc_log c @ [MRemoved i]\<rparr>"

definition try_driver :: "mint_driver \<Rightarrow> nat \<Rightarrow> mint_core \<Rightarrow> (bool \<times> mint_core) run" where
  "try_driver drv i c =
     (case minibus_match (dv_table drv) (device_name c i) of Inl x \<Rightarrow> Inl x
      | Inr m \<Rightarrow> Inr (if m \<and> mint_core_probe (map_option (\<lambda>f. f (device_name c i)) (dv_probe drv)) = Inr ()
          then (True, c\<lparr>mc_bound := (mc_bound c)(i \<mapsto> dv_name drv), mc_log := mc_log c @ [MProbed i]\<rparr>) else (False, c)))"

fun device_attach :: "mint_driver list \<Rightarrow> nat \<Rightarrow> mint_core \<Rightarrow> mint_core run" where
  "device_attach [] i c = Inr c"
| "device_attach (drv # drvs) i c = (case try_driver drv i c of Inl x \<Rightarrow> Inl x
     | Inr (taken, c1) \<Rightarrow> (if taken then Inr c1 else device_attach drvs i c1))"

fun driver_attach :: "mint_driver \<Rightarrow> nat list \<Rightarrow> mint_core \<Rightarrow> mint_core run" where
  "driver_attach drv [] c = Inr c"
| "driver_attach drv (i # is) c = (if mc_bound c i \<noteq> None then driver_attach drv is c
     else case try_driver drv i c of Inl x \<Rightarrow> Inl x | Inr (_, c1) \<Rightarrow> driver_attach drv is c1)"

fun driver_detach :: "string \<Rightarrow> nat list \<Rightarrow> mint_core \<Rightarrow> mint_core" where
  "driver_detach name [] c = c"
| "driver_detach name (i # is) c = driver_detach name is (if mc_bound c i = Some name then mint_core_remove i c else c)"

subsection \<open>Registration\<close>

text \<open>\<open>driver_register\<close> refuses a name that is taken; \<open>reg\<close> is its answer otherwise.\<close>

definition mint_register_driver :: "unit res \<Rightarrow> mint_driver \<Rightarrow> mint_core \<Rightarrow> (unit res \<times> mint_core) run" where
  "mint_register_driver reg drv c =
     (if dv_name drv \<in> set (map dv_name (mc_drivers c)) then Inr (Inl EBUSY, c)
      else case reg of Inl e \<Rightarrow> Inr (Inl e, c)
      | Inr _ \<Rightarrow> (case driver_attach drv (mi_bus (mc_sys c)) (c\<lparr>mc_drivers := mc_drivers c @ [drv]\<rparr>) of Inl x \<Rightarrow> Inl x
          | Inr c1 \<Rightarrow> Inr (Inr (), c1)))"

definition mint_unregister_driver :: "mint_driver \<Rightarrow> mint_core \<Rightarrow> mint_core" where
  "mint_unregister_driver drv c = (let c1 = driver_detach (dv_name drv) (mi_bus (mc_sys c)) c
     in c1\<lparr>mc_drivers := filter (\<lambda>d. dv_name d \<noteq> dv_name drv) (mc_drivers c1)\<rparr>)"

text \<open>The sample driver.\<close>

definition mint_drv :: mint_driver where
  "mint_drv = \<lparr>dv_name = ''mint_driver'', dv_table = mint_id_table, dv_probe = Some (\<lambda>name. Inr ()), dv_remove = True\<rparr>"

definition mintdrv_init :: "unit res \<Rightarrow> mint_core \<Rightarrow> (unit res \<times> mint_core) run" where
  "mintdrv_init reg = mint_register_driver reg mint_drv"

definition mintdrv_exit :: "mint_core \<Rightarrow> mint_core" where
  "mintdrv_exit = mint_unregister_driver mint_drv"

text \<open>The attributes of the bus, with the drivers.\<close>

definition core_add_device :: "bool \<Rightarrow> unit res \<Rightarrow> bool \<Rightarrow> string \<Rightarrow> nat \<Rightarrow> mint_core \<Rightarrow> (nat res \<times> mint_core) run" where
  "core_add_device alloc add class_ok buf count c =
     (case add_device_store alloc add class_ok buf count (with_tables c) of Inl x \<Rightarrow> Inl x
      | Inr (Inl e, s1) \<Rightarrow> Inr (Inl e, c\<lparr>mc_sys := s1\<rparr>)
      | Inr (Inr n, s1) \<Rightarrow> (case device_attach (mc_drivers c) (mi_next (mc_sys c)) (c\<lparr>mc_sys := s1\<rparr>) of Inl x \<Rightarrow> Inl x
          | Inr c1 \<Rightarrow> Inr (Inr n, c1)))"

definition core_remove_device :: "string \<Rightarrow> nat \<Rightarrow> mint_core \<Rightarrow> (nat res \<times> mint_core) run" where
  "core_remove_device buf count c =
     (case remove_device_store buf count (with_tables c) of Inl x \<Rightarrow> Inl x
      | Inr (r, s1) \<Rightarrow> Inr (r, foldr (\<lambda>i c. if mc_bound c i \<noteq> None then mint_core_remove i c else c)
          (filter (\<lambda>i. i \<notin> set (mi_bus s1)) (mi_bus (mc_sys c))) (c\<lparr>mc_sys := s1\<rparr>)))"

subsection \<open>Events\<close>

text \<open>
  The variables an event gets; \<open>add\<close> is \<open>add_uevent_var\<close>, whose failure is ignored.  The name in the
  table and the device's name are the same.
\<close>

definition minibus_uevent :: "(string \<Rightarrow> 'e \<Rightarrow> 'e) \<Rightarrow> mint_dev \<Rightarrow> 'e \<Rightarrow> 'e" where
  "minibus_uevent add d env = add (''DEV_NAME='' @ md_name d) (add ''SUBSYSTEM=mint_bus'' (add (''MODALIAS=mintbus:name='' @ md_name d) env))"

definition dev_uevent :: "(string \<Rightarrow> 'e \<Rightarrow> 'e) \<Rightarrow> string \<Rightarrow> 'e \<Rightarrow> 'e" where
  "dev_uevent add name env = add (''DEV_NAME='' @ name) (add ''SUBSYSTEM=mint_class'' env)"

subsection \<open>Steps and invariant\<close>

inductive core_step :: "mint_core \<Rightarrow> mint_core \<Rightarrow> bool" where
  add: "core_add_device alloc add class_ok buf count c = Inr (r, c') \<Longrightarrow> core_step c c'"
| remove: "core_remove_device buf count c = Inr (r, c') \<Longrightarrow> core_step c c'"
| register: "mint_register_driver reg drv c = Inr (r, c') \<Longrightarrow> core_step c c'"
| unregister: "core_step c (mint_unregister_driver drv c)"
| store: "mint_write dup ubuf count (mc_sys c) = Inr (r, s') \<Longrightarrow> core_step c (c\<lparr>mc_sys := s'\<rparr>)"

definition core_empty :: mint_core where
  "core_empty = \<lparr>mc_sys = mint_empty, mc_drivers = [], mc_bound = Map.empty, mc_log = []\<rparr>"

inductive core_reach :: "mint_core \<Rightarrow> bool" where
  init: "core_reach core_empty"
| step: "core_reach c \<Longrightarrow> core_step c c' \<Longrightarrow> core_reach c'"

definition binds :: "mint_driver list \<Rightarrow> string \<Rightarrow> string \<Rightarrow> bool" where
  "binds drvs drv name \<longleftrightarrow> (\<exists>d\<in>set drvs. dv_name d = drv \<and> name \<in> set (dv_table d))"

text \<open>Every bound device is on the bus and its driver is registered and has its name; the log balances.\<close>

definition bound_ok :: "mint_core \<Rightarrow> nat \<Rightarrow> bool" where
  "bound_ok c i \<longleftrightarrow> count_list (mc_log c) (MProbed i) = count_list (mc_log c) (MRemoved i) + of_bool (mc_bound c i \<noteq> None) \<and>
     (\<forall>drv. mc_bound c i = Some drv \<longrightarrow> i \<in> set (mi_bus (mc_sys c)) \<and> binds (mc_drivers c) drv (device_name c i))"

definition core_ok :: "mint_core \<Rightarrow> bool" where
  "core_ok c \<longleftrightarrow> mint_ok (mc_sys c) \<and> distinct (map dv_name (mc_drivers c)) \<and> (\<forall>i. bound_ok c i)"

lemma mint_core_remove_simps [simp]:
  "mc_sys (mint_core_remove i c) = mc_sys c" "mc_drivers (mint_core_remove i c) = mc_drivers c"
  "mc_bound (mint_core_remove i c) = (mc_bound c)(i := None)" "device_name (mint_core_remove i c) = device_name c"
  by (simp_all add: mint_core_remove_def device_name_def fun_eq_iff)

lemma bound_ok_remove: "mc_bound c i \<noteq> None \<Longrightarrow> bound_ok c j \<Longrightarrow> bound_ok (mint_core_remove i c) j"
  by (auto simp: bound_ok_def mint_core_remove_def device_name_def)

lemma bound_ok_probe:
  assumes "\<forall>j. bound_ok c j" and "mc_bound c i = None" and "i \<in> set (mi_bus (mc_sys c))" and "binds (mc_drivers c) drv (device_name c i)"
  shows "bound_ok (c\<lparr>mc_bound := (mc_bound c)(i \<mapsto> drv), mc_log := mc_log c @ [MProbed i]\<rparr>) j"
  using assms(1) [rule_format, of j] assms(2-4) by (cases "j = i") (auto simp: bound_ok_def device_name_def)

lemma try_driver_ok:
  assumes t: "try_driver drv i c = Inr (b, c')" and i: "mc_bound c i = None" "i \<in> set (mi_bus (mc_sys c))" and drv: "drv \<in> set (mc_drivers c)"
    and ok: "\<forall>j. bound_ok c j"
  shows "(\<forall>j. bound_ok c' j) \<and> mc_sys c' = mc_sys c \<and> mc_drivers c' = mc_drivers c \<and> (\<forall>j. j \<noteq> i \<longrightarrow> mc_bound c' j = mc_bound c j) \<and>
    mc_bound c' i = (if b then Some (dv_name drv) else None)"
proof -
  have name: "device_name c i \<in> set (dv_table drv)" using t by (auto simp: try_driver_def minibus_match_eq split: if_splits)
  then have "binds (mc_drivers c) (dv_name drv) (device_name c i)" using drv by (auto simp: binds_def)
  note probe = bound_ok_probe [OF ok i this]
  have "b \<and> c' = c\<lparr>mc_bound := (mc_bound c)(i \<mapsto> dv_name drv), mc_log := mc_log c @ [MProbed i]\<rparr> \<or> \<not> b \<and> c' = c"
    using t name by (cases "mint_core_probe (map_option (\<lambda>f. f (device_name c i)) (dv_probe drv)) = Inr ()") (simp_all add: try_driver_def minibus_match_eq)
  then show ?thesis using probe ok i by (elim disjE conjE) simp_all
qed

lemma device_attach_ok:
  assumes "device_attach drvs i c = Inr c'" and "mc_bound c i = None" and "i \<in> set (mi_bus (mc_sys c))" and "set drvs \<subseteq> set (mc_drivers c)"
    and "\<forall>j. bound_ok c j"
  shows "(\<forall>j. bound_ok c' j) \<and> mc_sys c' = mc_sys c \<and> mc_drivers c' = mc_drivers c"
  using assms
proof (induction drvs arbitrary: c)
  case (Cons drv drvs)
  obtain b c1 where t: "try_driver drv i c = Inr (b, c1)" using Cons.prems(1) by (auto split: sum.splits)
  have drv: "drv \<in> set (mc_drivers c)" "set drvs \<subseteq> set (mc_drivers c)" using Cons.prems(4) by simp_all
  note ok = try_driver_ok [OF t Cons.prems(2,3) drv(1) Cons.prems(5)]
  show ?case
  proof (cases b)
    case True
    then show ?thesis using Cons.prems(1) t ok by simp
  next
    case False
    then have "device_attach drvs i c1 = Inr c'" using Cons.prems(1) t by simp
    from Cons.IH [OF this] False ok Cons.prems(3) drv(2) show ?thesis by simp
  qed
qed simp

lemma driver_attach_ok:
  assumes "driver_attach drv is c = Inr c'" and "set is \<subseteq> set (mi_bus (mc_sys c))" and "drv \<in> set (mc_drivers c)" and "\<forall>j. bound_ok c j"
  shows "(\<forall>j. bound_ok c' j) \<and> mc_sys c' = mc_sys c \<and> mc_drivers c' = mc_drivers c"
  using assms
proof (induction "is" arbitrary: c)
  case (Cons i "is")
  show ?case
  proof (cases "mc_bound c i = None")
    case True
    then obtain b c1 where t: "try_driver drv i c = Inr (b, c1)" using Cons.prems(1) by (auto split: sum.splits)
    have "i \<in> set (mi_bus (mc_sys c))" using Cons.prems(2) by simp
    note ok = try_driver_ok [OF t True this Cons.prems(3,4)]
    show ?thesis using Cons.IH [of c1] Cons.prems True t ok by simp
  qed (use Cons in auto)
qed simp

lemma driver_detach_ok:
  assumes "\<forall>j. bound_ok c j"
  shows "(\<forall>j. bound_ok (driver_detach name is c) j) \<and> mc_sys (driver_detach name is c) = mc_sys c \<and>
    mc_drivers (driver_detach name is c) = mc_drivers c \<and>
    (\<forall>j. mc_bound (driver_detach name is c) j = (if j \<in> set is \<and> mc_bound c j = Some name then None else mc_bound c j))"
  using assms
proof (induction "is" arbitrary: c)
  case (Cons i "is")
  define c1 where "c1 = (if mc_bound c i = Some name then mint_core_remove i c else c)"
  have step: "driver_detach name (i # is) c = driver_detach name is c1" by (simp add: c1_def)
  have same: "mc_sys c1 = mc_sys c" "mc_drivers c1 = mc_drivers c"
      "mc_bound c1 j = (if j = i \<and> mc_bound c i = Some name then None else mc_bound c j)" for j
    by (simp_all add: c1_def)
  have "\<forall>j. bound_ok c1 j" using Cons.prems bound_ok_remove by (simp add: c1_def)
  then have "\<forall>j. mc_bound (driver_detach name is c1) j = (if j \<in> set is \<and> mc_bound c1 j = Some name then None else mc_bound c1 j)"
    and "(\<forall>j. bound_ok (driver_detach name is c1) j) \<and> mc_sys (driver_detach name is c1) = mc_sys c \<and> mc_drivers (driver_detach name is c1) = mc_drivers c"
    using Cons.IH [of c1] same(1,2) by simp_all
  then show ?case unfolding step by (cases "mc_bound c i = Some name") (simp_all add: same(3))
qed simp

text \<open>A change of the bus that keeps the names of its devices.\<close>

lemma bound_ok_sys:
  assumes "bound_ok c i" and "mc_bound c i \<noteq> None \<Longrightarrow> i \<in> set (mi_bus s) \<and> dev_name s i = dev_name (mc_sys c) i"
  shows "bound_ok (c\<lparr>mc_sys := s\<rparr>) i"
  using assms by (auto simp: bound_ok_def device_name_def)


lemma register_ok:
  assumes "mint_register_driver reg drv c = Inr (r, c')" and "core_ok c"
  shows "core_ok c'"
proof (cases "dv_name drv \<in> set (map dv_name (mc_drivers c)) \<or> (\<exists>e. reg = Inl e)")
  case True
  then show ?thesis using assms by (auto simp: mint_register_driver_def split: if_splits)
next
  case False
  define c0 where "c0 = c\<lparr>mc_drivers := mc_drivers c @ [drv]\<rparr>"
  have a: "driver_attach drv (mi_bus (mc_sys c)) c0 = Inr c'"
    using assms(1) False by (auto simp: mint_register_driver_def c0_def split: sum.splits if_splits)
  have "bound_ok c0 j" for j using assms(2) by (auto simp: core_ok_def c0_def bound_ok_def device_name_def binds_def)
  then have "(\<forall>j. bound_ok c' j) \<and> mc_sys c' = mc_sys c0 \<and> mc_drivers c' = mc_drivers c0"
    by (intro driver_attach_ok [OF a]) (simp_all add: c0_def)
  then show ?thesis using assms(2) False by (auto simp: core_ok_def c0_def)
qed

lemma unregister_ok:
  assumes "core_ok c"
  shows "core_ok (mint_unregister_driver drv c)"
proof -
  define c1 where "c1 = driver_detach (dv_name drv) (mi_bus (mc_sys c)) c"
  have c1: "(\<forall>j. bound_ok c1 j) \<and> mc_sys c1 = mc_sys c \<and> mc_drivers c1 = mc_drivers c \<and>
      (\<forall>j. mc_bound c1 j = (if j \<in> set (mi_bus (mc_sys c)) \<and> mc_bound c j = Some (dv_name drv) then None else mc_bound c j))"
    unfolding c1_def using assms by (intro driver_detach_ok) (simp add: core_ok_def)
  have free: "mc_bound c1 j \<noteq> Some (dv_name drv)" for j
    using c1 assms by (auto simp: core_ok_def bound_ok_def)
  have "bound_ok (c1\<lparr>mc_drivers := filter (\<lambda>d. dv_name d \<noteq> dv_name drv) (mc_drivers c1)\<rparr>) j" for j
    using c1 free [of j] by (fastforce simp: bound_ok_def binds_def device_name_def)
  then show ?thesis using assms c1
    by (simp add: core_ok_def mint_unregister_driver_def Let_def c1_def [symmetric] distinct_map_filter)
qed

lemma add_device_bus:
  assumes ok: "mint_ok s" and a: "add_device_store alloc add class_ok buf count s = Inr (r, s')"
  shows "(\<forall>i\<in>set (mi_bus s). i \<in> set (mi_bus s') \<and> dev_name s' i = dev_name s i) \<and> (\<forall>n. r = Inr n \<longrightarrow> mi_next s \<in> set (mi_bus s'))"
proof (cases "parse_name buf")
  case None
  with a show ?thesis by (auto simp: add_device_store_def)
next
  case (Some name)
  show ?thesis using ok
  proof (cases rule: bus_find_cases [where name = name])
    case (some i d)
    with a Some show ?thesis by (auto simp: add_device_store_def dev_name_def)
  next
    case none
    have fresh: "mi_next s \<notin> set (mi_bus s)" using mint_ok_fresh [OF ok] by simp
    show ?thesis using a Some none fresh
      by (auto simp: add_device_store_def put_device_def dev_name_def Let_def split: if_splits sum.splits)
  qed
qed

lemma remove_device_bus:
  assumes ok: "mint_ok s" and a: "remove_device_store buf count s = Inr (r, s')"
  shows "set (mi_bus s') \<subseteq> set (mi_bus s) \<and> (\<forall>i\<in>set (mi_bus s'). dev_name s' i = dev_name s i)"
proof (cases "parse_name buf")
  case None
  with a show ?thesis by (simp add: remove_device_store_def)
next
  case (Some name)
  show ?thesis using ok
  proof (cases rule: bus_find_cases [where name = name])
    case none
    with a Some show ?thesis by (auto simp: remove_device_store_def)
  next
    case (some i d)
    with a Some show ?thesis by (auto simp: remove_device_store_def put_device_def dev_name_def Let_def split: if_splits)
  qed
qed

lemma write_bus:
  assumes ok: "mint_ok s" and a: "mint_write dup ubuf count s = Inr (r, s')"
  shows "mi_bus s' = mi_bus s \<and> dev_name s' = dev_name s"
proof -
  define n where "n = (if MAX_MINT_ID_LEN \<le> count then MAX_MINT_ID_LEN - 1 else count)"
  define name where "name = take (strcspn_nl (take n ubuf)) (take n ubuf)"
  note eq = mint_write_eq [OF n_def name_def, of dup s]
  show ?thesis using ok
  proof (cases rule: bus_find_cases [where name = name])
    case (some i d)
    with a show ?thesis by (auto simp: eq dev_name_def split: if_splits)
  next
    case none
    with a show ?thesis by (auto simp: eq dev_name_def split: if_splits option.splits)
  qed
qed

lemma with_tables_ok: "mint_ok (mc_sys c) \<Longrightarrow> mint_ok (with_tables c)"
  by (auto simp: mint_ok_def with_tables_def)

lemma with_tables_simps [simp]:
  "mi_bus (with_tables c) = mi_bus (mc_sys c)" "mi_next (with_tables c) = mi_next (mc_sys c)" "dev_name (with_tables c) = dev_name (mc_sys c)"
  by (simp_all add: with_tables_def)

lemma core_add_ok:
  assumes a: "core_add_device alloc add class_ok buf count c = Inr (r, c')" and ok: "core_ok c"
  shows "core_ok c'"
proof -
  obtain r1 s1 where s1: "add_device_store alloc add class_ok buf count (with_tables c) = Inr (r1, s1)"
    using a by (auto simp: core_add_device_def split: sum.splits)
  have w: "mint_ok (with_tables c)" using ok with_tables_ok by (simp add: core_ok_def)
  note bus = add_device_bus [OF w s1]
  define c1 where "c1 = c\<lparr>mc_sys := s1\<rparr>"
  have "bound_ok c1 j" for j
    unfolding c1_def using ok bus by (intro bound_ok_sys) (auto simp: core_ok_def bound_ok_def)
  then have b1: "\<forall>j. bound_ok c1 j" ..
  have m1: "mint_ok s1" using add_device_ok [OF w s1] by simp
  show ?thesis
  proof (cases r1)
    case (Inl e)
    then show ?thesis using a s1 b1 m1 ok by (auto simp: core_add_device_def core_ok_def c1_def)
  next
    case (Inr n)
    have at: "device_attach (mc_drivers c) (mi_next (mc_sys c)) c1 = Inr c'"
      using a s1 Inr by (auto simp: core_add_device_def c1_def split: sum.splits)
    have "mi_next (mc_sys c) \<notin> set (mi_bus (mc_sys c))" using mint_ok_fresh ok by (simp add: core_ok_def)
    then have "mc_bound c (mi_next (mc_sys c)) = None"
      using ok by (cases "mc_bound c (mi_next (mc_sys c))") (auto simp: core_ok_def bound_ok_def)
    then have "(\<forall>j. bound_ok c' j) \<and> mc_sys c' = mc_sys c1 \<and> mc_drivers c' = mc_drivers c1"
      using bus Inr b1 by (intro device_attach_ok [OF at]) (simp_all add: c1_def)
    then show ?thesis using m1 ok by (simp add: core_ok_def c1_def)
  qed
qed

lemma detach_all_ok:
  defines "f \<equiv> \<lambda>i c. if mc_bound c i \<noteq> None then mint_core_remove i c else c"
  shows "mc_sys (foldr f is c) = mc_sys c \<and> mc_drivers (foldr f is c) = mc_drivers c \<and>
    (\<forall>j. mc_bound (foldr f is c) j = (if j \<in> set is then None else mc_bound c j)) \<and>
    ((\<forall>j. count_list (mc_log c) (MProbed j) = count_list (mc_log c) (MRemoved j) + of_bool (mc_bound c j \<noteq> None)) \<longrightarrow>
      (\<forall>j. count_list (mc_log (foldr f is c)) (MProbed j) = count_list (mc_log (foldr f is c)) (MRemoved j) + of_bool (mc_bound (foldr f is c) j \<noteq> None)))"
proof (induction "is")
  case (Cons i "is")
  define c1 where "c1 = foldr f is c"
  have "foldr f (i # is) c = (if mc_bound c1 i \<noteq> None then mint_core_remove i c1 else c1)" by (simp add: f_def c1_def)
  then show ?case using Cons by (auto simp: c1_def [symmetric] mint_core_remove_def)
qed simp

lemma core_remove_ok:
  assumes a: "core_remove_device buf count c = Inr (r, c')" and ok: "core_ok c"
  shows "core_ok c'"
proof -
  obtain s1 where s1: "remove_device_store buf count (with_tables c) = Inr (r, s1)"
    using a by (auto simp: core_remove_device_def split: sum.splits)
  have w: "mint_ok (with_tables c)" using ok with_tables_ok by (simp add: core_ok_def)
  note bus = remove_device_bus [OF w s1]
  have m1: "mint_ok s1" using remove_device_ok [OF w s1] by simp
  have c': "c' = foldr (\<lambda>i c. if mc_bound c i \<noteq> None then mint_core_remove i c else c)
      (filter (\<lambda>i. i \<notin> set (mi_bus s1)) (mi_bus (mc_sys c))) (c\<lparr>mc_sys := s1\<rparr>)"
    using a s1 by (simp add: core_remove_device_def)
  note d = detach_all_ok [of "filter (\<lambda>i. i \<notin> set (mi_bus s1)) (mi_bus (mc_sys c))" "c\<lparr>mc_sys := s1\<rparr>", folded c']
  have b: "bound_ok c j" for j using ok by (simp add: core_ok_def)
  have "bound_ok c' j" for j
    using d b [of j] b bus unfolding bound_ok_def by (auto simp: device_name_def)
  then show ?thesis using m1 ok d by (simp add: core_ok_def)
qed

lemma core_step_ok: "core_step c c' \<Longrightarrow> core_ok c \<Longrightarrow> core_ok c'"
proof (induction rule: core_step.induct)
  case (store dup ubuf count c r s')
  then have ok: "mint_ok (mc_sys c)" by (simp add: core_ok_def)
  show ?case using store write_bus [OF ok store(1)] mint_write_ok [OF ok store(1)]
    by (auto simp: core_ok_def bound_ok_def device_name_def)
qed (auto intro: core_add_ok core_remove_ok register_ok unregister_ok)

lemma core_reach_ok: "core_reach c \<Longrightarrow> core_ok c"
proof (induction rule: core_reach.induct)
  case init
  then show ?case by (simp add: core_ok_def core_empty_def mint_empty_def mint_ok_def bound_ok_def)
qed (rule core_step_ok)


definition mint_loaded :: mint_core where
  "mint_loaded = core_empty\<lparr>mc_drivers := [mint_drv]\<rparr>"

definition mint_bound :: mint_core where
  "mint_bound = mint_loaded\<lparr>mc_sys := mint_empty\<lparr>mi_heap := [0 \<mapsto> \<lparr>md_name = ''spearmint'', md_refs = 1, md_priv = None, md_class = True\<rparr>],
     mi_next := 1, mi_bus := [0], mi_tables := [mint_id_table]\<rparr>, mc_bound := [0 \<mapsto> ''mint_driver''], mc_log := [MProbed 0]\<rparr>"

lemma mint_bound_reach: "core_reach mint_bound"
proof -
  have "mint_register_driver (Inr ()) mint_drv core_empty = Inr (Inr (), mint_loaded)"
    by (simp add: mint_register_driver_def core_empty_def mint_loaded_def mint_empty_def)
  from core_reach.step [OF core_reach.init core_step.register [OF this]] have l: "core_reach mint_loaded" .
  have "core_add_device True (Inr ()) True ''spearmint'' 9 mint_loaded = Inr (Inr 9, mint_bound)"
    by (simp add: core_add_device_def add_device_store_def parse_name_def strcspn_nl_def newline_def nul_def MAX_MINT_ID_LEN_def bus_find_def
        with_tables_def mint_bound_def mint_loaded_def core_empty_def mint_empty_def mint_drv_def mint_id_table_def try_driver_def
        device_name_def dev_name_def mint_core_probe_def Let_def)
  from core_reach.step [OF l core_step.add [OF this]] show ?thesis .
qed


text \<open>
  Loading the sample driver gives it every device of the bus, if their names are all in its table; one
  name that is not there makes the match run off the table.
\<close>

lemma attach_all:
  assumes "\<forall>i\<in>set is. device_name c i \<in> {''peppermint'', ''spearmint''}"
  shows "\<exists>c'. driver_attach mint_drv is c = Inr c' \<and> (\<forall>i\<in>set is. mc_bound c' i \<noteq> None) \<and>
    (\<forall>i. mc_bound c i \<noteq> None \<longrightarrow> mc_bound c' i = mc_bound c i)"
  using assms
proof (induction "is" arbitrary: c)
  case (Cons i "is")
  show ?case
  proof (cases "mc_bound c i = None")
    case False
    then show ?thesis using Cons.IH [of c] Cons.prems by fastforce
  next
    case True
    define c1 where "c1 = c\<lparr>mc_bound := (mc_bound c)(i \<mapsto> dv_name mint_drv), mc_log := mc_log c @ [MProbed i]\<rparr>"
    have t: "try_driver mint_drv i c = Inr (True, c1)"
      using Cons.prems by (auto simp: try_driver_def minibus_match_eq mint_drv_def mint_id_table_def mint_core_probe_def c1_def)
    have n: "device_name c1 = device_name c" by (simp add: c1_def device_name_def fun_eq_iff)
    obtain c' where c': "driver_attach mint_drv is c1 = Inr c'" "\<forall>j\<in>set is. mc_bound c' j \<noteq> None"
        "\<forall>j. mc_bound c1 j \<noteq> None \<longrightarrow> mc_bound c' j = mc_bound c1 j"
      using Cons.IH [of c1] Cons.prems n by auto
    have "driver_attach mint_drv (i # is) c = Inr c'" using True t c'(1) by simp
    moreover have "mc_bound c' i \<noteq> None" using c'(3) by (simp add: c1_def)
    moreover have "mc_bound c j \<noteq> None \<longrightarrow> mc_bound c' j = mc_bound c j" for j using c'(3) True by (cases "j = i") (auto simp: c1_def)
    ultimately show ?thesis using c'(2) by auto
  qed
qed simp

lemma attach_unknown:
  assumes "i \<in> set is" and "mc_bound c i = None" and "device_name c i \<notin> {''peppermint'', ''spearmint'', ''''}" and "distinct is"
  shows "\<exists>x. driver_attach mint_drv is c = Inl x"
  using assms
proof (induction "is" arbitrary: c)
  case (Cons j "is")
  show ?case
  proof (cases "j = i")
    case True
    then show ?thesis using Cons.prems by (simp add: try_driver_def minibus_match_eq mint_drv_def mint_id_table_def)
  next
    case False
    then have i: "i \<in> set is" "distinct is" using Cons.prems by auto
    show ?thesis
    proof (cases "mc_bound c j = None")
      case False
      then show ?thesis using Cons.IH [OF i(1) Cons.prems(2,3) i(2)] by simp
    next
      case True
      show ?thesis
      proof (cases "try_driver mint_drv j c")
        case (Inr p)
        then obtain b c1 where p: "try_driver mint_drv j c = Inr (b, c1)" by (cases p) auto
        then have "mc_bound c1 i = None" "device_name c1 i = device_name c i"
          using Cons.prems(2) False by (auto simp: try_driver_def device_name_def split: if_splits sum.splits)
        then show ?thesis using Cons.IH [OF i(1) _ _ i(2), of c1] Cons.prems(3) True p by simp
      qed (use True in simp)
    qed
  qed
qed simp

lemma mintdrv_load:
  assumes "core_reach c" and "\<forall>d\<in>set (mc_drivers c). dv_name d \<noteq> ''mint_driver''"
    and "i \<in> set (mi_bus (mc_sys c))" "mc_bound c i = None" "device_name c i \<notin> {''peppermint'', ''spearmint'', ''''}"
  shows "\<exists>x. mintdrv_init (Inr ()) c = Inl x"
proof -
  have "distinct (mi_bus (mc_sys c))" using core_reach_ok [OF assms(1)] by (simp add: core_ok_def mint_ok_def)
  then show ?thesis
    using attach_unknown [of i "mi_bus (mc_sys c)" "c\<lparr>mc_drivers := mc_drivers c @ [mint_drv]\<rparr>"] assms(2-)
    by (auto simp: mintdrv_init_def mint_register_driver_def device_name_def mint_drv_def)
qed

text \<open>Unloading it leaves no device bound to it.\<close>

lemma mintdrv_exit_unbinds:
  assumes "core_reach c"
  shows "mc_bound (mintdrv_exit c) i \<noteq> Some ''mint_driver''"
proof -
  have "\<forall>j. bound_ok c j" using core_reach_ok [OF assms] by (simp add: core_ok_def)
  from driver_detach_ok [OF this, of "''mint_driver''" "mi_bus (mc_sys c)"] this show ?thesis
    by (auto simp: mintdrv_exit_def mint_unregister_driver_def Let_def mint_drv_def bound_ok_def)
qed

end
