(* ===== verification/Adc.thy ===== *)
theory Adc
  imports ModuleLife Kfifo
begin

unbundle bit_operations_syntax

text \<open>
  The drivers of the MCP3008 converter (\<open>rpi-projects/adc\<close>): \<open>mcp3008_spi.c\<close>, which converts
  when it is read, and \<open>mcp3008_spi_async.c\<close>, in which a timer starts conversions whose results
  wait in a fifo.  What the SPI core answers is an input.
\<close>

subsection \<open>Command and result\<close>

definition prep_cmd :: "nat \<Rightarrow> byte list" where
  "prep_cmd curr_channel = (let channel = curr_channel AND 0x07
     in [0x01, word_of_nat (push_bit 4 (0x8 OR channel)), 0x00])"

definition adc_value :: "byte list \<Rightarrow> nat" where
  "adc_value rx = push_bit 8 (unat (rx ! 1) AND 0x03) OR unat (rx ! 2)"

text \<open>Ten bits.\<close>

lemma adc_value_bound: "adc_value rx < 1024"
proof -
  have m: "(3 :: nat) = mask 2" by (simp add: mask_eq_exp_minus_1)
  have "unat (rx ! 1) AND 3 < 4" using take_bit_nat_less_exp [of 2 "unat (rx ! 1)"] by (simp add: m take_bit_eq_mask)
  then have hi: "take_bit 10 (push_bit 8 (unat (rx ! 1) AND 3)) = push_bit 8 (unat (rx ! 1) AND 3)"
    by (intro take_bit_nat_eq_self) (simp add: push_bit_eq_mult)
  have "unat (rx ! 2) < 2 ^ 8" using unsigned_less [of "rx ! 2"] by simp
  then have lo: "take_bit 10 (unat (rx ! 2)) = unat (rx ! 2)" by (intro take_bit_nat_eq_self) simp
  have "take_bit 10 (adc_value rx) = adc_value rx" unfolding adc_value_def take_bit_or hi lo ..
  then show ?thesis using take_bit_nat_less_exp [of 10 "adc_value rx"] by simp
qed

subsection \<open>The synchronous driver\<close>

text \<open>
  \<open>spi\<close> is the result of the transfer: an error or the three bytes received.  The result: what is
  returned and the new position.
\<close>

definition mcp3008_read :: "byte list res \<Rightarrow> nat \<Rightarrow> nat \<Rightarrow> int \<Rightarrow> byte list res \<times> int" where
  "mcp3008_read spi ulen count pos =
     (if pos \<noteq> 0 then (Inr [], pos)
      else case spi of Inl e \<Rightarrow> (Inl e, pos)
      | Inr rx \<Rightarrow> (let result_str = scnprintf 5 (line_of (adc_value rx)); len = min (length result_str) count in
          if ulen < len then (Inl EFAULT, pos) else (Inr (take len result_str), pos + int len)))"

subsection \<open>The asynchronous driver\<close>

definition FIFO_SAMPLES :: nat where "FIFO_SAMPLES = 1024"

text \<open>\<open>ad_flight\<close> counts the messages that the SPI core has accepted and not completed; it
  calls the completion as the last use of a message.\<close>

record adc_dev =
  ad_fifo :: "nat list"
  ad_tx :: "byte list"
  ad_in_progress :: bool
  ad_done :: nat
  ad_flight :: nat

definition adc_complete :: "adc_dev \<Rightarrow> adc_dev" where
  "adc_complete d = d\<lparr>ad_done := ad_done d + 1\<rparr>"

definition mcp3008_async_complete :: "byte list \<Rightarrow> adc_dev \<Rightarrow> adc_dev" where
  "mcp3008_async_complete rx d = (case kfifo_in FIFO_SAMPLES [adc_value rx] (ad_fifo d) of (_, q) \<Rightarrow>
     adc_complete (d\<lparr>ad_fifo := q, ad_in_progress := False, ad_flight := ad_flight d - 1\<rparr>))"

definition mcp3008_work :: "unit res \<Rightarrow> nat \<Rightarrow> adc_dev \<Rightarrow> adc_dev" where
  "mcp3008_work spi_async ch d =
     (if ad_in_progress d then d
      else let d1 = d\<lparr>ad_in_progress := True, ad_done := 0, ad_tx := prep_cmd ch\<rparr> in
      case spi_async of
        Inl _ \<Rightarrow> adc_complete (d1\<lparr>ad_in_progress := False\<rparr>)
      | Inr _ \<Rightarrow> d1\<lparr>ad_flight := ad_flight d1 + 1\<rparr>)"

definition mcp3008_open :: "adc_dev \<Rightarrow> adc_dev" where
  "mcp3008_open d = d\<lparr>ad_fifo := []\<rparr>"

text \<open>
  The lines are written into rows of five bytes of a buffer on the stack, whose former contents
  are \<open>stack\<close>; \<open>print_rows\<close> is the loop from row \<open>i\<close> on, with \<open>len\<close> as it counts it.
\<close>

fun print_rows :: "nat list \<Rightarrow> nat \<Rightarrow> nat \<Rightarrow> byte list \<Rightarrow> nat \<times> byte list" where
  "print_rows [] i len buf = (len, buf)"
| "print_rows (v # vs) i len buf = (let txt = scnprintf 5 (line_of v)
     in print_rows vs (Suc i) (len + length txt) (overwrite buf (5 * i) (txt @ [0])))"

text \<open>The read once the fifo is not empty. The position is only counted, never used, and is left out.\<close>

definition adc_take :: "byte list \<Rightarrow> nat \<Rightarrow> nat \<Rightarrow> adc_dev \<Rightarrow> byte list res \<times> adc_dev" where
  "adc_take stack ulen count d =
     (case kfifo_out FIFO_SAMPLES (ad_fifo d) of (samples, q) \<Rightarrow>
      let d1 = d\<lparr>ad_fifo := q\<rparr>; num_samples = min (length samples) (count div 5) in
      if num_samples = 0 then (Inl EAGAIN, d1)
      else case print_rows (take num_samples samples) 0 0 stack of (len, buf) \<Rightarrow>
        let len1 = min len count in
        if ulen < len1 then (Inl EFAULT, d1) else (Inr (take len1 buf), d1))"

text \<open>
  \<open>wakes\<close>: at each sleep the device as the reader finds it with the completion done, or a signal;
  a completion that is done already does not sleep.
\<close>

function mcp3008_async_read :: "bool \<Rightarrow> byte list \<Rightarrow> nat \<Rightarrow> nat \<Rightarrow> adc_dev option list \<Rightarrow> adc_dev \<Rightarrow> (byte list res \<times> adc_dev) run" where
  "mcp3008_async_read nonblock stack ulen count wakes d =
     (if ad_fifo d \<noteq> [] then Inr (adc_take stack ulen count d)
      else if nonblock then Inr (Inl EAGAIN, d)
      else if 0 < ad_done d then mcp3008_async_read nonblock stack ulen count wakes (d\<lparr>ad_done := ad_done d - 1\<rparr>)
      else (case wakes of [] \<Rightarrow> Inl Sleeps
         | None # ws \<Rightarrow> Inr (Inl ERESTARTSYS, d)
         | Some d1 # ws \<Rightarrow> mcp3008_async_read nonblock stack ulen count ws (d1\<lparr>ad_done := ad_done d1 - 1\<rparr>)))"
  by pat_completeness auto
termination
  by (relation "measures [\<lambda>(nonblock, stack, ulen, count, wakes, d). length wakes, \<lambda>(nonblock, stack, ulen, count, wakes, d). ad_done d]") auto

declare mcp3008_async_read.simps [simp del]

subsection \<open>Loading and unloading\<close>

datatype adc_resource = AdcTimer | AdcMisc

text \<open>\<open>setup\<close> and \<open>misc\<close> are the answers of the SPI core and of the misc core; the timer is started first.\<close>

definition mcp3008_probe :: "int \<Rightarrow> unit res \<Rightarrow> unit res \<Rightarrow> unit res \<times> adc_resource list" where
  "mcp3008_probe period_ms setup misc =
     (case setup of Inl e \<Rightarrow> (Inl e, [])
      | Inr _ \<Rightarrow> (let h = (if period_ms > 0 then [AdcTimer] else [])
          in case misc of Inl e \<Rightarrow> (Inl e, h) | Inr _ \<Rightarrow> (Inr (), AdcMisc # h)))"

definition mcp3008_remove :: "adc_resource list \<Rightarrow> adc_resource list" where
  "mcp3008_remove held = removeAll AdcTimer (removeAll AdcMisc held)"

lemma mcp3008_load:
  "case mcp3008_probe period_ms setup misc of (Inr _, held) \<Rightarrow> mcp3008_remove held = []
   | (Inl _, held) \<Rightarrow> held = (if setup = Inr () \<and> 0 < period_ms then [AdcTimer] else [])"
  by (auto simp: mcp3008_probe_def mcp3008_remove_def split: sum.splits)

subsection \<open>One message at a time\<close>

inductive adc_step :: "adc_dev \<Rightarrow> adc_dev \<Rightarrow> bool" where
  work: "adc_step d (mcp3008_work r ch d)"
| complete: "0 < ad_flight d \<Longrightarrow> adc_step d (mcp3008_async_complete rx d)"
| read: "mcp3008_async_read nonblock stack ulen count [] d = Inr (r, d') \<Longrightarrow> adc_step d d'"
| open_file: "adc_step d (mcp3008_open d)"

inductive adc_reach :: "adc_dev \<Rightarrow> bool" where
  init: "adc_reach \<lparr>ad_fifo = [], ad_tx = [0, 0, 0], ad_in_progress = False, ad_done = 0, ad_flight = 0\<rparr>"
| step: "adc_reach d \<Longrightarrow> adc_step d d' \<Longrightarrow> adc_reach d'"

definition adc_ok :: "adc_dev \<Rightarrow> bool" where
  "adc_ok d \<longleftrightarrow> ad_flight d = of_bool (ad_in_progress d) \<and> length (ad_fifo d) \<le> FIFO_SAMPLES \<and> (\<forall>v\<in>set (ad_fifo d). v < 1024)"

lemma async_read_ok:
  "mcp3008_async_read nonblock stack ulen count wakes d = Inr (r, d') \<Longrightarrow> wakes = [] \<Longrightarrow> adc_ok d \<Longrightarrow> adc_ok d'"
proof (induction nonblock stack ulen count wakes d rule: mcp3008_async_read.induct)
  case (1 nonblock stack ulen count wakes d)
  show ?case
  proof (cases "ad_fifo d \<noteq> []")
    case True
    with "1.prems" show ?thesis
      by (auto simp: mcp3008_async_read.simps [of nonblock stack ulen count "[]" d] adc_take_def kfifo_out_def adc_ok_def Let_def
          split: if_splits prod.splits dest: in_set_dropD)
  next
    case False
    with 1 show ?thesis
      by (auto simp: mcp3008_async_read.simps [of nonblock stack ulen count "[]" d] adc_ok_def split: if_splits)
  qed
qed

lemma adc_step_ok: "adc_step d d' \<Longrightarrow> adc_ok d \<Longrightarrow> adc_ok d'"
proof (induction rule: adc_step.induct)
  case (complete d rx)
  obtain n q where k: "kfifo_in FIFO_SAMPLES [adc_value rx] (ad_fifo d) = (n, q)"
    by (cases "kfifo_in FIFO_SAMPLES [adc_value rx] (ad_fifo d)")
  have "length q \<le> FIFO_SAMPLES" "q = ad_fifo d @ take n [adc_value rx]"
    using kf.put_ok [OF _ k] complete.prems by (fastforce simp: adc_ok_def)+
  with complete adc_value_bound [of rx] show ?case
    by (auto simp: mcp3008_async_complete_def k adc_complete_def adc_ok_def dest: in_set_takeD)
next
  case (read nonblock stack ulen count d r d')
  then show ?case using async_read_ok by blast
qed (auto simp: mcp3008_work_def mcp3008_open_def adc_complete_def adc_ok_def Let_def split: sum.split)

text \<open>C40: whatever the order of conversions, completions and reads, at most one message is in flight,
  exactly while the flag is set, so that none is submitted twice; the fifo holds at most 1024
  samples, each of ten bits.\<close>

theorem adc_one_message:
  assumes "adc_reach d"
  shows "ad_flight d = of_bool (ad_in_progress d) \<and> length (ad_fifo d) \<le> 1024 \<and> (\<forall>v\<in>set (ad_fifo d). v < 1024)"
proof -
  have "adc_ok d" using assms by (induction rule: adc_reach.induct) (auto simp: adc_ok_def FIFO_SAMPLES_def dest: adc_step_ok)
  then show ?thesis by (simp add: adc_ok_def FIFO_SAMPLES_def)
qed

definition adc_started :: adc_dev where
  "adc_started = \<lparr>ad_fifo = [], ad_tx = prep_cmd 0, ad_in_progress = True, ad_done = 0, ad_flight = 1\<rparr>"

theorem adc_one_message_witness:
  "adc_reach adc_started \<and> ad_flight adc_started = of_bool (ad_in_progress adc_started)"
proof -
  have "adc_reach adc_started"
    using adc_reach.step [OF adc_reach.init adc_step.work [of _ "Inr ()" 0]] by (simp add: mcp3008_work_def adc_started_def)
  then show ?thesis using adc_one_message by blast
qed

subsection \<open>What is read\<close>

text \<open>The synchronous driver returns the value in decimal as a line, clipped to the user's buffer, but
  a value of four digits comes without its newline: the buffer of five bytes also holds the
  terminating zero.\<close>

lemma mcp3008_sync_line:
  assumes "count \<le> ulen"
  shows "fst (mcp3008_read (Inr rx) ulen count 0) = Inr (take count
    (if adc_value rx < 1000 then decimal (adc_value rx) @ [10] else decimal (adc_value rx)))"
proof -
  define v where "v = adc_value rx"
  have v: "v < 10 ^ 4" using adc_value_bound [of rx] by (simp add: v_def)
  have "scnprintf 5 (line_of v) = (if v < 1000 then decimal v @ [10] else decimal v)"
  proof (cases "v < 1000")
    case True
    have "length (decimal v) \<le> 3"
      using length_decimal [of 2 v] length_decimal [of 1 v] length_decimal [of 0 v] True
      by (cases "v < 10"; cases "v < 100"; cases "v = 0") (auto simp: decimal.simps [of 0])
    with True show ?thesis by (simp add: scnprintf_def line_of_def)
  next
    case False
    then have "length (decimal v) = 4" using length_decimal [of 3 v] v by simp
    with False show ?thesis by (simp add: scnprintf_def line_of_def)
  qed
  with assms show ?thesis by (simp add: mcp3008_read_def v_def [symmetric] Let_def min_def)
qed

lemma mcp3008_sync_line_witness:
  "fst (mcp3008_read (Inr [0, 3, 0xFF]) 16 16 0) = Inr (decimal 1023)"
  using mcp3008_sync_line [of 16 16 "[0, 3, 0xFF]"] by (simp add: adc_value_def push_bit_eq_mult decimal.simps)

lemma decimal_nonzero: "c \<in> set (decimal n) \<Longrightarrow> c \<noteq> 0"
proof (induction n rule: decimal.induct)
  case (1 n)
  have digit: "k < 10 \<Longrightarrow> word_of_nat (48 + k) \<noteq> (0 :: byte)" for k
    by (simp add: word_of_nat_eq_0_iff nat_dvd_not_less del: of_nat_add)
  show ?case
  proof (cases "n < 10")
    case True
    with 1 digit show ?thesis by (auto simp: decimal.simps [of n] simp del: of_nat_add)
  next
    case False
    with 1 digit [of "n mod 10"] show ?thesis by (auto simp: decimal.simps [of n] simp del: of_nat_add)
  qed
qed

lemma three_digits: "100 \<le> v \<Longrightarrow> v < 1000 \<Longrightarrow> scnprintf 5 (line_of v) = line_of v \<and> length (line_of v) = 4"
  using length_decimal [of 2 v] by (simp add: scnprintf_def line_of_def)

lemma print_rows_three_digits:
  "\<forall>v\<in>set vs. 100 \<le> v \<and> v < 1000 \<Longrightarrow> 5 * (i + length vs) \<le> length buf \<Longrightarrow>
    print_rows vs i len buf = (len + 4 * length vs, overwrite buf (5 * i) (concat (map (\<lambda>v. line_of v @ [0]) vs)))"
proof (induction vs i len buf rule: print_rows.induct)
  case (2 v vs i len buf)
  have t: "scnprintf 5 (line_of v) = line_of v" "length (line_of v) = 4" using three_digits [of v] "2.prems"(1) by auto
  define row where "row = line_of v @ [0]"
  have l: "length row = 5" by (simp add: row_def t)
  have "print_rows vs (Suc i) (len + 4) (overwrite buf (5 * i) row) =
      (len + 4 + 4 * length vs, overwrite (overwrite buf (5 * i) row) (5 * Suc i) (concat (map (\<lambda>v. line_of v @ [0]) vs)))"
    using "2.IH" [OF refl] "2.prems" t l by (simp add: row_def)
  moreover have "overwrite (overwrite buf (5 * i) row) (5 * Suc i) (concat (map (\<lambda>v. line_of v @ [0]) vs)) =
      overwrite buf (5 * i) (row @ concat (map (\<lambda>v. line_of v @ [0]) vs))"
    using overwrite_append [of "5 * i" row buf] l "2.prems"(2) by (simp add: add.commute)
  ultimately show ?case by (simp add: t row_def Let_def)
qed simp

text \<open>The asynchronous driver prints each value into a row of five bytes but returns the sum of the
  lengths: for values of three digits a read of two or more delivers a zero byte after each line
  and loses the end of the last ones.\<close>

lemma mcp3008_async_gaps:
  assumes v: "\<forall>v\<in>set (ad_fifo d). 100 \<le> v \<and> v < 1000" and n: "2 \<le> length (ad_fifo d)" "length (ad_fifo d) \<le> FIFO_SAMPLES"
    and room: "5 * length (ad_fifo d) \<le> count" "count \<le> ulen" and stack: "length stack = 5 * FIFO_SAMPLES"
  shows "\<exists>out. adc_take stack ulen count d = (Inr out, d\<lparr>ad_fifo := []\<rparr>) \<and>
    out = take (4 * length (ad_fifo d)) (concat (map (\<lambda>v. line_of v @ [0]) (ad_fifo d))) \<and>
    out \<noteq> concat (map line_of (ad_fifo d))"
proof -
  define vs where "vs = ad_fifo d"
  define bytes where "bytes = concat (map (\<lambda>v. line_of v @ [0]) vs)"
  have len: "length (concat (map (\<lambda>v. line_of v @ [0]) ws)) = 5 * length ws" if "set ws \<subseteq> set vs" for ws
    using that v three_digits by (induction ws) (auto simp: vs_def)
  have rows: "print_rows vs 0 0 stack = (4 * length vs, overwrite stack 0 bytes)"
    using print_rows_three_digits [of vs 0 stack 0] v n stack by (simp add: vs_def bytes_def)
  have "min (length vs) (count div 5) = length vs" using room by (simp add: vs_def)
  then have "adc_take stack ulen count d = (Inr (take (4 * length vs) bytes), d\<lparr>ad_fifo := []\<rparr>)"
    using n room rows len [OF subset_refl] by (simp add: adc_take_def kfifo_out_def vs_def [symmetric] overwrite_def bytes_def [symmetric] Let_def min_def) auto
  moreover have "take (4 * length vs) bytes \<noteq> concat (map line_of vs)"
  proof
    assume eq: "take (4 * length vs) bytes = concat (map line_of vs)"
    obtain x y zs where vs: "vs = x # y # zs" using n(1) by (cases vs; cases "tl vs") (auto simp: vs_def)
    have l: "length (line_of x) = 4" using v three_digits [of x] by (auto simp: vs vs_def [symmetric])
    have "take (4 * length vs) bytes ! 4 = 0" by (simp add: bytes_def vs nth_append l)
    moreover have "concat (map line_of vs) ! 4 = decimal y ! 0"
      using length_decimal [of 2 y] v by (simp add: vs vs_def [symmetric] nth_append l) (simp add: line_of_def nth_append vs)
    moreover have "decimal y ! 0 \<noteq> 0"
      using decimal_nonzero [of "decimal y ! 0" y] length_decimal [of 2 y] v by (simp add: vs vs_def [symmetric])
    ultimately show False using eq by simp
  qed
  ultimately show ?thesis by (simp add: vs_def bytes_def)
qed

lemma mcp3008_async_gaps_witness:
  "\<exists>out. adc_take (replicate 5120 0) 64 64 (adc_started\<lparr>ad_fifo := [512, 700]\<rparr>) = (Inr out, adc_started) \<and>
     out \<noteq> line_of 512 @ line_of 700"
  using mcp3008_async_gaps [of "adc_started\<lparr>ad_fifo := [512, 700]\<rparr>" 64 64 "replicate 5120 0"]
  by (auto simp: FIFO_SAMPLES_def adc_started_def)

text \<open>A read with a buffer too small for one sample empties the fifo and returns \<open>EAGAIN\<close>.\<close>

lemma mcp3008_async_lost:
  assumes "count < 5" and "length (ad_fifo d) \<le> FIFO_SAMPLES"
  shows "adc_take stack ulen count d = (Inl EAGAIN, d\<lparr>ad_fifo := []\<rparr>)"
  using assms by (simp add: adc_take_def kfifo_out_def)

subsection \<open>The rest of the two drivers\<close>

text \<open>An open file points to the one device; closing it does nothing.\<close>

definition mcp3008_sync_open :: "'d \<Rightarrow> unit res \<times> 'd option" where
  "mcp3008_sync_open data = (Inr (), Some data)"

definition mcp3008_release :: "'d option \<Rightarrow> unit res \<times> 'd option" where
  "mcp3008_release private_data = (Inr (), private_data)"

text \<open>The timer queues the work item and starts itself again.\<close>

definition mcp3008_timer :: "(int \<Rightarrow> nat) \<Rightarrow> int \<Rightarrow> nat \<Rightarrow> bool \<times> nat" where
  "mcp3008_timer msecs_to_jiffies period_ms jiffies = (True, jiffies + msecs_to_jiffies period_ms)"

text \<open>The probe of the synchronous driver asks for neither result, and its remove gives the misc device
  back in any case.\<close>

definition mcp3008_sync_probe :: "unit res \<Rightarrow> unit res \<Rightarrow> unit res \<times> adc_resource list" where
  "mcp3008_sync_probe setup misc = (Inr (), if misc = Inr () then [AdcMisc] else [])"

definition mcp3008_sync_remove :: "adc_resource list \<Rightarrow> adc_resource list" where
  "mcp3008_sync_remove held = removeAll AdcMisc held"

lemma mcp3008_sync_load:
  "fst (mcp3008_sync_probe setup misc) = Inr () \<and> mcp3008_sync_remove (snd (mcp3008_sync_probe setup misc)) = []"
  "misc \<noteq> Inr () \<Longrightarrow> AdcMisc \<notin> set (snd (mcp3008_sync_probe setup misc))"
  by (auto simp: mcp3008_sync_probe_def mcp3008_sync_remove_def)

text \<open>Only the synchronous driver keeps the contract that a failed load leaves nothing.\<close>

interpretation adc_sync_mod: unwinding "\<lambda>(setup, misc). Inr (mcp3008_sync_probe setup misc)" "\<lambda>h. Inr (mcp3008_sync_remove h)" "\<lambda>h. h = []" "\<lambda>_. True"
  by (rule unwindingI) (auto simp: mcp3008_sync_probe_def mcp3008_sync_remove_def)

interpretation adc_mod: loadable "\<lambda>(period_ms, setup, misc). Inr (mcp3008_probe period_ms setup misc)" "\<lambda>h. Inr (mcp3008_remove h)" "\<lambda>h. h = []" "\<lambda>_. True"
  by (rule loadableI) (use mcp3008_load in \<open>fastforce split: sum.splits prod.splits\<close>)

end
