(* ===== verification/Dac.thy ===== *)
theory Dac
  imports ModuleLife KernelPrelude
begin

text \<open>
  The sound driver of \<open>rpi-projects/dac/pcm5102a_i2s.c\<close>: a sine wave in a cyclic DMA buffer that the
  callback of each finished period fills again, the registers of the I2S block, load and unload.
  Samples are the 16-bit integers of the table, registers are offsets from the mapped base.
\<close>

subsection \<open>The wave\<close>

definition SAMPLES_PER_CYCLE :: nat where "SAMPLES_PER_CYCLE = 48"
definition PERIOD_LEN :: nat where "PERIOD_LEN = 256"

definition sin_table :: "int list" where
  "sin_table =
     [0, 4276, 8480, 12539, 16383, 19947, 23169, 25995,
      28378, 30272, 31650, 32486, 32767, 32486, 31650, 30272,
      28378, 25995, 23169, 19947, 16383, 12539, 8480, 4276,
      0, -4277, -8481, -12540, -16384, -19948, -23170, -25996,
      -28379, -30273, -31651, -32487, -32768, -32487, -31651, -30273,
      -28379, -25996, -23170, -19948, -16384, -12540, -8481, -4277]"

text \<open>The loop of \<open>fill_audio_buffer\<close> from frame \<open>i\<close> on, at sample \<open>off\<close> of the whole buffer.\<close>

fun fill_frames :: "nat \<Rightarrow> nat \<Rightarrow> nat \<Rightarrow> int list \<Rightarrow> int list run" where
  "fill_frames 0 i off buf = Inr buf"
| "fill_frames (Suc n) i off buf = (let phase = i mod SAMPLES_PER_CYCLE; sample = sin_table ! phase in
     if off + i * 2 + 1 < length buf
     then fill_frames n (Suc i) off (buf[off + i * 2 := sample, off + i * 2 + 1 := sample])
     else Inl OutOfBounds)"

definition fill_audio_buffer :: "nat \<Rightarrow> nat \<Rightarrow> int list \<Rightarrow> int list run" where
  "fill_audio_buffer off len buf = (let frames = len div (2 * 2) in fill_frames frames 0 off buf)"

record pcm_dev =
  tx_buf :: "int list"
  tx_buf_len :: nat
  period_idx :: nat

definition pcm5102a_tx_callback :: "pcm_dev \<Rightarrow> pcm_dev run" where
  "pcm5102a_tx_callback dev =
     (let max_period = tx_buf_len dev div PERIOD_LEN; offset_bytes = period_idx dev * PERIOD_LEN in
      case fill_audio_buffer (offset_bytes div 2) PERIOD_LEN (tx_buf dev) of Inl s \<Rightarrow> Inl s
      | Inr buf \<Rightarrow> if max_period = 0 then Inl DivByZero
          else Inr (dev\<lparr>tx_buf := buf, period_idx := (period_idx dev + 1) mod max_period\<rparr>))"

subsection \<open>The registers\<close>

definition IER :: nat where "IER = 0x000"
definition ITER :: nat where "ITER = 0x008"
definition CER :: nat where "CER = 0x00C"
definition CCR :: nat where "CCR = 0x010"
definition DMACR :: nat where "DMACR = 0x200"
definition TER :: "nat \<Rightarrow> nat" where "TER x = 0x40 * x + 0x02C"
definition TCR :: "nat \<Rightarrow> nat" where "TCR x = 0x40 * x + 0x034"
definition TOR :: "nat \<Rightarrow> nat" where "TOR x = 0x40 * x + 0x044"
definition TFCR :: "nat \<Rightarrow> nat" where "TFCR x = 0x40 * x + 0x04C"
definition STEREO_CHANNEL :: nat where "STEREO_CHANNEL = 0"
definition DMAEN_TXBLOCK :: nat where "DMAEN_TXBLOCK = push_bit 17 1"

datatype mmio = WriteL nat nat | ReadL nat

definition pcm5102a_hw_init :: "mmio list" where
  "pcm5102a_hw_init =
     [WriteL CER 0, WriteL ITER 0, WriteL (TER STEREO_CHANNEL) 0, WriteL (TCR 0) 0x2, WriteL CCR 0,
      WriteL (TFCR STEREO_CHANNEL) 100, WriteL IER 0x1, WriteL DMACR DMAEN_TXBLOCK, ReadL (TOR STEREO_CHANNEL),
      WriteL (TER STEREO_CHANNEL) 0x1, WriteL ITER 0x1, WriteL CER 0x1]"

subsection \<open>Loading and unloading\<close>

text \<open>What the driver core does not release by itself; \<open>DmaRunning\<close>: the cyclic transfer is submitted.\<close>

datatype pcm_resource = ClkEnabled | TxChan | TxBuf | DmaRunning

text \<open>The answers of the kernel: the allocation, the mapping, the clock, its rate, the channel, the buffer
  with its former contents, the configuration, the descriptor and its submission.\<close>

record pcm_env =
  pe_zalloc :: bool
  pe_base :: "unit res"
  pe_clk :: "unit res"
  pe_rate :: "unit res"
  pe_chan :: "unit res"
  pe_buf :: "int list option"
  pe_config :: "unit res"
  pe_desc :: bool
  pe_submit :: bool

definition error_release_chan :: "pcm_resource list \<Rightarrow> pcm_resource list" where
  "error_release_chan held = removeAll ClkEnabled (removeAll TxChan held)"

definition error_free_buf :: "pcm_resource list \<Rightarrow> pcm_resource list" where
  "error_free_buf held = error_release_chan (removeAll TxBuf held)"

definition pcm5102a_probe :: "pcm_env \<Rightarrow> ((errno + pcm_dev \<times> mmio list) \<times> pcm_resource list) run" where
  "pcm5102a_probe e =
     (if \<not> pe_zalloc e then Inr (Inl ENOMEM, [])
      else case pe_base e of Inl x \<Rightarrow> Inr (Inl x, [])
      | Inr _ \<Rightarrow> (case pe_clk e of Inl x \<Rightarrow> Inr (Inl x, [])
      | Inr _ \<Rightarrow> (let h1 = [ClkEnabled] in
      case pe_rate e of Inl x \<Rightarrow> Inr (Inl x, h1)
      | Inr _ \<Rightarrow> (case pe_chan e of Inl _ \<Rightarrow> Inr (Inl ENODEV, h1)
      | Inr _ \<Rightarrow> (let h2 = TxChan # h1; len = 2048 in
      case pe_buf e of None \<Rightarrow> Inr (Inl ENOMEM, error_release_chan h2)
      | Some mem \<Rightarrow> (let h3 = TxBuf # h2 in
      case fill_audio_buffer 0 len mem of Inl s \<Rightarrow> Inl s
      | Inr buf \<Rightarrow> (case pe_config e of Inl x \<Rightarrow> Inr (Inl x, error_free_buf h3)
      | Inr _ \<Rightarrow> if \<not> pe_desc e then Inr (Inl ENOMEM, error_free_buf h3)
        else let dev = \<lparr>tx_buf = buf, tx_buf_len = len, period_idx = 0\<rparr> in
          if \<not> pe_submit e then Inr (Inl EIO, error_free_buf h3)
          else Inr (Inr (dev, pcm5102a_hw_init), DmaRunning # h3))))))))"

definition pcm5102a_remove :: "pcm_resource list \<Rightarrow> pcm_resource list \<times> mmio list" where
  "pcm5102a_remove held =
     (let h1 = removeAll TxChan (removeAll DmaRunning held);
          ws = [ReadL (TOR STEREO_CHANNEL), WriteL IER 0, WriteL (TER STEREO_CHANNEL) 0, WriteL ITER 0, WriteL DMACR 0, WriteL CER 0]
      in (removeAll ClkEnabled (removeAll TxBuf h1), ws))"

subsection \<open>What they do\<close>

text \<open>The frames of the wave from frame \<open>i\<close> on, each for both channels.\<close>

definition wave :: "nat \<Rightarrow> nat \<Rightarrow> int list" where
  "wave i n = concat (map (\<lambda>k. [sin_table ! (k mod 48), sin_table ! (k mod 48)]) [i..<i + n])"

lemma length_wave [simp]: "length (wave i n) = 2 * n"
  by (induction n) (simp_all add: wave_def)

lemma wave_Suc: "wave i (Suc n) = [sin_table ! (i mod 48), sin_table ! (i mod 48)] @ wave (Suc i) n"
  by (simp add: wave_def upt_conv_Cons del: upt_Suc)

lemma wave_add: "wave i (m + n) = wave i m @ wave (i + m) n"
  using upt_add_eq_append [of i "i + m" n] by (simp add: wave_def add.assoc)

lemma update_two: "Suc j < length buf \<Longrightarrow> buf[j := a, Suc j := b] = overwrite buf j [a, b]"
  by (rule nth_equalityI) (auto simp: nth_overwrite nth_list_update nth_Cons split: nat.split)

lemma fill_frames_spec: "off + 2 * (i + n) \<le> length buf \<Longrightarrow>
    fill_frames n i off buf = Inr (overwrite buf (off + 2 * i) (wave i n))"
proof (induction n arbitrary: i buf)
  case (Suc n)
  have "off + i * 2 + 1 < length buf" using Suc.prems by simp
  with Suc show ?case
    using overwrite_append [of "off + 2 * i" "[sin_table ! (i mod 48), sin_table ! (i mod 48)]" buf]
    by (simp add: update_two wave_Suc SAMPLES_PER_CYCLE_def Let_def mult.commute)
qed (simp add: wave_def)

text \<open>The buffer after \<open>n\<close> callbacks.\<close>

primrec callbacks :: "nat \<Rightarrow> pcm_dev \<Rightarrow> pcm_dev run" where
  "callbacks 0 dev = Inr dev"
| "callbacks (Suc n) dev = (case callbacks n dev of Inl s \<Rightarrow> Inl s | Inr d \<Rightarrow> pcm5102a_tx_callback d)"

definition periods :: "nat \<Rightarrow> int list list" where
  "periods n = map (\<lambda>p. wave (if p < n then 0 else 64 * p) 64) [0..<8]"

lemma overwrite_nth_block:
  "\<forall>b\<in>set bs. length b = k \<Longrightarrow> length y = k \<Longrightarrow> p < length bs \<Longrightarrow>
    overwrite (concat bs) (p * k) y = concat (bs[p := y])"
proof (induction bs arbitrary: p)
  case (Cons b bs)
  show ?case
  proof (cases p)
    case 0
    with Cons.prems show ?thesis by (simp add: overwrite_def)
  next
    case (Suc q)
    then have "overwrite (concat bs) (q * k) y = concat (bs[q := y])" using Cons by simp
    with Suc Cons.prems show ?thesis by (simp add: overwrite_def add.commute)
  qed
qed simp

lemma wave_periods: "wave 0 (64 * m) = concat (map (\<lambda>p. wave (64 * p) 64) [0..<m])"
proof (induction m)
  case (Suc m)
  then show ?case using wave_add [of 0 "64 * m" 64] by (simp add: add.commute)
qed (simp add: wave_def)

lemma periods_Suc: "(periods n)[n mod 8 := wave 0 64] = periods (Suc n)"
proof (rule nth_equalityI)
  fix p assume "p < length ((periods n)[n mod 8 := wave 0 64])"
  then have p: "p < 8" by (simp add: periods_def)
  show "(periods n)[n mod 8 := wave 0 64] ! p = periods (Suc n) ! p"
  proof (cases "p = n mod 8")
    case True
    have "n mod 8 < Suc n" by (simp add: le_imp_less_Suc)
    with True p show ?thesis by (simp add: periods_def)
  next
    case False
    with p have "p < n \<longleftrightarrow> p < Suc n" by (auto simp: less_Suc_eq)
    with False p show ?thesis by (simp add: periods_def)
  qed
qed (simp add: periods_def)

lemma length_periods: "length (concat (periods n)) = 1024"
proof -
  have "length (concat (periods n)) = sum_list (map (\<lambda>_. 128) [0 ..< (8 :: nat)])"
    unfolding length_concat periods_def map_map by (rule arg_cong [of _ _ sum_list]) (simp add: comp_def)
  then show ?thesis by (simp add: sum_list_triv)
qed

lemma callbacks_spec:
  assumes "tx_buf_len dev = 2048" and "tx_buf dev = concat (periods 0)" and "period_idx dev = 0"
  shows "callbacks n dev = Inr (dev\<lparr>tx_buf := concat (periods n), period_idx := n mod 8\<rparr>)"
proof (induction n)
  case (Suc n)
  have "(n mod 8) * PERIOD_LEN div 2 = (n mod 8) * 128" by (simp add: PERIOD_LEN_def)
  moreover have "fill_audio_buffer ((n mod 8) * 128) PERIOD_LEN (concat (periods n)) = Inr (concat (periods (Suc n)))"
  proof -
    have "n mod 8 < 8" by simp
    then have "(n mod 8) * 128 + 2 * 64 \<le> length (concat (periods n))" by (simp add: length_periods)
    moreover have "overwrite (concat (periods n)) ((n mod 8) * 128) (wave 0 64) = concat (periods (Suc n))"
      using overwrite_nth_block [of "periods n" 128 "wave 0 64" "n mod 8"] periods_Suc by (auto simp: periods_def)
    ultimately show ?thesis using fill_frames_spec [of "(n mod 8) * 128" 0 64 "concat (periods n)"]
      by (simp add: fill_audio_buffer_def PERIOD_LEN_def Let_def)
  qed
  ultimately show ?case using Suc assms(1) by (simp add: pcm5102a_tx_callback_def mod_Suc_eq PERIOD_LEN_def Let_def mult.commute)
qed (use assms in simp)

lemma probe_buffer: "length mem = 1024 \<Longrightarrow> fill_audio_buffer 0 2048 mem = Inr (concat (periods 0))"
  using fill_frames_spec [of 0 0 512 mem] wave_periods [of 8]
  by (simp add: fill_audio_buffer_def overwrite_def periods_def)

text \<open>After a successful load any number of period callbacks stay inside the buffer; the callback
  number \<open>n\<close> refills period \<open>n mod 8\<close>, each time with the wave from its beginning.\<close>

lemma dac_periods:
  assumes "pcm5102a_probe e = Inr (Inr (dev, ws), held)" and "\<forall>mem. pe_buf e = Some mem \<longrightarrow> length mem = 1024"
  shows "callbacks n dev = Inr (dev\<lparr>tx_buf := concat (map (\<lambda>p. wave (if p < n then 0 else 64 * p) 64) [0..<8]),
    period_idx := n mod 8\<rparr>)"
proof -
  have "tx_buf_len dev = 2048 \<and> tx_buf dev = concat (periods 0) \<and> period_idx dev = 0"
    using assms by (auto simp: pcm5102a_probe_def probe_buffer Let_def split: if_splits sum.splits option.splits)
  then show ?thesis using callbacks_spec [of dev n] by (simp add: periods_def)
qed

definition example_pcm_env :: pcm_env where
  "example_pcm_env = \<lparr>pe_zalloc = True, pe_base = Inr (), pe_clk = Inr (), pe_rate = Inr (), pe_chan = Inr (),
     pe_buf = Some (replicate 1024 0), pe_config = Inr (), pe_desc = True, pe_submit = True\<rparr>"

lemma example_pcm_probe: "pcm5102a_probe example_pcm_env =
    Inr (Inr (\<lparr>tx_buf = concat (periods 0), tx_buf_len = 2048, period_idx = 0\<rparr>, pcm5102a_hw_init), [DmaRunning, TxBuf, TxChan, ClkEnabled])"
  by (simp add: pcm5102a_probe_def example_pcm_env_def probe_buffer)

lemma dac_periods_witness:
  "\<exists>d. callbacks 3 \<lparr>tx_buf = concat (periods 0), tx_buf_len = 2048, period_idx = 0\<rparr> = Inr d \<and> period_idx d = 3"
  using dac_periods [OF example_pcm_probe, of 3] by (simp add: example_pcm_env_def)

text \<open>The wave has a period of 48 frames and a DMA period has 64, so that from the second round on the
  sample after the last one of each period, \<open>30272\<close>, is \<open>0\<close> instead of \<open>28378\<close>.\<close>

lemma dac_clicks:
  assumes "8 \<le> n" and "p < 8"
  shows "concat (periods n) ! (p * 128 + 127) = sin_table ! 15 \<and> concat (periods n) ! (p * 128) = sin_table ! 0"
proof -
  have all: "periods n = replicate 8 (wave 0 64)" using assms(1) by (intro nth_equalityI) (auto simp: periods_def)
  have block: "concat (replicate m (wave 0 64)) ! (q * 128 + i) = wave 0 64 ! i" if "q < m" "i < 128" for m q i
    using that
  proof (induction m arbitrary: q)
    case (Suc m)
    then show ?case by (cases q) (simp_all add: nth_append)
  qed simp
  have "wave 0 64 = wave 0 63 @ [sin_table ! 15, sin_table ! 15]" using wave_add [of 0 63 1] by (simp add: wave_def)
  then have last: "wave 0 64 ! 127 = sin_table ! 15" by (simp add: nth_append)
  have "wave 0 64 = [sin_table ! 0, sin_table ! 0] @ wave 1 63" using wave_Suc [of 0 63] by simp
  then have first: "wave 0 64 ! 0 = sin_table ! 0" by simp
  show ?thesis using block [of p 8 127] block [of p 8 0] assms(2) last first by (simp add: all)
qed

text \<open>A failed probe keeps the clock enabled when its rate or the channel is refused; every other failure
  releases what was taken, and removing a loaded device releases everything.\<close>

lemma dac_load:
  assumes "pcm5102a_probe e = Inr (r, held)"
  shows "case r of Inl _ \<Rightarrow> held = (if pe_zalloc e \<and> pe_base e = Inr () \<and> pe_clk e = Inr () \<and> (pe_rate e \<noteq> Inr () \<or> pe_chan e \<noteq> Inr ())
      then [ClkEnabled] else [])
    | Inr _ \<Rightarrow> set held = {ClkEnabled, TxChan, TxBuf, DmaRunning} \<and> fst (pcm5102a_remove held) = []"
  using assms
  by (auto simp: pcm5102a_probe_def error_free_buf_def error_release_chan_def pcm5102a_remove_def Let_def split: if_splits sum.splits option.splits)

text \<open>The block after the accesses, whatever it held before: configured and then enabled from the
  channel outwards; removal disables it again.\<close>

fun mmio_state :: "mmio list \<Rightarrow> (nat \<Rightarrow> nat) \<Rightarrow> nat \<Rightarrow> nat" where
  "mmio_state [] r = r"
| "mmio_state (WriteL a v # ws) r = mmio_state ws (r(a := v))"
| "mmio_state (ReadL a # ws) r = mmio_state ws r"

lemmas pcm_registers = IER_def ITER_def CER_def CCR_def DMACR_def TER_def TCR_def TOR_def TFCR_def STEREO_CHANNEL_def

lemma dac_registers:
  "map (mmio_state pcm5102a_hw_init r) [CER, ITER, TER 0, IER, DMACR, TCR 0, CCR, TFCR 0] = [1, 1, 1, 1, 2 ^ 17, 2, 0, 100]"
  "map (mmio_state (snd (pcm5102a_remove held)) r) [CER, ITER, TER 0, IER, DMACR] = [0, 0, 0, 0, 0]"
  by (simp_all add: pcm5102a_hw_init_def pcm5102a_remove_def Let_def pcm_registers DMAEN_TXBLOCK_def push_bit_eq_mult)

text \<open>A failed probe may leave the clock enabled; remove leaves nothing.\<close>

definition pcm_bind :: "pcm_env \<Rightarrow> (unit res \<times> pcm_resource list) run" where
  "pcm_bind e = (case pcm5102a_probe e of Inl x \<Rightarrow> Inl x | Inr (Inl x, h) \<Rightarrow> Inr (Inl x, h) | Inr (Inr _, h) \<Rightarrow> Inr (Inr (), h))"

lemma pcm_probe_returns: "\<forall>mem. pe_buf e = Some mem \<longrightarrow> length mem = 1024 \<Longrightarrow> \<exists>r h. pcm5102a_probe e = Inr (r, h)"
  by (auto simp: pcm5102a_probe_def probe_buffer Let_def split: sum.splits option.splits)

interpretation dac_mod: loadable pcm_bind "\<lambda>h. Inr (fst (pcm5102a_remove h))" "\<lambda>h. h = []" "\<lambda>e. \<forall>mem. pe_buf e = Some mem \<longrightarrow> length mem = 1024"
proof (rule loadableI)
  fix e :: pcm_env assume "\<forall>mem. pe_buf e = Some mem \<longrightarrow> length mem = 1024"
  then obtain r h where "pcm5102a_probe e = Inr (r, h)" using pcm_probe_returns by blast
  with dac_load [OF this] show "case pcm_bind e of Inl _ \<Rightarrow> False | Inr (Inl _, m) \<Rightarrow> True
    | Inr (Inr _, m) \<Rightarrow> (case Inr (fst (pcm5102a_remove m)) of Inl _ \<Rightarrow> False | Inr m' \<Rightarrow> m' = [])"
    by (cases r) (auto simp: pcm_bind_def)
qed

text \<open>Each probe that fails at the rate of the clock leaves the clock enabled once more.\<close>

lemma dac_failures_add_up:
  assumes "pe_zalloc e" and "pe_base e = Inr ()" and "pe_clk e = Inr ()" and "pe_rate e = Inl x"
  shows "module_life pcm_bind (\<lambda>h. Inr (fst (pcm5102a_remove h))) (replicate n (Insmod e)) (None, left) =
    Inr (None, replicate n [ClkEnabled] @ left)"
  using assms
  by (induction n arbitrary: left) (simp_all add: life_step_def pcm_bind_def pcm5102a_probe_def replicate_app_Cons_same)

end
