(* ===== verification/Jiq.thy ===== *)
theory Jiq
  imports ModuleLife ProcFs
begin

text \<open>
  The deferred-work demonstration of \<open>ch07_timers/jiq.c\<close>: a read of a proc file sleeps while a work
  item, a delayed work item, a timer or a tasklet prints one line at each run and queues itself
  again, until a limit is reached and the reader is woken.  The text of a line (process, processor,
  command) and the clock are inputs.
\<close>

definition LIMIT :: int where "LIMIT = int PAGE_SIZE - 128"

record clientdata =
  jq_m :: seq_file
  jq_len :: int
  jq_jiffies :: nat

definition jiq_header :: "byte list" where
  "jiq_header = text_of ''time delta preempt pid cpu command'' @ [10]"

lemma length_jiq_header [simp]: "length jiq_header = 35"
  by (simp add: jiq_header_def)

text \<open>The result, whether the reader is woken, and the data; the comparison is one of \<open>unsigned long\<close>.\<close>

definition jiq_print :: "nat \<Rightarrow> byte list \<Rightarrow> clientdata \<Rightarrow> int \<times> bool \<times> clientdata" where
  "jiq_print j line d =
     (if u64 (jq_len d) > LIMIT then (0, True, d)
      else case (if jq_len d = 0 then (let m = seq_write jiq_header (jq_m d) in (m, int (sf_count m))) else (jq_m d, 0)) of (m, len) \<Rightarrow>
        let m1 = seq_write line m; len1 = s32 (len + int (sf_count m1))
        in (1, False, d\<lparr>jq_m := m1, jq_len := s32 (jq_len d + len1), jq_jiffies := j\<rparr>))"

text \<open>The deferred functions: whether they queue themselves again, whether they wake the reader.\<close>

definition jiq_readwq_fn :: "nat \<Rightarrow> byte list \<Rightarrow> clientdata \<Rightarrow> bool \<times> bool \<times> clientdata" where
  "jiq_readwq_fn j line d = (case jiq_print j line d of (r, woke, d1) \<Rightarrow> (r \<noteq> 0, woke, d1))"

definition jiq_readwq_delayed_fn :: "nat \<Rightarrow> byte list \<Rightarrow> clientdata \<Rightarrow> bool \<times> bool \<times> clientdata" where
  "jiq_readwq_delayed_fn j line d = (case jiq_print j line d of (r, woke, d1) \<Rightarrow> (r \<noteq> 0, woke, d1))"

definition jiq_timeout :: "nat \<Rightarrow> byte list \<Rightarrow> clientdata \<Rightarrow> bool \<times> bool \<times> clientdata" where
  "jiq_timeout j line d = (case jiq_print j line d of (r, woke, d1) \<Rightarrow> if r = 0 then (False, True, d1) else (True, woke, d1))"

definition jiq_print_tasklet :: "nat \<Rightarrow> byte list \<Rightarrow> clientdata \<Rightarrow> bool \<times> bool \<times> clientdata" where
  "jiq_print_tasklet j line d = (case jiq_print j line d of (r, woke, d1) \<Rightarrow> (r \<noteq> 0, woke, d1))"

datatype jiq_kind = JiqWork | JiqDelayed | JiqTimer | JiqTasklet

definition jiq_fn :: "jiq_kind \<Rightarrow> nat \<Rightarrow> byte list \<Rightarrow> clientdata \<Rightarrow> bool \<times> bool \<times> clientdata" where
  "jiq_fn k = (case k of JiqWork \<Rightarrow> jiq_readwq_fn | JiqDelayed \<Rightarrow> jiq_readwq_delayed_fn
     | JiqTimer \<Rightarrow> jiq_timeout | JiqTasklet \<Rightarrow> jiq_print_tasklet)"

subsection \<open>A reader and the deferred function\<close>

datatype jiq_reader = JrAsleep | JrLeaving | JrReturned

text \<open>\<open>js_signalled\<close>: the reader was woken by a signal.\<close>

record jiq_sys =
  js_d :: clientdata
  js_pending :: bool
  js_reader :: jiq_reader
  js_signalled :: bool

text \<open>The show functions up to the sleep.  That of the timer prints the first line itself.\<close>

definition jiq_readwq_show :: "nat \<Rightarrow> seq_file \<Rightarrow> jiq_sys" where
  "jiq_readwq_show j m = \<lparr>js_d = \<lparr>jq_m = m, jq_len = 0, jq_jiffies = j\<rparr>, js_pending = True, js_reader = JrAsleep, js_signalled = False\<rparr>"

definition jiq_readwq_delayed_show :: "nat \<Rightarrow> seq_file \<Rightarrow> jiq_sys" where
  "jiq_readwq_delayed_show j m = \<lparr>js_d = \<lparr>jq_m = m, jq_len = 0, jq_jiffies = j\<rparr>, js_pending = True, js_reader = JrAsleep, js_signalled = False\<rparr>"

definition jiq_read_timer_show :: "nat \<Rightarrow> byte list \<Rightarrow> seq_file \<Rightarrow> jiq_sys" where
  "jiq_read_timer_show j line m = (case jiq_print j line \<lparr>jq_m = m, jq_len = 0, jq_jiffies = j\<rparr> of (_, _, d) \<Rightarrow>
     \<lparr>js_d = d, js_pending = True, js_reader = JrAsleep, js_signalled = False\<rparr>)"

definition jiq_read_tasklet_show :: "nat \<Rightarrow> seq_file \<Rightarrow> jiq_sys" where
  "jiq_read_tasklet_show j m = \<lparr>js_d = \<lparr>jq_m = m, jq_len = 0, jq_jiffies = j\<rparr>, js_pending = True, js_reader = JrAsleep, js_signalled = False\<rparr>"

definition jiq_begin :: "jiq_kind \<Rightarrow> nat \<Rightarrow> byte list \<Rightarrow> seq_file \<Rightarrow> jiq_sys" where
  "jiq_begin k j line m = (case k of JiqWork \<Rightarrow> jiq_readwq_show j m | JiqDelayed \<Rightarrow> jiq_readwq_delayed_show j m
     | JiqTimer \<Rightarrow> jiq_read_timer_show j line m | JiqTasklet \<Rightarrow> jiq_read_tasklet_show j m)"

text \<open>The end of the show functions: only that of the timer waits for the deferred function and stops it.\<close>

definition jiq_finish :: "jiq_kind \<Rightarrow> jiq_sys \<Rightarrow> jiq_sys" where
  "jiq_finish k s = s\<lparr>js_reader := JrReturned, js_pending := (k \<noteq> JiqTimer \<and> js_pending s)\<rparr>"

inductive jiq_step :: "jiq_kind \<Rightarrow> jiq_sys \<Rightarrow> jiq_sys \<Rightarrow> bool" for k where
  run: "js_pending s \<Longrightarrow> jiq_fn k j line (js_d s) = (again, woke, d) \<Longrightarrow>
    jiq_step k s (s\<lparr>js_d := d, js_pending := again,
      js_reader := (if woke \<and> js_reader s = JrAsleep then JrLeaving else js_reader s)\<rparr>)"
| check: "k = JiqTimer \<or> k = JiqTasklet \<Longrightarrow> js_reader s = JrAsleep \<Longrightarrow> u64 (jq_len (js_d s)) > LIMIT \<Longrightarrow>
    jiq_step k s (s\<lparr>js_reader := JrLeaving\<rparr>)"
| signal: "js_reader s = JrAsleep \<Longrightarrow> jiq_step k s (s\<lparr>js_reader := JrLeaving, js_signalled := True\<rparr>)"
| finish: "js_reader s = JrLeaving \<Longrightarrow> jiq_step k s (jiq_finish k s)"

inductive jiq_reach :: "jiq_kind \<Rightarrow> jiq_sys \<Rightarrow> bool" for k where
  start: "jiq_reach k (jiq_begin k j line (seq_fresh sz))"
| step: "jiq_reach k s \<Longrightarrow> jiq_step k s s' \<Longrightarrow> jiq_reach k s'"

inductive_cases jiq_stepE: "jiq_step k s s'"

subsection \<open>Loading\<close>

datatype jiq_entry = JiqDir | JiqFile jiq_kind

definition jiq_init :: "bool list \<Rightarrow> unit res \<times> jiq_entry list" where
  "jiq_init oks = (case proc_create_all [JiqDir, JiqFile JiqWork, JiqFile JiqDelayed, JiqFile JiqTimer, JiqFile JiqTasklet] oks of
     (ok, made) \<Rightarrow> (if ok then Inr () else Inl ENOMEM, made))"

definition jiq_exit :: "jiq_entry list \<Rightarrow> jiq_entry list" where
  "jiq_exit made = []"

text \<open>A load that fails leaves the entries it made, whose functions are gone with the module.\<close>

lemma jiq_load:
  "jiq_init [True, True, True, True, True] = (Inr (), [JiqDir, JiqFile JiqWork, JiqFile JiqDelayed, JiqFile JiqTimer, JiqFile JiqTasklet])"
  "jiq_init [True, True, False] = (Inl ENOMEM, [JiqDir, JiqFile JiqWork])"
  by (simp_all add: jiq_init_def)

subsection \<open>After the reader has returned\<close>

lemma jiq_fn_cases:
  assumes "jiq_fn k j line d = (again, woke, d')"
  shows "u64 (jq_len d) > LIMIT \<and> \<not> again \<and> woke \<and> d' = d \<or> \<not> u64 (jq_len d) > LIMIT \<and> again \<and> \<not> woke \<and> jiq_print j line d = (1, False, d')"
  using assms
  by (cases k) (auto simp: jiq_fn_def jiq_readwq_fn_def jiq_readwq_delayed_fn_def jiq_timeout_def jiq_print_tasklet_def jiq_print_def Let_def
      split: if_splits prod.splits)

definition jiq_done_ok :: "jiq_kind \<Rightarrow> jiq_sys \<Rightarrow> bool" where
  "jiq_done_ok k s \<longleftrightarrow> (js_reader s \<noteq> JrAsleep \<and> \<not> js_signalled s \<longrightarrow> u64 (jq_len (js_d s)) > LIMIT) \<and>
     (k = JiqTimer \<and> js_reader s = JrReturned \<longrightarrow> \<not> js_pending s) \<and> (js_reader s = JrAsleep \<longrightarrow> js_pending s)"

lemma jiq_reach_done: "jiq_reach k s \<Longrightarrow> jiq_done_ok k s"
proof (induction rule: jiq_reach.induct)
  case (start j line sz)
  then show ?case
    by (cases k) (simp_all add: jiq_done_ok_def jiq_begin_def jiq_readwq_show_def jiq_readwq_delayed_show_def jiq_read_timer_show_def
        jiq_read_tasklet_show_def split: prod.split)
next
  case (step s s')
  from step.hyps(2) step.IH show ?case
    by (cases rule: jiq_step.cases) (auto simp: jiq_done_ok_def jiq_finish_def dest: jiq_fn_cases)
qed

text \<open>C31: once the reader of a timer file has returned, or that of any of the files without a signal, no
  later run of the deferred function writes into its buffer; and a reader that sleeps always has
  the deferred function queued.\<close>

theorem jiq_no_late_write:
  assumes "jiq_reach k s"
  shows "(js_reader s = JrAsleep \<longrightarrow> js_pending s) \<and>
    (js_reader s = JrReturned \<and> (k = JiqTimer \<or> \<not> js_signalled s) \<longrightarrow>
      (\<forall>s'. jiq_step k s s' \<longrightarrow> jq_m (js_d s') = jq_m (js_d s)))"
proof -
  have ok: "jiq_done_ok k s" by (rule jiq_reach_done [OF assms])
  show ?thesis
  proof (intro conjI impI allI)
    show "js_pending s" if "js_reader s = JrAsleep" using ok that by (simp add: jiq_done_ok_def)
    fix s' assume r: "js_reader s = JrReturned \<and> (k = JiqTimer \<or> \<not> js_signalled s)" and st: "jiq_step k s s'"
    from st show "jq_m (js_d s') = jq_m (js_d s)"
    proof (cases rule: jiq_step.cases)
      case (run j line again woke d)
      with r ok show ?thesis using jiq_fn_cases [OF run(3)] by (auto simp: jiq_done_ok_def)
    qed (use r in \<open>simp_all add: jiq_finish_def\<close>)
  qed
qed

text \<open>With a signal the work item stays queued, and its next run writes into the buffer of a file
  that is gone.\<close>

definition jiq_orphan :: "nat \<Rightarrow> nat \<Rightarrow> jiq_sys" where
  "jiq_orphan j sz = \<lparr>js_d = \<lparr>jq_m = seq_fresh sz, jq_len = 0, jq_jiffies = j\<rparr>, js_pending = True, js_reader = JrReturned, js_signalled = True\<rparr>"

lemma jiq_late_write:
  assumes "k \<noteq> JiqTimer" and "35 + length line < sz"
  shows "jiq_reach k (jiq_orphan j sz) \<and> (\<exists>s'. jiq_step k (jiq_orphan j sz) s' \<and> sf_text (jq_m (js_d s')) = jiq_header @ line)"
proof
  define s0 :: jiq_sys where "s0 = jiq_orphan j sz\<lparr>js_reader := JrAsleep, js_signalled := False\<rparr>"
  have "jiq_begin k j [] (seq_fresh sz) = s0" using assms(1)
    by (cases k) (simp_all add: s0_def jiq_orphan_def jiq_begin_def jiq_readwq_show_def jiq_readwq_delayed_show_def jiq_read_tasklet_show_def)
  then have "jiq_reach k s0" using jiq_reach.start [of k j "[]" sz] by simp
  then have "jiq_reach k (s0\<lparr>js_reader := JrLeaving, js_signalled := True\<rparr>)" by (rule jiq_reach.step) (rule jiq_step.signal, simp add: s0_def)
  then have "jiq_reach k (jiq_finish k (s0\<lparr>js_reader := JrLeaving, js_signalled := True\<rparr>))" by (rule jiq_reach.step) (rule jiq_step.finish, simp)
  then show "jiq_reach k (jiq_orphan j sz)" using assms(1) by (simp add: jiq_finish_def s0_def jiq_orphan_def)
  obtain again woke d where f: "jiq_fn k j line (js_d (jiq_orphan j sz)) = (again, woke, d)" by (metis prod_cases3)
  have "\<not> u64 (jq_len (js_d (jiq_orphan j sz))) > LIMIT" by (simp add: jiq_orphan_def LIMIT_def PAGE_SIZE_eq u64_def)
  with jiq_fn_cases [OF f] have "jiq_print j line (js_d (jiq_orphan j sz)) = (1, False, d)" by simp
  then have "sf_text (jq_m d) = jiq_header @ line"
    using assms(2) by (auto simp: jiq_print_def jiq_orphan_def LIMIT_def PAGE_SIZE_eq u64_def seq_fresh_def seq_write_def Let_def)
  then show "\<exists>s'. jiq_step k (jiq_orphan j sz) s' \<and> sf_text (jq_m (js_d s')) = jiq_header @ line"
    using jiq_step.run [OF _ f] by (fastforce simp: jiq_orphan_def)
qed

subsection \<open>How long it prints\<close>

text \<open>The data after \<open>n\<close> runs, with the clock and the line of each.\<close>

primrec jiq_runs :: "jiq_kind \<Rightarrow> (nat \<Rightarrow> nat) \<Rightarrow> (nat \<Rightarrow> byte list) \<Rightarrow> nat \<Rightarrow> clientdata \<Rightarrow> clientdata" where
  "jiq_runs k tick lines 0 d = d"
| "jiq_runs k tick lines (Suc n) d = snd (snd (jiq_fn k (tick n) (lines n) (jiq_runs k tick lines n d)))"

definition jiq_printed :: "(nat \<Rightarrow> byte list) \<Rightarrow> nat \<Rightarrow> clientdata \<Rightarrow> bool" where
  "jiq_printed lines n d \<longleftrightarrow> jq_m d = \<lparr>sf_size = PAGE_SIZE, sf_text = jiq_header @ concat (map lines [0..<n]),
       sf_count = length (jiq_header @ concat (map lines [0..<n]))\<rparr> \<and>
     sf_count (jq_m d) < PAGE_SIZE \<and> 35 + n \<le> sf_count (jq_m d) \<and> int (sf_count (jq_m d)) \<le> jq_len d \<and> jq_len d < 10000 \<and>
     70 + 70 * int n + int n * (int n + 1) \<le> 2 * jq_len d"

lemma u64_limit: "0 \<le> len \<Longrightarrow> len < 10000 \<Longrightarrow> u64 len > LIMIT \<longleftrightarrow> len > 3968"
  by (simp add: u64_id LIMIT_def PAGE_SIZE_eq)

lemma jiq_print_first:
  assumes "0 < length line" "length line < 128" and "jq_m d = seq_fresh PAGE_SIZE" and "jq_len d = 0"
    and "jiq_print j line d = (r, w, d')" and "lines 0 = line"
  shows "jiq_printed lines 1 d'"
  using assms by (auto simp: jiq_print_def jiq_printed_def u64_def LIMIT_def PAGE_SIZE_eq seq_fresh_def seq_write_def c_int Let_def Suc_le_eq)

lemma jiq_print_next:
  assumes l: "0 < length (lines n)" "length (lines n) < 128" and i: "jiq_printed lines n d" and small: "jq_len d \<le> 3968"
    and p: "jiq_print j (lines n) d = (r, w, d')"
  shows "jiq_printed lines (Suc n) d'"
proof -
  define c where "c = sf_count (jq_m d)"
  have c: "c + length (lines n) < 4096" "35 + n \<le> c" "int c \<le> jq_len d" "0 < jq_len d" using i l small by (auto simp: jiq_printed_def c_def)
  have u: "\<not> u64 (jq_len d) > LIMIT" using u64_limit [of "jq_len d"] small c by simp
  have w: "seq_write (lines n) (jq_m d) = jq_m d\<lparr>sf_text := sf_text (jq_m d) @ lines n, sf_count := c + length (lines n)\<rparr>"
    using i c(1) by (auto simp: seq_write_def jiq_printed_def c_def PAGE_SIZE_eq)
  have d': "d' = d\<lparr>jq_m := jq_m d\<lparr>sf_text := sf_text (jq_m d) @ lines n, sf_count := c + length (lines n)\<rparr>,
      jq_len := jq_len d + int (c + length (lines n)), jq_jiffies := j\<rparr>"
    using p u c small by (auto simp: jiq_print_def w Let_def c_int)
  have "70 + 70 * int n + int n * (int n + 1) \<le> 2 * jq_len d" using i by (simp add: jiq_printed_def)
  moreover have "int n + 36 \<le> int (c + length (lines n))" using c(2) l(1) by linarith
  ultimately have "70 + 70 * int (Suc n) + int (Suc n) * (int (Suc n) + 1) \<le> 2 * (jq_len d + int (c + length (lines n)))"
    by (simp add: algebra_simps)
  then show ?thesis using i c l small by (auto simp: d' jiq_printed_def c_def PAGE_SIZE_eq simp del: length_greater_0_conv)
qed

lemma jiq_runs_printed:
  assumes l: "\<forall>i. 0 < length (lines i) \<and> length (lines i) < 128"
    and d: "jq_m d = seq_fresh PAGE_SIZE" "jq_len d = 0"
  shows "\<forall>i<n. jq_len (jiq_runs k tick lines i d) \<le> 3968 \<Longrightarrow> 0 < n \<Longrightarrow> jiq_printed lines n (jiq_runs k tick lines n d)"
proof (induction n)
  case (Suc n)
  define dn where "dn = jiq_runs k tick lines n d"
  obtain again woke d' where f: "jiq_fn k (tick n) (lines n) dn = (again, woke, d')" by (metis prod_cases3)
  then have d': "jiq_runs k tick lines (Suc n) d = d'" by (simp add: dn_def)
  have small: "jq_len dn \<le> 3968" using Suc.prems by (simp add: dn_def)
  show ?case
  proof (cases n)
    case 0
    then have "\<not> u64 (jq_len dn) > LIMIT" using d u64_limit [of "jq_len dn"] by (simp add: dn_def)
    with jiq_fn_cases [OF f] have p: "jiq_print (tick n) (lines n) dn = (1, False, d')" by simp
    with 0 show ?thesis using jiq_print_first [of "lines 0" dn "tick n" 1 False d' lines] l d d' by (simp add: dn_def)
  next
    case (Suc m)
    with Suc.IH Suc.prems have i: "jiq_printed lines n dn" by (simp add: dn_def)
    then have "\<not> u64 (jq_len dn) > LIMIT" using small u64_limit [of "jq_len dn"] by (auto simp: jiq_printed_def)
    with jiq_fn_cases [OF f] have p: "jiq_print (tick n) (lines n) dn = (1, False, d')" by simp
    with i small l d' show ?thesis using jiq_print_next [of lines n dn "tick n" 1 False d'] by simp
  qed
qed simp

text \<open>C30: with lines of at least one and fewer than 128 bytes each deferred function stops after at most 61
  lines and wakes the reader; all lines are in the page of the reader, which never overflows.\<close>

theorem jiq_stops:
  assumes "\<forall>i. 0 < length (lines i) \<and> length (lines i) < 128" and "jq_m d = seq_fresh PAGE_SIZE" "jq_len d = 0"
  shows "\<exists>n\<le>61. (\<forall>i<n. fst (jiq_fn k (tick i) (lines i) (jiq_runs k tick lines i d))) \<and>
    jiq_fn k (tick n) (lines n) (jiq_runs k tick lines n d) = (False, True, jiq_runs k tick lines n d) \<and>
    sf_text (jq_m (jiq_runs k tick lines n d)) = jiq_header @ concat (map lines [0..<n]) \<and>
    sf_count (jq_m (jiq_runs k tick lines n d)) < PAGE_SIZE"
proof -
  let ?len = "\<lambda>i. jq_len (jiq_runs k tick lines i d)"
  have "\<exists>i\<le>61. 3968 < ?len i"
  proof (rule ccontr)
    assume "\<not> (\<exists>i\<le>61. 3968 < ?len i)"
    then have le: "\<forall>i\<le>61. ?len i \<le> 3968" by (auto simp: not_less)
    then have "jiq_printed lines 61 (jiq_runs k tick lines 61 d)" by (intro jiq_runs_printed [OF assms]) auto
    then have "3968 < ?len 61" by (simp add: jiq_printed_def)
    with le show False by (meson leD order_refl)
  qed
  then obtain n where n: "n \<le> 61" "3968 < ?len n" "\<forall>i<n. \<not> 3968 < ?len i"
    using exists_least_iff [of "\<lambda>i. 3968 < ?len i"] by (meson le_trans nat_le_linear not_le)
  have "0 < n" using n(2) assms(3) by (cases n) auto
  then have p: "jiq_printed lines n (jiq_runs k tick lines n d)" using n(3) by (intro jiq_runs_printed [OF assms]) (auto simp: not_less)
  then have big: "u64 (?len n) > LIMIT" using n(2) u64_limit [of "?len n"] by (simp add: jiq_printed_def)
  have again: "fst (jiq_fn k (tick i) (lines i) (jiq_runs k tick lines i d))" if "i < n" for i
  proof -
    obtain again woke d' where f: "jiq_fn k (tick i) (lines i) (jiq_runs k tick lines i d) = (again, woke, d')" by (metis prod_cases3)
    have "0 \<le> ?len i"
    proof (cases "i = 0")
      case False
      then have "jiq_printed lines i (jiq_runs k tick lines i d)" using n(3) that by (intro jiq_runs_printed [OF assms]) (auto simp: not_less)
      then show ?thesis by (auto simp: jiq_printed_def)
    qed (use assms(3) in simp)
    then have "\<not> u64 (?len i) > LIMIT" using n(3) [rule_format, OF that] u64_limit [of "?len i"] by simp
    with jiq_fn_cases [OF f] f show ?thesis by simp
  qed
  obtain again woke d' where f: "jiq_fn k (tick n) (lines n) (jiq_runs k tick lines n d) = (again, woke, d')" by (metis prod_cases3)
  with jiq_fn_cases [OF f] big n(1) again p show ?thesis by (auto simp: jiq_printed_def)
qed

theorem jiq_no_late_write_witness:
  "\<exists>s. jiq_reach JiqTimer s \<and> (js_reader s = JrAsleep \<longrightarrow> js_pending s)"
  using jiq_no_late_write [OF jiq_reach.start [of JiqTimer 0 "[10]" 4096]] jiq_reach.start by blast

theorem jiq_stops_witness:
  "\<exists>n\<le>61. sf_text (jq_m (jiq_runs JiqWork id (\<lambda>_. [10]) n \<lparr>jq_m = seq_fresh PAGE_SIZE, jq_len = 0, jq_jiffies = 0\<rparr>)) = jiq_header @ concat (map (\<lambda>_. [10]) [0..<n])"
  using jiq_stops [of "\<lambda>_. [10]" "\<lparr>jq_m = seq_fresh PAGE_SIZE, jq_len = 0, jq_jiffies = 0\<rparr>" JiqWork id] by auto

text \<open>A failed load of the module may leave something; an unload does not.\<close>

interpretation jiq_mod: loadable "\<lambda>oks. Inr (jiq_init oks)" "\<lambda>h. Inr (jiq_exit h)" "\<lambda>h. h = []" "\<lambda>_. True"
  by (rule loadableI) (auto simp: jiq_exit_def split: sum.splits prod.splits)

end
