(* ===== verification/Jit.thy ===== *)
theory Jit
  imports ModuleLife ProcFs "HOL-Library.Word"
begin

text \<open>
  The delays and timers of \<open>ch07_timers/jit.c\<close>.  \<open>jiffies\<close> is a counter of 64 bits that wraps; its
  successive values are an input, and so is the text of a line.
\<close>

type_synonym ticks = "64 word"

definition time_before :: "ticks \<Rightarrow> ticks \<Rightarrow> bool" where
  "time_before a b \<longleftrightarrow> sint (a - b) < 0"

subsection \<open>Delays\<close>

text \<open>The two loops that look at the clock, from its reading number \<open>i\<close> on: the number of the reading
  that ends the loop. A clock that stands still keeps it for ever.\<close>

partial_function (option) wait_clock :: "(nat \<Rightarrow> ticks) \<Rightarrow> ticks \<Rightarrow> nat \<Rightarrow> nat option" where
  "wait_clock clock j1 i = (if time_before (clock i) j1 then wait_clock clock j1 (Suc i) else Some i)"

definition JIT_BUSY :: int where "JIT_BUSY = 0"
definition JIT_SCHED :: int where "JIT_SCHED = 1"
definition JIT_QUEUE :: int where "JIT_QUEUE = 2"
definition JIT_SCHEDTO :: int where "JIT_SCHEDTO = 3"

text \<open>The pair of times that is printed; \<open>None\<close>: the call does not return. The last two kinds sleep and
  look at the clock once more.\<close>

definition jit_fn_show :: "int \<Rightarrow> int \<Rightarrow> (nat \<Rightarrow> ticks) \<Rightarrow> (ticks \<times> ticks) res option" where
  "jit_fn_show data delay clock = (let j0 = clock 0; j1 = j0 + word_of_int delay in
     if data = JIT_BUSY then map_option (\<lambda>i. Inr (j0, clock (Suc i))) (wait_clock clock j1 1)
     else if data = JIT_SCHED then map_option (\<lambda>i. Inr (j0, clock (Suc i))) (wait_clock clock j1 1)
     else if data = JIT_QUEUE then Some (Inr (j0, clock 1))
     else if data = JIT_SCHEDTO then Some (Inr (j0, clock 1))
     else Some (Inl EINVAL))"

subsection \<open>Timers and tasklets\<close>

definition JIT_ASYNC_LOOPS :: int where "JIT_ASYNC_LOOPS = 5"

record jit_data =
  jd_m :: "seq_file option"
  jd_hi :: bool
  jd_prevjiffies :: ticks
  jd_loops :: int
  jd_expires :: ticks

definition jit_zeroed :: jit_data where
  "jit_zeroed = \<lparr>jd_m = None, jd_hi = False, jd_prevjiffies = 0, jd_loops = 0, jd_expires = 0\<rparr>"

text \<open>Whether the handler starts itself again, whether it wakes the reader.\<close>

definition jit_timer_handler :: "ticks \<Rightarrow> byte list \<Rightarrow> int \<Rightarrow> jit_data \<Rightarrow> (bool \<times> bool \<times> jit_data) run" where
  "jit_timer_handler j line delay d = (case seq_printf_ptr (jd_m d) line of Inl s \<Rightarrow> Inl s
     | Inr m \<Rightarrow> (let d1 = d\<lparr>jd_m := Some m, jd_loops := s32 (jd_loops d - 1)\<rparr> in
         if jd_loops d1 > 0 then Inr (True, False, d1\<lparr>jd_expires := jd_expires d1 + word_of_int delay, jd_prevjiffies := j\<rparr>)
         else Inr (False, True, d1)))"

definition jit_tasklet_handler :: "ticks \<Rightarrow> byte list \<Rightarrow> jit_data \<Rightarrow> (bool \<times> bool \<times> jit_data) run" where
  "jit_tasklet_handler j line d = (case seq_printf_ptr (jd_m d) line of Inl s \<Rightarrow> Inl s
     | Inr m \<Rightarrow> (let d1 = d\<lparr>jd_m := Some m, jd_loops := s32 (jd_loops d - 1)\<rparr> in
         if jd_loops d1 > 0 then Inr (True, False, d1\<lparr>jd_prevjiffies := j\<rparr>)
         else Inr (False, True, d1)))"

definition jit_header :: "byte list" where
  "jit_header = text_of ''   time   delta  inirq    pid   cpu command'' @ [10]"

text \<open>The show functions up to the sleep: the reader's buffer \<open>m\<close>, the first line, two readings of the clock.\<close>

definition jit_timer_show :: "bool \<Rightarrow> seq_file \<Rightarrow> byte list \<Rightarrow> ticks \<Rightarrow> ticks \<Rightarrow> int \<Rightarrow> jit_data res run" where
  "jit_timer_show alloc m line j now delay =
     (if \<not> alloc then Inr (Inl ENOMEM)
      else let data = jit_zeroed; m1 = seq_write jit_header m in
      case seq_printf_ptr (jd_m data) line of Inl s \<Rightarrow> Inl s
      | Inr _ \<Rightarrow> (let data1 = data\<lparr>jd_prevjiffies := j, jd_m := Some m1, jd_loops := JIT_ASYNC_LOOPS\<rparr>
          in Inr (Inr (data1\<lparr>jd_expires := now + word_of_int delay\<rparr>))))"

definition jit_tasklet_show :: "bool \<Rightarrow> bool \<Rightarrow> seq_file \<Rightarrow> byte list \<Rightarrow> ticks \<Rightarrow> jit_data res run" where
  "jit_tasklet_show alloc hi m line j =
     (if \<not> alloc then Inr (Inl ENOMEM)
      else let data = jit_zeroed; m1 = seq_write jit_header m in
      case seq_printf_ptr (jd_m data) line of Inl s \<Rightarrow> Inl s
      | Inr _ \<Rightarrow> Inr (Inr (data\<lparr>jd_prevjiffies := j, jd_m := Some m1, jd_loops := JIT_ASYNC_LOOPS, jd_hi := hi\<rparr>)))"

subsection \<open>Loading\<close>

datatype jit_ops = JitCurrentime | JitFn | JitTimer | JitTasklet

text \<open>An entry: the operations and the private data.\<close>

definition jit_files :: "(string \<times> jit_ops \<times> int) list" where
  "jit_files = [(''currentime'', JitCurrentime, 0), (''jitbusy'', JitFn, JIT_BUSY), (''jitsched'', JitFn, JIT_SCHED),
     (''jitqueue'', JitFn, JIT_QUEUE), (''jitschedto'', JitFn, JIT_SCHEDTO), (''jitimer'', JitTimer, 0),
     (''jitasklet'', JitTimer, 0), (''jitasklethi'', JitTimer, 1)]"

definition jit_init :: "bool \<Rightarrow> bool list \<Rightarrow> unit res \<times> (string \<times> jit_ops \<times> int) list" where
  "jit_init dir oks = (if \<not> dir then (Inl ENOMEM, [])
     else case proc_create_all jit_files oks of (ok, made) \<Rightarrow> (if ok then Inr () else Inl ENOMEM, made))"

definition jit_exit :: "(string \<times> jit_ops \<times> int) list \<Rightarrow> (string \<times> jit_ops \<times> int) list" where
  "jit_exit made = []"

text \<open>The files of the tasklets have the operations of the timer; a load that fails leaves the files it made.\<close>

lemma jit_load:
  assumes "jit_init True oks = (r, made)"
  shows "(r = Inr () \<longleftrightarrow> made = jit_files) \<and> (\<exists>rest. jit_files = made @ rest) \<and> (\<forall>f\<in>set made. fst (snd f) \<noteq> JitTasklet)"
proof -
  obtain ok where p: "proc_create_all jit_files oks = (ok, made)" using assms by (auto simp: jit_init_def split: prod.splits)
  obtain rest where r: "jit_files = made @ rest" "ok \<longleftrightarrow> rest = []" using proc_create_all_made [OF p] by auto
  have "\<forall>f\<in>set jit_files. fst (snd f) \<noteq> JitTasklet" by (simp add: jit_files_def)
  then have "\<forall>f\<in>set made. fst (snd f) \<noteq> JitTasklet" unfolding r(1) by simp
  with r assms p show ?thesis by (simp add: jit_init_def split: if_splits) auto
qed

subsection \<open>The delays wait long enough\<close>

lemma wait_clock_ends:
  assumes "i \<le> n" and "\<forall>m. i \<le> m \<and> m < n \<longrightarrow> time_before (clock m) j1" and "\<not> time_before (clock n) j1"
  shows "wait_clock clock j1 i = Some n"
  using assms
proof (induction i rule: inc_induct)
  case base
  then show ?case by (subst wait_clock.simps) simp
next
  case (step m)
  then show ?case by (subst wait_clock.simps) auto
qed

text \<open>The comparison survives the wrap of the counter.\<close>

lemma time_before_offset:
  assumes "x < 2 ^ 63" and "0 \<le> delay" "delay < 2 ^ 31"
  shows "time_before (c + word_of_nat x) (c + word_of_int delay) \<longleftrightarrow> int x < delay"
proof -
  have "word_of_nat x = (word_of_int (int x) :: ticks)" by (rule of_int_of_nat_eq [symmetric])
  then have "c + word_of_nat x - (c + word_of_int delay) = (word_of_int (int x - delay) :: ticks)" by (simp only: of_int_diff add_diff_cancel_left)
  moreover have "sint (word_of_int (int x - delay) :: ticks) = int x - delay"
    using assms unfolding sint_sbintrunc' by (simp add: signed_take_bit_int_eq_self)
  ultimately show ?thesis by (simp add: time_before_def)
qed

text \<open>C29: the reads that look at the clock return at the first reading that is at least \<open>delay\<close> ticks after
  the call, whatever the counter starts from and whether or not it wraps on the way.\<close>

theorem jit_delay_waits:
  assumes "data = JIT_BUSY \<or> data = JIT_SCHED" and "0 \<le> delay" "delay < 2 ^ 31"
    and "\<forall>i. clock i = c + word_of_nat (t i)" and "mono t" "t 0 = 0" and "1 \<le> n" "delay \<le> int (t n)" "t n < 2 ^ 63"
  shows "\<exists>i\<le>n. jit_fn_show data delay clock = Some (Inr (c, clock (Suc i))) \<and> delay \<le> int (t i) \<and> (\<forall>m. 1 \<le> m \<and> m < i \<longrightarrow> int (t m) < delay)"
proof -
  let ?done = "\<lambda>i. 1 \<le> i \<and> delay \<le> int (t i)"
  define i where "i = (LEAST i. ?done i)"
  have d: "?done i" unfolding i_def using assms(7,8) by (intro LeastI [of ?done n]) simp
  have le: "i \<le> n" unfolding i_def using assms(7,8) by (intro Least_le) simp
  have before: "int (t m) < delay" if "1 \<le> m" "m < i" for m using not_less_Least [of m ?done] that by (auto simp: i_def)
  have small: "t m < 2 ^ 63" if "m \<le> i" for m using monoD [OF assms(5), of m n] that le assms(9) by simp
  have "wait_clock clock (c + word_of_int delay) 1 = Some i"
  proof (rule wait_clock_ends)
    show "\<forall>m. 1 \<le> m \<and> m < i \<longrightarrow> time_before (clock m) (c + word_of_int delay)"
      using before small assms(2,3,4) by (simp add: time_before_offset)
    show "\<not> time_before (clock i) (c + word_of_int delay)" using d small [of i] assms(2,3,4) by (simp add: time_before_offset)
  qed (use d in simp)
  moreover have "clock 0 = c" using assms(4,6) by simp
  ultimately show ?thesis using d le before assms(1) by (auto simp: jit_fn_show_def Let_def)
qed

theorem jit_delay_waits_witness:
  "\<exists>i\<le>5. jit_fn_show JIT_BUSY 5 (\<lambda>i. - 2 + word_of_nat i) = Some (Inr (- 2, - 2 + word_of_nat (Suc i)))"
  using jit_delay_waits [of JIT_BUSY 5 "\<lambda>i. - 2 + word_of_nat i" "- 2" id 5] by (auto simp: mono_def)

text \<open>A clock that stands still keeps the busy reader for ever.\<close>

lemma wait_clock_stands: "time_before c j1 \<Longrightarrow> wait_clock (\<lambda>_. c) j1 i = None"
proof (rule ccontr)
  assume t: "time_before c j1" and "wait_clock (\<lambda>_. c) j1 i \<noteq> None"
  then obtain y where "wait_clock (\<lambda>_. c) j1 i = Some y" by auto
  then have "\<not> time_before c j1"
    by (rule wait_clock.raw_induct [of "\<lambda>clock j i y. \<not> time_before (clock y) j", rotated]) (auto split: if_splits)
  with t show False by blast
qed

subsection \<open>What the timer file does\<close>

text \<open>A read of the timer file dereferences a null pointer whenever its allocation succeeds, and so would one
  of the tasklet file.\<close>

lemma jit_timer_oops:
  "jit_timer_show alloc m line j now delay = (if alloc then Inl NullDeref else Inr (Inl ENOMEM)) \<and>
   jit_tasklet_show alloc hi m line j = (if alloc then Inl NullDeref else Inr (Inl ENOMEM))"
  by (simp_all add: jit_timer_show_def jit_tasklet_show_def jit_zeroed_def seq_printf_ptr_def Let_def)

text \<open>The handlers by themselves, from the state the show function prepares: five runs, \<open>delay\<close> apart.\<close>

fun jit_timer_runs :: "int \<Rightarrow> (ticks \<times> byte list) list \<Rightarrow> jit_data \<Rightarrow> (bool \<times> bool \<times> jit_data) run" where
  "jit_timer_runs delay [] d = Inr (True, False, d)"
| "jit_timer_runs delay ((j, line) # rs) d = (case jit_timer_handler j line delay d of Inl s \<Rightarrow> Inl s
     | Inr (again, woke, d1) \<Rightarrow> if again then jit_timer_runs delay rs d1 else Inr (again, woke, d1))"

lemma jit_timer_runs_some:
  assumes "jd_m d = Some m" and "0 < jd_loops d" "jd_loops d < 2 ^ 31" and "int (length rs) < jd_loops d"
  shows "\<exists>m'. jit_timer_runs delay rs d = Inr (True, False, d\<lparr>jd_m := Some m', jd_loops := jd_loops d - int (length rs),
     jd_expires := jd_expires d + of_nat (length rs) * word_of_int delay,
     jd_prevjiffies := (if rs = [] then jd_prevjiffies d else fst (last rs))\<rparr>)"
  using assms
proof (induction rs arbitrary: d m)
  case (Cons r rs)
  obtain j line where r: "r = (j, line)" by (cases r)
  define d1 where "d1 = d\<lparr>jd_m := Some (seq_write line m), jd_loops := jd_loops d - 1, jd_expires := jd_expires d + word_of_int delay, jd_prevjiffies := j\<rparr>"
  have h: "jit_timer_handler j line delay d = Inr (True, False, d1)"
    using Cons.prems by (simp add: jit_timer_handler_def seq_printf_ptr_def d1_def c_int)
  have "\<exists>m'. jit_timer_runs delay rs d1 = Inr (True, False, d1\<lparr>jd_m := Some m', jd_loops := jd_loops d1 - int (length rs),
     jd_expires := jd_expires d1 + of_nat (length rs) * word_of_int delay,
     jd_prevjiffies := (if rs = [] then jd_prevjiffies d1 else fst (last rs))\<rparr>)"
    using Cons.prems by (intro Cons.IH [of d1 "seq_write line m"]) (auto simp: d1_def)
  with h show ?case by (auto simp: r d1_def algebra_simps)
next
  case Nil
  then show ?case by (intro exI [of _ m]) (cases d, simp)
qed

lemma jit_timer_five:
  assumes "jd_m d = Some m" and "jd_loops d = JIT_ASYNC_LOOPS" and "length rs = 4"
  shows "\<exists>m'. jit_timer_runs delay (rs @ [(j, line)]) d = Inr (False, True, d\<lparr>jd_m := Some m', jd_loops := 0,
    jd_expires := jd_expires d + 4 * word_of_int delay, jd_prevjiffies := fst (last rs)\<rparr>)"
proof -
  have app: "jit_timer_runs delay (xs @ ys) d = (case jit_timer_runs delay xs d of Inl s \<Rightarrow> Inl s
      | Inr (again, woke, d1) \<Rightarrow> if again then jit_timer_runs delay ys d1 else Inr (again, woke, d1))" for xs ys d
    by (induction xs arbitrary: d) (auto split: sum.split)
  have "rs \<noteq> []" using assms(3) by auto
  then obtain m' where "jit_timer_runs delay rs d = Inr (True, False, d\<lparr>jd_m := Some m', jd_loops := 1,
     jd_expires := jd_expires d + 4 * word_of_int delay, jd_prevjiffies := fst (last rs)\<rparr>)"
    using jit_timer_runs_some [of d m rs delay] assms by (auto simp: JIT_ASYNC_LOOPS_def)
  then have "jit_timer_runs delay (rs @ [(j, line)]) d = Inr (False, True, d\<lparr>jd_m := Some (seq_write line m'), jd_loops := 0,
     jd_expires := jd_expires d + 4 * word_of_int delay, jd_prevjiffies := fst (last rs)\<rparr>)"
    by (simp add: app jit_timer_handler_def seq_printf_ptr_def c_int)
  then show ?thesis by blast
qed

subsection \<open>The current time\<close>

text \<open>The conversions of \<open>seq_printf\<close>: hexadecimal, and numbers padded with blanks or zeros.\<close>

fun hex_text :: "nat \<Rightarrow> byte list" where
  "hex_text n = (let digit = (\<lambda>d. word_of_nat (if d < 10 then 48 + d else 87 + d))
     in if n < 16 then [digit n] else hex_text (n div 16) @ [digit (n mod 16)])"

declare hex_text.simps [simp del]

definition pad_left :: "byte \<Rightarrow> nat \<Rightarrow> byte list \<Rightarrow> byte list" where
  "pad_left c w xs = replicate (w - length xs) c @ xs"

definition zero_padded :: "nat \<Rightarrow> int \<Rightarrow> byte list" where
  "zero_padded w k = (if k < 0 then 45 # pad_left 48 (w - 1) (decimal (nat (- k))) else pad_left 48 w (decimal (nat k)))"

text \<open>The two counters, and the two clocks in seconds and nanoseconds; seconds are cut to an \<open>int\<close>.\<close>

definition clock_text :: "nat \<Rightarrow> int \<times> int \<Rightarrow> byte list" where
  "clock_text w tv = pad_left 32 w (int_text (s32 (fst tv))) @ text_of ''.'' @ zero_padded 9 (s32 (snd tv)) @ [10]"

definition jit_currentime_show :: "ticks \<Rightarrow> ticks \<Rightarrow> int \<times> int \<Rightarrow> int \<times> int \<Rightarrow> seq_file \<Rightarrow> unit res \<times> seq_file" where
  "jit_currentime_show j1 j2 tv1 tv2 m =
     (Inr (), seq_write (text_of ''0x'' @ pad_left 48 8 (hex_text (unat j1)) @ text_of '' 0x'' @ pad_left 48 16 (hex_text (unat j2)) @ [32] @
        clock_text 10 tv1 @ clock_text 40 tv2) m)"

lemma length_pad_left: "length xs \<le> w \<Longrightarrow> length (pad_left c w xs) = w"
  by (simp add: pad_left_def)

lemma length_decimal_le: "n < 10 ^ Suc k \<Longrightarrow> length (decimal n) \<le> Suc k"
proof (induction k arbitrary: n)
  case (Suc k)
  then show ?case
    using Suc.IH [of "n div 10"] length_decimal_step [of n] by (cases "10 \<le> n") (auto simp: div_less_iff_less_mult decimal.simps [of n])
qed (simp add: decimal.simps)

text \<open>While the seconds fit into an \<open>int\<close> each clock fills its columns: the width, a point, nine digits.\<close>

lemma clock_text_length:
  assumes "10 \<le> w" and "0 \<le> sec" "sec < 2 ^ 31" and "0 \<le> ns" "ns < 10 ^ 9"
  shows "length (clock_text w (sec, ns)) = w + 11"
proof -
  have "length (decimal (nat sec)) \<le> Suc 9" using assms(3) by (intro length_decimal_le) simp
  moreover have "length (decimal (nat ns)) \<le> Suc 8" using assms(5) by (intro length_decimal_le) simp
  ultimately show ?thesis using assms by (simp add: clock_text_def zero_padded_def int_text_def c_int length_pad_left)
qed

text \<open>From the year 2038 on they are printed as negative numbers.\<close>

lemma clock_text_2038: "\<exists>rest. clock_text 10 (2 ^ 31, 0) = text_of ''-2147483648.'' @ rest"
proof -
  have s: "s32 2147483648 = - 2147483648" by (simp add: s32_def)
  have d: "decimal 2147483648 = text_of ''2147483648''" by (simp add: decimal.simps text_of_def)
  have "pad_left 32 10 (int_text (- 2147483648)) = text_of ''-2147483648''"
    by (simp add: int_text_def d) (simp add: pad_left_def text_of_def)
  then show ?thesis by (simp add: clock_text_def s) (simp add: text_of_def)
qed

text \<open>A failed load of the module may leave something; an unload does not.\<close>

interpretation jit_mod: loadable "\<lambda>(dir, oks). Inr (jit_init dir oks)" "\<lambda>h. Inr (jit_exit h)" "\<lambda>h. h = []" "\<lambda>_. True"
  by (rule loadableI) (auto simp: jit_exit_def split: sum.splits prod.splits)

end
