(* ===== verification/ProcState.thy ===== *)
theory ProcState
  imports ModuleLife ProcFs
begin

text \<open>
  The state that \<open>ch04_debug\<close> shows through procfs (\<open>proc.c\<close>, \<open>proc_seq_snapshot.c\<close>), debugfs
  (\<open>debugfs.c\<close>) and sysfs (\<open>sysfs.c\<close>): a counter of 32 bits and the last command, a C string in an
  array of 64 bytes.  Every operation holds the mutex while it uses them.
\<close>

record scull_state =
  st_counter :: "32 word"
  st_last_cmd :: "byte list"

subsection \<open>C strings\<close>

definition strscpy :: "byte list \<Rightarrow> byte list \<Rightarrow> nat \<Rightarrow> byte list" where
  "strscpy dst src sz = overwrite dst 0 (take (sz - 1) (cstr src) @ [0])"

definition strreplace :: "byte list \<Rightarrow> byte \<Rightarrow> byte \<Rightarrow> byte list" where
  "strreplace s old new = map (\<lambda>c. if c = old then new else c) (cstr s) @ drop (length (cstr s)) s"

definition is_cstr :: "byte list \<Rightarrow> bool" where
  "is_cstr buf \<longleftrightarrow> length buf = 64 \<and> 0 \<in> set buf"

lemma cstr_no_zero: "0 \<notin> set (cstr buf)"
  by (auto simp: cstr_def dest: set_takeWhileD)

lemma cstr_append_zero: "0 \<notin> set s \<Longrightarrow> cstr (s @ 0 # rest) = s"
  by (induction s) (simp_all add: cstr_def)

lemma is_cstr_length: "is_cstr buf \<Longrightarrow> length (cstr buf) < 64"
proof -
  have "0 \<in> set buf \<Longrightarrow> length (cstr buf) < length buf" by (induction buf) (auto simp: cstr_def)
  then show "is_cstr buf \<Longrightarrow> length (cstr buf) < 64" by (simp add: is_cstr_def)
qed

lemma strscpy_ok: "length dst = 64 \<Longrightarrow> is_cstr (strscpy dst src 64) \<and> cstr (strscpy dst src 64) = take 63 (cstr src)"
  using cstr_no_zero [of src] cstr_append_zero [of "take 63 (cstr src)"] length_overwrite [of 0 "take 63 (cstr src) @ [0]" dst]
  by (auto simp: is_cstr_def strscpy_def overwrite_def dest: in_set_takeD)

lemma cstr_replace_newline: "cstr (strreplace (s @ [0]) 10 0) = takeWhile (\<lambda>c. c \<noteq> 0 \<and> c \<noteq> 10) s"
  by (induction s) (auto simp: strreplace_def cstr_def)

subsection \<open>procfs\<close>

text \<open>The write of both drivers; \<open>st\<close> is the data of the entry.\<close>

definition scull_lastcmd_write :: "byte list \<Rightarrow> nat \<Rightarrow> scull_state option \<Rightarrow> nat res \<times> scull_state option" where
  "scull_lastcmd_write ubuf len st = (case st of None \<Rightarrow> (Inl EINVAL, None)
     | Some s \<Rightarrow> (let n = min len (64 - 1) in
         if length ubuf < n then (Inl EFAULT, Some s)
         else let tmp = take n ubuf @ [0] in
           if sysfs_streq tmp (st_last_cmd s)
           then (Inr n, Some (s\<lparr>st_counter := st_counter s + 1, st_last_cmd := strscpy (st_last_cmd s) (text_of ''inc'') 64\<rparr>))
           else (Inr n, Some (s\<lparr>st_last_cmd := strscpy (st_last_cmd s) (strreplace tmp 10 0) 64\<rparr>))))"

definition scullmem_write :: "byte list \<Rightarrow> nat \<Rightarrow> scull_state option \<Rightarrow> nat res \<times> scull_state option" where
  "scullmem_write = scull_lastcmd_write"

definition cmd_text :: "scull_state \<Rightarrow> byte list" where
  "cmd_text s = text_of ''counter='' @ decimal (unat (st_counter s)) @ [10] @ text_of ''last_cmd='' @ [34] @ cstr (st_last_cmd s) @ [34, 10]"

definition scull_lastcmd_read :: "nat \<Rightarrow> nat \<Rightarrow> int \<Rightarrow> scull_state option \<Rightarrow> byte list res \<times> int" where
  "scull_lastcmd_read ulen len pos st = (case st of None \<Rightarrow> (Inl EINVAL, pos)
     | Some s \<Rightarrow> (let buf = scnprintf 128 (cmd_text s) in simple_read_from_buffer ulen len pos buf))"

text \<open>The show function of the snapshot; a signal may interrupt the wait for the mutex.\<close>

definition scullmem_show :: "bool \<Rightarrow> scull_state \<Rightarrow> seq_file \<Rightarrow> unit res \<times> seq_file" where
  "scullmem_show signal s m = (if signal then (Inl ERESTARTSYS, m) else (Inr (), seq_write (cmd_text s) m))"

subsection \<open>debugfs\<close>

text \<open>\<open>stack\<close> is what the array \<open>tmp\<close> holds before it is written.\<close>

definition scull_debugfs_read :: "nat \<Rightarrow> nat \<Rightarrow> int \<Rightarrow> byte list \<Rightarrow> scull_state \<Rightarrow> byte list res \<times> int" where
  "scull_debugfs_read ulen len pos stack s =
     (let text = cstr (st_last_cmd s) @ [10]; n = length text; tmp = overwrite stack 0 (scnprintf 64 text @ [0])
      in simple_read_from_buffer ulen len pos (take n tmp))"

definition scull_debugfs_write :: "byte list \<Rightarrow> nat \<Rightarrow> scull_state \<Rightarrow> (nat res \<times> scull_state) run" where
  "scull_debugfs_write ubuf len s =
     (let n = min len 64 in
      if length ubuf < n then Inr (Inl EFAULT, s)
      else if n = 0 then Inl OutOfBounds
      else let n1 = (if ubuf ! (n - 1) = 10 then n - 1 else n) in
        if n1 = 64 then Inl OutOfBounds
        else Inr (Inr len, s\<lparr>st_last_cmd := overwrite (st_last_cmd s) 0 (take n1 ubuf @ [0]), st_counter := st_counter s + 1\<rparr>))"

subsection \<open>sysfs\<close>

definition is_digit_byte :: "byte \<Rightarrow> bool" where
  "is_digit_byte c \<longleftrightarrow> 48 \<le> c \<and> c \<le> 57"

definition parse_digits :: "byte list \<Rightarrow> nat" where
  "parse_digits = foldl (\<lambda>v c. v * 10 + (unat c - 48)) 0"

text \<open>\<open>kstrtouint\<close> in base 10: a sign \<open>+\<close>, digits, a newline, nothing else; \<open>None\<close>: it reports an error.\<close>

definition kstrtouint :: "byte list \<Rightarrow> nat option" where
  "kstrtouint buf = (let s = cstr buf; s1 = (if s \<noteq> [] \<and> hd s = 43 then tl s else s);
       ds = takeWhile is_digit_byte s1; rest = dropWhile is_digit_byte s1
     in if ds = [] \<or> (rest \<noteq> [] \<and> rest \<noteq> [10]) \<or> 2 ^ 32 \<le> parse_digits ds then None else Some (parse_digits ds))"

definition counter_show :: "scull_state \<Rightarrow> byte list" where
  "counter_show s = line_of (unat (st_counter s))"

definition counter_store :: "byte list \<Rightarrow> nat \<Rightarrow> scull_state \<Rightarrow> nat res \<times> scull_state" where
  "counter_store buf count s = (case kstrtouint buf of None \<Rightarrow> (Inl EINVAL, s)
     | Some val \<Rightarrow> (Inr count, s\<lparr>st_counter := word_of_nat val\<rparr>))"

subsection \<open>Loading and unloading\<close>

datatype dbg_resource = DbgState | DbgDir | DbgMem | DbgCtrl

definition fresh_state :: scull_state where
  "fresh_state = \<lparr>st_counter = 0, st_last_cmd = replicate 64 0\<rparr>"

text \<open>\<open>proc.c\<close>: the creation of \<open>ctrl\<close> is not checked.\<close>

definition proc_init :: "bool \<Rightarrow> bool \<Rightarrow> bool \<Rightarrow> bool \<Rightarrow> unit res \<times> dbg_resource list" where
  "proc_init zalloc dir mem ctrl =
     (if \<not> zalloc then (Inl ENOMEM, [])
      else if \<not> dir then (Inl ENOMEM, removeAll DbgState [DbgState])
      else if \<not> mem then (Inl ENOMEM, removeAll DbgState (removeAll DbgDir [DbgDir, DbgState]))
      else (Inr (), (if ctrl then [DbgCtrl] else []) @ [DbgMem, DbgDir, DbgState]))"

definition proc_exit :: "dbg_resource list \<Rightarrow> dbg_resource list" where
  "proc_exit held = removeAll DbgState (removeAll DbgDir (removeAll DbgMem (removeAll DbgCtrl held)))"

definition snapshot_init :: "bool \<Rightarrow> bool \<Rightarrow> unit res \<times> dbg_resource list" where
  "snapshot_init zalloc mem =
     (if \<not> zalloc then (Inl ENOMEM, []) else if \<not> mem then (Inl ENOMEM, removeAll DbgState [DbgState]) else (Inr (), [DbgMem, DbgState]))"

definition snapshot_exit :: "dbg_resource list \<Rightarrow> dbg_resource list" where
  "snapshot_exit held = removeAll DbgState (removeAll DbgMem held)"

definition sysfs_init :: "bool \<Rightarrow> bool \<Rightarrow> bool \<Rightarrow> unit res \<times> dbg_resource list" where
  "sysfs_init zalloc dir file =
     (if \<not> zalloc then (Inl ENOMEM, [])
      else if \<not> dir then (Inl ENOMEM, removeAll DbgState [DbgState])
      else if \<not> file then (Inl ENOMEM, removeAll DbgState (removeAll DbgDir [DbgDir, DbgState]))
      else (Inr (), [DbgMem, DbgDir, DbgState]))"

definition sysfs_exit :: "dbg_resource list \<Rightarrow> dbg_resource list" where
  "sysfs_exit held = removeAll DbgState (removeAll DbgDir (removeAll DbgMem held))"

text \<open>\<open>debugfs.c\<close>: a directory that cannot be made is an error pointer, so that the load always goes on;
  the state is a variable of the module.\<close>

definition debugfs_init :: "unit res \<Rightarrow> scull_state \<Rightarrow> unit res \<times> scull_state \<times> dbg_resource list" where
  "debugfs_init dir s = (Inr (), s\<lparr>st_last_cmd := replicate 64 0, st_counter := 0\<rparr>,
     (case dir of Inl _ \<Rightarrow> [] | Inr _ \<Rightarrow> [DbgCtrl, DbgMem, DbgDir]))"

definition debugfs_exit :: "dbg_resource list \<Rightarrow> dbg_resource list" where
  "debugfs_exit held = removeAll DbgDir (removeAll DbgMem (removeAll DbgCtrl held))"

lemma debugfs_load: "debugfs_init dir s = (r, s', held) \<Longrightarrow> r = Inr () \<and> s' = fresh_state \<and> debugfs_exit held = []"
  by (cases s) (auto simp: debugfs_init_def debugfs_exit_def fresh_state_def split: sum.splits)

lemma debug_load:
  "proc_init zalloc dir mem ctrl = (r, held) \<Longrightarrow> (case r of Inl _ \<Rightarrow> held = [] | Inr _ \<Rightarrow> DbgState \<in> set held \<and> proc_exit held = [])"
  "snapshot_init zalloc mem = (r, held) \<Longrightarrow> (case r of Inl _ \<Rightarrow> held = [] | Inr _ \<Rightarrow> DbgState \<in> set held \<and> snapshot_exit held = [])"
  "sysfs_init zalloc dir file = (r, held) \<Longrightarrow> (case r of Inl _ \<Rightarrow> held = [] | Inr _ \<Rightarrow> DbgState \<in> set held \<and> sysfs_exit held = [])"
  by (auto simp: proc_init_def proc_exit_def snapshot_init_def snapshot_exit_def sysfs_init_def sysfs_exit_def split: if_splits)

subsection \<open>The string stays a string\<close>

definition state_ok :: "scull_state \<Rightarrow> bool" where
  "state_ok s \<longleftrightarrow> is_cstr (st_last_cmd s)"

lemma fresh_state_ok: "state_ok fresh_state \<and> cstr (st_last_cmd fresh_state) = []"
  by (simp add: state_ok_def is_cstr_def fresh_state_def cstr_def)

lemma scull_lastcmd_write_ok: "state_ok s \<Longrightarrow> scull_lastcmd_write ubuf len (Some s) = (r, Some s') \<Longrightarrow> state_ok s'"
  using strscpy_ok [of "st_last_cmd s"] by (auto simp: scull_lastcmd_write_def state_ok_def is_cstr_def Let_def split: if_splits)

lemma scull_debugfs_write_ok: "state_ok s \<Longrightarrow> scull_debugfs_write ubuf len s = Inr (r, s') \<Longrightarrow> state_ok s'"
  using length_overwrite [of 0 "take n ubuf @ [0]" "st_last_cmd s" for n]
  by (auto simp: scull_debugfs_write_def state_ok_def is_cstr_def overwrite_def Let_def split: if_splits)

text \<open>What is shown always fits the buffer it is printed into.\<close>

lemma length_decimal_word: "length (decimal (unat (c :: 32 word))) \<le> 10"
proof -
  have len: "n < 10 ^ Suc k \<Longrightarrow> length (decimal n) \<le> Suc k" for n k
  proof (induction k arbitrary: n)
    case (Suc k)
    then show ?case using length_decimal_step [of n] by (cases "n < 10") (simp_all add: decimal.simps [of n] div_less_iff_less_mult)
  qed (simp add: decimal.simps)
  have "unat c < 2 ^ 32" using unsigned_less [of c] by simp
  then show ?thesis using len [of "unat c" 9] by simp
qed

lemma cmd_text_fits: "state_ok s \<Longrightarrow> length (cmd_text s) < 128"
  using is_cstr_length [of "st_last_cmd s"] length_decimal_word [of "st_counter s"] by (simp add: cmd_text_def state_ok_def)

subsection \<open>Commands\<close>

text \<open>A command as it is typed: without a zero or a newline.\<close>

definition plain :: "byte list \<Rightarrow> bool" where
  "plain cmd \<longleftrightarrow> 0 \<notin> set cmd \<and> 10 \<notin> set cmd \<and> length cmd < 63"

lemma plain_inc: "plain (text_of ''inc'') \<and> cstr (text_of ''inc'') = text_of ''inc''"
  by (simp add: plain_def text_of_def cstr_def)

lemma plain_takeWhile: "plain cmd \<Longrightarrow> takeWhile (\<lambda>c. c \<noteq> 0 \<and> c \<noteq> 10) (cmd @ [10]) = cmd"
  unfolding plain_def by (subst takeWhile_append2) auto

lemma plain_streq:
  assumes "plain cmd" and "10 \<notin> set (cstr prev)"
  shows "sysfs_streq (cmd @ [10, 0]) prev \<longleftrightarrow> cstr prev = cmd"
proof -
  have "cstr (cmd @ [10, 0]) = cmd @ [10]" using assms(1) cstr_append_zero [of "cmd @ [10]" "[]"] by (simp add: plain_def)
  moreover have "cmd @ [10] \<noteq> cstr prev" using assms(2) by (metis in_set_conv_decomp)
  ultimately show ?thesis using assms(2) by (auto simp: sysfs_streq_def Let_def)
qed

text \<open>One write of a line: it replaces the command, except that a repeated one counts and becomes \<open>inc\<close>.\<close>

lemma proc_write_line:
  assumes "state_ok s" and "10 \<notin> set (cstr (st_last_cmd s))" and "plain cmd"
  shows "\<exists>s'. scull_lastcmd_write (cmd @ [10]) (Suc (length cmd)) (Some s) = (Inr (Suc (length cmd)), Some s') \<and> state_ok s' \<and>
    st_counter s' = (if cstr (st_last_cmd s) = cmd then st_counter s + 1 else st_counter s) \<and>
    cstr (st_last_cmd s') = (if cstr (st_last_cmd s) = cmd then text_of ''inc'' else cmd)"
proof -
  have n: "min (length cmd) 62 = length cmd" using assms(3) by (simp add: plain_def)
  have streq: "sysfs_streq ((cmd @ [10]) @ [0]) (st_last_cmd s) \<longleftrightarrow> cstr (st_last_cmd s) = cmd" using plain_streq [OF assms(3,2)] by simp
  have len: "length (st_last_cmd s) = 64" using assms(1) by (simp add: state_ok_def is_cstr_def)
  have new: "cstr (strreplace ((cmd @ [10]) @ [0]) 10 0) = cmd" using cstr_replace_newline [of "cmd @ [10]"] plain_takeWhile [OF assms(3)] by simp
  have short: "take 63 cmd = cmd" "take 63 (text_of ''inc'') = text_of ''inc''" using assms(3) by (simp_all add: plain_def)
  show ?thesis
    using strscpy_ok [OF len, of "text_of ''inc''"] strscpy_ok [OF len, of "strreplace ((cmd @ [10]) @ [0]) 10 0"] new short plain_inc
    by (auto simp: scull_lastcmd_write_def n streq Let_def state_ok_def simp del: append_assoc)
qed

text \<open>What a read after it shows.\<close>

lemma proc_read_shows:
  assumes "state_ok s" and "length (cmd_text s) \<le> ulen" "length (cmd_text s) \<le> len"
  shows "scull_lastcmd_read ulen len 0 (Some s) = (Inr (cmd_text s), int (length (cmd_text s)))"
  using assms cmd_text_fits [OF assms(1)]
  by (auto simp: scull_lastcmd_read_def scnprintf_def simple_read_from_buffer_def Let_def min_def cmd_text_def)

primrec same_writes :: "nat \<Rightarrow> byte list \<Rightarrow> scull_state option \<Rightarrow> scull_state option" where
  "same_writes 0 cmd st = st"
| "same_writes (Suc n) cmd st = snd (scull_lastcmd_write (cmd @ [10]) (Suc (length cmd)) (same_writes n cmd st))"

text \<open>The command that is written is the one that is read back, but writing the same one again
  increments the counter and replaces the command by \<open>inc\<close>: \<open>n\<close> equal writes count \<open>n div 2\<close>.\<close>

lemma proc_same_writes:
  assumes "plain cmd" and "cmd \<noteq> []" "cmd \<noteq> text_of ''inc''"
  shows "\<exists>s. same_writes n cmd (Some fresh_state) = Some s \<and> state_ok s \<and> st_counter s = of_nat (n div 2) \<and>
    cstr (st_last_cmd s) = (if n = 0 then [] else if odd n then cmd else text_of ''inc'') \<and>
    (256 \<le> ulen \<and> 256 \<le> len \<longrightarrow> fst (scull_lastcmd_read ulen len 0 (Some s)) = Inr (cmd_text s))"
proof -
  have "\<exists>s. same_writes n cmd (Some fresh_state) = Some s \<and> state_ok s \<and> st_counter s = of_nat (n div 2) \<and>
    cstr (st_last_cmd s) = (if n = 0 then [] else if odd n then cmd else text_of ''inc'')"
  proof (induction n)
    case 0
    then show ?case using fresh_state_ok by (simp add: fresh_state_def)
  next
    case (Suc n)
    then obtain s where s: "same_writes n cmd (Some fresh_state) = Some s" "state_ok s" "st_counter s = of_nat (n div 2)"
        "cstr (st_last_cmd s) = (if n = 0 then [] else if odd n then cmd else text_of ''inc'')" by blast
    have "10 \<notin> set (cstr (st_last_cmd s))" using s(4) assms(1) plain_inc by (auto simp: plain_def)
    from proc_write_line [OF s(2) this assms(1)] s assms(2,3) show ?case by (cases "odd n") (auto simp: odd_pos)
  qed
  then show ?thesis using proc_read_shows [of _ ulen len] cmd_text_fits by fastforce
qed

lemma proc_same_writes_witness:
  "\<exists>s. same_writes 3 (text_of ''on'') (Some fresh_state) = Some s \<and> st_counter s = 1 \<and> cstr (st_last_cmd s) = text_of ''on''"
  using proc_same_writes [of "text_of ''on''" 3 256 256] by (auto simp: plain_def text_of_def)

subsection \<open>The counter in sysfs\<close>

lemma unat_digit: "k < 10 \<Longrightarrow> unat (word_of_nat (48 + k) :: byte) = 48 + k"
  by (simp add: unat_of_nat take_bit_nat_eq_self del: of_nat_add)

lemma decimal_digits: "c \<in> set (decimal n) \<Longrightarrow> 48 \<le> unat c \<and> unat c \<le> 57"
proof (induction n rule: decimal.induct)
  case (1 n)
  then show ?case using unat_digit [of n] unat_digit [of "n mod 10"]
    by (cases "n < 10") (auto simp: decimal.simps [of n] simp del: of_nat_add)
qed

lemma parse_digits_snoc: "parse_digits (xs @ [c]) = parse_digits xs * 10 + (unat c - 48)"
  by (simp add: parse_digits_def)

lemma parse_decimal: "parse_digits (decimal n) = n"
proof (induction n rule: decimal.induct)
  case (1 n)
  show ?case
  proof (cases "n < 10")
    case True
    then show ?thesis using unat_digit [of n] parse_digits_snoc [of "[]"]
      by (simp add: decimal.simps [of n] parse_digits_def del: of_nat_add)
  next
    case False
    with 1 show ?thesis using unat_digit [of "n mod 10"] by (simp add: decimal.simps [of n] parse_digits_snoc del: of_nat_add)
  qed
qed

lemma decimal_not_Nil: "decimal n \<noteq> []"
  by (simp add: decimal.simps [of n])

lemma kstrtouint_decimal: "kstrtouint (line_of n @ [0]) = (if n < 2 ^ 32 then Some n else None)"
proof -
  have d: "is_digit_byte c \<and> c \<noteq> 0 \<and> c \<noteq> 43" if "c \<in> set (decimal n)" for c
    using decimal_digits [OF that] by (auto simp: is_digit_byte_def word_le_nat_alt)
  then have "0 \<notin> set (line_of n)" by (auto simp: line_of_def)
  then have c: "cstr (line_of n @ [0]) = line_of n" by (rule cstr_append_zero)
  have tw: "takeWhile is_digit_byte (line_of n) = decimal n" "dropWhile is_digit_byte (line_of n) = [10]"
    using d by (simp_all add: line_of_def takeWhile_append2 dropWhile_append2 is_digit_byte_def word_le_nat_alt)
  have "hd (line_of n) \<noteq> 43" using d [of "hd (decimal n)"] decimal_not_Nil by (auto simp: line_of_def)
  then show ?thesis using decimal_not_Nil [of n] by (simp add: kstrtouint_def c tw parse_decimal Let_def)
qed

text \<open>C32: any value of 32 bits stored as a line of decimal digits is the value shown; a larger one is refused and
  changes nothing.\<close>

theorem sysfs_counter_roundtrip:
  "counter_store (line_of n @ [0]) count s = (if n < 2 ^ 32 then (Inr count, s\<lparr>st_counter := word_of_nat n\<rparr>) else (Inl EINVAL, s)) \<and>
   counter_show (s\<lparr>st_counter := word_of_nat n\<rparr>) = line_of (n mod 2 ^ 32)"
  by (simp add: counter_store_def counter_show_def kstrtouint_decimal unat_of_nat take_bit_eq_mod)

subsection \<open>debugfs\<close>

text \<open>A write is out of the bounds of its buffer when it is empty, or when it has 64 bytes or more
  without a newline in the 64th.\<close>

lemma debugfs_write_bounds:
  "len \<le> length ubuf \<Longrightarrow> scull_debugfs_write ubuf len s = Inl OutOfBounds \<longleftrightarrow> len = 0 \<or> 64 \<le> len \<and> ubuf ! 63 \<noteq> 10"
  by (auto simp: scull_debugfs_write_def Let_def min_def)

text \<open>A command written with its newline is what the next read returns, as a line, and counts.\<close>

lemma debugfs_write_read:
  assumes "state_ok s" and "plain cmd" and "length stack = 64"
  shows "\<exists>s'. scull_debugfs_write (cmd @ [10]) (Suc (length cmd)) s = Inr (Inr (Suc (length cmd)), s') \<and>
    st_counter s' = st_counter s + 1 \<and> fst (scull_debugfs_read 64 64 0 stack s') = Inr (cmd @ [10])"
proof -
  define s' where "s' = s\<lparr>st_last_cmd := overwrite (st_last_cmd s) 0 (cmd @ [0]), st_counter := st_counter s + 1\<rparr>"
  have l: "length cmd < 63" using assms(2) by (simp add: plain_def)
  have w: "scull_debugfs_write (cmd @ [10]) (Suc (length cmd)) s = Inr (Inr (Suc (length cmd)), s')"
    using l by (simp add: scull_debugfs_write_def s'_def)
  have "cstr (st_last_cmd s') = cmd" using cstr_append_zero [of cmd] assms(2) by (simp add: s'_def overwrite_def plain_def)
  then have "fst (scull_debugfs_read 64 64 0 stack s') = Inr (cmd @ [10])"
    using l assms(3) by (simp add: scull_debugfs_read_def simple_read_from_buffer_def scnprintf_def overwrite_def Let_def)
  with w show "\<exists>s'. scull_debugfs_write (cmd @ [10]) (Suc (length cmd)) s = Inr (Inr (Suc (length cmd)), s') \<and>
    st_counter s' = st_counter s + 1 \<and> fst (scull_debugfs_read 64 64 0 stack s') = Inr (cmd @ [10])"
    by (auto simp: s'_def)
qed

lemma debugfs_write_read_witness:
  "\<exists>s'. scull_debugfs_write [111, 110, 10] 3 fresh_state = Inr (Inr 3, s') \<and> fst (scull_debugfs_read 64 64 0 (replicate 64 0) s') = Inr [111, 110, 10]"
  using debugfs_write_read [of fresh_state "[111, 110]" "replicate 64 0"] fresh_state_ok by (auto simp: plain_def numeral_3_eq_3)

text \<open>The modules keep the contract of loading and unloading.\<close>

interpretation proc_mod: unwinding "\<lambda>(zalloc, dir, mem, ctrl). Inr (proc_init zalloc dir mem ctrl)" "\<lambda>h. Inr (proc_exit h)" "\<lambda>h. h = []" "\<lambda>_. True"
  by (rule unwindingI) (use debug_load(1) in \<open>fastforce split: sum.splits prod.splits\<close>)

interpretation snapshot_mod: unwinding "\<lambda>(zalloc, mem). Inr (snapshot_init zalloc mem)" "\<lambda>h. Inr (snapshot_exit h)" "\<lambda>h. h = []" "\<lambda>_. True"
  by (rule unwindingI) (use debug_load(2) in \<open>fastforce split: sum.splits prod.splits\<close>)

interpretation sysfs_mod: unwinding "\<lambda>(zalloc, dir, file). Inr (sysfs_init zalloc dir file)" "\<lambda>h. Inr (sysfs_exit h)" "\<lambda>h. h = []" "\<lambda>_. True"
  by (rule unwindingI) (use debug_load(3) in \<open>fastforce split: sum.splits prod.splits\<close>)

end
