(* ===== verification/ProcIter.thy ===== *)
theory ProcIter
  imports ProcFs
begin

text \<open>
  The list shown by \<open>ch04_debug/proc_seq_iter.c\<close>: five items in an \<open>hlist\<close>, walked by the four
  functions of a \<open>seq_file\<close> iterator.  The list is the list of its items, the head first; of the
  mutex only whether it is held matters, as no two tasks compete here.
\<close>

record scull_item =
  it_id :: nat
  it_value :: nat
  it_name :: "byte list"

record iter_sys =
  is_items :: "scull_item list"
  is_locked :: bool
  is_entry :: bool

subsection \<open>Loading and unloading\<close>

definition demo_item :: "nat \<Rightarrow> scull_item" where
  "demo_item i = \<lparr>it_id = i, it_value = 2000 + 3 * i, it_name = text_of ''hitem'' @ decimal i\<rparr>"

fun populate :: "nat list \<Rightarrow> bool list \<Rightarrow> scull_item list \<Rightarrow> bool \<times> scull_item list" where
  "populate [] oks items = (True, items)"
| "populate (i # ix) oks items = (case kalloc oks of (ok, oks') \<Rightarrow>
     if ok then populate ix oks' (demo_item i # items) else (False, items))"

text \<open>A failure leaves the items, without an entry that shows them.\<close>

definition scull_seq_iter_init :: "bool list \<Rightarrow> bool \<Rightarrow> unit res \<times> iter_sys" where
  "scull_seq_iter_init oks entry = (case populate [0..<5] oks [] of (ok, items) \<Rightarrow>
     if \<not> ok \<or> \<not> entry then (Inl ENOMEM, \<lparr>is_items = items, is_locked = False, is_entry = False\<rparr>)
     else (Inr (), \<lparr>is_items = items, is_locked = False, is_entry = True\<rparr>))"

text \<open>The loop of the exit locks the mutex for every item and unlocks it after the last one.\<close>

fun exit_loop :: "scull_item list \<Rightarrow> bool \<Rightarrow> bool run" where
  "exit_loop [] locked = Inr locked"
| "exit_loop (x # xs) locked = (if locked then Inl Sleeps else exit_loop xs True)"

definition scull_seq_iter_exit :: "iter_sys \<Rightarrow> iter_sys run" where
  "scull_seq_iter_exit s = (case exit_loop (is_items s) (is_locked s) of Inl st \<Rightarrow> Inl st
     | Inr _ \<Rightarrow> Inr \<lparr>is_items = [], is_locked = False, is_entry = False\<rparr>)"

lemma populate_all: "populate ix oks items = (True, items') \<Longrightarrow> items' = rev (map demo_item ix) @ items"
  by (induction ix oks items rule: populate.induct) (auto split: prod.splits if_splits)

text \<open>A module that was loaded can never be unloaded: the exit function sleeps on the mutex that it holds
  itself, from the second item on.\<close>

lemma proc_iter_unload_hangs:
  assumes "scull_seq_iter_init oks entry = (Inr (), s)"
  shows "is_items s = map demo_item [4, 3, 2, 1, 0] \<and> scull_seq_iter_exit s = Inl Sleeps"
proof -
  obtain items where "populate [0..<5] oks [] = (True, items)" "s = \<lparr>is_items = items, is_locked = False, is_entry = True\<rparr>"
    using assms by (auto simp: scull_seq_iter_init_def split: prod.splits if_splits)
  moreover have "[0..<5] = [0, 1, 2, 3, 4 :: nat]" by (simp add: upt_rec)
  ultimately show ?thesis using populate_all [of "[0..<5]" oks "[]" items] by (simp add: scull_seq_iter_exit_def)
qed

lemma proc_iter_unload_hangs_witness:
  "scull_seq_iter_exit (snd (scull_seq_iter_init [] True)) = Inl Sleeps"
proof -
  have "scull_seq_iter_init [] True = (Inr (), snd (scull_seq_iter_init [] True))"
    by (simp add: scull_seq_iter_init_def upt_rec)
  from proc_iter_unload_hangs [OF this] show ?thesis by simp
qed

subsection \<open>Reading\<close>

text \<open>An iterator is the rest of the list from its item on. \<open>n\<close>: what the variable of the loop holds, which
  the code does not initialise.\<close>

fun scull_hlist_start :: "int \<Rightarrow> int \<Rightarrow> scull_item list \<Rightarrow> scull_item list" where
  "scull_hlist_start n pos [] = []"
| "scull_hlist_start n pos (x # xs) = (if n = pos then x # xs else scull_hlist_start (s32 (n + 1)) pos xs)"

definition scull_hlist_next :: "scull_item list \<Rightarrow> int \<Rightarrow> scull_item list \<times> int" where
  "scull_hlist_next v pos = (tl v, pos + 1)"

definition scull_hlist_show :: "scull_item \<Rightarrow> byte list" where
  "scull_hlist_show x = text_of ''id='' @ decimal (it_id x) @ text_of '' value='' @ decimal (it_value x) @ text_of '' name='' @ it_name x @ [10]"

text \<open>\<open>stop\<close> unlocks a mutex that \<open>start\<close> did not lock.\<close>

definition scull_hlist_stop :: "iter_sys \<Rightarrow> bool \<times> iter_sys" where
  "scull_hlist_stop s = (is_locked s, s\<lparr>is_locked := False\<rparr>)"

text \<open>One pass of \<open>seq_read\<close> with room for all: start, then show and next to the end.\<close>

function seq_walk :: "scull_item list \<Rightarrow> int \<Rightarrow> byte list" where
  "seq_walk v pos = (if v = [] then [] else case scull_hlist_next v pos of (v1, pos1) \<Rightarrow> scull_hlist_show (hd v) @ seq_walk v1 pos1)"
  by pat_completeness auto
termination
  by (relation "measure (\<lambda>(v, pos). length v)") (auto simp: scull_hlist_next_def)

declare seq_walk.simps [simp del]

definition iter_read :: "int \<Rightarrow> iter_sys \<Rightarrow> byte list \<times> bool \<times> iter_sys" where
  "iter_read n s = (seq_walk (scull_hlist_start n 0 (is_items s)) 0, scull_hlist_stop s)"

lemma seq_walk_all: "seq_walk v pos = concat (map scull_hlist_show v)"
proof (induction v arbitrary: pos)
  case (Cons x xs)
  then show ?case by (subst seq_walk.simps) (simp add: scull_hlist_next_def)
qed (simp add: seq_walk.simps)

lemma start_beyond: "0 < n \<Longrightarrow> n + int (length xs) < 2 ^ 31 \<Longrightarrow> scull_hlist_start n 0 xs = []"
proof (induction xs arbitrary: n)
  case (Cons x xs)
  then show ?case by (simp add: c_int)
qed simp

text \<open>The whole list is shown when the variable happens to hold zero, nothing when it holds a positive
  value; and the mutex is unlocked without being held.\<close>

lemma iter_read_garbage:
  assumes "is_locked s = False"
  shows "fst (snd (iter_read n s)) = False"
    and "fst (iter_read 0 s) = concat (map scull_hlist_show (is_items s))"
    and "0 < n \<Longrightarrow> n + int (length (is_items s)) < 2 ^ 31 \<Longrightarrow> fst (iter_read n s) = []"
  using assms start_beyond [of n "is_items s"]
  by (cases "is_items s"; simp add: iter_read_def scull_hlist_stop_def seq_walk_all)+

end
