(* ===== verification/Kro.thy ===== *)
theory Kro
  imports ModuleLife KernelPrelude
begin

text \<open>
  The device of \<open>ch11_ktypes/ktypes.c\<close>: a list of random strings, taken from its head by a read, which
  makes a new one when the list is empty.  The random bytes are inputs; \<open>kr_live\<close> counts the nodes
  that are allocated.
\<close>

definition KRO_MAX :: nat where "KRO_MAX = 128"

definition charset :: "byte list" where
  "charset = map of_char ''abcdefghijklmnopqrstuvwxyzABCDEFGHIJKLMNOPQRSTUVWXYZ0123456789''"

text \<open>\<open>rbs\<close>: the random bytes, one for each turn of the loop.\<close>

definition generate_random_string :: "(nat \<Rightarrow> byte) \<Rightarrow> nat \<Rightarrow> byte list" where
  "generate_random_string rbs len =
     (if len = 0 then [] else map (\<lambda>i. charset ! (unat (rbs i) mod length charset)) [0..<len - 1] @ [0])"

record ktypes_buf =
  kb_buf :: "byte list"
  kb_buflen :: nat

record kro_sys =
  kr_list :: "ktypes_buf list"
  kr_live :: nat

definition strnlen :: "byte list \<Rightarrow> nat \<Rightarrow> nat" where
  "strnlen buf n = length (takeWhile (\<lambda>c. c \<noteq> 0) (take n buf))"

definition kro_alloc_node :: "bool \<Rightarrow> (nat \<Rightarrow> byte) \<Rightarrow> kro_sys \<Rightarrow> ktypes_buf res \<times> kro_sys" where
  "kro_alloc_node ok rbs s =
     (if \<not> ok then (Inl ENOMEM, s)
      else let buf = generate_random_string rbs KRO_MAX in (Inr \<lparr>kb_buf = buf, kb_buflen = strnlen buf KRO_MAX\<rparr>, s\<lparr>kr_live := kr_live s + 1\<rparr>))"

definition kro_list_push_head_node :: "ktypes_buf \<Rightarrow> kro_sys \<Rightarrow> kro_sys" where
  "kro_list_push_head_node n s = s\<lparr>kr_list := n # kr_list s\<rparr>"

definition kro_list_pop_head_node :: "kro_sys \<Rightarrow> ktypes_buf res \<times> kro_sys" where
  "kro_list_pop_head_node s = (case kr_list s of [] \<Rightarrow> (Inl ENOENT, s) | n # ns \<Rightarrow> (Inr n, s\<lparr>kr_list := ns\<rparr>))"

definition kro_free :: "kro_sys \<Rightarrow> kro_sys" where
  "kro_free s = s\<lparr>kr_live := kr_live s - 1\<rparr>"

fun kro_list_clear_all :: "ktypes_buf list \<Rightarrow> kro_sys \<Rightarrow> kro_sys" where
  "kro_list_clear_all [] s = s"
| "kro_list_clear_all (n # ns) s = kro_list_clear_all ns (kro_free (s\<lparr>kr_list := ns\<rparr>))"

definition kro_read :: "bool \<Rightarrow> (nat \<Rightarrow> byte) \<Rightarrow> nat \<Rightarrow> nat \<Rightarrow> kro_sys \<Rightarrow> byte list res \<times> kro_sys" where
  "kro_read ok rbs ulen len s =
     (case (case kro_list_pop_head_node s of (Inl e, s1) \<Rightarrow> if e \<noteq> ENOENT then (Inl e, s1) else kro_alloc_node ok rbs s1
            | (Inr n, s1) \<Rightarrow> (Inr n, s1)) of
        (Inl e, s2) \<Rightarrow> (Inl e, s2)
      | (Inr n, s2) \<Rightarrow> (let out = min (kb_buflen n) len in
          if ulen < out then (Inl EFAULT, kro_free s2) else (Inr (take out (kb_buf n)), kro_free s2)))"

datatype kro_resource = KroMisc

definition kro_init :: "unit res \<Rightarrow> unit res \<times> kro_resource list" where
  "kro_init misc = (case misc of Inl e \<Rightarrow> (Inl e, []) | Inr _ \<Rightarrow> (Inr (), [KroMisc]))"

definition kro_exit :: "kro_sys \<Rightarrow> kro_resource list \<Rightarrow> kro_sys \<times> kro_resource list" where
  "kro_exit s held = (kro_list_clear_all (kr_list s) s, removeAll KroMisc held)"

subsection \<open>What a read gives\<close>

lemma length_charset: "length charset = 62"
  by (simp add: charset_def)

lemma charset_nonzero: "c \<in> set charset \<Longrightarrow> c \<noteq> 0"
  by (auto simp: charset_def)

lemma random_string:
  "length (generate_random_string rbs (Suc n)) = Suc n \<and> (\<forall>i<n. generate_random_string rbs (Suc n) ! i \<in> set charset)"
  by (auto simp: generate_random_string_def nth_append length_charset intro!: nth_mem)

lemma random_node:
  assumes "buf = generate_random_string rbs KRO_MAX"
  shows "strnlen buf KRO_MAX = 127 \<and> length buf = 128 \<and> set (take 127 buf) \<subseteq> set charset"
proof -
  define chars where "chars = map (\<lambda>i. charset ! (unat (rbs i) mod length charset)) [0..<127]"
  have b: "buf = chars @ [0]" and l: "length chars = 127" using assms by (simp_all add: generate_random_string_def KRO_MAX_def chars_def)
  have c: "set chars \<subseteq> set charset" by (auto simp: chars_def length_charset intro!: nth_mem)
  then have "takeWhile (\<lambda>c. c \<noteq> 0) (chars @ [0]) = chars" using charset_nonzero by (subst takeWhile_append2) auto
  then show ?thesis using l c by (simp add: strnlen_def KRO_MAX_def b)
qed

definition kro_ok :: "kro_sys \<Rightarrow> bool" where
  "kro_ok s \<longleftrightarrow> kr_live s = length (kr_list s) \<and> (\<forall>n\<in>set (kr_list s). kb_buflen n \<le> length (kb_buf n))"

text \<open>A read of the empty device returns as many characters as fit, at most 127, all of them letters or
  digits, and frees the string again, also when the copy faults; after a push it returns the
  pushed string.\<close>

lemma kro_read_random:
  assumes "kro_ok s" and "kr_list s = []"
  shows "case kro_read ok rbs ulen len s of
      (Inl e, s') \<Rightarrow> s' = s \<and> (e = ENOMEM \<and> \<not> ok \<or> e = EFAULT \<and> ok \<and> ulen < min 127 len)
    | (Inr out, s') \<Rightarrow> s' = s \<and> length out = min 127 len \<and> set out \<subseteq> set charset"
proof -
  define buf where "buf = generate_random_string rbs KRO_MAX"
  have n: "strnlen buf KRO_MAX = 127" "length buf = 128" "set (take 127 buf) \<subseteq> set charset" using random_node [OF buf_def] by auto
  have live: "s\<lparr>kr_live := 0\<rparr> = s" using assms by (cases s) (simp add: kro_ok_def)
  have "set (take (min 127 len) buf) \<subseteq> set charset" using n(3) set_take_subset_set_take [of "min 127 len" 127 buf] by simp
  then show ?thesis
    using assms n live
    by (auto simp: kro_read_def kro_list_pop_head_node_def kro_alloc_node_def kro_free_def kro_ok_def buf_def [symmetric] Let_def)
qed

lemma kro_read_random_witness:
  "\<exists>out. kro_read True (\<lambda>i. word_of_nat i) 16 8 \<lparr>kr_list = [], kr_live = 0\<rparr> = (Inr out, \<lparr>kr_list = [], kr_live = 0\<rparr>) \<and> length out = 8"
  using kro_read_random [of "\<lparr>kr_list = [], kr_live = 0\<rparr>" True 16 8 "\<lambda>i. word_of_nat i"]
  by (auto simp: kro_ok_def split: prod.splits sum.splits)

text \<open>The list is a stack, and unloading frees all of it.\<close>

lemma kro_push_read:
  "kb_buflen n \<le> ulen \<Longrightarrow> kb_buflen n \<le> len \<Longrightarrow>
    fst (kro_read ok rbs ulen len (kro_list_push_head_node n s)) = Inr (take (kb_buflen n) (kb_buf n))"
  by (simp add: kro_read_def kro_list_push_head_node_def kro_list_pop_head_node_def min_def)

lemma kro_clear: "kr_list s = ns \<Longrightarrow> kr_live s = length ns \<Longrightarrow> kro_list_clear_all ns s = s\<lparr>kr_list := [], kr_live := 0\<rparr>"
proof (induction ns arbitrary: s)
  case (Cons n ns)
  then show ?case using Cons.IH [of "kro_free (s\<lparr>kr_list := ns\<rparr>)"] by (simp add: kro_free_def)
qed (cases s, simp)

lemma kro_unload: "kro_ok s \<Longrightarrow> kro_exit s [KroMisc] = (s\<lparr>kr_list := [], kr_live := 0\<rparr>, [])"
  by (simp add: kro_exit_def kro_ok_def kro_clear)

text \<open>The module keeps the contract of loading and unloading, with whatever its list holds.\<close>

definition kro_load :: "unit res \<times> kro_sys \<Rightarrow> (unit res \<times> kro_sys \<times> kro_resource list) run" where
  "kro_load e = (case kro_init (fst e) of (r, h) \<Rightarrow> Inr (r, snd e, h))"

interpretation kro_mod: unwinding kro_load "\<lambda>m. Inr (kro_exit (fst m) (snd m))" "\<lambda>m. snd m = []" "\<lambda>_. True"
  by (rule unwindingI) (auto simp: kro_load_def kro_init_def kro_exit_def split: sum.splits)

end
