(* ===== verification/SpinDemo.thy ===== *)
theory SpinDemo
  imports ModuleLife KernelPrelude
begin

text \<open>
  Two samples of \<open>ch05_concurrency\<close>: \<open>spin_locks.c\<close>, in which an interrupt handler, its tasklet and a
  proc file share two counters under a spinlock, on one processor; and \<open>completion.c\<close>.
\<close>

subsection \<open>The spinlock\<close>

text \<open>\<open>sd_bh_in\<close>, \<open>sd_proc_in\<close>: the tasklet and the reader hold the lock, the reader with interrupts off;
  \<open>sd_stuck\<close>: the handler spins for a lock that the task it interrupted holds.  The counters have 64
  bits in the code, and are not followed to where they wrap.\<close>

record spin_demo =
  sd_irq :: nat
  sd_bh :: nat
  sd_scheduled :: bool
  sd_bh_in :: bool
  sd_proc_in :: bool
  sd_stuck :: bool

definition spin_fresh :: spin_demo where
  "spin_fresh = \<lparr>sd_irq = 0, sd_bh = 0, sd_scheduled = False, sd_bh_in = False, sd_proc_in = False, sd_stuck = False\<rparr>"

definition demo_irq_handler :: "spin_demo \<Rightarrow> spin_demo" where
  "demo_irq_handler d = (if sd_bh_in d \<or> sd_proc_in d then d\<lparr>sd_stuck := True\<rparr>
     else d\<lparr>sd_irq := sd_irq d + 1, sd_scheduled := True\<rparr>)"

text \<open>The tasklet up to the lock, and from there on.\<close>

definition tasklet_lock :: "spin_demo \<Rightarrow> spin_demo" where
  "tasklet_lock d = d\<lparr>sd_scheduled := False, sd_bh_in := True\<rparr>"

definition demo_tasklet_fn :: "spin_demo \<Rightarrow> spin_demo" where
  "demo_tasklet_fn d = d\<lparr>sd_bh := sd_bh d + 1, sd_bh_in := False\<rparr>"

definition proc_show_lock :: "spin_demo \<Rightarrow> spin_demo" where
  "proc_show_lock d = d\<lparr>sd_proc_in := True\<rparr>"

definition demo_proc_show :: "spin_demo \<Rightarrow> (nat \<times> nat) \<times> spin_demo" where
  "demo_proc_show d = ((sd_irq d, sd_bh d), d\<lparr>sd_proc_in := False\<rparr>)"

inductive spin_step :: "spin_demo \<Rightarrow> spin_demo \<Rightarrow> bool" where
  irq: "\<not> sd_stuck d \<Longrightarrow> \<not> sd_proc_in d \<Longrightarrow> spin_step d (demo_irq_handler d)"
| bh_lock: "\<not> sd_stuck d \<Longrightarrow> sd_scheduled d \<Longrightarrow> \<not> sd_bh_in d \<Longrightarrow> \<not> sd_proc_in d \<Longrightarrow> spin_step d (tasklet_lock d)"
| bh_done: "\<not> sd_stuck d \<Longrightarrow> sd_bh_in d \<Longrightarrow> spin_step d (demo_tasklet_fn d)"
| proc_lock: "\<not> sd_stuck d \<Longrightarrow> \<not> sd_bh_in d \<Longrightarrow> \<not> sd_proc_in d \<Longrightarrow> spin_step d (proc_show_lock d)"
| proc_done: "\<not> sd_stuck d \<Longrightarrow> sd_proc_in d \<Longrightarrow> spin_step d (snd (demo_proc_show d))"

inductive spin_reach :: "spin_demo \<Rightarrow> bool" where
  start: "spin_reach spin_fresh"
| step: "spin_reach d \<Longrightarrow> spin_step d d' \<Longrightarrow> spin_reach d'"

inductive_cases spin_stepE: "spin_step d d'"

lemmas spin_ops = demo_irq_handler_def tasklet_lock_def demo_tasklet_fn_def proc_show_lock_def demo_proc_show_def

lemma spin_reach_inv:
  "spin_reach d \<Longrightarrow> sd_bh d + of_bool (sd_scheduled d) + of_bool (sd_bh_in d) \<le> sd_irq d \<and> \<not> (sd_bh_in d \<and> sd_proc_in d) \<and>
    (sd_stuck d \<longrightarrow> sd_bh_in d)"
proof (induction rule: spin_reach.induct)
  case (step d d')
  from step.hyps(2) step.IH show ?case by (cases rule: spin_step.cases) (auto simp: spin_ops)
qed (simp add: spin_fresh_def)

text \<open>The lock keeps tasklet and reader apart, and the counts that are shown never have more bottom
  halves than interrupts; but the tasklet takes the lock with interrupts on, so that an interrupt
  in between spins for ever on the processor that holds it.\<close>

lemma spin_counts_deadlock:
  "(spin_reach d \<longrightarrow> \<not> (sd_bh_in d \<and> sd_proc_in d) \<and> snd (fst (demo_proc_show d)) \<le> fst (fst (demo_proc_show d)) \<and>
     (sd_stuck d \<longrightarrow> sd_bh_in d \<and> (\<nexists>d'. spin_step d d'))) \<and>
   (\<exists>d. spin_reach d \<and> sd_stuck d)"
proof -
  have r1: "spin_reach (demo_irq_handler spin_fresh)"
    by (rule spin_reach.step [OF spin_reach.start spin_step.irq]) (simp_all add: spin_fresh_def)
  have r2: "spin_reach (tasklet_lock (demo_irq_handler spin_fresh))"
    by (rule spin_reach.step [OF r1 spin_step.bh_lock]) (simp_all add: spin_fresh_def spin_ops)
  have "spin_reach (demo_irq_handler (tasklet_lock (demo_irq_handler spin_fresh)))"
    by (rule spin_reach.step [OF r2 spin_step.irq]) (simp_all add: spin_fresh_def spin_ops)
  moreover have "sd_stuck (demo_irq_handler (tasklet_lock (demo_irq_handler spin_fresh)))" by (simp add: spin_fresh_def spin_ops)
  ultimately have "\<exists>d. spin_reach d \<and> sd_stuck d" by blast
  moreover have "spin_reach d \<longrightarrow> \<not> (sd_bh_in d \<and> sd_proc_in d) \<and> snd (fst (demo_proc_show d)) \<le> fst (fst (demo_proc_show d)) \<and>
     (sd_stuck d \<longrightarrow> sd_bh_in d \<and> (\<nexists>d'. spin_step d d'))"
    using spin_reach_inv [of d] by (auto simp: demo_proc_show_def elim: spin_stepE)
  ultimately show ?thesis by blast
qed

lemma spin_counts_deadlock_witness:
  "snd (fst (demo_proc_show spin_fresh)) \<le> fst (fst (demo_proc_show spin_fresh))"
  using spin_counts_deadlock [of spin_fresh] spin_reach.start by blast

text \<open>Loading: the timer stands in for an interrupt that is not asked for or not granted.\<close>

datatype spin_resource = SpinIrq | SpinTimer | SpinProc

definition spin_demo_init :: "int \<Rightarrow> unit res \<Rightarrow> bool \<Rightarrow> unit res \<times> spin_resource list" where
  "spin_demo_init irq req proc =
     (let registered = (irq \<ge> 0 \<and> req = Inr ()); using_timer = (\<not> registered);
          held = (if registered then [SpinIrq] else [SpinTimer])
      in if \<not> proc then (Inl ENOMEM, (let h1 = (if using_timer then removeAll SpinTimer held else held)
           in if registered then removeAll SpinIrq h1 else h1))
         else (Inr (), SpinProc # held))"

definition spin_demo_exit :: "spin_resource list \<Rightarrow> spin_resource list" where
  "spin_demo_exit held = removeAll SpinIrq (removeAll SpinTimer (removeAll SpinProc held))"

lemma spin_demo_load:
  "spin_demo_init irq req proc = (r, held) \<Longrightarrow> (case r of Inl _ \<Rightarrow> held = [] | Inr _ \<Rightarrow> length held = 2 \<and> spin_demo_exit held = [])"
  by (auto simp: spin_demo_init_def spin_demo_exit_def Let_def split: if_splits)

subsection \<open>The completion\<close>

record compl_sys =
  co_done :: nat
  co_waiting :: nat
  co_read :: nat
  co_written :: nat

text \<open>A read arrives, and returns when the completion is done; a write completes it once.\<close>

definition complete_read :: "compl_sys \<Rightarrow> compl_sys" where
  "complete_read s = s\<lparr>co_waiting := co_waiting s + 1\<rparr>"

definition complete_read_return :: "compl_sys \<Rightarrow> compl_sys option" where
  "complete_read_return s = (if 0 < co_waiting s \<and> 0 < co_done s
     then Some (s\<lparr>co_done := co_done s - 1, co_waiting := co_waiting s - 1, co_read := co_read s + 1\<rparr>) else None)"

definition complete_write :: "compl_sys \<Rightarrow> compl_sys" where
  "complete_write s = s\<lparr>co_done := co_done s + 1, co_written := co_written s + 1\<rparr>"

inductive compl_reach :: "compl_sys \<Rightarrow> bool" where
  start: "compl_reach \<lparr>co_done = 0, co_waiting = 0, co_read = 0, co_written = 0\<rparr>"
| read: "compl_reach s \<Longrightarrow> compl_reach (complete_read s)"
| return: "compl_reach s \<Longrightarrow> complete_read_return s = Some s' \<Longrightarrow> compl_reach s'"
| complete: "compl_reach s \<Longrightarrow> compl_reach (complete_write s)"

text \<open>Every write lets exactly one read return, in whatever order they come.\<close>

lemma completion_counts: "compl_reach s \<Longrightarrow> co_read s + co_done s = co_written s"
  by (induction rule: compl_reach.induct) (auto simp: complete_read_def complete_read_return_def complete_write_def split: if_splits)

lemma completion_progress: "compl_reach s \<Longrightarrow> 0 < co_waiting s \<Longrightarrow> complete_read_return s = None \<longleftrightarrow> co_read s = co_written s"
  by (drule completion_counts) (auto simp: complete_read_return_def)

datatype compl_resource = ComplRegion | ComplClass | ComplCdev | ComplNode

text \<open>A failed \<open>cdev_add\<close> is reported in the log only.\<close>

definition init_compl :: "unit res \<Rightarrow> unit res \<Rightarrow> unit res \<times> compl_resource list" where
  "init_compl region add = (case region of Inl e \<Rightarrow> (Inl e, [])
     | Inr _ \<Rightarrow> (let h = [ComplClass, ComplRegion]; h1 = (case add of Inl _ \<Rightarrow> h | Inr _ \<Rightarrow> ComplCdev # h) in (Inr (), ComplNode # h1)))"

definition cleanup_completion :: "compl_resource list \<Rightarrow> compl_resource list" where
  "cleanup_completion held = removeAll ComplClass (removeAll ComplRegion (removeAll ComplCdev (removeAll ComplNode held)))"

lemma completion_load:
  "init_compl region add = (r, held) \<Longrightarrow> (case r of Inl _ \<Rightarrow> held = [] | Inr _ \<Rightarrow> cleanup_completion held = [] \<and> (ComplCdev \<in> set held \<longleftrightarrow> add = Inr ()))"
  by (auto simp: init_compl_def cleanup_completion_def Let_def split: sum.splits)

text \<open>Both modules keep the contract of loading and unloading.\<close>

interpretation spin_mod: unwinding "\<lambda>(irq, req, proc). Inr (spin_demo_init irq req proc)" "\<lambda>h. Inr (spin_demo_exit h)" "\<lambda>h. h = []" "\<lambda>_. True"
  by (rule unwindingI) (use spin_demo_load in \<open>fastforce split: sum.splits prod.splits\<close>)

interpretation compl_mod: unwinding "\<lambda>(region, add). Inr (init_compl region add)" "\<lambda>h. Inr (cleanup_completion h)" "\<lambda>h. h = []" "\<lambda>_. True"
  by (rule unwindingI) (use completion_load in \<open>fastforce split: sum.splits prod.splits\<close>)

end
