(* ===== verification/Hello.thy ===== *)
theory Hello
  imports KernelPrelude
begin

text \<open>
  The first modules: \<open>ch02_hello/hello.c\<close> with its parameters, \<open>user.c\<close>, which calls the function
  that the former exports, and \<open>ch04_debug/oops.c\<close>.  The result is what is returned and the lines
  logged.
\<close>

definition add :: "int \<Rightarrow> int \<Rightarrow> int" where
  "add a b = s32 (a + b)"

text \<open>The loop from \<open>i\<close> on.\<close>

function hello_loop :: "int \<Rightarrow> int \<Rightarrow> byte list \<Rightarrow> byte list list" where
  "hello_loop i howmany whom = (if i < howmany then (text_of ''Hello, '' @ whom @ text_of ''!'' @ [10]) # hello_loop (i + 1) howmany whom else [])"
  by pat_completeness auto
termination
  by (relation "measure (\<lambda>(i, howmany, whom). nat (howmany - i))") auto

declare hello_loop.simps [simp del]

definition hello_init :: "int \<Rightarrow> byte list \<Rightarrow> unit res \<times> byte list list" where
  "hello_init howmany whom = (Inr (), hello_loop 0 howmany whom)"

definition hello_exit :: "byte list \<Rightarrow> byte list list" where
  "hello_exit whom = [text_of ''Goodbye, '' @ whom @ text_of ''!'' @ [10]]"

definition user_init :: "unit res \<times> byte list list" where
  "user_init = (let result = add 6 7 in (Inr (), [text_of ''6+7='' @ int_text result @ [10]]))"

definition user_exit :: "byte list list" where
  "user_exit = [text_of ''User module unloaded'' @ [10]]"

text \<open>The store through the null pointer.\<close>

definition oops_init :: "unit res run" where
  "oops_init = Inl NullDeref"

text \<open>As many greetings as asked for, none for a negative number.\<close>

lemma hello_loop_eq: "hello_loop i howmany whom = replicate (nat (howmany - i)) (text_of ''Hello, '' @ whom @ text_of ''!'' @ [10])"
proof (induction i howmany whom rule: hello_loop.induct)
  case (1 i howmany whom)
  have "i < howmany \<Longrightarrow> nat (howmany - i) = Suc (nat (howmany - (i + 1)))" by linarith
  with 1 show ?case by (simp add: hello_loop.simps [of i])
qed

lemma hello_greets: "length (snd (hello_init howmany whom)) = nat howmany"
  by (simp add: hello_init_def hello_loop_eq)

lemma user_prints_sum: "user_init = (Inr (), [text_of ''6+7=13'' @ [10]])"
  by (simp add: user_init_def add_def c_int int_text_def decimal.simps text_of_def)

end
