(* ===== verification/RwSem.thy ===== *)
theory RwSem
  imports ModuleLife
begin

text \<open>
  The read-write semaphore sample \<open>ch05_concurrency/rwsem.c\<close>: any number of readers and writers of
  the device on one semaphore, and loading and unloading.  What is printed is left out, except that a
  reader says that it was \<open>awoken\<close>.
\<close>

subsection \<open>The semaphore\<close>

text \<open>
  The kernel grants it to readers together or to one writer; which of the waiting processes is next is
  left open.  \<open>None\<close>: the process sleeps.
\<close>

record rwsem =
  rs_readers :: nat
  rs_writer :: bool

definition down_read :: "rwsem \<Rightarrow> rwsem option" where
  "down_read l = (if rs_writer l then None else Some (l\<lparr>rs_readers := rs_readers l + 1\<rparr>))"

definition up_read :: "rwsem \<Rightarrow> rwsem" where
  "up_read l = l\<lparr>rs_readers := rs_readers l - 1\<rparr>"

definition down_write :: "rwsem \<Rightarrow> rwsem option" where
  "down_write l = (if rs_writer l \<or> 0 < rs_readers l then None else Some (l\<lparr>rs_writer := True\<rparr>))"

definition up_write :: "rwsem \<Rightarrow> rwsem" where
  "up_write l = l\<lparr>rs_writer := False\<rparr>"

subsection \<open>The file operations\<close>

text \<open>Where a call is: before the semaphore, inside, or back with its return value.\<close>

datatype rw_call = ReadStart nat | ReadIn nat | WriteStart nat | WriteIn nat | Returned int

definition rwsem_read :: "rw_call \<Rightarrow> rwsem \<Rightarrow> (rw_call \<times> rwsem) option" where
  "rwsem_read c l = (case c of
     ReadStart n \<Rightarrow> map_option (\<lambda>l'. (ReadIn n, l')) (down_read l)
   | ReadIn n \<Rightarrow> Some (Returned 0, up_read l)
   | _ \<Rightarrow> None)"

definition rwsem_write :: "rw_call \<Rightarrow> rwsem \<Rightarrow> (rw_call \<times> rwsem) option" where
  "rwsem_write c l = (case c of
     WriteStart n \<Rightarrow> map_option (\<lambda>l'. (WriteIn n, l')) (down_write l)
   | WriteIn n \<Rightarrow> Some (Returned (int n), up_write l)
   | _ \<Rightarrow> None)"

text \<open>The call \<open>i\<close> goes on.\<close>

definition rw_step :: "nat \<Rightarrow> rw_call list \<times> rwsem \<Rightarrow> (rw_call list \<times> rwsem) option" where
  "rw_step i s = (case s of (cs, l) \<Rightarrow> if length cs \<le> i then None
     else map_option (\<lambda>(c, l'). (cs[i := c], l'))
       (if (\<exists>n. cs ! i = ReadStart n) \<or> (\<exists>n. cs ! i = ReadIn n) then rwsem_read (cs ! i) l else rwsem_write (cs ! i) l))"

subsection \<open>Exclusion, progress and what the calls return\<close>

definition is_reading :: "rw_call \<Rightarrow> bool" where "is_reading c \<longleftrightarrow> (\<exists>n. c = ReadIn n)"
definition is_writing :: "rw_call \<Rightarrow> bool" where "is_writing c \<longleftrightarrow> (\<exists>n. c = WriteIn n)"

text \<open>The semaphore counts the calls inside, and a writer is alone.\<close>

definition rw_inv :: "rw_call list \<times> rwsem \<Rightarrow> bool" where
  "rw_inv s = (case s of (cs, l) \<Rightarrow> rs_readers l = length (filter is_reading cs) \<and>
     length (filter is_writing cs) = (if rs_writer l then 1 else 0) \<and> (rs_writer l \<longrightarrow> rs_readers l = 0))"

definition call_value :: "rw_call \<Rightarrow> int" where
  "call_value c = (case c of ReadStart _ \<Rightarrow> 0 | ReadIn _ \<Rightarrow> 0 | WriteStart n \<Rightarrow> int n | WriteIn n \<Rightarrow> int n | Returned x \<Rightarrow> x)"

definition call_rank :: "rw_call \<Rightarrow> nat" where
  "call_rank c = (case c of ReadStart _ \<Rightarrow> 2 | WriteStart _ \<Rightarrow> 2 | ReadIn _ \<Rightarrow> 1 | WriteIn _ \<Rightarrow> 1 | Returned _ \<Rightarrow> 0)"

lemmas call_defs = is_reading_def is_writing_def call_value_def call_rank_def

lemma sum_list_update_nat:
  "i < length xs \<Longrightarrow> sum_list (map f (xs[i := x])) + f (xs ! i) = sum_list (map f xs) + (f x :: nat)"
proof (induction xs arbitrary: i)
  case (Cons y ys)
  then show ?case by (cases i) fastforce+
qed simp

text \<open>A step moves one call.\<close>

lemma rw_step_cases:
  assumes "rw_step i (cs, l) = Some (cs', l')"
  obtains (enter_read) n where "i < length cs" "cs ! i = ReadStart n" "\<not> rs_writer l" "cs' = cs[i := ReadIn n]" "l' = l\<lparr>rs_readers := rs_readers l + 1\<rparr>"
  | (leave_read) n where "i < length cs" "cs ! i = ReadIn n" "cs' = cs[i := Returned 0]" "l' = up_read l"
  | (enter_write) n where "i < length cs" "cs ! i = WriteStart n" "\<not> rs_writer l" "rs_readers l = 0" "cs' = cs[i := WriteIn n]" "l' = l\<lparr>rs_writer := True\<rparr>"
  | (leave_write) n where "i < length cs" "cs ! i = WriteIn n" "cs' = cs[i := Returned (int n)]" "l' = up_write l"
  using assms that
  by (cases "cs ! i") (auto simp: rw_step_def rwsem_read_def rwsem_write_def down_read_def down_write_def split: if_splits)

lemma rw_step_inv:
  assumes "rw_step i s = Some s'" and "rw_inv s"
  shows "rw_inv s'"
proof -
  obtain cs l cs' l' where s: "s = (cs, l)" "s' = (cs', l')" by (cases s; cases s')
  from assms(1)[unfolded s] show ?thesis
  proof (cases rule: rw_step_cases)
    case (enter_read n)
    with assms(2) length_filter_update [of i cs is_reading "ReadIn n"] length_filter_update [of i cs is_writing "ReadIn n"]
    show ?thesis by (simp add: s rw_inv_def call_defs)
  next
    case (leave_read n)
    with assms(2) length_filter_update [of i cs is_reading "Returned 0"] length_filter_update [of i cs is_writing "Returned 0"]
    show ?thesis by (auto simp: s rw_inv_def call_defs up_read_def)
  next
    case (enter_write n)
    with assms(2) length_filter_update [of i cs is_reading "WriteIn n"] length_filter_update [of i cs is_writing "WriteIn n"]
    show ?thesis by (simp add: s rw_inv_def call_defs)
  next
    case (leave_write n)
    with assms(2) length_filter_update [of i cs is_reading "Returned (int n)"] length_filter_update [of i cs is_writing "Returned (int n)"]
    show ?thesis by (auto simp: s rw_inv_def call_defs up_write_def split: if_splits)
  qed
qed

lemma rw_step_rank:
  assumes "rw_step i s = Some s'"
  shows "sum_list (map call_rank (fst s')) + 1 = sum_list (map call_rank (fst s)) \<and> map call_value (fst s') = map call_value (fst s)"
proof -
  obtain cs l cs' l' where s: "s = (cs, l)" "s' = (cs', l')" by (cases s; cases s')
  have v: "map call_value (cs[i := c]) = map call_value cs" if "call_value c = call_value (cs ! i)" "i < length cs" for c
    using that by (simp add: map_update list_update_same_conv)
  have r: "sum_list (map call_rank (cs[i := c])) + 1 = sum_list (map call_rank cs)" if "call_rank c + 1 = call_rank (cs ! i)" "i < length cs" for c
    using sum_list_update_nat [of i cs call_rank c] that by linarith
  from assms[unfolded s] show ?thesis
  proof (cases rule: rw_step_cases)
    case (enter_read n)
    then show ?thesis using v [of "ReadIn n"] r [of "ReadIn n"] by (simp add: s call_value_def call_rank_def)
  next
    case (leave_read n)
    then show ?thesis using v [of "Returned 0"] r [of "Returned 0"] by (simp add: s call_value_def call_rank_def)
  next
    case (enter_write n)
    then show ?thesis using v [of "WriteIn n"] r [of "WriteIn n"] by (simp add: s call_value_def call_rank_def)
  next
    case (leave_write n)
    then show ?thesis using v [of "Returned (int n)"] r [of "Returned (int n)"] by (simp add: s call_value_def call_rank_def)
  qed
qed

text \<open>Some call can always go on: one that is inside, or else any that waits.\<close>

lemma rw_progress:
  assumes inv: "rw_inv (cs, l)" and c: "c \<in> set cs" "call_rank c \<noteq> 0"
  shows "\<exists>i. rw_step i (cs, l) \<noteq> None"
proof (cases "\<exists>i<length cs. is_reading (cs ! i) \<or> is_writing (cs ! i)")
  case True
  then obtain i where "i < length cs" "is_reading (cs ! i) \<or> is_writing (cs ! i)" by blast
  then have "rw_step i (cs, l) \<noteq> None" by (auto simp: call_defs rw_step_def rwsem_read_def rwsem_write_def)
  then show ?thesis by blast
next
  case False
  then have "filter is_reading cs = []" "filter is_writing cs = []" by (auto simp: filter_empty_conv in_set_conv_nth)
  with inv have l: "rs_readers l = 0" "\<not> rs_writer l" by (auto simp: rw_inv_def split: if_splits)
  from c(1) obtain i where i: "i < length cs" "cs ! i = c" by (auto simp: in_set_conv_nth)
  then have "rw_step i (cs, l) \<noteq> None" using c(2) False l
    by (cases c) (auto simp: call_defs rw_step_def rwsem_read_def rwsem_write_def down_read_def down_write_def)
  then show ?thesis by blast
qed

text \<open>Every run of the calls ends with all of them back: a read gives 0, a write the number it was given.\<close>

fun rw_run :: "nat list \<Rightarrow> rw_call list \<times> rwsem \<Rightarrow> (rw_call list \<times> rwsem) option" where
  "rw_run [] s = Some s"
| "rw_run (i # sched) s = (case rw_step i s of None \<Rightarrow> None | Some s' \<Rightarrow> rw_run sched s')"

lemma rw_run_inv:
  "rw_run sched s = Some s' \<Longrightarrow> rw_inv s \<Longrightarrow> rw_inv s' \<and> length sched + sum_list (map call_rank (fst s')) = sum_list (map call_rank (fst s)) \<and>
    map call_value (fst s') = map call_value (fst s)"
proof (induction sched arbitrary: s)
  case (Cons i sched)
  from Cons.prems(1) obtain s1 where s1: "rw_step i s = Some s1" "rw_run sched s1 = Some s'" by (auto split: option.splits)
  from Cons.IH [OF s1(2) rw_step_inv [OF s1(1) Cons.prems(2)]] rw_step_rank [OF s1(1)] show ?case by auto
qed simp

lemma rw_runs_end:
  assumes "rw_run sched (cs, \<lparr>rs_readers = 0, rs_writer = False\<rparr>) = Some (cs', l')"
    and cs: "\<forall>c\<in>set cs. (\<exists>n. c = ReadStart n) \<or> (\<exists>n. c = WriteStart n)"
    and stuck: "\<forall>i. rw_step i (cs', l') = None"
  shows "cs' = map (\<lambda>c. Returned (call_value c)) cs \<and> length sched = 2 * length cs"
proof -
  have none: "\<forall>c\<in>set cs. \<not> is_reading c \<and> \<not> is_writing c \<and> call_rank c = 2" using cs by (auto simp: call_defs)
  then have e: "filter is_reading cs = []" "filter is_writing cs = []" by (simp_all add: filter_empty_conv)
  have rank: "sum_list (map call_rank cs) = 2 * length cs" using none by (induction cs) auto
  have "rw_inv (cs, \<lparr>rs_readers = 0, rs_writer = False\<rparr>)" by (simp add: rw_inv_def e)
  from rw_run_inv [OF assms(1) this] have r: "rw_inv (cs', l')" "length sched + sum_list (map call_rank cs') = 2 * length cs"
    "map call_value cs' = map call_value cs" using rank by simp_all
  have z: "\<forall>c\<in>set cs'. call_rank c = 0" using rw_progress [OF r(1)] stuck by metis
  then have "map call_rank cs' = replicate (length cs') 0" by (intro nth_equalityI) auto
  then have "length sched = 2 * length cs" using r(2) by (simp add: sum_list_replicate)
  moreover have "cs' = map (\<lambda>c. Returned (call_value c)) cs'" using z
    by (intro nth_equalityI) (auto simp: call_defs split: rw_call.splits dest!: nth_mem)
  then have "cs' = map Returned (map call_value cs)" unfolding r(3) [symmetric] by (simp add: comp_def)
  ultimately show ?thesis by (simp add: comp_def)
qed

text \<open>A reader that finds no writer inside does not sleep: no write is needed to wake it.\<close>

lemma rw_reader_alone:
  "rw_run [0, 0] ([ReadStart n], \<lparr>rs_readers = 0, rs_writer = False\<rparr>) = Some ([Returned 0], \<lparr>rs_readers = 0, rs_writer = False\<rparr>)"
  by (simp add: rw_step_def rwsem_read_def down_read_def up_read_def)

subsection \<open>Loading and unloading\<close>

datatype rwsem_resource = RwRegion | RwClass | RwCdev | RwNode

text \<open>A failed \<open>cdev_add\<close> is reported in the log only.\<close>

definition rwsem_init :: "unit res \<Rightarrow> unit res \<Rightarrow> unit res \<times> rwsem_resource list" where
  "rwsem_init region add = (case region of Inl e \<Rightarrow> (Inl e, [])
     | Inr _ \<Rightarrow> (let h = [RwClass, RwRegion]; h1 = (case add of Inl _ \<Rightarrow> h | Inr _ \<Rightarrow> RwCdev # h) in (Inr (), RwNode # h1)))"

definition rwsem_exit :: "rwsem_resource list \<Rightarrow> rwsem_resource list" where
  "rwsem_exit held = removeAll RwClass (removeAll RwRegion (removeAll RwCdev (removeAll RwNode held)))"

lemma rwsem_load:
  "rwsem_init region add = (r, held) \<Longrightarrow> (case r of Inl _ \<Rightarrow> held = [] | Inr _ \<Rightarrow> rwsem_exit held = [] \<and> (RwCdev \<in> set held \<longleftrightarrow> add = Inr ()))"
  by (auto simp: rwsem_init_def rwsem_exit_def Let_def split: sum.splits)

interpretation rwsem_mod: unwinding "\<lambda>(region, add). Inr (rwsem_init region add)" "\<lambda>h. Inr (rwsem_exit h)" "\<lambda>h. h = []" "\<lambda>_. True"
  by (rule unwindingI) (use rwsem_load in \<open>fastforce split: sum.splits prod.splits\<close>)

end
