(* ===== verification/EduSession.thy ===== *)
theory EduSession
  imports EduIoctl EduProbe
begin

text \<open>
  The file \<open>/dev/edu\<close> as a process sees it: the table of operations \<open>uac_fops\<close> of
  \<open>ch15_mmap_dma/main.c\<close> over one device, with the answers of the kernel and the device to the
  successive calls.  Whatever they are, every call returns and leaves the device ready for the next.
  When they are good ones, the file is a window on two buffers of 4096 bytes, the locale
  \<open>dma_window\<close> that the programs of this file are proved over.
\<close>

subsection \<open>The table of operations\<close>

text \<open>What a process can do with the file; after \<open>mmap\<close> it also loads and stores in the buffer that is mapped.\<close>

record 's edu_file =
  ef_read :: "nat \<Rightarrow> nat \<Rightarrow> 's \<Rightarrow> (byte list res \<times> 's) run"
  ef_write :: "byte list \<Rightarrow> nat \<Rightarrow> 's \<Rightarrow> (nat res \<times> 's) run"
  ef_ioctl :: "nat \<Rightarrow> edu_arg \<Rightarrow> 's \<Rightarrow> ((unit res \<times> byte list) \<times> 's) run"
  ef_mmap :: "nat \<Rightarrow> 's \<Rightarrow> (edu_mapping res \<times> 's) run"
  ef_load :: "nat \<Rightarrow> nat \<Rightarrow> 's \<Rightarrow> (byte list \<times> 's) run"
  ef_store :: "nat \<Rightarrow> byte list \<Rightarrow> 's \<Rightarrow> (unit \<times> 's) run"

text \<open>
  The answers to one call: what happens during its transfers, the pinning and mapping of pages, the
  power manager.  \<open>eh_pins\<close> counts the page references held, \<open>eh_calls\<close> the calls so far.
\<close>

record edu_answers =
  an_xes :: "xfer_env list"
  an_sg :: sg_env
  an_pm :: "unit res"

record edu_host =
  eh_dev :: edu_dev
  eh_pins :: int
  eh_calls :: nat

definition after_call :: "edu_dev \<Rightarrow> int \<Rightarrow> edu_host \<Rightarrow> edu_host" where
  "after_call d pins h = h\<lparr>eh_dev := d, eh_pins := eh_pins h + pins, eh_calls := Suc (eh_calls h)\<rparr>"

text \<open>\<open>bar\<close> is the address of the device's registers; the mapping is the coherent buffer of 4096 bytes.\<close>

definition edu_fops :: "edu_hw \<Rightarrow> nat \<Rightarrow> (nat \<Rightarrow> edu_answers) \<Rightarrow> edu_host edu_file" where
  "edu_fops hw bar an =
     \<lparr>ef_read = (\<lambda>ulen count h. let a = an (eh_calls h) in
        case edu_read hw (hd (an_xes a)) (an_pm a) ulen count (eh_dev h) of Inl x \<Rightarrow> Inl x | Inr (r, d) \<Rightarrow> Inr (r, after_call d 0 h)),
      ef_write = (\<lambda>ubuf count h. let a = an (eh_calls h) in
        case edu_write hw (hd (an_xes a)) (an_pm a) ubuf count (eh_dev h) of Inl x \<Rightarrow> Inl x | Inr (r, d) \<Rightarrow> Inr (r, after_call d 0 h)),
      ef_ioctl = (\<lambda>cmd arg h. let a = an (eh_calls h) in
        case edu_ioctl hw (an_xes a) (an_sg a) (an_pm a) cmd arg (eh_dev h) of Inl x \<Rightarrow> Inl x
        | Inr (r, pins, ubuf, d) \<Rightarrow> Inr ((r, ubuf), after_call d pins h)),
      ef_mmap = (\<lambda>pgoff h. Inr (edu_mmap bar pgoff, after_call (eh_dev h) 0 h)),
      ef_load = (\<lambda>off n h. if DMA_BUF_SIZE < off + n then Inl OutOfBounds else Inr (take n (drop off (ed_dma_buf (eh_dev h))), h)),
      ef_store = (\<lambda>off bs h. if DMA_BUF_SIZE < off + length bs then Inl OutOfBounds
        else Inr ((), h\<lparr>eh_dev := (eh_dev h)\<lparr>ed_dma_buf := overwrite (ed_dma_buf (eh_dev h)) off bs\<rparr>\<rparr>))\<rparr>"

subsection \<open>Any sequence of calls\<close>

datatype edu_op = CRead nat nat | CWrite "byte list" nat | CIoctl nat edu_arg | CMmap nat | CLoad nat nat | CStore nat "byte list"

datatype edu_ret = EBytes "byte list" | ECount nat | EDone "byte list" | EMapped edu_mapping | EStored | EErr errno

definition ret_of :: "('a \<Rightarrow> edu_ret) \<Rightarrow> ('a res \<times> 's) run \<Rightarrow> (edu_ret \<times> 's) run" where
  "ret_of f r = (case r of Inl x \<Rightarrow> Inl x | Inr (Inl e, s) \<Rightarrow> Inr (EErr e, s) | Inr (Inr v, s) \<Rightarrow> Inr (f v, s))"

fun edu_call :: "'s edu_file \<Rightarrow> edu_op \<Rightarrow> 's \<Rightarrow> (edu_ret \<times> 's) run" where
  "edu_call f (CRead ulen count) s = ret_of EBytes (ef_read f ulen count s)"
| "edu_call f (CWrite ubuf count) s = ret_of ECount (ef_write f ubuf count s)"
| "edu_call f (CIoctl cmd arg) s = (case ef_ioctl f cmd arg s of Inl x \<Rightarrow> Inl x
     | Inr ((Inl e, ubuf), s1) \<Rightarrow> Inr (EErr e, s1) | Inr ((Inr _, ubuf), s1) \<Rightarrow> Inr (EDone ubuf, s1))"
| "edu_call f (CMmap pgoff) s = ret_of EMapped (ef_mmap f pgoff s)"
| "edu_call f (CLoad off n) s = (case ef_load f off n s of Inl x \<Rightarrow> Inl x | Inr (bs, s1) \<Rightarrow> Inr (EBytes bs, s1))"
| "edu_call f (CStore off bs) s = (case ef_store f off bs s of Inl x \<Rightarrow> Inl x | Inr (_, s1) \<Rightarrow> Inr (EStored, s1))"

fun edu_session :: "'s edu_file \<Rightarrow> edu_op list \<Rightarrow> 's \<Rightarrow> (edu_ret list \<times> 's) run" where
  "edu_session f [] s = Inr ([], s)"
| "edu_session f (c # cs) s = (case edu_call f c s of Inl x \<Rightarrow> Inl x
     | Inr (r, s1) \<Rightarrow> (case edu_session f cs s1 of Inl x \<Rightarrow> Inl x | Inr (rs, s2) \<Rightarrow> Inr (r # rs, s2)))"

text \<open>Accesses stay in the mapping, and a descriptor has the length of the buffer it points to.\<close>

definition edu_call_ok :: "edu_op \<Rightarrow> bool" where
  "edu_call_ok c = (case c of CLoad off n \<Rightarrow> off + n \<le> DMA_BUF_SIZE | CStore off bs \<Rightarrow> off + length bs \<le> DMA_BUF_SIZE
     | CIoctl cmd arg \<Rightarrow> (case ea_desc arg of None \<Rightarrow> True | Some (addr, len, dir) \<Rightarrow> len = length (ea_ubuf arg)) | _ \<Rightarrow> True)"

definition host_ok :: "edu_host \<Rightarrow> edu_host \<Rightarrow> bool" where
  "host_ok h0 h \<longleftrightarrow> edu_idle (eh_dev h) \<and> ed_pm (eh_dev h) = ed_pm (eh_dev h0) \<and> eh_pins h = eh_pins h0"

lemma edu_write_returns:
  assumes "hw_loopback hw" and "edu_idle d"
  shows "\<exists>r d'. edu_write hw xe pm ubuf count d = Inr (r, d') \<and> edu_idle d' \<and> ed_pm d' = ed_pm d"
proof -
  obtain r d1 where c: "edu_write_copy ubuf count d = (r, d1)" by (cases "edu_write_copy ubuf count d")
  with edu_write_copy_idle [OF assms(2), of ubuf count] have d1: "edu_idle d1" "ed_pm d1 = ed_pm d" by simp_all
  show ?thesis
  proof (cases r)
    case (Inl e)
    with c d1 show ?thesis by (simp add: edu_write_def)
  next
    case (Inr u)
    with c d1 show ?thesis
      by (cases rule: edu_write_xfer_cases [OF assms(1) d1(1), of xe pm count]) (simp_all add: edu_write_def)
  qed
qed

lemma edu_read_returns:
  assumes "hw_loopback hw" and "edu_idle d"
  shows "\<exists>r d'. edu_read hw xe pm ulen count d = Inr (r, d') \<and> edu_idle d' \<and> ed_pm d' = ed_pm d"
  by (cases rule: edu_read_cases [OF assms, of xe pm ulen count]) auto

lemma edu_call_returns:
  assumes hw: "hw_loopback hw" and h: "host_ok h0 h" and c: "edu_call_ok c" and map: "\<And>i. sg_map_ok (sge_map (an_sg (an i)))"
  shows "\<exists>r h'. edu_call (edu_fops hw bar an) c h = Inr (r, h') \<and> host_ok h0 h'"
proof -
  have idle: "edu_idle (eh_dev h)" using h by (simp add: host_ok_def)
  note defs = edu_fops_def after_call_def ret_of_def host_ok_def Let_def
  show ?thesis
  proof (cases c)
    case (CRead ulen count)
    with edu_read_returns [OF hw idle, of "hd (an_xes (an (eh_calls h)))" "an_pm (an (eh_calls h))" ulen count] h show ?thesis
      by (auto simp: defs split: sum.splits)
  next
    case (CWrite ubuf count)
    with edu_write_returns [OF hw idle, of "hd (an_xes (an (eh_calls h)))" "an_pm (an (eh_calls h))" ubuf count] h show ?thesis
      by (auto simp: defs split: sum.splits)
  next
    case (CIoctl cmd arg)
    from c have desc: "case ea_desc arg of None \<Rightarrow> True | Some (addr, len, dir) \<Rightarrow> len = length (ea_ubuf arg)"
      by (simp add: edu_call_ok_def CIoctl)
    have "\<exists>r ubuf d'. edu_ioctl hw (an_xes (an (eh_calls h))) (an_sg (an (eh_calls h))) (an_pm (an (eh_calls h))) cmd arg (eh_dev h) =
        Inr (r, 0, ubuf, d') \<and> edu_idle d' \<and> ed_pm d' = ed_pm (eh_dev h)"
      using edu_ioctl_returns [OF hw idle map desc] by blast
    then obtain r ubuf d' where "edu_ioctl hw (an_xes (an (eh_calls h))) (an_sg (an (eh_calls h))) (an_pm (an (eh_calls h))) cmd arg (eh_dev h) =
        Inr (r, 0, ubuf, d')" "edu_idle d'" "ed_pm d' = ed_pm (eh_dev h)" by blast
    with CIoctl h show ?thesis by (cases r) (auto simp: defs)
  next
    case (CMmap pgoff)
    with h show ?thesis by (cases "edu_mmap bar pgoff") (auto simp: defs)
  next
    case (CLoad off n)
    with h c show ?thesis by (simp add: defs edu_call_ok_def)
  next
    case (CStore off bs)
    with h c show ?thesis by (simp add: defs edu_call_ok_def edu_idle_def)
  qed
qed

text \<open>C21: whatever a process does with the open file, in whatever order, and whatever the kernel, the
  interrupts and a device of the documented behaviour answer -- signals, timeouts, pages that cannot
  be pinned or mapped, a device that does not wake up, lengths and directions that are nonsense --
  every call returns, the locks of the driver are free afterwards, its buffers are whole, no page
  reference is left and its runtime usage count is what it was.\<close>

theorem edu_session_safe:
  assumes "hw_loopback hw" and "\<And>i. sg_map_ok (sge_map (an_sg (an i)))" and "edu_idle (eh_dev h)" and "list_all edu_call_ok cs"
  shows "\<exists>rs h'. edu_session (edu_fops hw bar an) cs h = Inr (rs, h') \<and> length rs = length cs \<and> edu_idle (eh_dev h') \<and>
    ed_pm (eh_dev h') = ed_pm (eh_dev h) \<and> eh_pins h' = eh_pins h"
proof -
  have "host_ok h h1 \<Longrightarrow> \<exists>rs h'. edu_session (edu_fops hw bar an) cs h1 = Inr (rs, h') \<and> length rs = length cs \<and> host_ok h h'" for h1
    using assms(4)
  proof (induction cs arbitrary: h1)
    case (Cons c cs)
    from Cons.prems have "edu_call_ok c" "list_all edu_call_ok cs" by simp_all
    note ok = this
    from edu_call_returns [where an = an and bar = bar, OF assms(1) Cons.prems(1) ok(1) assms(2)] obtain r h2
      where "edu_call (edu_fops hw bar an) c h1 = Inr (r, h2)" "host_ok h h2" by blast
    with Cons.IH [OF this(2) ok(2)] show ?case by auto
  qed simp
  then show ?thesis using assms(3) by (simp add: host_ok_def)
qed

text \<open>A device that never answers: two transfers and a scatter-gather transfer that time out.\<close>

definition example_map :: "(nat \<times> nat \<times> nat) list \<Rightarrow> (nat \<times> nat) list" where
  "example_map sg = (if list_all (\<lambda>(i, off, n). i < 1000 \<and> off < 4096) sg then map (\<lambda>(i, off, n). (4096 * i + off, n)) sg else [])"

lemma example_map_ok: "sg_map_ok example_map"
proof -
  have "sum_list (map snd (map (\<lambda>(i, off, n). (4096 * i + off, n)) sg)) = sum_list (map (\<lambda>(i, off, n). n) sg)" for sg :: "(nat \<times> nat \<times> nat) list"
    by (induction sg) auto
  then show ?thesis by (auto simp: sg_map_ok_def example_map_def list_all_iff)
qed

definition example_answers :: "bool \<Rightarrow> nat \<Rightarrow> edu_answers" where
  "example_answers prompt pages = \<lparr>an_xes = replicate pages (if prompt then example_xfer else example_xfer\<lparr>xe_irqs := []\<rparr>),
     an_sg = \<lparr>sge_pages_ok = True, sge_fast = Inl EFAULT, sge_slow = Inr pages, sge_sg_ok = True, sge_map = example_map\<rparr>, an_pm = Inr ()\<rparr>"

definition example_host :: edu_host where
  "example_host = \<lparr>eh_dev = example_edu, eh_pins = 0, eh_calls = 0\<rparr>"

definition example_ops :: "edu_op list" where
  "example_ops = [CWrite [1, 2] 2, CRead 9 5000, CIoctl EDU_IOC_STREAM_DMA \<lparr>ea_len = None, ea_desc = Some (4095, 2, 2), ea_ubuf = [0, 0]\<rparr>]"

theorem edu_session_safe_witness:
  "\<exists>rs h'. edu_session (edu_fops example_hw 0 (\<lambda>_. example_answers False 2)) example_ops example_host = Inr (rs, h') \<and>
     length rs = 3 \<and> eh_pins h' = 0"
proof -
  have m: "sg_map_ok (sge_map (an_sg (example_answers False 2)))" by (simp add: example_answers_def example_map_ok)
  have i: "edu_idle (eh_dev example_host)" by (simp add: example_host_def example_edu_ok)
  have c: "list_all edu_call_ok example_ops" "length example_ops = 3" by (simp_all add: edu_call_ok_def example_ops_def)
  obtain rs h' where "edu_session (edu_fops example_hw 0 (\<lambda>_. example_answers False 2)) example_ops example_host = Inr (rs, h')"
      "length rs = length example_ops" "eh_pins h' = eh_pins example_host"
    using edu_session_safe [OF example_edu_ok(1) m i c(1), of 0] by blast
  then show ?thesis using c(2) by (intro exI [of _ rs] exI [of _ h']) (simp add: example_host_def)
qed

subsection \<open>Transfers that complete\<close>

lemma transfer_ok:
  assumes hw: "hw_loopback hw" and idle: "edu_idle d" and n: "n \<le> DMA_BUF_SIZE" "n \<le> length ram"
    and addr: "addr < 2 ^ 28" and dir: "dir \<in> {0, 2}" and c: "completes xe d"
  shows "\<exists>d'. edu_dma_transfers hw xe addr dir n ram d = Inr (Inr (), if dir = 0 then ram else overwrite ram 0 (take n (ed_dev_buf d)), d') \<and>
    edu_idle d' \<and> ed_pm d' = ed_pm d \<and> ed_dma_buf d' = ed_dma_buf d \<and> ed_interrupts_enabled d' = ed_interrupts_enabled d \<and>
    ed_dev_buf d' = (if dir = 0 then overwrite (ed_dev_buf d) 0 (take n ram) else ed_dev_buf d)"
proof (cases rule: transfer_effect [OF hw idle n addr dir, of xe])
  case (1 d')
  then show ?thesis by blast
next
  case (2 e d')
  with transfer_completes [OF idle n(1) dir c] show ?thesis by blast
qed

text \<open>
  What a scatter-gather transfer of segments of the lengths \<open>ns\<close> does to the user's buffer and to the
  buffer of the device: every segment starts again at the first byte of the device's buffer, and one
  that is longer than that buffer is refused.
\<close>

fun stream :: "int \<Rightarrow> nat list \<Rightarrow> byte list \<Rightarrow> byte list \<Rightarrow> unit res \<times> byte list \<times> byte list" where
  "stream dir [] ubuf dev = (Inr (), ubuf, dev)"
| "stream dir (n # ns) ubuf dev =
     (if DMA_BUF_SIZE < n then (Inl EINVAL, ubuf, dev)
      else if dir = 0 then (case stream dir ns (drop n ubuf) (overwrite dev 0 (take n ubuf)) of (r, u, dev1) \<Rightarrow> (r, take n ubuf @ u, dev1))
      else (case stream dir ns (drop n ubuf) dev of (r, u, dev1) \<Rightarrow> (r, take n dev @ u, dev1)))"

definition edu_steady :: "edu_dev \<Rightarrow> edu_dev \<Rightarrow> bool" where
  "edu_steady d d' \<longleftrightarrow> same_edu d d' \<and> ed_interrupts_enabled d' = ed_interrupts_enabled d"

lemma sg_transfers_stream:
  assumes hw: "hw_loopback hw" and dir: "dir \<in> {0, 2}"
  shows "edu_idle d \<Longrightarrow> list_all (\<lambda>(addr, n). addr < 2 ^ 28) segs \<Longrightarrow> sum_list (map snd segs) \<le> length ubuf \<Longrightarrow>
    length segs \<le> length xes \<Longrightarrow> list_all (\<lambda>xe. completes xe d) xes \<Longrightarrow>
    \<exists>r u d'. sg_transfers hw xes dir segs ubuf d = Inr (r, u, d') \<and> stream dir (map snd segs) ubuf (ed_dev_buf d) = (r, u, ed_dev_buf d') \<and>
      edu_steady d d'"
proof (induction segs arbitrary: xes ubuf d)
  case Nil
  then show ?case by (simp add: edu_steady_def same_edu_def)
next
  case (Cons seg segs)
  obtain addr n where seg: "seg = (addr, n)" by (cases seg)
  obtain xe xs where xes: "xes = xe # xs" using Cons.prems(4) by (cases xes) auto
  have buf: "length (ed_dev_buf d) = DMA_BUF_SIZE" using Cons.prems(1) by (simp add: edu_idle_def)
  show ?case
  proof (cases "DMA_BUF_SIZE < n")
    case True
    then show ?thesis using Cons.prems(1,3) seg
      by (auto simp: edu_dma_transfers_def edu_steady_def same_edu_def intro: exI [of _ "ed_dev_buf d"])
  next
    case False
    have n: "n \<le> DMA_BUF_SIZE" "n \<le> length (take n ubuf)" "addr < 2 ^ 28" "completes xe d" using False Cons.prems seg xes by simp_all
    from transfer_ok [OF hw Cons.prems(1) n(1-3) dir n(4)] obtain d1
      where t: "edu_dma_transfers hw xe addr dir n (take n ubuf) d =
          Inr (Inr (), if dir = 0 then take n ubuf else overwrite (take n ubuf) 0 (take n (ed_dev_buf d)), d1)"
        "edu_idle d1" "ed_pm d1 = ed_pm d" "ed_dma_buf d1 = ed_dma_buf d" "ed_interrupts_enabled d1 = ed_interrupts_enabled d"
        "ed_dev_buf d1 = (if dir = 0 then overwrite (ed_dev_buf d) 0 (take n (take n ubuf)) else ed_dev_buf d)" by blast
    have ow: "overwrite (take n ubuf) 0 (take n (ed_dev_buf d)) = take n (ed_dev_buf d)" using n(1,2) buf by (simp add: overwrite_def)
    have "list_all (\<lambda>xe. completes xe d1) xs" using Cons.prems(5) completes_cong [OF _ t(5)] by (auto simp: xes list_all_iff)
    moreover have "list_all (\<lambda>(addr, n). addr < 2 ^ 28) segs" "sum_list (map snd segs) \<le> length (drop n ubuf)" "length segs \<le> length xs"
      using Cons.prems seg xes by simp_all
    ultimately obtain r u d2 where "sg_transfers hw xs dir segs (drop n ubuf) d1 = Inr (r, u, d2)"
        "stream dir (map snd segs) (drop n ubuf) (ed_dev_buf d1) = (r, u, ed_dev_buf d2)" "edu_steady d1 d2"
      using Cons.IH [OF t(2), of "drop n ubuf" xs] by blast
    with t False seg xes ow show ?thesis by (auto simp: edu_steady_def same_edu_def)
  qed
qed

text \<open>The answers to a scatter-gather transfer when the pages can be pinned and are mapped as segments of the lengths \<open>ns\<close>.\<close>

definition pinned_as :: "edu_answers \<Rightarrow> nat \<Rightarrow> nat \<Rightarrow> nat list \<Rightarrow> bool" where
  "pinned_as a addr len ns \<longleftrightarrow> 0 < len \<and> addr + len \<le> 2 ^ 64 \<and> sge_pages_ok (an_sg a) \<and> sge_sg_ok (an_sg a) \<and>
     sg_map_ok (sge_map (an_sg a)) \<and> ns \<noteq> [] \<and> length ns \<le> length (an_xes a) \<and>
     (case sg_range addr len of (first_page, offset, nr) \<Rightarrow> (sge_fast (an_sg a) = Inr nr \<or> sge_slow (an_sg a) = Inr nr) \<and>
        map snd (sge_map (an_sg a) (fst (sg_fill nr 0 offset len))) = ns)"

lemma pinned_as_length:
  assumes p: "pinned_as a addr len ns"
  shows "sum_list ns = len"
proof -
  obtain fp offset nr where g: "sg_range addr len = (fp, offset, nr)" by (metis prod_cases3)
  obtain sg rem where f: "sg_fill nr 0 offset len = (sg, rem)" by (cases "sg_fill nr 0 offset len")
  note c = sg_range_covers [OF _ _ g]
  have "rem = 0" using sg_fill_spec [OF c(2,3) f] p by (simp add: pinned_as_def)
  moreover have "ns = map snd (sge_map (an_sg a) sg)" "sge_map (an_sg a) sg \<noteq> []" "sg_map_ok (sge_map (an_sg a))"
    using p f g by (auto simp: pinned_as_def)
  ultimately show ?thesis using sg_fill_total [OF f] by (simp add: sg_map_ok_def)
qed

lemma do_sg_dma_stream:
  assumes hw: "hw_loopback hw" and idle: "edu_idle d" and dir: "dir \<in> {0, 2}" and p: "pinned_as a addr (length ubuf) ns"
    and xes: "list_all (\<lambda>xe. completes xe d) (an_xes a)"
  shows "\<exists>r u d'. do_sg_dma hw (an_xes a) (an_sg a) addr (length ubuf) dir ubuf d = Inr (r, 0, u, d') \<and>
    stream dir ns ubuf (ed_dev_buf d) = (r, u, ed_dev_buf d') \<and> edu_steady d d'"
proof -
  obtain fp offset nr where g: "sg_range addr (length ubuf) = (fp, offset, nr)" by (metis prod_cases3)
  obtain sg rem where f: "sg_fill nr 0 offset (length ubuf) = (sg, rem)" by (cases "sg_fill nr 0 offset (length ubuf)")
  note c = sg_range_covers [OF _ _ g]
  have rem: "rem = 0" using sg_fill_spec [OF c(2,3) f] p by (simp add: pinned_as_def)
  define segs where "segs = sge_map (an_sg a) sg"
  have ns: "map snd segs = ns" "segs \<noteq> []" "length segs = length ns" using p f g by (auto simp: pinned_as_def segs_def)
  have "sum_list (map snd segs) = length ubuf" using p ns(2) sg_fill_total [OF f] rem by (auto simp: pinned_as_def sg_map_ok_def segs_def)
  moreover have "list_all (\<lambda>(addr, n). addr < 2 ^ 28) segs" using p ns(2) by (auto simp: pinned_as_def sg_map_ok_def segs_def list_all_iff)
  ultimately obtain r u d' where s: "sg_transfers hw (an_xes a) dir segs ubuf d = Inr (r, u, d')"
      "stream dir ns ubuf (ed_dev_buf d) = (r, u, ed_dev_buf d')" "edu_steady d d'"
    using sg_transfers_stream [OF hw dir idle, of segs ubuf "an_xes a"] p xes ns by (auto simp: pinned_as_def)
  have "have_pages hw (an_xes a) (an_sg a) nr offset (length ubuf) dir ubuf (int nr) d = Inr (r, 0, u, d')"
    using s(1) p ns(2) f rem by (auto simp: have_pages_def pinned_as_def segs_def)
  with s p g show ?thesis by (auto simp: do_sg_dma_def pinned_as_def split: sum.splits)
qed

subsection \<open>The window\<close>

text \<open>The argument of an ioctl: the address of a length, or of a \<open>struct edu_stream_desc\<close> for a buffer.\<close>

definition len_arg :: "nat \<Rightarrow> edu_arg" where
  "len_arg n = \<lparr>ea_len = Some (int n), ea_desc = None, ea_ubuf = []\<rparr>"

definition desc_arg :: "nat \<Rightarrow> byte list \<Rightarrow> int \<Rightarrow> edu_arg" where
  "desc_arg addr ubuf dir = \<lparr>ea_len = None, ea_desc = Some (addr, length ubuf, dir), ea_ubuf = ubuf\<rparr>"

text \<open>
  \<open>ram\<close> is the coherent buffer, \<open>dev\<close> the buffer of the device; \<open>pinned\<close> says as which segments a
  buffer of the process is mapped.
\<close>

locale dma_window =
  fixes f :: "'s edu_file" and ready :: "'s \<Rightarrow> bool" and ram :: "'s \<Rightarrow> byte list" and dev :: "'s \<Rightarrow> byte list"
    and pinned :: "nat \<Rightarrow> nat \<Rightarrow> nat list \<Rightarrow> bool"
  assumes sizes: "ready s \<Longrightarrow> length (ram s) = DMA_BUF_SIZE \<and> length (dev s) = DMA_BUF_SIZE"
    and read_law: "ready s \<Longrightarrow> n \<le> ulen \<Longrightarrow> n \<le> DMA_BUF_SIZE \<Longrightarrow>
      \<exists>s'. ef_read f ulen n s = Inr (Inr (take n (dev s)), s') \<and> ready s' \<and> dev s' = dev s \<and> ram s' = overwrite (ram s) 0 (take n (dev s))"
    and write_law: "ready s \<Longrightarrow> length bs \<le> DMA_BUF_SIZE \<Longrightarrow>
      \<exists>s'. ef_write f bs (length bs) s = Inr (Inr (length bs), s') \<and> ready s' \<and> dev s' = overwrite (dev s) 0 bs \<and> ram s' = overwrite (ram s) 0 bs"
    and tx_law: "ready s \<Longrightarrow> n \<le> DMA_BUF_SIZE \<Longrightarrow>
      \<exists>s'. ef_ioctl f EDU_IOC_DMA_TX (len_arg n) s = Inr ((Inr (), []), s') \<and> ready s' \<and> dev s' = overwrite (dev s) 0 (take n (ram s)) \<and> ram s' = ram s"
    and rx_law: "ready s \<Longrightarrow> n \<le> DMA_BUF_SIZE \<Longrightarrow>
      \<exists>s'. ef_ioctl f EDU_IOC_DMA_RX (len_arg n) s = Inr ((Inr (), []), s') \<and> ready s' \<and> dev s' = dev s \<and> ram s' = overwrite (ram s) 0 (take n (dev s))"
    and stream_law: "ready s \<Longrightarrow> pinned addr (length ubuf) ns \<Longrightarrow> dir \<in> {0, 2} \<Longrightarrow>
      \<exists>r u s'. ef_ioctl f EDU_IOC_STREAM_DMA (desc_arg addr ubuf dir) s = Inr ((r, u), s') \<and> stream dir ns ubuf (dev s) = (r, u, dev s') \<and>
        ready s' \<and> ram s' = ram s"
    and pinned_law: "pinned addr len ns \<Longrightarrow> sum_list ns = len"
    and mmap_law: "ready s \<Longrightarrow> \<exists>s'. ef_mmap f 0 s = Inr (Inr MapCoherent, s') \<and> ready s' \<and> dev s' = dev s \<and> ram s' = ram s"
    and load_law: "ready s \<Longrightarrow> off + n \<le> DMA_BUF_SIZE \<Longrightarrow> ef_load f off n s = Inr (take n (drop off (ram s)), s)"
    and store_law: "ready s \<Longrightarrow> off + length bs \<le> DMA_BUF_SIZE \<Longrightarrow>
      \<exists>s'. ef_store f off bs s = Inr ((), s') \<and> ready s' \<and> dev s' = dev s \<and> ram s' = overwrite (ram s) off bs"

text \<open>The driver's file when the device wakes up, is never interrupted and answers every transfer.\<close>

definition prompt_host :: "edu_hw \<Rightarrow> (nat \<Rightarrow> edu_answers) \<Rightarrow> edu_host \<Rightarrow> bool" where
  "prompt_host hw an h \<longleftrightarrow> hw_loopback hw \<and> edu_idle (eh_dev h) \<and>
     (\<forall>i. an_pm (an i) = Inr () \<and> an_xes (an i) \<noteq> [] \<and> list_all (\<lambda>xe. completes xe (eh_dev h)) (an_xes (an i)))"

definition host_pinned :: "(nat \<Rightarrow> edu_answers) \<Rightarrow> nat \<Rightarrow> nat \<Rightarrow> nat list \<Rightarrow> bool" where
  "host_pinned an addr len ns \<longleftrightarrow> (\<forall>i. pinned_as (an i) addr len ns)"

lemma prompt_next:
  assumes "prompt_host hw an h" and "edu_idle d" and "ed_interrupts_enabled d = ed_interrupts_enabled (eh_dev h)"
  shows "prompt_host hw an (after_call d pins h)" "prompt_host hw an (h\<lparr>eh_dev := d\<rparr>)"
proof -
  have "completes xe (eh_dev h) \<Longrightarrow> completes xe d" for xe by (rule completes_cong [OF _ assms(3)])
  then show "prompt_host hw an (after_call d pins h)" "prompt_host hw an (h\<lparr>eh_dev := d\<rparr>)"
    using assms(1,2) unfolding prompt_host_def after_call_def by (auto simp: list_all_iff)
qed

lemma prompt_answers:
  assumes "prompt_host hw an h"
  shows "hw_loopback hw" "edu_idle (eh_dev h)" "an_pm (an i) = Inr ()" "completes (hd (an_xes (an i))) (eh_dev h)"
    "list_all (\<lambda>xe. completes xe (eh_dev h)) (an_xes (an i))"
proof -
  show "hw_loopback hw" "edu_idle (eh_dev h)" "an_pm (an i) = Inr ()" "list_all (\<lambda>xe. completes xe (eh_dev h)) (an_xes (an i))"
    using assms by (simp_all add: prompt_host_def)
  moreover have "an_xes (an i) \<noteq> []" using assms by (simp add: prompt_host_def)
  ultimately show "completes (hd (an_xes (an i))) (eh_dev h)" by (simp add: list_all_iff)
qed

lemma nat_small: "n \<le> DMA_BUF_SIZE \<Longrightarrow> nat (u64 (s32 (int n))) = n"
  by (simp add: DMA_BUF_SIZE_def s32_id u64_id)

text \<open>One transfer of the coherent buffer through the ioctl.\<close>

lemma edu_ioctl_one:
  assumes h: "prompt_host hw an h" and n: "n \<le> DMA_BUF_SIZE" and dir: "dir \<in> {0, 2 :: int}"
    and cmd: "cmd = (if dir = 0 then EDU_IOC_DMA_TX else EDU_IOC_DMA_RX)"
  shows "\<exists>d. edu_ioctl hw (an_xes (an i)) (an_sg (an i)) (an_pm (an i)) cmd (len_arg n) (eh_dev h) = Inr (Inr (), 0, [], d) \<and> edu_idle d \<and>
    ed_interrupts_enabled d = ed_interrupts_enabled (eh_dev h) \<and>
    ed_dma_buf d = (if dir = 0 then ed_dma_buf (eh_dev h) else overwrite (ed_dma_buf (eh_dev h)) 0 (take n (ed_dev_buf (eh_dev h)))) \<and>
    ed_dev_buf d = (if dir = 0 then overwrite (ed_dev_buf (eh_dev h)) 0 (take n (ed_dma_buf (eh_dev h))) else ed_dev_buf (eh_dev h))"
proof -
  note p = prompt_answers [OF h]
  define d1 where "d1 = (eh_dev h)\<lparr>ed_pm := ed_pm (eh_dev h) + 1\<rparr>"
  have d1: "edu_idle d1" "completes (hd (an_xes (an i))) d1" "n \<le> length (ed_dma_buf d1)" "ed_dma_handle d1 < 2 ^ 28"
    using p(2) completes_cong [OF p(4), of d1] n by (simp_all add: d1_def edu_idle_def)
  from transfer_ok [OF p(1) d1(1) n d1(3,4) dir d1(2)] obtain d2
    where t: "edu_dma_transfers hw (hd (an_xes (an i))) (ed_dma_handle d1) dir n (ed_dma_buf d1) d1 =
        Inr (Inr (), if dir = 0 then ed_dma_buf d1 else overwrite (ed_dma_buf d1) 0 (take n (ed_dev_buf d1)), d2)"
      "edu_idle d2" "ed_interrupts_enabled d2 = ed_interrupts_enabled d1"
      "ed_dev_buf d2 = (if dir = 0 then overwrite (ed_dev_buf d1) 0 (take n (ed_dma_buf d1)) else ed_dev_buf d1)" by blast
  have cmds: "EDU_IOC_DMA_RX \<noteq> EDU_IOC_DMA_TX" "EDU_IOC_DMA_RX \<noteq> EDU_IOC_STREAM_DMA" "EDU_IOC_DMA_TX \<noteq> EDU_IOC_STREAM_DMA"
    by (simp_all add: edu_ioc_numbers)
  have len: "length (overwrite (ed_dma_buf d1) 0 (take n (ed_dev_buf d1))) = DMA_BUF_SIZE" "length (ed_dma_buf d1) = DMA_BUF_SIZE"
    using d1(1) n by (simp_all add: edu_idle_def)
  show ?thesis
    using t n dir cmd cmds len nat_small [OF n] p(3)
    by (auto simp: edu_ioctl_def Let_def pm_get_def d1_def [symmetric] len_arg_def EDU_DMA_DIR_RAM_TO_DEV_def EDU_DMA_DIR_DEV_TO_RAM_def)
       (auto simp: pm_put_def edu_idle_def d1_def)
qed

lemma edu_ioctl_stream:
  assumes h: "prompt_host hw an h" and p: "host_pinned an addr (length ubuf) ns" and dir: "dir \<in> {0, 2}"
  shows "\<exists>r u d. edu_ioctl hw (an_xes (an i)) (an_sg (an i)) (an_pm (an i)) EDU_IOC_STREAM_DMA (desc_arg addr ubuf dir) (eh_dev h) = Inr (r, 0, u, d) \<and>
    stream dir ns ubuf (ed_dev_buf (eh_dev h)) = (r, u, ed_dev_buf d) \<and> edu_idle d \<and>
    ed_interrupts_enabled d = ed_interrupts_enabled (eh_dev h) \<and> ed_dma_buf d = ed_dma_buf (eh_dev h)"
proof -
  note a = prompt_answers [OF h]
  define d1 where "d1 = (eh_dev h)\<lparr>ed_pm := ed_pm (eh_dev h) + 1\<rparr>"
  have "completes xe (eh_dev h) \<Longrightarrow> completes xe d1" for xe by (erule completes_cong) (simp add: d1_def)
  then have d1: "edu_idle d1" "list_all (\<lambda>xe. completes xe d1) (an_xes (an i))"
    using a(2,5) by (auto simp: d1_def edu_idle_def list_all_iff)
  have "pinned_as (an i) addr (length ubuf) ns" using p by (simp add: host_pinned_def)
  from do_sg_dma_stream [OF a(1) d1(1) dir this d1(2)] obtain r u d2
    where "do_sg_dma hw (an_xes (an i)) (an_sg (an i)) addr (length ubuf) dir ubuf d1 = Inr (r, 0, u, d2)"
      "stream dir ns ubuf (ed_dev_buf d1) = (r, u, ed_dev_buf d2)" "edu_steady d1 d2" by blast
  then show ?thesis using a(3)
    by (auto simp: edu_ioctl_def Let_def pm_get_def d1_def [symmetric] desc_arg_def edu_steady_def same_edu_def)
       (auto simp: pm_put_def edu_idle_def d1_def)
qed

lemma after_call_dev: "eh_dev (after_call d pins h) = d"
  by (simp add: after_call_def)

lemma edu_write_ok:
  assumes h: "prompt_host hw an h" and n: "length bs \<le> DMA_BUF_SIZE"
  shows "\<exists>d. edu_write hw (hd (an_xes (an i))) (an_pm (an i)) bs (length bs) (eh_dev h) = Inr (Inr (length bs), d) \<and> edu_idle d \<and>
    ed_interrupts_enabled d = ed_interrupts_enabled (eh_dev h) \<and> ed_dev_buf d = overwrite (ed_dev_buf (eh_dev h)) 0 bs \<and>
    ed_dma_buf d = overwrite (ed_dma_buf (eh_dev h)) 0 bs"
proof -
  note p = prompt_answers(1,2) [OF h] prompt_answers(3-5) [OF h, where i = i]
  have m: "min (length bs) DMA_BUF_SIZE = length bs" using n by simp
  from edu_write_copy_mapped [OF p(2), of "length bs" bs, unfolded m] obtain d1 where d1: "edu_write_copy bs (length bs) (eh_dev h) = (Inr (), d1)"
    "edu_idle d1" "ed_dev_buf d1 = ed_dev_buf (eh_dev h)" "ed_interrupts_enabled d1 = ed_interrupts_enabled (eh_dev h)"
    "ed_dma_buf d1 = overwrite (ed_dma_buf (eh_dev h)) 0 bs" "take (length bs) (ed_dma_buf d1) = bs" by auto
  have "completes (hd (an_xes (an i))) d1" by (rule completes_cong [OF p(4) d1(4)])
  from edu_write_xfer_completes [OF p(1) d1(2) this, of "length bs", unfolded m] d1 p(3) show ?thesis by (auto simp: edu_write_def)
qed

interpretation edu_file: dma_window "edu_fops hw bar an" "prompt_host hw an" "\<lambda>h. ed_dma_buf (eh_dev h)" "\<lambda>h. ed_dev_buf (eh_dev h)"
    "host_pinned an" for hw bar an
proof unfold_locales
  show "sum_list ns = len" if "host_pinned an addr len ns" for addr len ns
    using that pinned_as_length unfolding host_pinned_def by blast
next
  fix s and n ulen :: nat
  assume h: "prompt_host hw an s"
  note p = prompt_answers(1,2) [OF h] prompt_answers(3-5) [OF h, where i = "eh_calls s"]
  show "length (ed_dma_buf (eh_dev s)) = DMA_BUF_SIZE \<and> length (ed_dev_buf (eh_dev s)) = DMA_BUF_SIZE" using p(2) by (simp add: edu_idle_def)
  note next_host = prompt_next [OF h]
  show "\<exists>s'. ef_mmap (edu_fops hw bar an) 0 s = Inr (Inr MapCoherent, s') \<and> prompt_host hw an s' \<and>
      ed_dev_buf (eh_dev s') = ed_dev_buf (eh_dev s) \<and> ed_dma_buf (eh_dev s') = ed_dma_buf (eh_dev s)"
    using next_host(1) [OF p(2) refl, of 0] by (simp add: edu_fops_def edu_mmap_def after_call_dev)
  show "ef_load (edu_fops hw bar an) off n s = Inr (take n (drop off (ed_dma_buf (eh_dev s))), s)" if "off + n \<le> DMA_BUF_SIZE" for off
    using that by (simp add: edu_fops_def)
  show "\<exists>s'. ef_store (edu_fops hw bar an) off bs s = Inr ((), s') \<and> prompt_host hw an s' \<and>
      ed_dev_buf (eh_dev s') = ed_dev_buf (eh_dev s) \<and> ed_dma_buf (eh_dev s') = overwrite (ed_dma_buf (eh_dev s)) off bs"
    if "off + length bs \<le> DMA_BUF_SIZE" for off bs
    using that p(2) next_host(2) [of "(eh_dev s)\<lparr>ed_dma_buf := overwrite (ed_dma_buf (eh_dev s)) off bs\<rparr>"]
    by (simp add: edu_fops_def edu_idle_def)
  show "\<exists>s'. ef_read (edu_fops hw bar an) ulen n s = Inr (Inr (take n (ed_dev_buf (eh_dev s))), s') \<and> prompt_host hw an s' \<and>
      ed_dev_buf (eh_dev s') = ed_dev_buf (eh_dev s) \<and>
      ed_dma_buf (eh_dev s') = overwrite (ed_dma_buf (eh_dev s)) 0 (take n (ed_dev_buf (eh_dev s)))" if n: "n \<le> ulen" "n \<le> DMA_BUF_SIZE"
    using edu_read_completes [OF p(1,2,4), of n ulen] n next_host(1) p(3)
    by (auto simp: edu_fops_def Let_def min_def after_call_dev split: if_splits)
  show "\<exists>s'. ef_write (edu_fops hw bar an) bs (length bs) s = Inr (Inr (length bs), s') \<and> prompt_host hw an s' \<and>
      ed_dev_buf (eh_dev s') = overwrite (ed_dev_buf (eh_dev s)) 0 bs \<and> ed_dma_buf (eh_dev s') = overwrite (ed_dma_buf (eh_dev s)) 0 bs"
    if "length bs \<le> DMA_BUF_SIZE" for bs
    using edu_write_ok [OF h that, of "eh_calls s"] next_host(1) by (auto simp: edu_fops_def Let_def after_call_dev)
  show "\<exists>s'. ef_ioctl (edu_fops hw bar an) EDU_IOC_DMA_TX (len_arg n) s = Inr ((Inr (), []), s') \<and> prompt_host hw an s' \<and>
      ed_dev_buf (eh_dev s') = overwrite (ed_dev_buf (eh_dev s)) 0 (take n (ed_dma_buf (eh_dev s))) \<and>
      ed_dma_buf (eh_dev s') = ed_dma_buf (eh_dev s)" if "n \<le> DMA_BUF_SIZE"
    using edu_ioctl_one [OF h that, of 0 EDU_IOC_DMA_TX "eh_calls s"] next_host(1) by (auto simp: edu_fops_def Let_def after_call_dev)
  show "\<exists>s'. ef_ioctl (edu_fops hw bar an) EDU_IOC_DMA_RX (len_arg n) s = Inr ((Inr (), []), s') \<and> prompt_host hw an s' \<and>
      ed_dev_buf (eh_dev s') = ed_dev_buf (eh_dev s) \<and>
      ed_dma_buf (eh_dev s') = overwrite (ed_dma_buf (eh_dev s)) 0 (take n (ed_dev_buf (eh_dev s)))" if "n \<le> DMA_BUF_SIZE"
    using edu_ioctl_one [OF h that, of 2 EDU_IOC_DMA_RX "eh_calls s"] next_host(1) by (auto simp: edu_fops_def Let_def after_call_dev)
  show "\<exists>r u s'. ef_ioctl (edu_fops hw bar an) EDU_IOC_STREAM_DMA (desc_arg addr ubuf dir) s = Inr ((r, u), s') \<and>
      stream dir ns ubuf (ed_dev_buf (eh_dev s)) = (r, u, ed_dev_buf (eh_dev s')) \<and> prompt_host hw an s' \<and>
      ed_dma_buf (eh_dev s') = ed_dma_buf (eh_dev s)" if "host_pinned an addr (length ubuf) ns" "dir \<in> {0, 2}" for addr ubuf ns dir
    using edu_ioctl_stream [OF h that, of "eh_calls s"] next_host(1) by (fastforce simp: edu_fops_def Let_def after_call_dev)
qed

end
