(* ===== verification/EduTest.thy ===== *)
theory EduTest
  imports EduSession CNumbers
begin

text \<open>
  The test program of \<open>/dev/edu\<close> (\<open>ch15_mmap_dma/edu_test.c\<close>), over any file that has the operations of
  \<open>EduSession\<close>.  The four modes are proved in the locale \<open>dma_window\<close>, which the driver interprets.
  The texts printed are cut to a key word.  The program takes \<open>DMA_BUF_SIZE\<close> and the two directions
  for granted; they are those of \<open>edu.h\<close>, which it does not include.
\<close>

unbundle bit_operations_syntax

subsection \<open>Helpers\<close>

datatype mline = MDie string errno | MTooBig | MShort string nat | MGot "byte list" | MMismatch nat byte byte
  | MPass | MFail | MSuccess | MUsage | MUnknown int

text \<open>Whether the program goes on (\<open>die\<close> ends it with status 1), what it printed, the state.\<close>

type_synonym 's test = "(bool \<times> mline list \<times> 's) run"

definition fill_pattern :: "nat \<Rightarrow> byte \<Rightarrow> byte list" where
  "fill_pattern len base = map (\<lambda>i. base + word_of_nat (i AND 0x0f)) [0..<len]"

text \<open>The first byte that differs; none when it returns 0.\<close>

definition compare_buffers :: "byte list \<Rightarrow> byte list \<Rightarrow> nat \<Rightarrow> mline option" where
  "compare_buffers a b len = (case find (\<lambda>i. a ! i \<noteq> b ! i) [0..<len] of
     None \<Rightarrow> None | Some i \<Rightarrow> Some (MMismatch i (a ! i) (b ! i)))"

text \<open>\<open>perror\<close> and \<open>exit\<close>.\<close>

definition die :: "string \<Rightarrow> errno \<Rightarrow> mline list \<Rightarrow> 's \<Rightarrow> 's test" where
  "die msg e out s = Inr (False, out @ [MDie msg e], s)"

subsection \<open>Mode 1: read and write\<close>

definition rw_msg :: "byte list" where
  "rw_msg = text_of ''hello from userspace via read/write DMA'' @ [10]"

text \<open>The bytes of \<open>buf\<close> behind those that were read have not been written; \<open>printf\<close> stops at the first zero.\<close>

definition test_rw_loopback :: "'s edu_file \<Rightarrow> 's \<Rightarrow> 's test" where
  "test_rw_loopback f s =
     (let msg = rw_msg @ [0]; len = length rw_msg + 1 in
      if DMA_BUF_SIZE < len then Inr (True, [MTooBig], s)
      else case ef_write f msg len s of Inl x \<Rightarrow> Inl x
      | Inr (Inl e, s1) \<Rightarrow> die ''write'' e [] s1
      | Inr (Inr w, s1) \<Rightarrow>
         (if w \<noteq> len then Inr (True, [MShort ''write'' w], s1)
          else case ef_read f DMA_BUF_SIZE len s1 of Inl x \<Rightarrow> Inl x
          | Inr (Inl e, s2) \<Rightarrow> die ''read'' e [] s2
          | Inr (Inr r, s2) \<Rightarrow>
             (if length r \<noteq> len then Inr (True, [MShort ''read'' (length r)], s2)
              else if 0 \<notin> set r then Inl UninitRead
              else Inr (True, [MGot (cstr r), if r = msg then MPass else MFail], s2))))"

subsection \<open>Mode 2: the mapped buffer\<close>

definition test_mmap_dma_loopback :: "'s edu_file \<Rightarrow> 's \<Rightarrow> 's test" where
  "test_mmap_dma_loopback f s =
     (let len = 512; expected = map (\<lambda>i. word_of_nat (i AND 0xff)) [0..<len] :: byte list in
      case ef_mmap f 0 s of Inl x \<Rightarrow> Inl x
      | Inr (Inl e, s1) \<Rightarrow> die ''mmap'' e [] s1
      | Inr (Inr _, s1) \<Rightarrow> (case ef_store f 0 expected s1 of Inl x \<Rightarrow> Inl x
      | Inr (_, s2) \<Rightarrow> (case ef_ioctl f EDU_IOC_DMA_TX (len_arg len) s2 of Inl x \<Rightarrow> Inl x
      | Inr ((Inl e, _), s3) \<Rightarrow> die ''ioctl EDU_IOC_DMA_TX'' e [] s3
      | Inr ((Inr _, _), s3) \<Rightarrow> (case ef_store f 0 (replicate len 0xAA) s3 of Inl x \<Rightarrow> Inl x
      | Inr (_, s4) \<Rightarrow> (case ef_ioctl f EDU_IOC_DMA_RX (len_arg len) s4 of Inl x \<Rightarrow> Inl x
      | Inr ((Inl e, _), s5) \<Rightarrow> die ''ioctl EDU_IOC_DMA_RX'' e [] s5
      | Inr ((Inr _, _), s5) \<Rightarrow> (case ef_load f 0 len s5 of Inl x \<Rightarrow> Inl x
      | Inr (buf, s6) \<Rightarrow> (case find (\<lambda>i. buf ! i \<noteq> expected ! i) [0..<len] of
          None \<Rightarrow> Inr (True, [MPass], s6)
        | Some i \<Rightarrow> Inr (True, [MMismatch i (buf ! i) (expected ! i), MFail], s6))))))))"

subsection \<open>Mode 3: scatter-gather to the device\<close>

text \<open>\<open>big\<close> is the address that \<open>malloc\<close> returned, if any.\<close>

definition test_stream_dma_tx_only :: "'s edu_file \<Rightarrow> nat option \<Rightarrow> 's \<Rightarrow> 's test" where
  "test_stream_dma_tx_only f big s =
     (let total = 3 * 4096 + 123; misalign = 100 in
      case big of None \<Rightarrow> die ''malloc'' ENOMEM [] s
      | Some a \<Rightarrow> (case ef_ioctl f EDU_IOC_STREAM_DMA (desc_arg (a + misalign) (fill_pattern total 0xA0) EDU_DMA_DIR_RAM_TO_DEV) s of
          Inl x \<Rightarrow> Inl x
        | Inr ((Inl e, _), s1) \<Rightarrow> die ''ioctl EDU_IOC_STREAM_DMA'' e [] s1
        | Inr ((Inr _, _), s1) \<Rightarrow> Inr (True, [MSuccess], s1)))"

subsection \<open>Mode 4: scatter-gather from the device\<close>

definition test_stream_dma_rx_from_coherent :: "'s edu_file \<Rightarrow> nat option \<Rightarrow> 's \<Rightarrow> 's test" where
  "test_stream_dma_rx_from_coherent f big s =
     (let len = 2048; misalign = 200 in
      case ef_mmap f 0 s of Inl x \<Rightarrow> Inl x
      | Inr (Inl e, s1) \<Rightarrow> die ''mmap coherent'' e [] s1
      | Inr (Inr _, s1) \<Rightarrow> (case ef_store f 0 (fill_pattern len 0x10) s1 of Inl x \<Rightarrow> Inl x
      | Inr (_, s2) \<Rightarrow> (case ef_ioctl f EDU_IOC_DMA_TX (len_arg len) s2 of Inl x \<Rightarrow> Inl x
      | Inr ((Inl e, _), s3) \<Rightarrow> die ''ioctl EDU_IOC_DMA_TX'' e [] s3
      | Inr ((Inr _, _), s3) \<Rightarrow> (case big of None \<Rightarrow> die ''malloc'' ENOMEM [] s3
      | Some a \<Rightarrow> (case ef_ioctl f EDU_IOC_STREAM_DMA (desc_arg (a + misalign) (replicate len 0xCC) EDU_DMA_DIR_DEV_TO_RAM) s3 of
          Inl x \<Rightarrow> Inl x
        | Inr ((Inl e, _), s4) \<Rightarrow> die ''ioctl EDU_IOC_STREAM_DMA RX'' e [] s4
        | Inr ((Inr _, rx), s4) \<Rightarrow> (case ef_load f 0 len s4 of Inl x \<Rightarrow> Inl x
        | Inr (coh, s5) \<Rightarrow> (case compare_buffers rx coh len of
            None \<Rightarrow> Inr (True, [MPass], s5)
          | Some m \<Rightarrow> Inr (True, [m, MFail], s5))))))))"

subsection \<open>The program\<close>

text \<open>
  \<open>opens\<close> is the result of opening the device.  The outcome: the exit status, the lines printed, the
  state.
\<close>

definition edu_test_main :: "'s edu_file \<Rightarrow> unit res \<Rightarrow> nat option \<Rightarrow> string list \<Rightarrow> 's \<Rightarrow> (int \<times> mline list \<times> 's) run" where
  "edu_test_main f opens big args s =
     (let exit = (\<lambda>t. case t of Inl x \<Rightarrow> Inl x | Inr (go, out, s1) \<Rightarrow> Inr (if go then 0 else 1, out, s1)) in
      case args of [a] \<Rightarrow> (let mode = atoi a in
        case opens of Inl e \<Rightarrow> Inr (1, [MDie ''open /dev/edu'' e], s)
        | Inr _ \<Rightarrow>
           (if mode = 1 then exit (test_rw_loopback f s)
            else if mode = 2 then exit (test_mmap_dma_loopback f s)
            else if mode = 3 then exit (test_stream_dma_tx_only f big s)
            else if mode = 4 then exit (test_stream_dma_rx_from_coherent f big s)
            else Inr (1, [MUnknown mode], s)))
      | _ \<Rightarrow> Inr (1, [MUsage], s))"

subsection \<open>The pattern\<close>

lemma and_15: "i AND 15 = i mod (16 :: nat)"
  using take_bit_eq_mask [of 4 i] by (simp add: take_bit_eq_mod mask_eq_exp_minus_1)

definition pattern_at :: "byte \<Rightarrow> nat \<Rightarrow> byte" where
  "pattern_at base i = base + word_of_nat (i mod 16)"

lemma fill_pattern_eq: "fill_pattern len base = map (pattern_at base) [0..<len]"
  by (simp add: fill_pattern_def pattern_at_def and_15)

lemma length_fill_pattern [simp]: "length (fill_pattern len base) = len"
  by (simp add: fill_pattern_def)

lemma pattern_at_eq: "pattern_at base i = pattern_at base j \<longleftrightarrow> i mod 16 = j mod 16"
proof -
  have "(word_of_nat (i mod 16) :: byte) = word_of_nat (j mod 16) \<longleftrightarrow> i mod 16 = j mod 16"
    by (subst word_of_nat_eq_iff) (simp add: take_bit_nat_eq_self)
  then show ?thesis by (simp add: pattern_at_def)
qed

text \<open>Whether every segment that is not empty starts at a multiple of the period of the pattern.\<close>

fun seg_aligned :: "nat \<Rightarrow> nat list \<Rightarrow> bool" where
  "seg_aligned off [] \<longleftrightarrow> True"
| "seg_aligned off (n # ns) \<longleftrightarrow> (n = 0 \<or> 16 dvd off) \<and> seg_aligned (off + n) ns"

lemma pattern_restarts:
  "concat (map (\<lambda>n. map (pattern_at base) [0..<n]) ns) = map (\<lambda>i. pattern_at base (off + i)) [0..<sum_list ns] \<longleftrightarrow> seg_aligned off ns"
proof (induction ns arbitrary: off)
  case (Cons n ns)
  have "[0..<n + sum_list ns] = [0..<n] @ map (\<lambda>i. i + n) [0..<sum_list ns]"
    using map_add_upt [of n "sum_list ns"] upt_add_eq_append [of 0 n "sum_list ns"] by (simp add: add.commute)
  then have "map (\<lambda>i. pattern_at base (off + i)) [0..<n + sum_list ns] =
      map (\<lambda>i. pattern_at base (off + i)) [0..<n] @ map (\<lambda>i. pattern_at base (off + n + i)) [0..<sum_list ns]"
    by (simp add: comp_def ac_simps)
  moreover have "(\<forall>i<n. pattern_at base i = pattern_at base (off + i)) \<longleftrightarrow> n = 0 \<or> 16 dvd off"
  proof
    assume "\<forall>i<n. pattern_at base i = pattern_at base (off + i)"
    then have "n = 0 \<or> 0 mod 16 = (off + 0) mod 16" using pattern_at_eq by blast
    then show "n = 0 \<or> 16 dvd off" by (auto simp: dvd_eq_mod_eq_0)
  next
    assume "n = 0 \<or> 16 dvd off"
    then show "\<forall>i<n. pattern_at base i = pattern_at base (off + i)" by (auto simp: pattern_at_eq elim!: dvdE)
  qed
  then have "map (pattern_at base) [0..<n] = map (\<lambda>i. pattern_at base (off + i)) [0..<n] \<longleftrightarrow> n = 0 \<or> 16 dvd off" by auto
  ultimately show ?case using Cons.IH [of "off + n"] by simp
qed simp

lemma find_differs: "find (\<lambda>i. a ! i \<noteq> b ! i) [0..<len] = None \<longleftrightarrow> (\<forall>i<len. a ! i = b ! i)"
  by (auto simp: find_None_iff)

lemma find_False: "find (\<lambda>i. False) xs = None"
  by (induction xs) auto

lemma find_differs_same: "length a = len \<Longrightarrow> length b = len \<Longrightarrow> find (\<lambda>i. a ! i \<noteq> b ! i) [0..<len] = None \<longleftrightarrow> a = b"
  by (auto simp: find_differs list_eq_iff_nth_eq)

text \<open>What is left of a buffer after an overwrite from its start.\<close>

lemma take_overwrite: "length ys = n \<Longrightarrow> take n (overwrite xs 0 ys) = ys"
  by (simp add: overwrite_def)

lemma stream_result: "fst (stream dir ns ubuf dev) = (if \<forall>n\<in>set ns. n \<le> DMA_BUF_SIZE then Inr () else Inl EINVAL)"
  by (induction dir ns ubuf dev rule: stream.induct) (auto split: prod.splits)

lemma stream_from_dev:
  "\<forall>n\<in>set ns. n \<le> DMA_BUF_SIZE \<Longrightarrow> sum_list ns = length ubuf \<Longrightarrow>
    stream 2 ns ubuf dev = (Inr (), concat (map (\<lambda>n. take n dev) ns), dev)"
  by (induction ns arbitrary: ubuf) auto

subsection \<open>The four modes on a window\<close>

context dma_window
begin

lemma mode1: "ready s \<Longrightarrow> \<exists>s'. test_rw_loopback f s = Inr (True, [MGot rw_msg, MPass], s') \<and> ready s'"
proof -
  assume s: "ready s"
  define msg where "msg = rw_msg @ [0]"
  have len: "length msg = 41" "length rw_msg = 40" by (simp_all add: msg_def rw_msg_def)
  have z: "0 \<in> set msg" "cstr msg = rw_msg" by (simp_all add: msg_def rw_msg_def cstr_def text_of_def)
  obtain s1 where w: "ef_write f msg 41 s = Inr (Inr 41, s1)" "ready s1" "dev s1 = overwrite (dev s) 0 msg"
    using write_law [OF s, of msg] by (auto simp: len DMA_BUF_SIZE_def)
  have t: "take 41 (dev s1) = msg" using w(3) take_overwrite [OF len(1)] by simp
  obtain s2 where "ef_read f DMA_BUF_SIZE 41 s1 = Inr (Inr msg, s2)" "ready s2"
    using read_law [OF w(2), of 41 DMA_BUF_SIZE] t by (auto simp: DMA_BUF_SIZE_def)
  with w z len show ?thesis
    by (simp add: test_rw_loopback_def Let_def msg_def [symmetric]) (simp add: DMA_BUF_SIZE_def)
qed

lemma mode2: "ready s \<Longrightarrow> \<exists>s'. test_mmap_dma_loopback f s = Inr (True, [MPass], s') \<and> ready s'"
proof -
  assume s: "ready s"
  define expected :: "byte list" where "expected = map (\<lambda>i. word_of_nat (i AND 0xff)) [0..<512]"
  define aa :: "byte list" where "aa = replicate 512 0xAA"
  have len: "length expected = 512" "length aa = 512" by (simp_all add: expected_def aa_def)
  have n: "512 \<le> DMA_BUF_SIZE" "0 + 512 \<le> DMA_BUF_SIZE" by (simp_all add: DMA_BUF_SIZE_def)
  obtain s1 where s1: "ef_mmap f 0 s = Inr (Inr MapCoherent, s1)" "ready s1" using mmap_law [OF s] by blast
  obtain s2 where s2: "ef_store f 0 expected s1 = Inr ((), s2)" "ready s2" "ram s2 = overwrite (ram s1) 0 expected"
    using store_law [OF s1(2), of 0 expected] n len by auto
  obtain s3 where s3: "ef_ioctl f EDU_IOC_DMA_TX (len_arg 512) s2 = Inr ((Inr (), []), s3)" "ready s3"
      "dev s3 = overwrite (dev s2) 0 (take 512 (ram s2))"
    using tx_law [OF s2(2) n(1)] by blast
  obtain s4 where s4: "ef_store f 0 aa s3 = Inr ((), s4)" "ready s4" "dev s4 = dev s3"
    using store_law [OF s3(2), of 0 aa] n len by auto
  obtain s5 where s5: "ef_ioctl f EDU_IOC_DMA_RX (len_arg 512) s4 = Inr ((Inr (), []), s5)" "ready s5"
      "ram s5 = overwrite (ram s4) 0 (take 512 (dev s4))"
    using rx_law [OF s4(2) n(1)] by blast
  have "take 512 (dev s4) = expected" using s2(3) s3(3) s4(3) len by (simp add: take_overwrite)
  then have "take 512 (ram s5) = expected" using s5(3) len by (simp add: take_overwrite)
  then have l: "ef_load f 0 512 s5 = Inr (expected, s5)" using load_law [OF s5(2) n(2)] by simp
  show ?thesis
    using s1(1) s2(1) s3(1) s4(1) s5(1,2) l
    by (simp add: test_mmap_dma_loopback_def Let_def expected_def [symmetric] aa_def [symmetric] find_False del: upt_rec_numeral)
qed

lemma mode3:
  assumes s: "ready s" and p: "pinned (a + 100) 12411 ns"
  shows "\<exists>s'. test_stream_dma_tx_only f (Some a) s = Inr (if \<forall>n\<in>set ns. n \<le> DMA_BUF_SIZE then (True, [MSuccess], s')
    else (False, [MDie ''ioctl EDU_IOC_STREAM_DMA'' EINVAL], s')) \<and> ready s'"
proof -
  have "length (fill_pattern 12411 0xA0) = 12411" by simp
  with stream_law [OF s, of "a + 100" "fill_pattern 12411 0xA0" ns 0] p obtain r u s'
    where io: "ef_ioctl f EDU_IOC_STREAM_DMA (desc_arg (a + 100) (fill_pattern 12411 0xA0) 0) s = Inr ((r, u), s')"
      "stream 0 ns (fill_pattern 12411 0xA0) (dev s) = (r, u, dev s')" "ready s'" by auto
  have "r = (if \<forall>n\<in>set ns. n \<le> DMA_BUF_SIZE then Inr () else Inl EINVAL)"
    using stream_result [of 0 ns "fill_pattern 12411 0xA0" "dev s"] io(2) by simp
  with io(1,3) show ?thesis by (intro exI [of _ s']) (simp add: test_stream_dma_tx_only_def EDU_DMA_DIR_RAM_TO_DEV_def die_def)
qed

lemma mode4:
  assumes s: "ready s" and p: "pinned (a + 200) 2048 ns"
  shows "\<exists>out s'. test_stream_dma_rx_from_coherent f (Some a) s = Inr (True, out, s') \<and> ready s' \<and>
    (if seg_aligned 0 ns then out = [MPass] else \<exists>i x y. out = [MMismatch i x y, MFail])"
proof -
  define pat where "pat = fill_pattern 2048 0x10"
  have n: "2048 \<le> DMA_BUF_SIZE" "0 + 2048 \<le> DMA_BUF_SIZE" by (simp_all add: DMA_BUF_SIZE_def)
  have len: "length pat = 2048" by (simp add: pat_def)
  obtain s1 where s1: "ef_mmap f 0 s = Inr (Inr MapCoherent, s1)" "ready s1" using mmap_law [OF s] by blast
  obtain s2 where s2: "ef_store f 0 pat s1 = Inr ((), s2)" "ready s2" "ram s2 = overwrite (ram s1) 0 pat"
    using store_law [OF s1(2), of 0 pat] n len by auto
  obtain s3 where s3: "ef_ioctl f EDU_IOC_DMA_TX (len_arg 2048) s2 = Inr ((Inr (), []), s3)" "ready s3"
      "dev s3 = overwrite (dev s2) 0 (take 2048 (ram s2))" "ram s3 = ram s2"
    using tx_law [OF s2(2) n(1)] by blast
  have d: "take 2048 (dev s3) = pat" using s2(3) s3(3) len by (simp add: take_overwrite)
  have sum: "sum_list ns = 2048" by (rule pinned_law [OF p])
  have small: "m \<le> 2048" if "m \<in> set ns" for m using member_le_sum_list [OF that] sum by simp
  define rx where "rx = concat (map (\<lambda>n. take n (dev s3)) ns)"
  have "stream 2 ns (replicate 2048 0xCC) (dev s3) = (Inr (), rx, dev s3)"
    unfolding rx_def using small n sum by (intro stream_from_dev) (auto intro: order_trans)
  with stream_law [OF s3(2), of "a + 200" "replicate 2048 0xCC" ns 2] p obtain s4
    where s4: "ef_ioctl f EDU_IOC_STREAM_DMA (desc_arg (a + 200) (replicate 2048 0xCC) 2) s3 = Inr ((Inr (), rx), s4)" "ready s4"
      "ram s4 = ram s3" by auto
  have l: "ef_load f 0 2048 s4 = Inr (pat, s4)" using load_law [OF s4(2) n(2)] s4(3) s3(4) s2(3) len by (simp add: take_overwrite)
  have "take m (dev s3) = map (pattern_at 0x10) [0..<m]" if "m \<in> set ns" for m
  proof -
    have "take m (dev s3) = take m pat" using small [OF that] d by (metis min.absorb1 take_take)
    then show ?thesis using small [OF that] by (simp add: pat_def fill_pattern_eq take_map)
  qed
  then have rx: "rx = concat (map (\<lambda>n. map (pattern_at 0x10) [0..<n]) ns)" unfolding rx_def by (intro arg_cong [of _ _ concat] map_cong) auto
  have eq: "rx = pat \<longleftrightarrow> seg_aligned 0 ns"
    using pattern_restarts [of "0x10" ns 0] by (simp add: rx pat_def fill_pattern_eq sum del: upt_rec_numeral)
  have len_rx: "length rx = 2048" using sum by (simp add: rx length_concat comp_def)
  have "find (\<lambda>i. rx ! i \<noteq> pat ! i) [0..<2048] = None \<longleftrightarrow> seg_aligned 0 ns" using find_differs_same [OF len_rx len] eq by (simp only:)
  then show ?thesis
    using s1(1) s2(1) s3(1) s4(1,2) l
    by (cases "find (\<lambda>i. rx ! i \<noteq> pat ! i) [0..<2048]")
      (simp_all add: test_stream_dma_rx_from_coherent_def Let_def pat_def [symmetric] compare_buffers_def EDU_DMA_DIR_DEV_TO_RAM_def
        del: upt_rec_numeral)
qed

end

subsection \<open>The program on the driver\<close>

lemma modes: "atoi ''1'' = 1" "atoi ''2'' = 2" "atoi ''3'' = 3" "atoi ''4'' = 4"
  by code_simp+

text \<open>On a device of the documented behaviour that answers every transfer, the program's tests say
  what they should: modes 1 and 2 print PASS; mode 3 succeeds unless the mapping of the user's
  buffer joins pages to a segment that is longer than the device's buffer, in which case the ioctl
  is refused.\<close>

lemma edu_test_passes:
  assumes h: "prompt_host hw an h" and p: "host_pinned an (a + 100) 12411 ns"
  shows "(\<exists>h'. edu_test_main (edu_fops hw bar an) (Inr ()) (Some a) [''1''] h = Inr (0, [MGot rw_msg, MPass], h')) \<and>
    (\<exists>h'. edu_test_main (edu_fops hw bar an) (Inr ()) (Some a) [''2''] h = Inr (0, [MPass], h')) \<and>
    (\<exists>h'. edu_test_main (edu_fops hw bar an) (Inr ()) (Some a) [''3''] h =
      Inr (if \<forall>n\<in>set ns. n \<le> DMA_BUF_SIZE then (0, [MSuccess], h') else (1, [MDie ''ioctl EDU_IOC_STREAM_DMA'' EINVAL], h')))"
  using edu_file.mode1 [OF h, of bar] edu_file.mode2 [OF h, of bar] edu_file.mode3 [OF h p, of bar]
  by (auto simp: edu_test_main_def modes)

definition example_prompt :: "nat \<Rightarrow> nat \<Rightarrow> edu_answers" where
  "example_prompt pages = (\<lambda>i. example_answers True pages)"

lemma example_prompt_ok: "0 < pages \<Longrightarrow> prompt_host example_hw (example_prompt pages) example_host"
  using example_edu_ok
  by (auto simp: prompt_host_def example_host_def example_prompt_def example_answers_def completes_def example_xfer_def list_all_iff)
    (simp add: example_edu_def)

lemma numeral_eq_Suc_4: "(4 :: nat) = Suc (Suc (Suc (Suc 0)))"
  by simp

lemma example_pinned:
  assumes "sg_range addr len = (fp, off, pages)" and "sg_fill pages 0 off len = (sg, 0)" and "0 < len" "addr + len \<le> 2 ^ 64"
    and "example_map sg = map (\<lambda>(i, off, n). (4096 * i + off, n)) sg" "sg \<noteq> []" "length sg \<le> pages"
  shows "host_pinned (example_prompt pages) addr len (map (\<lambda>(i, off, n). n) sg)"
  using assms by (simp add: host_pinned_def pinned_as_def example_prompt_def example_answers_def example_map_ok comp_def case_prod_unfold)

lemma edu_test_passes_witness:
  "\<exists>h'. edu_test_main (edu_fops example_hw 0 (example_prompt 4)) (Inr ()) (Some 4096) [''3''] example_host = Inr (0, [MSuccess], h')"
proof -
  have "host_pinned (example_prompt 4) (4096 + 100) 12411
      (map (\<lambda>(i, off, n). n) [(0 :: nat, 100 :: nat, 3996), (1, 0, 4096), (2, 0, 4096), (3, 0, 223)])"
  proof (rule example_pinned)
    show "sg_range (4096 + 100) 12411 = (4096, 100, 4)" by (simp add: sg_range_def PAGE_SIZE_eq u64_def Let_def)
    have "sg_fill (Suc (Suc (Suc (Suc 0)))) 0 100 12411 = ([(0, 100, 3996), (1, 0, 4096), (2, 0, 4096), (3, 0, 223)], 0)"
      by (simp add: PAGE_SIZE_eq)
    then show "sg_fill 4 0 100 12411 = ([(0, 100, 3996), (1, 0, 4096), (2, 0, 4096), (3, 0, 223)], 0)" by (simp only: numeral_eq_Suc_4)
  qed (simp_all add: example_map_def)
  from edu_test_passes [OF example_prompt_ok this, of 0] show ?thesis by (simp add: DMA_BUF_SIZE_def)
qed

text \<open>C22: mode 4 prints PASS exactly when every segment of the user's buffer that is not empty starts at
  a multiple of 16 bytes: the driver gives each segment the first bytes of the device's buffer, and
  what the program looks at is a pattern that repeats every 16 bytes.  Otherwise it reports a
  mismatch, and that a transfer which returned success failed.\<close>

theorem edu_test_sg:
  assumes h: "prompt_host hw an h" and p: "host_pinned an (a + 200) 2048 ns"
  shows "\<exists>out h'. edu_test_main (edu_fops hw bar an) (Inr ()) (Some a) [''4''] h = Inr (0, out, h') \<and>
    (if seg_aligned 0 ns then out = [MPass] else \<exists>i x y. out = [MMismatch i x y, MFail])"
  using edu_file.mode4 [OF h p, of bar] by (auto simp: edu_test_main_def modes)

text \<open>A buffer that ends 100 bytes behind the end of its page.\<close>

theorem edu_test_sg_witness:
  "\<exists>i x y h'. edu_test_main (edu_fops example_hw 0 (example_prompt 2)) (Inr ()) (Some 2048) [''4''] example_host =
     Inr (0, [MMismatch i x y, MFail], h')"
proof -
  have "host_pinned (example_prompt 2) (2048 + 200) 2048 (map (\<lambda>(i, off, n). n) [(0 :: nat, 2248 :: nat, 1848), (1, 0, 200)])"
  proof (rule example_pinned)
    show "sg_range (2048 + 200) 2048 = (0, 2248, 2)" by (simp add: sg_range_def PAGE_SIZE_eq u64_def Let_def)
    have "sg_fill (Suc (Suc 0)) 0 2248 2048 = ([(0, 2248, 1848), (1, 0, 200)], 0)" by (simp add: PAGE_SIZE_eq)
    then show "sg_fill 2 0 2248 2048 = ([(0, 2248, 1848), (1, 0, 200)], 0)" by (simp only: numeral_2_eq_2)
  qed (simp_all add: example_map_def)
  from edu_test_sg [OF example_prompt_ok this, of 0] show ?thesis by auto
qed

text \<open>\<open>malloc\<close> returns multiples of 16.  When no pages are joined, the buffer passes the test exactly if
  it lies in one page: the second segment starts at an odd multiple of 8.\<close>

lemma seg_pages:
  assumes "16 dvd a" and off: "off = (a + 200) mod PAGE_SIZE" and f: "sg_fill pages 0 off 2048 = (sg, 0)"
  shows "seg_aligned 0 (map (\<lambda>(i, off, n). n) sg) \<longleftrightarrow> off \<le> 2048"
proof -
  obtain k where a: "a = 16 * k" using assms(1) by (elim dvdE)
  have "off mod 16 = (a + 200) mod 16" using off mod_mod_cancel [of 16 PAGE_SIZE "a + 200"] by (simp add: PAGE_SIZE_eq)
  also have "\<dots> = 8" by (simp add: a)
  finally have m: "off mod 16 = 8" .
  have lt: "off < 4096" using off by (simp add: PAGE_SIZE_eq)
  obtain p where p: "pages = Suc p" using f by (cases pages) auto
  have rest: "sg_fill q i 0 0 = ([], 0)" for q i by (cases q) simp_all
  show ?thesis
  proof (cases "off \<le> 2048")
    case True
    then have "min (PAGE_SIZE - off) 2048 = 2048" by (simp add: PAGE_SIZE_eq)
    with f p rest True show ?thesis by (auto simp: Let_def)
  next
    case False
    define n where "n = 4096 - off"
    have n: "0 < n" "n < 2048" "\<not> 16 dvd n" using False m lt by (auto simp: n_def) presburger
    have "min (PAGE_SIZE - off) 2048 = n" using n(2) by (simp add: PAGE_SIZE_eq n_def)
    moreover obtain q where "p = Suc q" using f p calculation n by (cases p) (auto simp: Let_def)
    moreover have "min (PAGE_SIZE - 0) (2048 - n) = 2048 - n" by (simp add: PAGE_SIZE_eq)
    ultimately show ?thesis using f p False n rest by (auto simp: Let_def)
  qed
qed

end
