(* ===== verification/ScullTest.thy ===== *)
theory ScullTest
  imports ScullSession CNumbers
begin

unbundle bit_operations_syntax

text \<open>
  The command line program \<open>ch03_scull/test/test_scull.c\<close> on the devices of \<open>ScullSession\<close>: it parses
  its options, opens the device once and makes at most one call for each option, always in the same
  order.  \<open>getopt_long\<close> is library code: the program is a function of the codes and arguments that it
  returns one after the other.  The texts printed are cut to a key word.
\<close>

subsection \<open>Options\<close>

datatype sline = SDie string errno | SNoMemory | SInvalid string | SHelp | SReset | SSetQuantum int | SQuantum int
  | SSetQset int | SQset int | SSeeked int | SWrote nat | SReadBytes "byte list"

text \<open>\<open>parse_seek_arg\<close>: the offset and the whence, or the end of the program.\<close>

definition parse_seek_arg :: "string \<Rightarrow> string + int \<times> int" where
  "parse_seek_arg s =
     (let before = takeWhile (\<lambda>c. c \<noteq> CHR '':'') s; (off, used, over) = strtol s in
      if CHR '':'' \<in> set s then
        (if used \<noteq> length before then Inl s
         else let after = drop (Suc (length before)) s; w = atoi after in
           if w = 0 then Inr (off, SEEK_SET)
           else if w = 1 then Inr (off, SEEK_CUR)
           else if w = 2 then Inr (off, SEEK_END)
           else Inl after)
      else if used \<noteq> length s then Inl s
      else Inr (off, SEEK_SET))"

record tool_opts =
  to_dev :: string
  to_reset :: bool
  to_set_quantum :: "int option"
  to_get_quantum :: bool
  to_set_qset :: "int option"
  to_get_qset :: bool
  to_write :: "string option"
  to_read :: int
  to_seek :: "(int \<times> int) option"
  to_flags :: nat

definition O_RDWR :: nat where "O_RDWR = 2"
definition O_TRUNC :: nat where "O_TRUNC = 512"
definition O_APPEND :: nat where "O_APPEND = 1024"

definition default_opts :: tool_opts where
  "default_opts = \<lparr>to_dev = ''/dev/scull0'', to_reset = False, to_set_quantum = None, to_get_quantum = False, to_set_qset = None,
     to_get_qset = False, to_write = None, to_read = - 1, to_seek = None, to_flags = O_RDWR\<rparr>"

text \<open>The loop over the options; a failure is the exit status with what is printed.\<close>

fun parse_opts :: "(int \<times> string) list \<Rightarrow> tool_opts \<Rightarrow> (int \<times> sline) + tool_opts" where
  "parse_opts [] opts = Inr opts"
| "parse_opts ((c, arg) # rest) opts =
     (if c = 100 then parse_opts rest (opts\<lparr>to_dev := arg\<rparr>)
      else if c = 104 then Inl (0, SHelp)
      else if c = 1 then parse_opts rest (opts\<lparr>to_reset := True\<rparr>)
      else if c = 2 then parse_opts rest (opts\<lparr>to_set_quantum := Some (fst (strtol arg))\<rparr>)
      else if c = 3 then parse_opts rest (opts\<lparr>to_get_quantum := True\<rparr>)
      else if c = 4 then parse_opts rest (opts\<lparr>to_set_qset := Some (fst (strtol arg))\<rparr>)
      else if c = 5 then parse_opts rest (opts\<lparr>to_get_qset := True\<rparr>)
      else if c = 6 then parse_opts rest (opts\<lparr>to_write := Some arg\<rparr>)
      else if c = 7 then parse_opts rest (opts\<lparr>to_read := fst (strtol arg)\<rparr>)
      else if c = 8 then (case parse_seek_arg arg of Inl bad \<Rightarrow> Inl (1, SInvalid bad)
        | Inr sk \<Rightarrow> parse_opts rest (opts\<lparr>to_seek := Some sk\<rparr>))
      else if c = 9 then parse_opts rest (opts\<lparr>to_flags := to_flags opts OR O_APPEND\<rparr>)
      else if c = 10 then parse_opts rest (opts\<lparr>to_flags := to_flags opts OR O_TRUNC\<rparr>)
      else Inl (2, SHelp))"

definition need_write :: "tool_opts \<Rightarrow> bool" where
  "need_write t \<longleftrightarrow> to_write t \<noteq> None \<or> to_set_quantum t \<noteq> None \<or> to_set_qset t \<noteq> None \<or> to_reset t \<or>
     to_flags t AND O_TRUNC \<noteq> 0 \<or> to_flags t AND O_APPEND \<noteq> 0"

definition open_flags :: "tool_opts \<Rightarrow> nat" where
  "open_flags t = (if need_write t then to_flags t else 0)"

subsection \<open>The calls\<close>

text \<open>
  What the kernel decides: which device a path names, whether a signal is pending, the allocations of
  the write and of the read, the capability, the \<open>malloc\<close> of the program.
\<close>

record tool_env =
  te_dev :: "string \<Rightarrow> nat res"
  te_sig :: bool
  te_write_al :: "bool list"
  te_read_al :: "bool list"
  te_cap :: bool
  te_malloc :: bool

type_synonym tool_step = "scull_sys \<Rightarrow> (bool \<times> sline list \<times> scull_sys) run"

text \<open>A call whose failure ends the program; otherwise what is printed of its result.\<close>

definition call_step :: "scull_call \<Rightarrow> string \<Rightarrow> (scull_ret \<Rightarrow> sline) \<Rightarrow> tool_step" where
  "call_step c msg out s = (case scull_fops c s of Inl x \<Rightarrow> Inl x
     | Inr (RErr e, s1) \<Rightarrow> Inr (False, [SDie msg e], s1) | Inr (r, s1) \<Rightarrow> Inr (True, [out r], s1))"

definition if_some :: "'a option \<Rightarrow> ('a \<Rightarrow> tool_step) \<Rightarrow> tool_step" where
  "if_some x f s = (case x of None \<Rightarrow> Inr (True, [], s) | Some a \<Rightarrow> f a s)"

definition if_set :: "bool \<Rightarrow> tool_step \<Rightarrow> tool_step" where
  "if_set b f s = (if b then f s else Inr (True, [], s))"

text \<open>The address of an \<open>int\<close> of the program that holds \<open>v\<close>, and its value after the call.\<close>

definition int_env :: "tool_env \<Rightarrow> int \<Rightarrow> ioctl_env" where
  "int_env e v = \<lparr>ie_cap = te_cap e, ie_access_ok = True, ie_user = Some v, ie_put_ok = True\<rparr>"

definition int_after :: "int \<Rightarrow> scull_ret \<Rightarrow> int" where
  "int_after v r = (case r of RVal _ (Some w) \<Rightarrow> w | _ \<Rightarrow> v)"

definition pos_of :: "scull_ret \<Rightarrow> int" where "pos_of r = (case r of RPos p \<Rightarrow> p | _ \<Rightarrow> 0)"
definition count_of :: "scull_ret \<Rightarrow> nat" where "count_of r = (case r of RCount n \<Rightarrow> n | _ \<Rightarrow> 0)"
definition bytes_of :: "scull_ret \<Rightarrow> byte list" where "bytes_of r = (case r of RBytes bs \<Rightarrow> bs | _ \<Rightarrow> [])"

definition set_step :: "tool_env \<Rightarrow> nat \<Rightarrow> nat \<Rightarrow> string \<Rightarrow> (int \<Rightarrow> sline) \<Rightarrow> int \<Rightarrow> tool_step" where
  "set_step e fd cmd msg out v = call_step (SIoctl fd (int_env e (s32 v)) cmd 0) msg (\<lambda>r. out (int_after (s32 v) r))"

definition get_step :: "tool_env \<Rightarrow> nat \<Rightarrow> nat \<Rightarrow> string \<Rightarrow> (int \<Rightarrow> sline) \<Rightarrow> tool_step" where
  "get_step e fd cmd msg out = call_step (SIoctl fd (int_env e 0) cmd 0) msg (\<lambda>r. out (int_after 0 r))"

definition write_step :: "tool_env \<Rightarrow> nat \<Rightarrow> string \<Rightarrow> tool_step" where
  "write_step e fd str = call_step (SWrite fd (te_sig e) (te_write_al e) (text_of str) (length str)) ''write'' (\<lambda>r. SWrote (count_of r))"

definition read_step :: "tool_env \<Rightarrow> nat \<Rightarrow> int \<Rightarrow> tool_step" where
  "read_step e fd n s =
     (if \<not> te_malloc e then Inr (False, [SNoMemory], s)
      else call_step (SRead fd (te_sig e) (te_read_al e) (nat n + 1) (nat n)) ''read'' (\<lambda>r. SReadBytes (bytes_of r)) s)"

definition tool_steps :: "tool_env \<Rightarrow> tool_opts \<Rightarrow> nat \<Rightarrow> tool_step list" where
  "tool_steps e t fd =
     [if_set (to_reset t) (call_step (SIoctl fd (int_env e 0) SCULL_IOCRESET 0) ''ioctl(SCULL_IOCRESET)'' (\<lambda>_. SReset)),
      if_some (to_set_quantum t) (set_step e fd SCULL_IOCSQUANTUM ''ioctl(SCULL_IOCSQUANTUM)'' SSetQuantum),
      if_set (to_get_quantum t) (get_step e fd SCULL_IOCGQUANTUM ''ioctl(SCULL_IOCGQUANTUM)'' SQuantum),
      if_some (to_set_qset t) (set_step e fd SCULL_IOCSQSET ''ioctl(SCULL_IOCSQSET)'' SSetQset),
      if_set (to_get_qset t) (get_step e fd SCULL_IOCGQSET ''ioctl(SCULL_IOCGQSET)'' SQset),
      if_some (to_seek t) (\<lambda>(off, whence). call_step (SSeek fd off whence) ''lseek'' (\<lambda>r. SSeeked (pos_of r))),
      if_some (to_write t) (write_step e fd),
      if_set (0 \<le> to_read t) (read_step e fd (to_read t))]"

fun run_steps :: "tool_step list \<Rightarrow> tool_step" where
  "run_steps [] s = Inr (True, [], s)"
| "run_steps (p # ps) s = (case p s of Inl x \<Rightarrow> Inl x
     | Inr (False, out, s1) \<Rightarrow> Inr (False, out, s1)
     | Inr (True, out, s1) \<Rightarrow> (case run_steps ps s1 of Inl x \<Rightarrow> Inl x | Inr (go, out2, s2) \<Rightarrow> Inr (go, out @ out2, s2)))"

text \<open>The exit status, the lines printed, the devices.  The end of the process closes its file.\<close>

definition test_scull_main :: "tool_env \<Rightarrow> (int \<times> string) list \<Rightarrow> scull_sys \<Rightarrow> (int \<times> sline list \<times> scull_sys) run" where
  "test_scull_main e args s =
     (case parse_opts args default_opts of Inl (status, out) \<Rightarrow> Inr (status, [out], s)
      | Inr t \<Rightarrow> (case te_dev e (to_dev t) of Inl err \<Rightarrow> Inr (1, [SDie ''open'' err], s)
      | Inr i \<Rightarrow> (case scull_fops (SOpen i (open_flags t) (te_sig e)) s of Inl x \<Rightarrow> Inl x
          | Inr (RFd fd, s1) \<Rightarrow> (case run_steps (tool_steps e t fd) s1 of Inl x \<Rightarrow> Inl x
              | Inr (go, out, s2) \<Rightarrow> (case scull_fops (SClose fd) s2 of Inl x \<Rightarrow> Inl x
                  | Inr (_, s3) \<Rightarrow> Inr (if go then 0 else 1, out, s3)))
          | Inr (RErr err, s1) \<Rightarrow> Inr (1, [SDie ''open'' err], s1)
          | Inr (_, s1) \<Rightarrow> Inr (1, [], s1))))"

subsection \<open>The calls of one run\<close>

text \<open>The devices with the file of the program open: on device \<open>i\<close>, at \<open>pos\<close>.\<close>

definition opened :: "scull_sys \<Rightarrow> nat \<Rightarrow> nat \<Rightarrow> int \<Rightarrow> scull_dev \<Rightarrow> scull_sys" where
  "opened s i flags pos d = s\<lparr>ss_devs := (ss_devs s)[i := d], ss_files := ss_files s @ [Some \<lparr>sf_dev = i, sf_flags = flags, sf_pos = pos\<rparr>]\<rparr>"

definition closed :: "scull_sys \<Rightarrow> nat \<Rightarrow> scull_dev \<Rightarrow> scull_sys" where
  "closed s i d = s\<lparr>ss_devs := (ss_devs s)[i := d], ss_files := ss_files s @ [None]\<rparr>"

lemma opened_file [simp]: "file_of (opened s i flags pos d) (length (ss_files s)) = Some \<lparr>sf_dev = i, sf_flags = flags, sf_pos = pos\<rparr>"
  by (simp add: file_of_def opened_def)

lemma opened_dev [simp]: "i < length (ss_devs s) \<Longrightarrow> ss_devs (opened s i flags pos d) ! i = d"
  by (simp add: opened_def)

lemma opened_next:
  "set_file (length (ss_files s)) (Some \<lparr>sf_dev = i, sf_flags = flags, sf_pos = pos'\<rparr>) (set_dev i d' (opened s i flags pos d)) = opened s i flags pos' d'"
  by (simp add: set_file_def set_dev_def opened_def)

lemma opened_close:
  "i < length (ss_devs s) \<Longrightarrow> scull_fops (SClose (length (ss_files s))) (opened s i flags pos d) = Inr (RDone, closed s i d)"
  by (simp add: scull_fops_def scull_sys_close_def scull_release_def) (simp add: set_file_def set_dev_def opened_def closed_def)

lemma open_file:
  "i < length (ss_devs s) \<Longrightarrow> \<not> write_only flags \<Longrightarrow>
    scull_fops (SOpen i flags sig) s = Inr (RFd (length (ss_files s)), opened s i flags 0 (ss_devs s ! i))"
  by (simp add: scull_fops_def scull_sys_open_def scull_open_def scull_open_gen_def set_dev_def opened_def)

lemma seek_start:
  "i < length (ss_devs s) \<Longrightarrow> call_step (SSeek (length (ss_files s)) 0 SEEK_SET) msg out (opened s i flags pos d) =
    Inr (True, [out (RPos 0)], opened s i flags 0 d)"
  using opened_next [of s i flags 0 d pos d]
  by (simp add: call_step_def scull_fops_def scull_sys_seek_def scull_llseek_def SEEK_SET_def s64_def)
    (simp add: set_file_def set_dev_def opened_def)

lemma write_file:
  assumes "i < length (ss_devs s)" and "flags AND O_ACCMODE \<noteq> 0" and "int n \<le> MAX_RW_COUNT"
    and "scull_write sig al bs n pos d = Inr (Inr k, pos', d')"
  shows "call_step (SWrite (length (ss_files s)) sig al bs n) msg out (opened s i flags pos d) =
    Inr (True, [out (RCount k)], opened s i flags pos' d')"
proof -
  have "rw_count n = n" using assms(3) by (simp add: rw_count_def)
  then show ?thesis using assms opened_next [of s i flags pos' d' pos d]
    by (simp add: call_step_def scull_fops_def scull_sys_write_def may_write_def)
qed

lemma read_file:
  assumes "i < length (ss_devs s)" and "flags AND O_ACCMODE \<noteq> O_WRONLY" and "int n \<le> MAX_RW_COUNT"
    and "scull_read sig al ulen n pos d = Inr (Inr bs, pos', d')"
  shows "call_step (SRead (length (ss_files s)) sig al ulen n) msg out (opened s i flags pos d) =
    Inr (True, [out (RBytes bs)], opened s i flags pos' d')"
proof -
  have "rw_count n = n" using assms(3) by (simp add: rw_count_def)
  then show ?thesis using assms opened_next [of s i flags pos' d' pos d]
    by (simp add: call_step_def scull_fops_def scull_sys_read_def may_read_def)
qed

lemma flags_ok: "O_RDWR AND O_ACCMODE \<noteq> 0" "O_RDWR AND O_ACCMODE \<noteq> O_WRONLY" "(0 :: nat) AND O_ACCMODE \<noteq> O_WRONLY"
    "\<not> write_only O_RDWR" "\<not> write_only 0"
  by (simp_all add: O_RDWR_def O_ACCMODE_def O_WRONLY_def write_only_def)

subsection \<open>The first bytes of a device\<close>

text \<open>A write of one quantum at most to the start of a device stores all of its bytes.\<close>

lemma write_start:
  assumes d: "dev_ok d" and n: "bs \<noteq> []" "int (length bs) \<le> sd_quantum d"
  shows "\<exists>d'. scull_write False [] bs (length bs) 0 d = Inr (Inr (length bs), int (length bs), d') \<and> dev_ok d' \<and>
    sd_size d' = max (sd_size d) (length bs) \<and> sd_quantum d' = sd_quantum d \<and>
    (\<forall>al ulen. length bs \<le> ulen \<longrightarrow> (\<exists>d''. scull_read False al ulen (length bs) 0 d' = Inr (Inr bs, int (length bs), d'')))"
proof -
  have wf: "scull_wf d" and sem: "0 < sd_sem d" using d by (simp_all add: dev_ok_def)
  have q: "0 < sd_quantum d * sd_qset d" "sd_quantum d \<le> sd_quantum d * sd_qset d" using wf by (auto simp: scull_wf_def)
  have "int (length bs) < 2 ^ 31" using order_trans [OF n(2) q(2)] wf by (simp add: scull_wf_def)
  then have cnt: "length bs < 2 ^ 62" by simp
  have pos: "pos_ok d 0" using q by (simp add: pos_ok_def)
  have k: "write_count d (length bs) 0 = length bs" using n by (simp add: write_count_def slot_off_def nat_le_iff)
  from scull.write_correct [OF wf pos sem cnt TrueI, of "[]" bs] obtain r pos' d'
    where w: "scull_write False [] bs (length bs) 0 d = Inr (r, pos', d')" and eff: "write_effect bs (length bs) 0 d r pos' d'"
    by (auto simp: scull_write_def)
  have "r \<noteq> Inl ENOMEM" using write_ok [OF d pos, of "length bs" False bs] cnt w by auto
  then have r: "r = Inr (length bs)" "pos' = int (length bs)" "sd_size d' = max (sd_size d) (length bs)" "sd_quantum d' = sd_quantum d"
    using eff k by (auto simp: write_effect_def write_delta_def same_geometry_def)
  have "dev_ok d'" using write_ok [OF d pos, of "length bs" False bs] cnt w by auto
  moreover have "\<exists>d''. scull_read False al ulen (length bs) 0 d' = Inr (Inr bs, int (length bs), d'')" if u: "length bs \<le> ulen" for al ulen
  proof -
    have "scull_read False al (length bs) (length bs) 0 d' = Inr (Inr (take (length bs) bs), 0 + int (length bs), d'') \<Longrightarrow>
        scull_read False al ulen (length bs) 0 d' = Inr (Inr bs, int (length bs), d'')" for d''
      using u by (auto simp: scull_read_def read_quantum_def Let_def split: sum.splits prod.splits option.splits if_splits)
    then show ?thesis using scull.read_after_write_gen [OF wf pos sem cnt TrueI] w r n(1) unfolding scull_write_def by blast
  qed
  ultimately show ?thesis using w r by blast
qed

text \<open>Behind its end a device has nothing to read.\<close>

lemma read_end:
  assumes "dev_ok d" and "int (sd_size d) \<le> pos" "pos < 2 ^ 63"
  shows "scull_read False al ulen count pos d = Inr (Inr [], pos, d)"
  using assms by (auto simp: scull_read_def Let_def u64_id dev_ok_def sem_up_down)

subsection \<open>Runs of the program\<close>

lemma tool_numbers: "strtol ''0'' = (0, 1, False)" "parse_seek_arg ''0'' = Inr (0, SEEK_SET)"
  by (simp_all add: strtol_def parse_seek_arg_def isspace_def code_def starts_hex_def digits_def digit_val_def digits_val_def)

lemmas tool_defs = test_scull_main_def tool_steps_def if_set_def if_some_def default_opts_def open_flags_def need_write_def
  write_step_def read_step_def tool_numbers

text \<open>C?: what one run of the program writes, a later run reads back: \<open>--write w\<close> and then \<open>--seek 0 --read n\<close>
  with the length of \<open>w\<close>, on any device whose quantum holds \<open>w\<close>.  This is the round trip of the smoke
  test of the driver.\<close>

lemma test_scull_smoke:
  assumes ok: "sys_ok s" and dev: "te_dev e ''/dev/scull0'' = Inr i" "i < length (ss_devs s)"
    and env: "\<not> te_sig e" "te_write_al e = []" "te_malloc e"
    and w: "w \<noteq> []" "int (length w) \<le> sd_quantum (ss_devs s ! i)" "int (length w) \<le> MAX_RW_COUNT"
    and num: "fst (strtol num) = int (length w)"
  shows "\<exists>s1 s2. test_scull_main e [(6, w)] s = Inr (0, [SWrote (length w)], s1) \<and>
    test_scull_main e [(8, ''0''), (7, num)] s1 = Inr (0, [SSeeked 0, SReadBytes (text_of w)], s2)"
proof -
  have d: "dev_ok (ss_devs s ! i)" using ok dev(2) by (simp add: sys_ok_def)
  have t: "text_of w \<noteq> []" "length (text_of w) = length w" using w(1) by (simp_all add: text_of_def)
  from write_start [OF d t(1)] w(2) t(2) obtain d1 d2
    where w1: "scull_write False [] (text_of w) (length w) 0 (ss_devs s ! i) = Inr (Inr (length w), int (length w), d1)"
      and r1: "scull_read False (te_read_al e) (length w + 1) (length w) 0 d1 = Inr (Inr (text_of w), int (length w), d2)"
    by fastforce
  define s1 where "s1 = closed s i d1"
  have i1: "i < length (ss_devs s1)" "ss_devs s1 ! i = d1" using dev(2) by (simp_all add: s1_def closed_def)
  have "test_scull_main e [(6, w)] s = Inr (0, [SWrote (length w)], s1)"
    using dev env open_file [OF dev(2) flags_ok(4), of False] write_file [OF dev(2) flags_ok(1) w(3) w1] opened_close [OF dev(2)]
    by (simp add: tool_defs count_of_def s1_def)
  moreover have "test_scull_main e [(8, ''0''), (7, num)] s1 =
      Inr (0, [SSeeked 0, SReadBytes (text_of w)], closed s1 i d2)"
    using dev(1) env num open_file [OF i1(1) flags_ok(5), of False] seek_start [OF i1(1)] read_file [OF i1(1) flags_ok(3) w(3) r1]
      opened_close [OF i1(1)] i1(2)
    by (simp add: tool_defs O_RDWR_def O_TRUNC_def O_APPEND_def pos_of_def bytes_of_def)
  ultimately show ?thesis by blast
qed

definition example_tool :: tool_env where
  "example_tool = \<lparr>te_dev = (\<lambda>_. Inr 0), te_sig = False, te_write_al = [], te_read_al = [], te_cap = False, te_malloc = True\<rparr>"

lemma test_scull_smoke_witness:
  "\<exists>s1 s2. test_scull_main example_tool [(6, ''hey'')] example_sys = Inr (0, [SWrote 3], s1) \<and>
     test_scull_main example_tool [(8, ''0''), (7, ''3'')] s1 = Inr (0, [SSeeked 0, SReadBytes [104, 101, 121]], s2)"
proof -
  have n: "fst (strtol ''3'') = int (length ''hey'')"
    by (simp add: strtol_def isspace_def code_def starts_hex_def digits_def digit_val_def digits_val_def)
  have b: "text_of ''hey'' = [104, 101, 121]" "length ''hey'' = 3" by (simp_all add: text_of_def)
  show ?thesis
    using test_scull_smoke [OF example_sys_ok _ _ _ _ _ _ _ _ n, of example_tool 0, unfolded b]
    by (simp add: example_tool_def example_sys_def example_dev_def MAX_RW_COUNT_def)
qed

text \<open>In one run the calls keep their order whatever the order of the options: the seek comes before the
  write, so that the read of the example in the program's first lines starts behind what was written.\<close>

lemma test_scull_usage:
  assumes ok: "sys_ok s" and dev: "te_dev e ''/dev/scull0'' = Inr i" "i < length (ss_devs s)"
    and env: "\<not> te_sig e" "te_write_al e = []" "te_malloc e"
    and w: "w \<noteq> []" "int (length w) \<le> sd_quantum (ss_devs s ! i)" "int (length w) \<le> MAX_RW_COUNT"
    and small: "sd_size (ss_devs s ! i) \<le> length w" and num: "fst (strtol num) = int n" "int n \<le> MAX_RW_COUNT"
  shows "\<exists>s1. test_scull_main e [(6, w), (8, ''0''), (7, num)] s = Inr (0, [SSeeked 0, SWrote (length w), SReadBytes []], s1)"
proof -
  have d: "dev_ok (ss_devs s ! i)" using ok dev(2) by (simp add: sys_ok_def)
  have t: "text_of w \<noteq> []" "length (text_of w) = length w" using w(1) by (simp_all add: text_of_def)
  from write_start [OF d t(1)] w(2) t(2) small obtain d1
    where w1: "scull_write False [] (text_of w) (length w) 0 (ss_devs s ! i) = Inr (Inr (length w), int (length w), d1)"
      and d1: "dev_ok d1" "sd_size d1 = length w"
    by fastforce
  have "int (length w) < 2 ^ 63" using w(3) by (simp add: MAX_RW_COUNT_def)
  from read_end [OF d1(1) _ this] d1(2) have r1: "scull_read False (te_read_al e) (n + 1) n (int (length w)) d1 = Inr (Inr [], int (length w), d1)"
    by simp
  have "test_scull_main e [(6, w), (8, ''0''), (7, num)] s = Inr (0, [SSeeked 0, SWrote (length w), SReadBytes []], closed s i d1)"
    using dev env num open_file [OF dev(2) flags_ok(4), of False] seek_start [OF dev(2)] write_file [OF dev(2) flags_ok(1) w(3) w1]
      read_file [OF dev(2) flags_ok(2) num(2) r1] opened_close [OF dev(2)]
    by (simp add: tool_defs pos_of_def count_of_def bytes_of_def)
  then show ?thesis by blast
qed

text \<open>The reset always ends the program, although the driver has done it.\<close>

lemma test_scull_reset:
  assumes dev: "te_dev e ''/dev/scull0'' = Inr i" "i < length (ss_devs s)"
  shows "\<exists>s1. test_scull_main e [(1, arg)] s = Inr (1, [SDie ''ioctl(SCULL_IOCRESET)'' EINVAL], s1) \<and>
    ss_glob s1 = \<lparr>g_quantum = SCULL_QUANTUM, g_qset = SCULL_QSET\<rparr>"
proof -
  define s' where "s' = s\<lparr>ss_glob := (ss_glob s)\<lparr>g_qset := SCULL_QSET, g_quantum := SCULL_QUANTUM\<rparr>\<rparr>"
  have s': "i < length (ss_devs s')" "length (ss_files s') = length (ss_files s)" using dev(2) by (simp_all add: s'_def)
  have "call_step (SIoctl (length (ss_files s)) (int_env e 0) SCULL_IOCRESET 0) msg out (opened s i O_RDWR 0 (ss_devs s ! i)) =
      Inr (False, [SDie msg EINVAL], opened s' i O_RDWR 0 (ss_devs s ! i))" for msg out
    by (simp add: call_step_def scull_fops_def scull_sys_ioctl_def ioctl_set_qset) (simp add: opened_def s'_def)
  then have "test_scull_main e [(1, arg)] s = Inr (1, [SDie ''ioctl(SCULL_IOCRESET)'' EINVAL], closed s' i (ss_devs s ! i))"
    using dev(1) open_file [OF dev(2) flags_ok(4), of "te_sig e"] opened_close [OF s'(1), of O_RDWR 0 "ss_devs s ! i"]
    by (simp add: tool_defs s'(2))
  then show ?thesis by (simp add: closed_def s'_def)
qed

end
