(* ===== verification/ScullvTest.thy ===== *)
theory ScullvTest
  imports ScullVariants
begin

text \<open>
  The test program of the scullv device with mmap (\<open>ch15_mmap_dma/scullv_test.c\<close>): one process, and a
  child of it, on one device.  A load or store in a mapping goes through the page fault handler of
  the driver to the quantum whose page it installs.  The texts printed are cut to a key word.
\<close>

subsection \<open>Loads and stores in a mapping\<close>

datatype signal = SIGBUS | SIGSEGV

text \<open>
  The mapping has \<open>pages\<close> pages and the offset 0 in the file.  The kernel gives the handler the
  address of the page; what it installs does not change as long as the mapping exists, so every
  access asks for it again.
\<close>

definition map_page :: "nat \<Rightarrow> nat \<Rightarrow> scull_dev \<Rightarrow> (signal + nat \<times> nat) run" where
  "map_page pages off d =
     (if pages * PAGE_SIZE \<le> off then Inr (Inl SIGSEGV)
      else case no_page_fault (off - off mod PAGE_SIZE) 0 0 d of Inl x \<Rightarrow> Inl x
        | Inr (_, None, _) \<Rightarrow> Inr (Inl SIGBUS) | Inr (_, Some loc, _) \<Rightarrow> Inr (Inr loc))"

definition set_byte :: "nat \<times> nat \<Rightarrow> nat \<Rightarrow> byte \<Rightarrow> scull_dev \<Rightarrow> scull_dev" where
  "set_byte loc i b d = (case (loc, quanta (sd_data d) loc) of
     ((k, s), Some q) \<Rightarrow> (case qs_data (sd_data d ! k) of
        Some arr \<Rightarrow> set_qset_data k (arr[s := Some (q[i := b])]) d | None \<Rightarrow> d)
   | (_, None) \<Rightarrow> d)"

fun map_load :: "nat \<Rightarrow> nat \<Rightarrow> nat \<Rightarrow> scull_dev \<Rightarrow> (signal + byte list) run" where
  "map_load pages off 0 d = Inr (Inr [])"
| "map_load pages off (Suc n) d = (case map_page pages off d of Inl x \<Rightarrow> Inl x | Inr (Inl sg) \<Rightarrow> Inr (Inl sg)
     | Inr (Inr loc) \<Rightarrow> (case quanta (sd_data d) loc of None \<Rightarrow> Inl NullDeref
         | Some q \<Rightarrow> (if length q \<le> off mod PAGE_SIZE then Inl OutOfBounds
             else case map_load pages (Suc off) n d of Inl x \<Rightarrow> Inl x | Inr (Inl sg) \<Rightarrow> Inr (Inl sg)
               | Inr (Inr bs) \<Rightarrow> Inr (Inr (q ! (off mod PAGE_SIZE) # bs)))))"

fun map_store :: "nat \<Rightarrow> nat \<Rightarrow> byte list \<Rightarrow> scull_dev \<Rightarrow> (signal option \<times> scull_dev) run" where
  "map_store pages off [] d = Inr (None, d)"
| "map_store pages off (b # bs) d = (case map_page pages off d of Inl x \<Rightarrow> Inl x | Inr (Inl sg) \<Rightarrow> Inr (Some sg, d)
     | Inr (Inr loc) \<Rightarrow> (case quanta (sd_data d) loc of None \<Rightarrow> Inl NullDeref
         | Some q \<Rightarrow> (if length q \<le> off mod PAGE_SIZE then Inl OutOfBounds
             else map_store pages (Suc off) bs (set_byte loc (off mod PAGE_SIZE) b d))))"

subsection \<open>The program\<close>

datatype vline = VDie string errno | VShort string nat | VWrote | VSeen "byte list" | VMatch | VDiffers
  | VRead "byte list" | VVisible | VNotVisible | VInitial "byte list" | VChild "byte list" | VParent "byte list" | VNoSigbus

datatype vend = VGoOn | VExit int | VKilled signal

text \<open>
  What the kernel answers: a pending signal, the allocations of the write of each test, the creation
  of a mapping and of a child.  \<open>ve_touch\<close>: the compiler keeps a load whose value is not used;
  \<open>ve_behind\<close>: other memory is mapped right behind the mapping.
\<close>

record vtest_env =
  ve_open :: "unit res"
  ve_sig :: bool
  ve_al :: "nat \<Rightarrow> bool list"
  ve_mmap :: "unit res"
  ve_fork :: "unit res"
  ve_touch :: bool
  ve_behind :: bool

type_synonym vtest = "(vend \<times> vline list \<times> scull_dev) run"

text \<open>
  The calls all tests begin with: back to the start, a write, a mapping of \<open>len\<close> bytes.  \<open>lseek\<close> to 0
  always succeeds.
\<close>

definition start_test :: "vtest_env \<Rightarrow> nat \<Rightarrow> byte list \<Rightarrow> (nat res \<Rightarrow> (vend \<times> vline list) option) \<Rightarrow>
    (scull_dev \<Rightarrow> vtest) \<Rightarrow> scull_dev \<Rightarrow> vtest" where
  "start_test e k msg bad go d =
     (case scullm_write (ve_sig e) (ve_al e k) msg (length msg) (snd (scullm_llseek d 0 0 SEEK_SET)) d of Inl x \<Rightarrow> Inl x
      | Inr (r, _, d1) \<Rightarrow> (case bad r of Some (w, out) \<Rightarrow> Inr (w, out, d1)
          | None \<Rightarrow> (case ve_mmap e of Inl err \<Rightarrow> Inr (VExit 1, [VDie ''mmap'' err], d1)
              | Inr _ \<Rightarrow> go (snd (scullv_mmap d1)))))"

text \<open>A write that fails, or is short, ends the program; the third test reports both in the same way.\<close>

definition write_check :: "nat \<Rightarrow> nat res \<Rightarrow> (vend \<times> vline list) option" where
  "write_check len r = (case r of Inl err \<Rightarrow> Some (VExit 1, [VDie ''write'' err])
     | Inr n \<Rightarrow> if n \<noteq> len then Some (VExit 1, [VShort ''write'' n]) else None)"

definition basic_msg :: "byte list" where "basic_msg = text_of ''hello from write() into scullv'' @ [10]"
definition fork_msg :: "byte list" where "fork_msg = text_of ''fork-sharing-test'' @ [10]"
definition child_msg :: "byte list" where "child_msg = text_of ''CHILD'' @ [10]"
definition short_msg :: "byte list" where "short_msg = text_of ''short'' @ [10]"
definition patch :: "byte list" where "patch = text_of ''MMAP!''"

text \<open>Each test is given by what it does once the memory is mapped.\<close>

definition basic_mapped :: "vtest_env \<Rightarrow> nat \<Rightarrow> scull_dev \<Rightarrow> vtest" where
  "basic_mapped e len d1 = (case map_load 1 0 len d1 of Inl x \<Rightarrow> Inl x
     | Inr (Inl sg) \<Rightarrow> Inr (VKilled sg, [VWrote], d1)
     | Inr (Inr seen) \<Rightarrow>
        (if seen \<noteq> basic_msg then Inr (VExit 1, [VWrote, VSeen seen, VDiffers], scullv_vma_close d1)
         else case map_store 1 0 patch d1 of Inl x \<Rightarrow> Inl x
         | Inr (Some sg, d2) \<Rightarrow> Inr (VKilled sg, [VWrote, VSeen seen, VMatch], d2)
         | Inr (None, d2) \<Rightarrow> (case scullm_read (ve_sig e) [] 256 256 (snd (scullm_llseek d2 (int len) 0 SEEK_SET)) d2 of Inl x \<Rightarrow> Inl x
             | Inr (Inl err, _, d3) \<Rightarrow> Inr (VExit 1, [VWrote, VSeen seen, VMatch, VDie ''read'' err], d3)
             | Inr (Inr buf, _, d3) \<Rightarrow> Inr (VGoOn, [VWrote, VSeen seen, VMatch, VRead buf,
                 if take (length patch) (buf @ replicate (256 - length buf) 0) = patch then VVisible else VNotVisible],
                 scullv_vma_close d3))))"

definition test_basic_mmap :: "vtest_env \<Rightarrow> scull_dev \<Rightarrow> vtest" where
  "test_basic_mmap e = (let len = length basic_msg in start_test e 0 basic_msg (write_check len) (basic_mapped e len))"

text \<open>The child inherits the mapping, which opens it once more, and closes it when it ends.\<close>

definition fork_mapped :: "vtest_env \<Rightarrow> nat \<Rightarrow> scull_dev \<Rightarrow> vtest" where
  "fork_mapped e len d1 = (case map_load 1 0 len d1 of Inl x \<Rightarrow> Inl x
     | Inr (Inl sg) \<Rightarrow> Inr (VKilled sg, [], d1)
     | Inr (Inr seen) \<Rightarrow> (case ve_fork e of Inl err \<Rightarrow> Inr (VExit 1, [VInitial seen, VDie ''fork'' err], d1)
     | Inr _ \<Rightarrow> (case map_store 1 0 child_msg (scullv_vma_open d1) of Inl x \<Rightarrow> Inl x
     | Inr (sg, d2) \<Rightarrow> (case (if sg = None then map_load 1 0 len d2 else Inr (Inr [])) of Inl x \<Rightarrow> Inl x
     | Inr now \<Rightarrow> (let d3 = scullv_vma_close d2;
           out = [VInitial seen] @ (case (sg, now) of (None, Inr bs) \<Rightarrow> [VChild bs] | _ \<Rightarrow> []) in
         case map_load 1 0 len d3 of Inl x \<Rightarrow> Inl x
         | Inr (Inl sg2) \<Rightarrow> Inr (VKilled sg2, out, d3)
         | Inr (Inr bs) \<Rightarrow> Inr (VGoOn, out @ [VParent bs], scullv_vma_close d3))))))"

definition test_fork_sharing :: "vtest_env \<Rightarrow> scull_dev \<Rightarrow> vtest" where
  "test_fork_sharing e = (let len = length fork_msg in start_test e 1 fork_msg (write_check len) (fork_mapped e len))"

text \<open>
  The two loads behind the cast to \<open>void\<close>; the handler of \<open>SIGBUS\<close> ends the program with status 1.
\<close>

definition touch :: "vtest_env \<Rightarrow> nat \<Rightarrow> scull_dev \<Rightarrow> (signal option) run" where
  "touch e off d = (if \<not> ve_touch e then Inr None
     else if PAGE_SIZE \<le> off \<and> ve_behind e then Inr None
     else case map_load 1 off 1 d of Inl x \<Rightarrow> Inl x | Inr (Inl sg) \<Rightarrow> Inr (Some sg) | Inr (Inr _) \<Rightarrow> Inr None)"

definition sigbus_handler :: "signal \<Rightarrow> vend" where
  "sigbus_handler sg = (if sg = SIGBUS then VExit 1 else VKilled sg)"

definition sigbus_mapped :: "vtest_env \<Rightarrow> nat \<Rightarrow> scull_dev \<Rightarrow> vtest" where
  "sigbus_mapped e len d1 = (case touch e (len - 1) d1 of Inl x \<Rightarrow> Inl x
     | Inr (Some sg) \<Rightarrow> Inr (sigbus_handler sg, [], d1)
     | Inr None \<Rightarrow> (case touch e (len + 4090) d1 of Inl x \<Rightarrow> Inl x
         | Inr (Some sg) \<Rightarrow> Inr (sigbus_handler sg, [], d1)
         | Inr None \<Rightarrow> Inr (VGoOn, [VNoSigbus], scullv_vma_close d1)))"

definition test_sigbus_beyond_size :: "vtest_env \<Rightarrow> scull_dev \<Rightarrow> vtest" where
  "test_sigbus_beyond_size e = (let len = length short_msg in
     start_test e 2 short_msg (write_check len) (sigbus_mapped e len))"

fun run_tests :: "(scull_dev \<Rightarrow> vtest) list \<Rightarrow> scull_dev \<Rightarrow> vtest" where
  "run_tests [] d = Inr (VExit 0, [], d)"
| "run_tests (t # ts) d = (case t d of Inl x \<Rightarrow> Inl x
     | Inr (VGoOn, out, d1) \<Rightarrow> (case run_tests ts d1 of Inl x \<Rightarrow> Inl x | Inr (w, out2, d2) \<Rightarrow> Inr (w, out @ out2, d2))
     | Inr (w, out, d1) \<Rightarrow> Inr (w, out, d1))"

text \<open>An open for reading and writing changes nothing.  The end of the process closes the mappings that are left.\<close>

definition exit_process :: "scull_dev \<Rightarrow> scull_dev \<Rightarrow> scull_dev" where
  "exit_process d d1 = (scullv_vma_close ^^ nat (sd_vmas d1 - sd_vmas d)) d1"

definition scullv_test_main :: "vtest_env \<Rightarrow> scull_dev \<Rightarrow> vtest" where
  "scullv_test_main e d = (case ve_open e of Inl err \<Rightarrow> Inr (VExit 1, [VDie ''open'' err], d)
     | Inr _ \<Rightarrow> (case run_tests [test_basic_mmap e, test_fork_sharing e, test_sigbus_beyond_size e] d of Inl x \<Rightarrow> Inl x
         | Inr (w, out, d1) \<Rightarrow> Inr (w, out, exit_process d d1)))"

subsection \<open>The first page of a device\<close>

text \<open>Bytes are in the first quantum, which is \<open>q\<close> and holds a page at least.\<close>

definition first_page :: "scull_dev \<Rightarrow> byte list \<Rightarrow> bool" where
  "first_page d q \<longleftrightarrow> scull_wf d \<and> 0 < sd_sem d \<and> 4096 \<le> sd_quantum d \<and> quanta (sd_data d) (0, 0) = Some q \<and> 0 < sd_size d"

definition vframe :: "scull_dev \<Rightarrow> scull_dev \<Rightarrow> bool" where
  "vframe d d' \<longleftrightarrow> sd_size d' = sd_size d \<and> sd_quantum d' = sd_quantum d \<and> sd_qset d' = sd_qset d \<and> sd_vmas d' = sd_vmas d"

lemma first_page_length:
  assumes "first_page d q"
  shows "4096 \<le> length q"
proof -
  have "nat (sd_quantum d) \<le> length q" using assms wf_quanta_len(1) [of d 0 0 q] by (simp add: first_page_def)
  moreover have "4096 \<le> nat (sd_quantum d)" using assms nat_mono [of 4096 "sd_quantum d"] by (simp add: first_page_def)
  ultimately show ?thesis by linarith
qed

lemma first_page_node:
  assumes "first_page d q"
  obtains arr ns where "sd_data d = QSet (Some arr) # ns" "length arr = nat (sd_qset d)" "0 < length arr" "arr ! 0 = Some q"
proof -
  have wf: "scull_wf d" using assms by (simp add: first_page_def)
  obtain n ns where n: "sd_data d = n # ns" using assms by (cases "sd_data d") (auto simp: first_page_def)
  then obtain arr where arr: "n = QSet (Some arr)" "0 < length arr" "arr ! 0 = Some q"
    using assms by (cases n) (auto simp: first_page_def quanta_def split: if_splits option.splits)
  have "wf_qset (sd_quantum d) (sd_qset d) n" using wf n by (simp add: scull_wf_def)
  then have "length arr = nat (sd_qset d)" by (simp add: wf_qset_def arr(1))
  with that n arr show thesis by blast
qed

lemma qset_small: "scull_wf d \<Longrightarrow> 0 < sd_qset d \<and> sd_qset d < 2 ^ 31"
proof -
  assume wf: "scull_wf d"
  then have "1 * sd_qset d \<le> sd_quantum d * sd_qset d" by (intro mult_right_mono) (auto simp: scull_wf_def)
  then show ?thesis using wf unfolding scull_wf_def by linarith
qed

lemma map_first_page:
  assumes p: "first_page d q" and off: "off < 4096"
  shows "map_page 1 off d = Inr (Inr (0, 0))"
proof -
  obtain arr ns where n: "sd_data d = QSet (Some arr) # ns" "0 < length arr" "arr ! 0 = Some q" using first_page_node [OF p] by blast
  have qs: "0 < sd_qset d" "u32 (sd_qset d) = sd_qset d" using qset_small [of d] p by (simp_all add: first_page_def u32_id)
  have "no_page_fault 0 0 0 d = Inr (VM_FAULT_NOPAGE, Some (0, 0), sem_up (sem_down d))"
    using p n qs by (simp add: no_page_fault_def first_page_def u32_def u64_def sem_down_def)
  then show ?thesis using off by (simp add: map_page_def PAGE_SIZE_eq)
qed

lemma load_first_page:
  assumes p: "first_page d q"
  shows "off + n \<le> 4096 \<Longrightarrow> map_load 1 off n d = Inr (Inr (take n (drop off q)))"
proof (induction n arbitrary: off)
  case (Suc n)
  have q: "quanta (sd_data d) (0, 0) = Some q" "4096 \<le> length q" using p first_page_length [OF p] by (simp_all add: first_page_def)
  then have "drop off q = q ! off # drop (Suc off) q" using Suc.prems by (simp add: Cons_nth_drop_Suc)
  then show ?case using Suc map_first_page [OF p, of off] q by (simp add: PAGE_SIZE_eq)
qed simp

lemma set_first_page:
  assumes p: "first_page d q" and i: "i < length q"
  shows "first_page (set_byte (0, 0) i b d) (q[i := b]) \<and> vframe d (set_byte (0, 0) i b d)"
proof -
  obtain arr ns where n: "sd_data d = QSet (Some arr) # ns" "length arr = nat (sd_qset d)" "0 < length arr" "arr ! 0 = Some q"
    using first_page_node [OF p] by blast
  have q: "quanta (sd_data d) (0, 0) = Some q" using p by (simp add: first_page_def)
  have s: "set_byte (0, 0) i b d = d\<lparr>sd_data := QSet (Some (arr[0 := Some (q[i := b])])) # ns\<rparr>"
    by (simp add: set_byte_def q) (simp add: n set_qset_data_def)
  have wf: "scull_wf d" using p by (simp add: first_page_def)
  have len: "nat (sd_quantum d) \<le> length q" using wf_quanta_len(1) [OF wf q] .
  have "wf_qset (sd_quantum d) (sd_qset d) (QSet (Some arr))" using wf n(1) by (simp add: scull_wf_def)
  then have "wf_qset (sd_quantum d) (sd_qset d) (QSet (Some (arr[0 := Some (q[i := b])])))"
    using len set_update_subset_insert [of arr 0 "Some (q[i := b])"] by (auto simp: wf_qset_def split: option.splits)
  then have "scull_wf (set_byte (0, 0) i b d)" using wf n(1) by (simp add: s scull_wf_def)
  then show ?thesis using p n(3) by (simp add: s first_page_def vframe_def quanta_def)
qed

lemma vframe_trans: "vframe a b \<Longrightarrow> vframe b c \<Longrightarrow> vframe a c"
  by (simp add: vframe_def)

lemma overwrite_Cons: "i < length q \<Longrightarrow> overwrite (q[i := b]) (Suc i) bs = overwrite q i (b # bs)"
  by (simp add: overwrite_def upd_conv_take_nth_drop ac_simps)

lemma store_first_page:
  "first_page d q \<Longrightarrow> off + length bs \<le> 4096 \<Longrightarrow>
    \<exists>d'. map_store 1 off bs d = Inr (None, d') \<and> first_page d' (overwrite q off bs) \<and> vframe d d'"
proof (induction bs arbitrary: off q d)
  case Nil
  then show ?case by (simp add: vframe_def)
next
  case (Cons b bs)
  have q: "quanta (sd_data d) (0, 0) = Some q" "4096 \<le> length q" using Cons.prems(1) first_page_length by (auto simp: first_page_def)
  have off: "off < length q" "off mod PAGE_SIZE = off" using Cons.prems(2) q(2) by (simp_all add: PAGE_SIZE_eq)
  note s = set_first_page [OF Cons.prems(1) off(1), of b]
  from Cons.IH [of "set_byte (0, 0) off b d" "q[off := b]" "Suc off"] s Cons.prems(2) obtain d'
    where "map_store 1 (Suc off) bs (set_byte (0, 0) off b d) = Inr (None, d')" "first_page d' (overwrite (q[off := b]) (Suc off) bs)"
      "vframe (set_byte (0, 0) off b d) d'" by auto
  moreover have "map_page 1 off d = Inr (Inr (0, 0))" using map_first_page [OF Cons.prems(1)] Cons.prems(2) by simp
  ultimately show ?case using q off s vframe_trans by (auto simp: overwrite_Cons)
qed

text \<open>The write all tests begin with.\<close>

lemma write_first_page:
  assumes wf: "scull_wf d" and sem: "0 < sd_sem d" and qu: "4096 \<le> sd_quantum d" "sd_quantum d \<le> 65536"
    and bs: "bs \<noteq> []" "length bs \<le> 4096"
  shows "\<exists>d' q. scullm_write False [] bs (length bs) 0 d = Inr (Inr (length bs), int (length bs), d') \<and>
    first_page d' q \<and> take (length bs) q = bs \<and> sd_vmas d' = sd_vmas d \<and> sd_size d' = max (sd_size d) (length bs) \<and>
    sd_quantum d' = sd_quantum d"
proof -
  have p: "0 < sd_quantum d * sd_qset d" using wf by (simp add: scull_wf_def)
  have pos: "pos_ok d 0" using p by (simp add: pos_ok_def)
  have cnt: "length bs < 2 ^ 62" using bs(2) by simp
  have k: "write_count d (length bs) 0 = length bs" "slot_off d 0 = 0" using bs(2) qu(1) by (simp_all add: write_count_def slot_off_def)
  have slot: "scull_slot d 0 = (0, 0)" by (simp add: scull_slot_def find_steps_def c_int)
  have hold: "pages_hold SCULLV_ORDER (sd_quantum d)" using qu by (simp add: pages_hold_def SCULLV_ORDER_def PAGE_SIZE_eq)
  from scullm.write_correct [OF wf pos sem cnt hold, of "[]" bs] obtain r pos' d'
    where w: "scullm_write False [] bs (length bs) 0 d = Inr (r, pos', d')" and wf': "scull_wf d'"
      and eff: "write_effect bs (length bs) 0 d r pos' d'"
    by (auto simp: scullm_write_def)
  have "r \<noteq> Inl ENOMEM" using write_gen_memory [OF wf pos] w by (auto simp: scullm_write_def scullm_alloc_quantum_def)
  then obtain q where q: "quanta (sd_data d') (0, 0) = Some (overwrite q 0 bs)"
      "r = Inr (length bs)" "pos' = int (length bs)" "sd_size d' = max (sd_size d) (length bs)" "same_geometry d d'"
    using eff k slot by (auto simp: write_effect_def write_delta_def user_bytes_def)
  have "take (length bs) (overwrite q 0 bs) = bs" by (simp add: overwrite_def)
  moreover have "first_page d' (overwrite q 0 bs)" using wf' sem qu q bs(1) by (auto simp: first_page_def same_geometry_def less_max_iff_disj)
  ultimately show ?thesis using w q by (auto simp: same_geometry_def)
qed

text \<open>A read at the start.\<close>

lemma read_first_page:
  assumes p: "first_page d q"
  shows "\<exists>k m. scullm_read False [] 256 256 0 d = Inr (Inr (take k q), int k, add_nodes m d) \<and> k = min 256 (sd_size d)"
proof -
  have wf: "scull_wf d" and sem: "0 < sd_sem d" and qu: "4096 \<le> sd_quantum d" and q: "quanta (sd_data d) (0, 0) = Some q" "0 < sd_size d"
    using p by (simp_all add: first_page_def)
  have "0 < sd_quantum d * sd_qset d" using wf by (simp add: scull_wf_def)
  then have pos: "pos_ok d 0" by (simp add: pos_ok_def)
  have slot: "scull_slot d 0 = (0, 0)" "slot_off d 0 = 0" by (simp_all add: scull_slot_def slot_off_def find_steps_def c_int)
  have k: "read_count d 256 0 = min 256 (sd_size d)" using qu slot(2) by (auto simp: read_count_def)
  from scull_read_eq [OF wf pos sem, of 256 "[]" 256] obtain m where
    "scull_read False [] 256 256 0 d = Inr (Inr (take (read_count d 256 0) q), int (read_count d 256 0), add_nodes m d)"
    using slot q k by auto
  then show ?thesis using k by (auto simp: scullm_read_def)
qed

lemma first_page_keeps:
  "first_page (add_nodes m d) q = first_page d q"
  "first_page (scullv_vma_open d) q = first_page d q"
  "first_page (scullv_vma_close d) q = first_page d q"
proof -
  show "first_page (add_nodes m d) q = first_page d q" by (simp add: first_page_def)
  show "first_page (scullv_vma_open d) q = first_page d q" "first_page (scullv_vma_close d) q = first_page d q"
    by (simp_all add: first_page_def scullv_vma_open_def scullv_vma_close_def scull_wf_def)
qed

subsection \<open>The tests on a device that works\<close>

definition vready :: "int \<Rightarrow> scull_dev \<Rightarrow> bool" where
  "vready n d \<longleftrightarrow> scull_wf d \<and> 0 < sd_sem d \<and> 4096 \<le> sd_quantum d \<and> sd_quantum d \<le> 65536 \<and> sd_vmas d = n"

definition calls_succeed :: "vtest_env \<Rightarrow> bool" where
  "calls_succeed e \<longleftrightarrow> ve_open e = Inr () \<and> \<not> ve_sig e \<and> (\<forall>k. ve_al e k = []) \<and> ve_mmap e = Inr () \<and> ve_fork e = Inr ()"

text \<open>A device with a page of known bytes at the start and \<open>n\<close> mappings.\<close>

definition vpage :: "int \<Rightarrow> scull_dev \<Rightarrow> byte list \<Rightarrow> bool" where
  "vpage n d q \<longleftrightarrow> first_page d q \<and> vready n d"

lemma vpageI: "first_page d q \<Longrightarrow> sd_quantum d \<le> 65536 \<Longrightarrow> sd_vmas d = n \<Longrightarrow> vpage n d q"
  by (simp add: vpage_def vready_def first_page_def)

lemma vpage_vma:
  assumes "vpage n d q" and "0 \<le> n" "n \<le> 2 ^ 30"
  shows "vpage (n + 1) (scullv_vma_open d) q" and "0 < n \<Longrightarrow> vpage (n - 1) (scullv_vma_close d) q"
proof -
  have "sd_vmas (scullv_vma_open d) = n + 1" "sd_quantum (scullv_vma_open d) \<le> 65536"
    using assms by (simp_all add: vpage_def vready_def scullv_vma_open_def c_int)
  then show "vpage (n + 1) (scullv_vma_open d) q" using assms(1) by (intro vpageI) (simp_all add: first_page_keeps vpage_def)
  have "sd_vmas (scullv_vma_close d) = n - 1" "sd_quantum (scullv_vma_close d) \<le> 65536" if "0 < n"
    using assms that by (simp_all add: vpage_def vready_def scullv_vma_close_def c_int)
  then show "0 < n \<Longrightarrow> vpage (n - 1) (scullv_vma_close d) q" using assms(1) by (intro vpageI) (simp_all add: first_page_keeps vpage_def)
qed

lemma start_test_ok:
  assumes e: "calls_succeed e" and d: "vready n d" "0 \<le> n" "n < 2 ^ 30" and bs: "msg \<noteq> []" "length msg \<le> 4096"
  shows "\<exists>d1 q. start_test e k msg (write_check (length msg)) go d = go d1 \<and> vpage (n + 1) d1 q \<and> take (length msg) q = msg \<and>
    length msg \<le> sd_size d1"
proof -
  have "scull_wf d" "0 < sd_sem d" "4096 \<le> sd_quantum d" "sd_quantum d \<le> 65536" "sd_vmas d = n" using d(1) by (simp_all add: vready_def)
  from write_first_page [OF this(1-4) bs] this obtain d' q where
    w: "scullm_write False [] msg (length msg) 0 d = Inr (Inr (length msg), int (length msg), d')"
      "first_page d' q" "take (length msg) q = msg" "sd_quantum d' \<le> 65536" "sd_vmas d' = n" "length msg \<le> sd_size d'" by auto
  from vpage_vma(1) [OF vpageI d(2), of d' q] d(3) w have "vpage (n + 1) (scullv_vma_open d') q" by simp
  moreover have "sd_size (scullv_vma_open d') = sd_size d'" by (simp add: scullv_vma_open_def)
  moreover have "start_test e k msg (write_check (length msg)) go d = go (scullv_vma_open d')" using w(1) e
    by (simp add: start_test_def calls_succeed_def scullm_llseek_def scull_llseek_def SEEK_SET_def write_check_def scullv_mmap_def)
  ultimately show ?thesis using w by metis
qed

lemma vpage_store:
  assumes "vpage n d q" and "length bs \<le> 4096"
  shows "\<exists>d'. map_store 1 0 bs d = Inr (None, d') \<and> vpage n d' (overwrite q 0 bs) \<and> sd_size d' = sd_size d"
proof -
  from store_first_page [of d q 0 bs] assms obtain d' where
    s: "map_store 1 0 bs d = Inr (None, d')" "first_page d' (overwrite q 0 bs)" "vframe d d'" by (auto simp: vpage_def)
  have "vpage n d' (overwrite q 0 bs)" using s assms(1) by (intro vpageI) (simp_all add: vframe_def vpage_def vready_def)
  with s show ?thesis by (auto simp: vframe_def)
qed

lemma vpage_load:
  assumes "vpage n d q"
  shows "off + k \<le> 4096 \<Longrightarrow> map_load 1 off k d = Inr (Inr (take k (drop off q)))" and "4096 \<le> length q"
  using assms load_first_page [of d q off k] first_page_length [of d q] by (simp_all add: vpage_def)

lemma take_overwrite_start:
  "length bs \<le> n \<Longrightarrow> take n (overwrite q 0 bs) = overwrite (take n q) 0 bs"
  by (simp add: overwrite_def take_drop)

lemma lengths: "length basic_msg = 31" "length fork_msg = 18" "length child_msg = 6" "length short_msg = 6" "length patch = 5"
  by (simp_all add: basic_msg_def fork_msg_def child_msg_def short_msg_def patch_def text_of_def)

lemma msgs_nonempty: "basic_msg \<noteq> []" "fork_msg \<noteq> []" "short_msg \<noteq> []"
  using lengths by auto

lemma basic_test_ok:
  assumes e: "calls_succeed e" and d: "vready n d" "0 \<le> n" "n < 2 ^ 30"
  shows "\<exists>buf d'. test_basic_mmap e d = Inr (VGoOn, [VWrote, VSeen basic_msg, VMatch, VRead buf, VVisible], d') \<and>
    vready n d' \<and> take 31 buf = overwrite basic_msg 0 patch"
proof -
  from start_test_ok [OF e d msgs_nonempty(1), of 0 "basic_mapped e 31"] obtain d1 q where
    s: "test_basic_mmap e d = basic_mapped e 31 d1" "vpage (n + 1) d1 q" "take 31 q = basic_msg" "31 \<le> sd_size d1"
    by (auto simp: test_basic_mmap_def lengths)
  note q = vpage_load [OF s(2)]
  from vpage_store [OF s(2), of patch] lengths obtain d2 where
    st: "map_store 1 0 patch d1 = Inr (None, d2)" "vpage (n + 1) d2 (overwrite q 0 patch)" "sd_size d2 = sd_size d1" by auto
  from read_first_page [of d2 "overwrite q 0 patch"] st(2) obtain k m where
    r: "scullm_read False [] 256 256 0 d2 = Inr (Inr (take k (overwrite q 0 patch)), int k, add_nodes m d2)" "k = min 256 (sd_size d2)"
    by (auto simp: vpage_def)
  have k: "31 \<le> k" using r(2) st(3) s(4) by simp
  have b: "take 31 (take k (overwrite q 0 patch)) = overwrite basic_msg 0 patch"
    using k s(3) by (simp add: take_overwrite_start lengths)
  have "take 5 (take k (overwrite q 0 patch)) = take 5 (take 31 (take k (overwrite q 0 patch)))" using k by (simp only: take_take) (simp add: min_def)
  then have "take 5 (take k (overwrite q 0 patch)) = patch" unfolding b by (simp add: overwrite_def lengths)
  moreover have "5 \<le> length (take k (overwrite q 0 patch))" using q(2) k lengths by simp
  ultimately have v: "take 5 (take k (overwrite q 0 patch) @ rest) = patch" for rest by (simp only: take_append) simp
  have "vpage (n + 1) (add_nodes m d2) (overwrite q 0 patch)" using st(2)
    by (simp add: vpage_def vready_def first_page_keeps) (simp add: add_nodes_def)
  from vpage_vma(2) [OF this] d(2,3) have c: "vready n (scullv_vma_close (add_nodes m d2))" by (simp add: vpage_def)
  have sig: "\<not> ve_sig e" using e by (simp add: calls_succeed_def)
  have "basic_mapped e 31 d1 = Inr (VGoOn, [VWrote, VSeen basic_msg, VMatch, VRead (take k (overwrite q 0 patch)), VVisible],
      scullv_vma_close (add_nodes m d2))"
    using q(1) [of 0 31] s(3) st(1) r(1) v sig by (simp add: basic_mapped_def lengths scullm_llseek_def scull_llseek_def SEEK_SET_def del: take_append take_take)
  with s(1) have t: "test_basic_mmap e d = Inr (VGoOn, [VWrote, VSeen basic_msg, VMatch, VRead (take k (overwrite q 0 patch)), VVisible],
      scullv_vma_close (add_nodes m d2))" by (rule trans)
  show ?thesis by (intro exI conjI) (rule t, rule c, rule b)
qed

lemma fork_test_ok:
  assumes e: "calls_succeed e" and d: "vready n d" "0 \<le> n" "n < 2 ^ 29"
  shows "\<exists>d'. test_fork_sharing e d = Inr (VGoOn, [VInitial fork_msg, VChild (overwrite fork_msg 0 child_msg),
    VParent (overwrite fork_msg 0 child_msg)], d') \<and> vready n d'"
proof -
  have n: "n < 2 ^ 30" using d(3) by simp
  from start_test_ok [OF e d(1,2) n msgs_nonempty(2), of 1 "fork_mapped e 18"] obtain d1 q where
    s: "test_fork_sharing e d = fork_mapped e 18 d1" "vpage (n + 1) d1 q" "take 18 q = fork_msg"
    by (auto simp: test_fork_sharing_def lengths)
  from vpage_vma(1) [OF s(2)] d have o: "vpage (n + 2) (scullv_vma_open d1) q" by (simp add: ac_simps)
  from vpage_store [OF this, of child_msg] obtain d2 where
    st: "map_store 1 0 child_msg (scullv_vma_open d1) = Inr (None, d2)" "vpage (n + 2) d2 (overwrite q 0 child_msg)"
    by (auto simp: lengths)
  from vpage_vma(2) [OF st(2)] d have c: "vpage (n + 1) (scullv_vma_close d2) (overwrite q 0 child_msg)" by (simp add: ac_simps)
  from vpage_vma(2) [OF c] d have c2: "vready n (scullv_vma_close (scullv_vma_close d2))" by (simp add: vpage_def)
  have b: "take 18 (overwrite q 0 child_msg) = overwrite fork_msg 0 child_msg" using s(3) by (simp add: take_overwrite_start lengths)
  have "ve_fork e = Inr ()" using e by (simp add: calls_succeed_def)
  then have "fork_mapped e 18 d1 = Inr (VGoOn, [VInitial fork_msg, VChild (overwrite fork_msg 0 child_msg),
    VParent (overwrite fork_msg 0 child_msg)], scullv_vma_close (scullv_vma_close d2))"
    using vpage_load(1) [OF s(2), of 0 18] s(3) st(1) vpage_load(1) [OF st(2), of 0 18] vpage_load(1) [OF c, of 0 18] b
    by (simp add: fork_mapped_def)
  with s(1) c2 show ?thesis by simp
qed

lemma sigbus_test_ok:
  assumes e: "calls_succeed e" and d: "vready n d" "0 \<le> n" "n < 2 ^ 30"
  shows "\<exists>d1 d'. test_sigbus_beyond_size e d = (if ve_touch e \<and> \<not> ve_behind e then Inr (VKilled SIGSEGV, [], d1)
    else Inr (VGoOn, [VNoSigbus], d')) \<and> vready (n + 1) d1 \<and> vready n d'"
proof -
  from start_test_ok [OF e d msgs_nonempty(3), of 2 "sigbus_mapped e 6"] obtain d1 q where
    s: "test_sigbus_beyond_size e d = sigbus_mapped e 6 d1" "vpage (n + 1) d1 q" by (auto simp: test_sigbus_beyond_size_def lengths)
  have "map_load 1 5 1 d1 = Inr (Inr (take 1 (drop 5 q)))" using vpage_load(1) [OF s(2), of 5 1] by simp
  then have t1: "touch e 5 d1 = Inr None" by (simp add: touch_def PAGE_SIZE_eq)
  have t2: "touch e 4096 d1 = Inr (if ve_touch e \<and> \<not> ve_behind e then Some SIGSEGV else None)"
    by (simp add: touch_def map_page_def PAGE_SIZE_eq)
  have "sigbus_mapped e 6 d1 = (if ve_touch e \<and> \<not> ve_behind e then Inr (VKilled SIGSEGV, [], d1)
      else Inr (VGoOn, [VNoSigbus], scullv_vma_close d1))"
    using t1 t2 by (simp add: sigbus_mapped_def sigbus_handler_def)
  moreover have "vready n (scullv_vma_close d1)" using vpage_vma(2) [OF s(2)] d by (simp add: vpage_def)
  ultimately show ?thesis using s by (metis vpage_def)
qed

subsection \<open>The program on a device that works\<close>



end
