(* ===== verification/MmapSession.thy ===== *)
theory MmapSession
  imports ScullSession ScullVariants
begin

text \<open>
  Processes on the mmap-capable devices of \<open>ch15_mmap_dma/scullv.c\<close>: the open files of \<open>ScullSession\<close>, and
  mappings, which are made, inherited by children, faulted in page by page and removed in any order.
  The result is that the count of mappings keeps every page that a process sees in the device; and
  that this rests on the count being changed by one process at a time.
\<close>

subsection \<open>Mappings and calls\<close>

text \<open>
  \<open>struct vm_area_struct\<close>: the device, \<open>vm_pgoff\<close>, the length in pages, and for each page that was
  installed the node and index of its quantum.
\<close>

record mm_map =
  mp_dev :: nat
  mp_pgoff :: nat
  mp_pages :: nat
  mp_ptes :: "(nat \<times> nat \<times> nat) list"

record mm_sys =
  mm_scull :: scull_sys
  mm_maps :: "mm_map option list"

datatype mm_call =
    MFile scull_call
  | MMmap nat bool nat nat
  | MFork nat
  | MUnmap nat
  | MAccess nat nat

datatype mm_ret = MRet scull_ret | MMapped nat | MErr errno | MPage "nat \<times> nat" | MSigbus | MSigsegv | MDone

definition map_of_sys :: "mm_sys \<Rightarrow> nat \<Rightarrow> mm_map option" where
  "map_of_sys s m = (if m < length (mm_maps s) then mm_maps s ! m else None)"

definition set_mdev :: "nat \<Rightarrow> scull_dev \<Rightarrow> mm_sys \<Rightarrow> mm_sys" where
  "set_mdev i d s = s\<lparr>mm_scull := set_dev i d (mm_scull s)\<rparr>"

text \<open>The calls on files; read, seek, ioctl and close are those of the bare driver.\<close>

definition mm_open :: "nat \<Rightarrow> nat \<Rightarrow> bool \<Rightarrow> scull_sys \<Rightarrow> (scull_ret \<times> scull_sys) run" where
  "mm_open i flags sig s =
     (if length (ss_devs s) \<le> i then Inr (RErr ENODEV, s)
      else case scullm_open (ss_glob s) sig flags (ss_devs s ! i) of
        Inl x \<Rightarrow> Inl x
      | Inr (Inl e, d) \<Rightarrow> Inr (RErr e, set_dev i d s)
      | Inr (Inr _, d) \<Rightarrow> Inr (RFd (length (ss_files s)),
          (set_dev i d s)\<lparr>ss_files := ss_files s @ [Some \<lparr>sf_dev = i, sf_flags = flags, sf_pos = 0\<rparr>]\<rparr>))"

definition mm_write :: "nat \<Rightarrow> scull_file \<Rightarrow> bool \<Rightarrow> bool list \<Rightarrow> byte list \<Rightarrow> nat \<Rightarrow> scull_sys \<Rightarrow> (scull_ret \<times> scull_sys) run" where
  "mm_write fd f sig al ubuf count s =
     (if \<not> may_write f then Inr (RErr EBADF, s)
      else case scullm_write sig al ubuf (rw_count count) (sf_pos f) (ss_devs s ! sf_dev f) of
        Inl x \<Rightarrow> Inl x
      | Inr (r, pos, d) \<Rightarrow> Inr (case r of Inl e \<Rightarrow> RErr e | Inr n \<Rightarrow> RCount n,
          set_file fd (Some (f\<lparr>sf_pos := pos\<rparr>)) (set_dev (sf_dev f) d s)))"

definition mm_file :: "scull_call \<Rightarrow> scull_sys \<Rightarrow> (scull_ret \<times> scull_sys) run" where
  "mm_file c s = (case c of
     SOpen i flags sig \<Rightarrow> mm_open i flags sig s
   | SWrite fd sig al ubuf count \<Rightarrow> (case file_of s fd of None \<Rightarrow> Inr (RErr EBADF, s) | Some f \<Rightarrow> mm_write fd f sig al ubuf count s)
   | _ \<Rightarrow> scull_fops c s)"

text \<open>
  The kernel refuses a mapping of a file that is not open for reading, or a writable one of a file
  that is not open for both.
\<close>

definition mm_mmap :: "nat \<Rightarrow> bool \<Rightarrow> nat \<Rightarrow> nat \<Rightarrow> mm_sys \<Rightarrow> mm_ret \<times> mm_sys" where
  "mm_mmap fd writable pgoff pages s = (case file_of (mm_scull s) fd of
     None \<Rightarrow> (MErr EBADF, s)
   | Some f \<Rightarrow> (if \<not> may_read f \<or> writable \<and> \<not> may_write f then (MErr EACCES, s)
      else let i = sf_dev f; s1 = set_mdev i (snd (scullv_mmap (ss_devs (mm_scull s) ! i))) s in
        (MMapped (length (mm_maps s)), s1\<lparr>mm_maps := mm_maps s @ [Some \<lparr>mp_dev = i, mp_pgoff = pgoff, mp_pages = pages, mp_ptes = []\<rparr>]\<rparr>)))"

text \<open>A child gets a copy of the mapping, with the pages that are installed.\<close>

definition mm_fork :: "nat \<Rightarrow> mm_sys \<Rightarrow> mm_ret \<times> mm_sys" where
  "mm_fork m s = (case map_of_sys s m of
     None \<Rightarrow> (MErr EINVAL, s)
   | Some v \<Rightarrow> (MMapped (length (mm_maps s)), (set_mdev (mp_dev v) (scullv_vma_open (ss_devs (mm_scull s) ! mp_dev v)) s)\<lparr>mm_maps := mm_maps s @ [Some v]\<rparr>))"

definition mm_unmap :: "nat \<Rightarrow> mm_sys \<Rightarrow> mm_ret \<times> mm_sys" where
  "mm_unmap m s = (case map_of_sys s m of
     None \<Rightarrow> (MErr EINVAL, s)
   | Some v \<Rightarrow> (MDone, (set_mdev (mp_dev v) (scullv_vma_close (ss_devs (mm_scull s) ! mp_dev v)) s)\<lparr>mm_maps := (mm_maps s)[m := None]\<rparr>))"

text \<open>
  An access to a page of the mapping: the address is relative to the start of the mapping.  What is
  installed is not asked for again.
\<close>

definition mm_access :: "nat \<Rightarrow> nat \<Rightarrow> mm_sys \<Rightarrow> (mm_ret \<times> mm_sys) run" where
  "mm_access m page s = (case map_of_sys s m of
     None \<Rightarrow> Inr (MSigsegv, s)
   | Some v \<Rightarrow> (if mp_pages v \<le> page then Inr (MSigsegv, s)
      else case map_of (mp_ptes v) page of Some loc \<Rightarrow> Inr (MPage loc, s)
      | None \<Rightarrow> (case no_page_fault (page * PAGE_SIZE) 0 (mp_pgoff v) (ss_devs (mm_scull s) ! mp_dev v) of
          Inl x \<Rightarrow> Inl x
        | Inr (_, None, d) \<Rightarrow> Inr (MSigbus, set_mdev (mp_dev v) d s)
        | Inr (_, Some loc, d) \<Rightarrow> Inr (MPage loc,
            (set_mdev (mp_dev v) d s)\<lparr>mm_maps := (mm_maps s)[m := Some (v\<lparr>mp_ptes := (page, loc) # mp_ptes v\<rparr>)]\<rparr>))))"

definition mm_fops :: "mm_call \<Rightarrow> mm_sys \<Rightarrow> (mm_ret \<times> mm_sys) run" where
  "mm_fops c s = (case c of
     MFile fc \<Rightarrow> (case mm_file fc (mm_scull s) of Inl x \<Rightarrow> Inl x | Inr (r, s1) \<Rightarrow> Inr (MRet r, s\<lparr>mm_scull := s1\<rparr>))
   | MMmap fd writable pgoff pages \<Rightarrow> Inr (mm_mmap fd writable pgoff pages s)
   | MFork m \<Rightarrow> Inr (mm_fork m s)
   | MUnmap m \<Rightarrow> Inr (mm_unmap m s)
   | MAccess m page \<Rightarrow> mm_access m page s)"

fun mm_session :: "mm_call list \<Rightarrow> mm_sys \<Rightarrow> (mm_ret list \<times> mm_sys) run" where
  "mm_session [] s = Inr ([], s)"
| "mm_session (c # cs) s = (case mm_fops c s of Inl x \<Rightarrow> Inl x
     | Inr (r, s1) \<Rightarrow> (case mm_session cs s1 of Inl x \<Rightarrow> Inl x | Inr (rs, s2) \<Rightarrow> Inr (r # rs, s2)))"

subsection \<open>What holds between the calls\<close>

definition maps_on :: "nat \<Rightarrow> mm_map option list \<Rightarrow> nat" where
  "maps_on i ms = length (filter (\<lambda>m. map_option mp_dev m = Some i) ms)"

text \<open>Every page of a mapping is that of a quantum the device still has.\<close>

definition map_ok :: "scull_sys \<Rightarrow> mm_map \<Rightarrow> bool" where
  "map_ok s v \<longleftrightarrow> mp_dev v < length (ss_devs s) \<and>
     (\<forall>(page, loc)\<in>set (mp_ptes v). quanta (sd_data (ss_devs s ! mp_dev v)) loc \<noteq> None)"

definition mdev_ok :: "nat \<Rightarrow> scull_dev \<Rightarrow> bool" where
  "mdev_ok n d \<longleftrightarrow> sd_quantum d \<le> 65536 \<and> sd_vmas d = int n"

definition mm_ok :: "mm_sys \<Rightarrow> bool" where
  "mm_ok s \<longleftrightarrow> sys_ok (mm_scull s) \<and> g_quantum (ss_glob (mm_scull s)) \<le> 65536 \<and>
     (\<forall>i<length (ss_devs (mm_scull s)). mdev_ok (maps_on i (mm_maps s)) (ss_devs (mm_scull s) ! i)) \<and>
     (\<forall>v. Some v \<in> set (mm_maps s) \<longrightarrow> map_ok (mm_scull s) v)"

text \<open>The calls on files keep to what \<open>ScullSession\<close> asks; there are less than \<open>2 ^ 30\<close> mappings.\<close>

definition mm_call_ok :: "mm_call \<Rightarrow> mm_sys \<Rightarrow> bool" where
  "mm_call_ok c s = (int (length (filter (\<lambda>m. m \<noteq> None) (mm_maps s))) < 2 ^ 30 \<and>
     (case c of MFile fc \<Rightarrow> call_ok fc (mm_scull s) | _ \<Rightarrow> True))"

fun mm_calls_ok :: "mm_call list \<Rightarrow> mm_sys \<Rightarrow> bool" where
  "mm_calls_ok [] s = True"
| "mm_calls_ok (c # cs) s = (mm_call_ok c s \<and> (case mm_fops c s of Inl _ \<Rightarrow> True | Inr (_, s1) \<Rightarrow> mm_calls_ok cs s1))"

subsection \<open>Calls on files\<close>

text \<open>What a call on a file may do to a device: never give up a quantum while there is a mapping.\<close>

definition dev_step :: "scull_dev \<Rightarrow> scull_dev \<Rightarrow> bool" where
  "dev_step d d' \<longleftrightarrow> sd_quantum d' \<le> 65536 \<and> sd_vmas d' = sd_vmas d \<and>
     (sd_vmas d \<noteq> 0 \<longrightarrow> dom (quanta (sd_data d)) \<subseteq> dom (quanta (sd_data d')))"

definition file_step :: "scull_sys \<Rightarrow> scull_sys \<Rightarrow> bool" where
  "file_step s s' \<longleftrightarrow> sys_ok s' \<and> g_quantum (ss_glob s') \<le> 65536 \<and> length (ss_devs s') = length (ss_devs s) \<and>
     (\<forall>i<length (ss_devs s). dev_step (ss_devs s ! i) (ss_devs s' ! i))"

lemma dev_step_refl: "sd_quantum d \<le> 65536 \<Longrightarrow> dev_step d d"
  by (simp add: dev_step_def)

definition small_quanta :: "scull_sys \<Rightarrow> bool" where
  "small_quanta s \<longleftrightarrow> sys_ok s \<and> g_quantum (ss_glob s) \<le> 65536 \<and> (\<forall>i<length (ss_devs s). sd_quantum (ss_devs s ! i) \<le> 65536)"

lemma file_step_set:
  assumes s: "small_quanta s" and d: "dev_step (ss_devs s ! i) d" and ok: "sys_ok s'"
    and s': "ss_devs s' = (ss_devs s)[i := d]" "ss_glob s' = ss_glob s"
  shows "file_step s s'"
proof -
  have "dev_step (ss_devs s ! j) ((ss_devs s)[i := d] ! j)" if "j < length (ss_devs s)" for j
    using s d that by (cases "i = j") (simp_all add: small_quanta_def dev_step_refl)
  then show ?thesis using s ok by (simp add: file_step_def s' small_quanta_def)
qed

lemma file_step_same:
  "small_quanta s \<Longrightarrow> sys_ok s' \<Longrightarrow> ss_devs s' = ss_devs s \<Longrightarrow> g_quantum (ss_glob s') \<le> 65536 \<Longrightarrow> file_step s s'"
  by (simp add: file_step_def small_quanta_def dev_step_refl)

lemma scullm_open_ok:
  assumes d: "dev_ok d" "sd_quantum d \<le> 65536" and g: "globals_ok g" "g_quantum g \<le> 65536"
  shows "\<exists>r d'. scullm_open g sig flags d = Inr (r, d') \<and> dev_ok d' \<and> dev_step d d'"
proof (cases "sd_vmas d = 0")
  case True
  obtain r d' where o: "scull_open g sig flags d = Inr (r, d')" "dev_ok d'" using open_ok [OF d(1) g(1)] by blast
  have "sd_vmas d' = sd_vmas d \<and> sd_quantum d' \<in> {sd_quantum d, g_quantum g}"
    using o(1) by (auto simp: scull_open_def scull_open_gen_def scull_dev_reset_def sem_up_def sem_down_def split: sum.splits prod.splits if_splits)
  then have "dev_step d d'" using d g True by (auto simp: dev_step_def)
  then show ?thesis using o scullm_reset_guard [of d g flags sig] True by auto
next
  case False
  then have "scullm_open g sig flags d \<in> {Inr (Inr (), d), Inr (Inl ERESTARTSYS, d)}"
    using d by (auto simp: scullm_open_def scull_open_gen_def scullm_dev_reset_def dev_ok_def sem_down_def sem_up_def split: sum.splits prod.splits)
  then show ?thesis using d dev_step_refl by auto
qed

lemma scullm_write_ok:
  assumes d: "dev_ok d" "sd_quantum d \<le> 65536" and pos: "pos_ok d pos" "pos \<le> int (sd_size d)" and cnt: "count < 2 ^ 62"
  shows "\<exists>r pos' d'. scullm_write sig [] ubuf count pos d = Inr (r, pos', d') \<and> dev_ok d' \<and> 0 \<le> pos' \<and> pos' < 2 ^ 63 \<and> dev_step d d'"
proof -
  have fit: "pages_hold SCULLV_ORDER (sd_quantum d)" using d(2) by (simp add: pages_hold_def SCULLV_ORDER_def PAGE_SIZE_eq)
  have "\<exists>q. scullm_alloc_quantum SCULLV_ORDER (sd_quantum d) [] = Inr (Some q, [])" by (simp add: scullm_alloc_quantum_def)
  from quantum_allocator.write_ok_gen [OF scullm.quantum_allocator_axioms d(1) pos cnt fit this, of sig ubuf]
  show ?thesis using d(2) by (auto simp: scullm_write_def write_keeps_def dev_step_def same_geometry_def)
qed

lemma mm_open_ok:
  assumes s: "small_quanta s"
  shows "\<exists>r s'. mm_open i flags sig s = Inr (r, s') \<and> file_step s s'"
proof (cases "i < length (ss_devs s)")
  case True
  have ok: "sys_ok s" and d: "dev_ok (ss_devs s ! i)" "sd_quantum (ss_devs s ! i) \<le> 65536" and g: "globals_ok (ss_glob s)" "g_quantum (ss_glob s) \<le> 65536"
    using s True by (simp_all add: small_quanta_def sys_ok_def)
  obtain r d' where o: "scullm_open (ss_glob s) sig flags (ss_devs s ! i) = Inr (r, d')" "dev_ok d'" "dev_step (ss_devs s ! i) d'"
    using scullm_open_ok [OF d g] by blast
  have u: "sys_ok (set_dev i d' s)"
    using sys_ok_update [OF ok o(2), of None "length (ss_files s)" i] by (simp add: set_file_def set_dev_def list_update_beyond)
  then have u2: "sys_ok ((set_dev i d' s)\<lparr>ss_files := ss_files s @ [Some \<lparr>sf_dev = i, sf_flags = flags, sf_pos = 0\<rparr>]\<rparr>)"
    using True by (auto simp: sys_ok_def file_ok_def set_dev_def)
  have "file_step s (set_dev i d' s)" "file_step s ((set_dev i d' s)\<lparr>ss_files := ss_files s @ [Some \<lparr>sf_dev = i, sf_flags = flags, sf_pos = 0\<rparr>]\<rparr>)"
    using file_step_set [OF s o(3) u] file_step_set [OF s o(3) u2] by (simp_all add: set_dev_def)
  then show ?thesis using o(1) True by (auto simp: mm_open_def split: sum.split)
next
  case False
  then show ?thesis using file_step_same [OF s] s by (simp add: mm_open_def small_quanta_def)
qed

lemma mm_write_ok:
  assumes s: "small_quanta s" and f: "file_of s fd = Some f" and c: "call_ok (SWrite fd sig al ubuf count) s"
  shows "\<exists>r s'. mm_write fd f sig al ubuf count s = Inr (r, s') \<and> file_step s s'"
proof -
  have ok: "sys_ok s" using s by (simp add: small_quanta_def)
  note ff = sys_okD [OF ok f]
  have al: "al = []" and p: "pos_ok (ss_devs s ! sf_dev f) (sf_pos f)" "sf_pos f \<le> int (sd_size (ss_devs s ! sf_dev f))"
    using c f by (simp_all add: call_ok_def Let_def)
  have q: "sd_quantum (ss_devs s ! sf_dev f) \<le> 65536" using s ff(1) by (simp add: small_quanta_def)
  obtain r pos' d' where r: "scullm_write sig al ubuf (rw_count count) (sf_pos f) (ss_devs s ! sf_dev f) = Inr (r, pos', d')"
      "dev_ok d'" "0 \<le> pos'" "pos' < 2 ^ 63" "dev_step (ss_devs s ! sf_dev f) d'" using scullm_write_ok [OF ff(2) q p min_rw] al by blast
  have u: "sys_ok (set_file fd (Some (f\<lparr>sf_pos := pos'\<rparr>)) (set_dev (sf_dev f) d' s))"
    using r ff by (intro sys_ok_update [OF ok r(2)]) (simp add: file_ok_def)
  have "file_step s (set_file fd (Some (f\<lparr>sf_pos := pos'\<rparr>)) (set_dev (sf_dev f) d' s))"
    by (rule file_step_set [OF s r(5) u]) (simp_all add: set_file_def set_dev_def)
  then show ?thesis using r(1) file_step_same [OF s ok] s by (auto simp: mm_write_def small_quanta_def)
qed

text \<open>The other calls leave the devices alone.\<close>

lemma other_calls_devs:
  assumes ok: "sys_ok s" and r: "scull_fops c s = Inr (r, s')" and c: "\<forall>i fl sg. c \<noteq> SOpen i fl sg" "\<forall>fd sg al u n. c \<noteq> SWrite fd sg al u n"
  shows "ss_devs s' = ss_devs s"
proof (cases c)
  case (SRead fd sig al ulen count)
  show ?thesis
  proof (cases "file_of s fd")
    case (Some f)
    note f = sys_okD [OF ok Some]
    obtain x pos' where "scull_read sig al ulen (rw_count count) (sf_pos f) (ss_devs s ! sf_dev f) = Inr (x, pos', ss_devs s ! sf_dev f)"
      using read_ok [OF f(2-4) min_rw] by blast
    then show ?thesis using r Some by (auto simp: scull_fops_def SRead scull_sys_read_def set_file_def set_dev_def split: if_splits)
  qed (use r in \<open>simp add: scull_fops_def SRead\<close>)
qed (use r c in \<open>auto simp: scull_fops_def scull_sys_seek_def scull_sys_ioctl_def scull_sys_close_def scull_release_def set_file_def set_dev_def
    split: option.splits prod.splits\<close>)

lemma other_calls_glob:
  assumes "call_ok c s" and "scull_fops c s = Inr (r, s')"
  shows "ss_glob s' \<in> {ss_glob s, \<lparr>g_quantum = SCULL_QUANTUM, g_qset = SCULL_QSET\<rparr>}"
proof (cases c)
  case (SIoctl fd e cmd arg)
  then have "\<not> ie_cap e" using assms(1) by (simp add: call_ok_def)
  from ioctl_unprivileged_cases [OF this, of cmd arg "ss_glob s"] assms(2) show ?thesis
    by (auto simp: scull_fops_def SIoctl scull_sys_ioctl_def split: option.splits prod.splits)
qed (use assms in \<open>auto simp: scull_fops_def scull_sys_open_def scull_sys_read_def scull_sys_write_def scull_sys_seek_def scull_sys_close_def
    set_file_def set_dev_def split: option.splits prod.splits sum.splits if_splits\<close>)

lemma mm_file_ok:
  assumes s: "small_quanta s" and c: "call_ok c s"
  shows "\<exists>r s'. mm_file c s = Inr (r, s') \<and> file_step s s'"
proof -
  have ok: "sys_ok s" using s by (simp add: small_quanta_def)
  consider (opn) i fl sg where "c = SOpen i fl sg" | (wrt) fd sg al u n where "c = SWrite fd sg al u n"
    | (other) "\<forall>i fl sg. c \<noteq> SOpen i fl sg" "\<forall>fd sg al u n. c \<noteq> SWrite fd sg al u n" by (cases c) auto
  then show ?thesis
  proof cases
    case opn
    then show ?thesis using mm_open_ok [OF s] by (simp add: mm_file_def)
  next
    case wrt
    then show ?thesis using mm_write_ok [OF s] c file_step_same [OF s ok] s
      by (cases "file_of s fd") (auto simp: mm_file_def small_quanta_def)
  next
    case other
    obtain r s' where r: "scull_fops c s = Inr (r, s')" "sys_ok s'" using scull_fops_ok [OF ok c] by blast
    have "file_step s s'" using file_step_same [OF s r(2) other_calls_devs [OF ok r(1) other]] other_calls_glob [OF c r(1)] s
      by (auto simp: small_quanta_def SCULL_QUANTUM_def)
    then show ?thesis using r(1) other by (cases c) (auto simp: mm_file_def)
  qed
qed

subsection \<open>The page fault handler\<close>

text \<open>On a device without holes it always returns, and never touches the device.\<close>

lemma fault_ok:
  assumes d: "dev_ok d"
  shows "\<exists>v loc. no_page_fault addr start pgoff d = Inr (v, loc, d) \<and> (\<forall>l. loc = Some l \<longrightarrow> quanta (sd_data d) l \<noteq> None)"
proof -
  have wf: "scull_wf d" and sem: "0 < sd_sem d" and arrays: "all_arrays (sd_data d)" using d by (simp_all add: dev_ok_def dense_def)
  have qs: "0 < sd_qset d" "sd_qset d < 2 ^ 31"
  proof -
    show q: "0 < sd_qset d" using wf by (simp add: scull_wf_def)
    have "1 * sd_qset d \<le> sd_quantum d * sd_qset d" using wf by (intro mult_right_mono) (auto simp: scull_wf_def)
    then show "sd_qset d < 2 ^ 31" using wf unfolding scull_wf_def by linarith
  qed
  define off where "off = u32 (u64 (int addr - int start + int pgoff * 2 ^ PAGE_SHIFT))"
  define pg where "pg = off div 2 ^ PAGE_SHIFT"
  define k where "k = nat (pg div sd_qset d)"
  have "0 \<le> off" "off < 2 ^ 32" by (simp_all add: off_def u32_def)
  then have pg: "0 \<le> pg" "pg < 2 ^ 32" by (simp_all add: pg_def PAGE_SHIFT_def)
  note walk = fault_walk_eq [OF qs pg, of 0 "sd_data d", folded k_def]
  have run: "no_page_fault addr start pgoff d = (if off \<ge> int (sd_size d) then Inr (VM_FAULT_SIGBUS, None, d)
      else case fault_walk (sd_qset d) 0 pg (sd_data d) of
          (None, _) \<Rightarrow> Inr (VM_FAULT_SIGBUS, None, d)
        | (Some (k, n), off) \<Rightarrow>
           (case qs_data n of
              None \<Rightarrow> Inl NullDeref
            | Some arr \<Rightarrow>
               (if int (length arr) \<le> off then Inl OutOfBounds
                else case arr ! nat off of
                    None \<Rightarrow> Inr (VM_FAULT_SIGBUS, None, d)
                  | Some q \<Rightarrow> Inr (VM_FAULT_NOPAGE, Some (k, nat off), d))))"
    unfolding no_page_fault_def Let_def off_def [symmetric] pg_def [symmetric] sem_updates sem_up_down(1) [OF sem] using sem by simp
  show ?thesis
  proof (cases "off \<ge> int (sd_size d) \<or> length (sd_data d) \<le> k")
    case True
    then show ?thesis using run walk by auto
  next
    case False
    then have "sd_data d ! k \<in> set (sd_data d)" by simp
    then obtain arr where arr: "qs_data (sd_data d ! k) = Some arr" using arrays by (auto simp: all_arrays_def)
    have len: "length arr = nat (sd_qset d)" using wf_node_array(1) [OF wf _ arr] False by simp
    have idx: "0 \<le> pg mod sd_qset d" "nat (pg mod sd_qset d) < length arr" using qs len by simp_all
    then have "\<not> int (length arr) \<le> pg mod sd_qset d" by linarith
    then have "no_page_fault addr start pgoff d = (case arr ! nat (pg mod sd_qset d) of
        None \<Rightarrow> Inr (VM_FAULT_SIGBUS, None, d) | Some q \<Rightarrow> Inr (VM_FAULT_NOPAGE, Some (k, nat (pg mod sd_qset d)), d))"
      using run walk False arr by simp
    moreover have "quanta (sd_data d) (k, nat (pg mod sd_qset d)) = arr ! nat (pg mod sd_qset d)" using False arr idx(2) by (simp add: quanta_def)
    ultimately show ?thesis by (cases "arr ! nat (pg mod sd_qset d)") auto
  qed
qed

subsection \<open>Calls on mappings\<close>

lemma maps_on_simps [simp]: "maps_on i (ms @ [Some v]) = maps_on i ms + (if mp_dev v = i then 1 else 0)"
  by (simp add: maps_on_def)

lemma maps_on_update:
  assumes "m < length ms" and "ms ! m = Some v"
  shows "maps_on i (ms[m := None]) = maps_on i ms - (if mp_dev v = i then 1 else 0)"
    and "mp_dev w = mp_dev v \<Longrightarrow> maps_on i (ms[m := Some w]) = maps_on i ms"
    and "maps_on (mp_dev v) ms \<noteq> 0"
proof -
  show "maps_on i (ms[m := None]) = maps_on i ms - (if mp_dev v = i then 1 else 0)"
    using length_filter_update [OF assms(1), of "\<lambda>m. map_option mp_dev m = Some i" None] assms(2) by (simp add: maps_on_def split: if_splits)
  show "mp_dev w = mp_dev v \<Longrightarrow> maps_on i (ms[m := Some w]) = maps_on i ms"
    using length_filter_update [OF assms(1), of "\<lambda>m. map_option mp_dev m = Some i" "Some w"] assms(2) by (simp add: maps_on_def split: if_splits)
  have "Some v \<in> set (filter (\<lambda>m. map_option mp_dev m = Some (mp_dev v)) ms)" using assms nth_mem [of m ms] by auto
  then show "maps_on (mp_dev v) ms \<noteq> 0" unfolding maps_on_def by (metis length_0_conv list.set(1) empty_iff)
qed

lemma maps_on_bound: "maps_on i ms \<le> length (filter (\<lambda>m. m \<noteq> None) ms)"
  by (induction ms) (auto simp: maps_on_def)

lemma maps_on_few: "int (length (filter (\<lambda>m. m \<noteq> None) ms)) < 2 ^ 30 \<Longrightarrow> int (maps_on i ms) < 2 ^ 30"
  using maps_on_bound [of i ms] by linarith

lemma map_of_sysD: "map_of_sys s m = Some v \<Longrightarrow> m < length (mm_maps s) \<and> mm_maps s ! m = Some v \<and> Some v \<in> set (mm_maps s)"
  by (auto simp: map_of_sys_def split: if_splits dest: nth_mem)

lemma mm_okD:
  assumes "mm_ok s" and "map_of_sys s m = Some v"
  shows "mp_dev v < length (ss_devs (mm_scull s))" "map_ok (mm_scull s) v" "dev_ok (ss_devs (mm_scull s) ! mp_dev v)"
    "mdev_ok (maps_on (mp_dev v) (mm_maps s)) (ss_devs (mm_scull s) ! mp_dev v)"
proof -
  show v: "map_ok (mm_scull s) v" using assms map_of_sysD by (auto simp: mm_ok_def)
  then show "mp_dev v < length (ss_devs (mm_scull s))" by (simp add: map_ok_def)
  then show "dev_ok (ss_devs (mm_scull s) ! mp_dev v)" "mdev_ok (maps_on (mp_dev v) (mm_maps s)) (ss_devs (mm_scull s) ! mp_dev v)"
    using assms(1) by (simp_all add: mm_ok_def sys_ok_def)
qed

text \<open>A step that changes the count of one device, and the list of mappings with it.\<close>

lemma mm_ok_count:
  assumes s: "mm_ok s" and i: "i < length (ss_devs (mm_scull s))"
    and d: "dev_ok d" "sd_data d = sd_data (ss_devs (mm_scull s) ! i)" "mdev_ok (maps_on i ms) d"
    and ms: "\<And>j. j \<noteq> i \<Longrightarrow> maps_on j ms = maps_on j (mm_maps s)" "\<And>v. Some v \<in> set ms \<Longrightarrow> map_ok (mm_scull s) v"
  shows "mm_ok ((set_mdev i d s)\<lparr>mm_maps := ms\<rparr>)"
proof -
  have "sys_ok (set_dev i d (mm_scull s))"
    using sys_ok_update [of "mm_scull s" d None "length (ss_files (mm_scull s))" i] s d(1) by (simp add: mm_ok_def set_file_def set_dev_def list_update_beyond)
  moreover have "mdev_ok (maps_on j ms) ((ss_devs (mm_scull s))[i := d] ! j)" if "j < length (ss_devs (mm_scull s))" for j
    using s d(3) ms(1) [of j] i that by (cases "j = i") (simp_all add: mm_ok_def)
  moreover have "map_ok (set_dev i d (mm_scull s)) v" if "Some v \<in> set ms" for v
    using ms(2) [OF that] d(2) by (cases "mp_dev v = i") (auto simp: map_ok_def set_dev_def)
  ultimately show ?thesis using s by (simp add: mm_ok_def set_mdev_def) (simp add: set_dev_def)
qed

lemma vma_count:
  assumes "dev_ok d" and "mdev_ok n d" and "int n < 2 ^ 30"
  shows "dev_ok (scullv_vma_open d)" "sd_data (scullv_vma_open d) = sd_data d" "mdev_ok (n + 1) (scullv_vma_open d)"
    "dev_ok (scullv_vma_close d)" "sd_data (scullv_vma_close d) = sd_data d" "n \<noteq> 0 \<Longrightarrow> mdev_ok (n - 1) (scullv_vma_close d)"
  using assms by (simp_all add: scullv_vma_open_def scullv_vma_close_def dev_ok_def dense_def scull_wf_def mdev_ok_def c_int of_nat_diff)

lemma mm_mmap_ok:
  assumes s: "mm_ok s" and few: "int (length (filter (\<lambda>m. m \<noteq> None) (mm_maps s))) < 2 ^ 30"
  shows "mm_ok (snd (mm_mmap fd writable pgoff pages s))"
proof (cases "file_of (mm_scull s) fd")
  case (Some f)
  have f: "sf_dev f < length (ss_devs (mm_scull s))" "dev_ok (ss_devs (mm_scull s) ! sf_dev f)"
    using s sys_okD [of "mm_scull s", OF _ Some] by (simp_all add: mm_ok_def)
  then have "mdev_ok (maps_on (sf_dev f) (mm_maps s)) (ss_devs (mm_scull s) ! sf_dev f)" using s by (simp add: mm_ok_def)
  note c = vma_count [OF f(2) this maps_on_few [OF few]]
  define v where "v = \<lparr>mp_dev = sf_dev f, mp_pgoff = pgoff, mp_pages = pages, mp_ptes = []\<rparr>"
  have "mm_ok ((set_mdev (sf_dev f) (scullv_vma_open (ss_devs (mm_scull s) ! sf_dev f)) s)\<lparr>mm_maps := mm_maps s @ [Some v]\<rparr>)"
    by (rule mm_ok_count [OF s f(1) c(1,2)]) (use c(3) s f(1) in \<open>auto simp: v_def mm_ok_def map_ok_def\<close>)
  then show ?thesis using s by (simp add: mm_mmap_def Some Let_def scullv_mmap_def v_def)
qed (simp add: mm_mmap_def s)

lemma mm_fork_ok:
  assumes s: "mm_ok s" and few: "int (length (filter (\<lambda>m. m \<noteq> None) (mm_maps s))) < 2 ^ 30"
  shows "mm_ok (snd (mm_fork m s))"
proof (cases "map_of_sys s m")
  case (Some v)
  note v = mm_okD [OF s Some]
  note c = vma_count [OF v(3,4) maps_on_few [OF few]]
  have "mm_ok ((set_mdev (mp_dev v) (scullv_vma_open (ss_devs (mm_scull s) ! mp_dev v)) s)\<lparr>mm_maps := mm_maps s @ [Some v]\<rparr>)"
    by (rule mm_ok_count [OF s v(1) c(1,2)]) (use c(3) s v(2) in \<open>auto simp: mm_ok_def\<close>)
  then show ?thesis by (simp add: mm_fork_def Some)
qed (simp add: mm_fork_def s)

lemma mm_unmap_ok:
  assumes s: "mm_ok s" and few: "int (length (filter (\<lambda>m. m \<noteq> None) (mm_maps s))) < 2 ^ 30"
  shows "mm_ok (snd (mm_unmap m s))"
proof (cases "map_of_sys s m")
  case (Some v)
  note v = mm_okD [OF s Some]
  note c = vma_count [OF v(3,4) maps_on_few [OF few]]
  have m: "m < length (mm_maps s)" "mm_maps s ! m = Some v" using map_of_sysD [OF Some] by simp_all
  note u = maps_on_update [OF m]
  have "Some w \<in> set ((mm_maps s)[m := None]) \<Longrightarrow> map_ok (mm_scull s) w" for w
    using s set_update_subset_insert [of "mm_maps s" m None] by (auto simp: mm_ok_def)
  then have "mm_ok ((set_mdev (mp_dev v) (scullv_vma_close (ss_devs (mm_scull s) ! mp_dev v)) s)\<lparr>mm_maps := (mm_maps s)[m := None]\<rparr>)"
    by (intro mm_ok_count [OF s v(1) c(4,5)]) (use c(6) u in \<open>simp_all\<close>)
  then show ?thesis by (simp add: mm_unmap_def Some)
qed (simp add: mm_unmap_def s)

lemma mm_access_ok:
  assumes s: "mm_ok s"
  shows "\<exists>r s'. mm_access m page s = Inr (r, s') \<and> mm_ok s'"
proof (cases "map_of_sys s m")
  case (Some v)
  note v = mm_okD [OF s Some]
  have m: "m < length (mm_maps s)" "mm_maps s ! m = Some v" using map_of_sysD [OF Some] by simp_all
  let ?d = "ss_devs (mm_scull s) ! mp_dev v"
  have same: "set_mdev (mp_dev v) ?d s = s" using v(1) by (simp add: set_mdev_def set_dev_def)
  obtain x loc where f: "no_page_fault (page * PAGE_SIZE) 0 (mp_pgoff v) ?d = Inr (x, loc, ?d)"
    "\<And>l. loc = Some l \<Longrightarrow> quanta (sd_data ?d) l \<noteq> None" using fault_ok [OF v(3)] by metis
  have new: "mm_ok (s\<lparr>mm_maps := (mm_maps s)[m := Some (v\<lparr>mp_ptes := (page, l) # mp_ptes v\<rparr>)]\<rparr>)" if "loc = Some l" for l
  proof -
    define w where "w = v\<lparr>mp_ptes := (page, l) # mp_ptes v\<rparr>"
    have "map_ok (mm_scull s) w" using v(2) f(2) [OF that] by (auto simp: w_def map_ok_def)
    then have "Some u \<in> set ((mm_maps s)[m := Some w]) \<Longrightarrow> map_ok (mm_scull s) u" for u
      using s set_update_subset_insert [of "mm_maps s" m "Some w"] by (auto simp: mm_ok_def)
    moreover have "maps_on j ((mm_maps s)[m := Some w]) = maps_on j (mm_maps s)" for j
      by (rule maps_on_update(2) [OF m]) (simp add: w_def)
    ultimately have "mm_ok ((set_mdev (mp_dev v) ?d s)\<lparr>mm_maps := (mm_maps s)[m := Some w]\<rparr>)"
      by (intro mm_ok_count [OF s v(1) v(3)]) (use v(4) in simp_all)
    then show ?thesis by (simp add: same w_def)
  qed
  show ?thesis using f(1) new s
    by (auto simp: mm_access_def Some same split: option.split)
qed (simp add: mm_access_def s)

lemma mm_file_step:
  assumes s: "mm_ok s" and f: "file_step (mm_scull s) s1"
  shows "mm_ok (s\<lparr>mm_scull := s1\<rparr>)"
proof -
  have len: "length (ss_devs s1) = length (ss_devs (mm_scull s))" and step: "\<And>i. i < length (ss_devs s1) \<Longrightarrow> dev_step (ss_devs (mm_scull s) ! i) (ss_devs s1 ! i)"
    using f by (simp_all add: file_step_def)
  have "mdev_ok (maps_on i (mm_maps s)) (ss_devs s1 ! i)" if "i < length (ss_devs s1)" for i
    using step [OF that] s that len by (simp add: mm_ok_def mdev_ok_def dev_step_def)
  moreover have "map_ok s1 v" if v: "Some v \<in> set (mm_maps s)" for v
  proof -
    obtain m where m: "m < length (mm_maps s)" "mm_maps s ! m = Some v" using v by (auto simp: in_set_conv_nth)
    then have "map_of_sys s m = Some v" by (simp add: map_of_sys_def)
    note k = mm_okD [OF s this]
    have "sd_vmas (ss_devs (mm_scull s) ! mp_dev v) \<noteq> 0" using k(4) maps_on_update(3) [OF m] by (simp add: mdev_ok_def)
    then have "dom (quanta (sd_data (ss_devs (mm_scull s) ! mp_dev v))) \<subseteq> dom (quanta (sd_data (ss_devs s1 ! mp_dev v)))"
      using step [of "mp_dev v"] k(1) len by (simp add: dev_step_def)
    then show ?thesis using k(1,2) len by (fastforce simp: map_ok_def)
  qed
  ultimately show ?thesis using s f by (simp add: mm_ok_def file_step_def)
qed

lemma mm_fops_ok:
  assumes s: "mm_ok s" and c: "mm_call_ok c s"
  shows "\<exists>r s'. mm_fops c s = Inr (r, s') \<and> mm_ok s'"
proof (cases c)
  case (MFile fc)
  have "small_quanta (mm_scull s)" using s by (simp add: small_quanta_def mm_ok_def mdev_ok_def)
  moreover have "call_ok fc (mm_scull s)" using c by (simp add: mm_call_ok_def MFile)
  ultimately obtain r s1 where "mm_file fc (mm_scull s) = Inr (r, s1)" "file_step (mm_scull s) s1" using mm_file_ok by blast
  then show ?thesis using mm_file_step [OF s] by (simp add: mm_fops_def MFile)
next
  case (MAccess m page)
  then show ?thesis using mm_access_ok [OF s] by (simp add: mm_fops_def)
qed (use c mm_mmap_ok [OF s] mm_fork_ok [OF s] mm_unmap_ok [OF s] in \<open>simp add: mm_fops_def mm_call_ok_def; metis prod.collapse\<close>)+

subsection \<open>No mapping outlives its pages\<close>


definition example_mm :: mm_sys where
  "example_mm = \<lparr>mm_scull = example_sys\<lparr>ss_devs := [example_dev\<lparr>sd_data := [QSet (Some [Some [0, 7, 8, 9], None])], sd_size := 4\<rparr>]\<rparr>,
     mm_maps = []\<rparr>"

text \<open>
  A page is mapped, the mapping inherited and removed by the parent; an open for writing does not empty
  the device, until the child has removed it too.
\<close>

definition example_mm_calls :: "mm_call list" where
  "example_mm_calls = [MFile (SOpen 0 2 False), MFile (SWrite 0 False [] [7] 1), MMmap 0 True 0 1, MAccess 0 0, MFork 0, MUnmap 0,
     MFile (SOpen 0 1 False), MAccess 1 0, MUnmap 1, MFile (SOpen 0 1 False)]"


lemma example_mm_runs:
  "case mm_session example_mm_calls example_mm of Inl _ \<Rightarrow> False | Inr (rs, s) \<Rightarrow>
     rs = [MRet (RFd 0), MRet (RCount 1), MMapped 0, MPage (0, 0), MMapped 1, MDone, MRet (RFd 1), MPage (0, 0), MDone, MRet (RFd 2)] \<and>
     sd_data (ss_devs (mm_scull s) ! 0) = []"
  by code_simp

text \<open>
  The count is changed without a lock.  Two processes that map the device at the same time may both
  read it before either writes it: one mapping is then not counted, and when the other is removed
  an open for writing empties the device below it.
\<close>

lemma vma_count_race:
  assumes "sd_vmas d = 0" and "0 < sd_sem d" and "scull_dev_reset g (sem_down d) = Inr (n, e)"
  shows "let seen1 = sd_vmas d; seen2 = sd_vmas d; d1 = d\<lparr>sd_vmas := s32 (seen1 + 1)\<rparr>; d2 = d1\<lparr>sd_vmas := s32 (seen2 + 1)\<rparr>
    in scullm_open g False O_WRONLY (scullv_vma_close d2) = Inr (Inr (), sem_up e) \<and> sd_data e = []"
proof -
  have "scullv_vma_close (d\<lparr>sd_vmas := s32 1\<rparr>) = d" using assms(1) by (simp add: scullv_vma_close_def c_int)
  moreover have "sd_data e = []" using assms(3) by (auto simp: scull_dev_reset_def split: sum.splits)
  moreover have "scullm_open g False O_WRONLY d = Inr (Inr (), sem_up e)"
    using assms by (simp add: scullm_open_def scull_open_gen_def scullm_dev_reset_def sem_down_def write_only_def O_WRONLY_def O_ACCMODE_def)
  ultimately show ?thesis using assms(1) by (simp add: Let_def)
qed

end
