(* ===== verification/Spec2Isabelle.thy ===== *)
theory Spec2Isabelle
  imports ScullModule ScullSession AccessTest PipeSystem PipeDump NapiSystem Rbull EduIoctl EduRace EduProbe
    EchoTty UacSession UacStream UsbGadget IrqEvents ShortPort MintDriver Adc Dac Jiq Jit ProcState ProcIter Kro SpinDemo Hello
    RwSem EduTest ScullTest ScullvTest MmapSession
begin

text \<open>
  \<^bold>\<open>The program.\<close>  The repository holds Linux drivers written along the book \<open>Linux Device
  Drivers\<close>; every chapter's directory under \<open>src/ldd3\<close> is a kernel module of its own, and
  \<open>common_scull\<close> and \<open>common_edu\<close> are shared by several.  The drivers are called by the kernel: the
  file operations in process context, any number of tasks at a time; interrupt handlers, work items
  and polls beside them; load and unload functions at the ends.  They share no state with each
  other, but within a driver the calls share the device structure under its locks.

  \<^bold>\<open>How it is modelled.\<close>  Every device structure is a record, every operation a function from the
  arguments, the answers of the kernel and the state to the result and the new state.  A result is
  an errno or a value (\<open>'a res\<close>), and a call may end abnormally (\<open>'a run\<close>): undefined behaviour,
  a loop that does not end, or a sleep that nothing ends.  Where operations can interleave, the
  critical sections are the steps of a transition relation over the tasks.  C integers are \<open>int\<close>
  with the wrap at their width written out, or words.  What the kernel decides is an argument:
  allocations, signals, how much of a user buffer is mapped, the results of registrations.  Devices
  are arguments too, and the theorems that need it name their documented behaviour as a hypothesis
  (\<open>hw_loopback\<close>, \<open>uac_stores\<close>).

  \<^bold>\<open>The theories.\<close>
  \<^item> \<open>KernelPrelude\<close>: C integers, results, inputs, lemmas on lists; \<open>BoundedQueue\<close>: the contract of
    a bounded first-in first-out buffer as a locale; \<open>Kfifo\<close>: its interpretation on the kernel's
    fifo.
  \<^item> \<open>ModuleLife\<close>: the contract of loading and unloading, as two locales that the modules below
    interpret, over any sequence of loads and unloads; the end of this theory puts them together.
  \<^item> \<open>ScullStore\<close>, \<open>ScullCells\<close>, \<open>ScullCore\<close>: the memory device of \<open>common_scull/scull_core.c\<close>: the
    list of quantum sets, \<open>scull_find_item\<close>, read, write, open, seek, reset and ioctl.  The locale
    \<open>quantum_allocator\<close> is the contract of the allocation of a quantum; read and write are proved
    once inside it.  The lemmas give the effect of each operation on the slots, then on the file's
    bytes (\<open>byte_at\<close>); items 0 and 1 of a file share their memory, which the theorems state.
    \<open>ScullSession\<close>: the table of operations over open files, for any sequence of system calls;
    \<open>ScullTest\<close>: the command line program \<open>ch03_scull/test/test_scull.c\<close> on it.
  \<^item> \<open>ScullVariants\<close>: the drivers of \<open>ch08_memory\<close> and \<open>ch15_mmap_dma/scullv.c\<close>, which interpret that
    locale with a slab cache, pages and vmalloc, and the page fault handler.  \<open>ScullvTest\<close>: the program
    \<open>ch15_mmap_dma/scullv_test.c\<close>, whose loads and stores in a mapping go through that handler;
    \<open>MmapSession\<close>: files and mappings of any number of processes on these devices.
  \<^item> \<open>ScullPipe\<close>, \<open>PipeSystem\<close>: the pipe of \<open>ch06_advanced_char/scull_pipe.c\<close>, first as an
    interpretation of the bounded queue, then with any number of tasks that sleep and wake;
    \<open>PipeDump\<close>: the text of its debugfs file.
  \<^item> \<open>ScullAccess\<close>: the access-controlled devices of \<open>scull_access_control.c\<close>, each as a gate with
    its critical sections as steps; \<open>AccessTest\<close>: the program \<open>test.c\<close> of that chapter, run on them.
  \<^item> \<open>ScullModule\<close>: loading and unloading of chapters 3 and 6, as what a module has registered.
  \<^item> \<open>ImpairRing\<close>, \<open>ImpairNet\<close>: the network device of \<open>ch17_net\<close>: the descriptor ring, with 32-bit
    word indices, as an interpretation of the bounded queue; transmit, poll, filter, statistics.
    \<open>NapiSystem\<close>: transmission, timer, poll and watchdog of one queue, interleaved.
  \<^item> \<open>Rbull\<close>: the block driver of \<open>ch16_block\<close>: the worker of a request, its race with the timeout,
    load and unload.
  \<^item> \<open>EduDma\<close>, \<open>EduIoctl\<close>, \<open>EduRace\<close>, \<open>EduProbe\<close>: the PCI device of \<open>common_edu\<close> and
    \<open>ch15_mmap_dma/main.c\<close>: transfers, the scatter-gather ioctl, transfers interleaved with the
    interrupt handler, probe, power management and error recovery.  \<open>EduSession\<close>: any sequence of
    calls on the open file, and the locale \<open>dma_window\<close> of what a file promises when nothing fails;
    \<open>EduTest\<close>: the program \<open>ch15_mmap_dma/edu_test.c\<close>, proved in that locale.
  \<^item> \<open>EchoTty\<close>: the tty of \<open>ch18_tty\<close>: its operations, and writer, flow control and work item
    interleaved.
  \<^item> \<open>UacControl\<close>, \<open>UacStream\<close>: the USB audio driver of \<open>ch13_usb\<close>: volume, mute and the feature
    unit; the ring of samples, probe and disconnect.  \<open>CNumbers\<close>, \<open>UacTool\<close>: doubles with their
    rounding as a parameter, \<open>strtol\<close>, \<open>strtod\<close>, and the command line tool \<open>uacctl.c\<close> over any
    device; \<open>UacSession\<close>: the tool on the driver, through the locale \<open>volume_device\<close>.
    \<open>UsbGadget\<close>: the composite gadget \<open>usb_g_acm.c\<close>.
  \<^item> \<open>IrqEvents\<close>: the interrupt loggers of \<open>ch10_interrupts\<close>; \<open>ShortPort\<close>: the port driver of
    \<open>ch09_hw_communication\<close>; \<open>MintBus\<close>, \<open>MintDriver\<close>: the bus and class of
    \<open>ch14_device_model\<close>, and the binding of its devices to drivers;
    \<open>Adc\<close>, \<open>Dac\<close>: the two drivers of the MCP3008 converter of \<open>rpi-projects/adc\<close> and the sound
    driver of \<open>rpi-projects/dac\<close>.
  \<^item> \<open>ProcFs\<close>: the part of procfs that the next ones use; \<open>Jiq\<close>, \<open>Jit\<close>: deferred work and delays of
    \<open>ch07_timers\<close>; \<open>ProcState\<close>, \<open>ProcIter\<close>: the procfs, debugfs and sysfs files of \<open>ch04_debug\<close>;
    \<open>SpinDemo\<close>, \<open>RwSem\<close>: \<open>ch05_concurrency\<close>; \<open>Hello\<close>: \<open>ch02_hello\<close> and \<open>oops.c\<close>; \<open>Kro\<close>: \<open>ch11_ktypes\<close>.

  \<^bold>\<open>What is shown.\<close>  For each component: what its operations do on every branch, errors included; an
  invariant that all of them keep, over all interleavings where there are several tasks; that
  queues deliver in order and lose nothing; round trips of write and read; that loops end; that a
  load which fails, or an unload, releases what it took.  Where the code does not do this, the
  theorem says what it does instead, for the smallest state in which it happens, and the manifest
  lists it as a finding.

  \<^bold>\<open>Loops and bounds.\<close>  Loops are recursions that are proved to end, by structure or by a measure.
  Two need not end and are partial functions with value \<open>None\<close> when they do not: \<open>ring_free_all\<close>,
  proved total on every ring the driver builds, and \<open>wait_clock\<close>, proved to end when the clock goes on.  \<open>scull_dev_reset\<close> detects the node
  at which its loop makes no progress (\<open>Diverges\<close>).  There is no fuel.  Sizes are those of the
  code: quantum and quantum set arbitrary 32-bit integers, rings of 1024 descriptors with 1023 in
  use, a DMA buffer of 4096 bytes, a tty fifo of 128 bytes (\<open>kfifo_alloc\<close> rounds 100 up), an audio
  ring of 65536 bytes.

  \<^bold>\<open>Not modelled.\<close>  Timing, beyond the order of clock readings in \<open>Jit\<close>: the expiry of timeouts, the
  runtime power manager beyond its usage counts.  Memory order: each critical section is atomic, as
  its lock makes it.  The kernel's own code (block layer, NAPI scheduling, tty and USB core, page
  tables) appears only as the order and the results of calls.  The texts that the test programs
  print are cut to key words, and their options are what \<open>getopt_long\<close> returns.  Three files do not
  compile as they are: \<open>rwsem.c\<close> (a stray letter in line 13, read as absent), \<open>edu_test.c\<close>
  (constants of \<open>edu.h\<close>, which it does not include) and \<open>test_scull.c\<close> (a header that needs the
  kernel's).  Tables that only name functions and ids for the kernel have no state of their own.
\<close>

subsection \<open>Loading and unloading of all modules\<close>


text \<open>The others leave something behind only when a load fails, and then once for each.\<close>

lemma modules_leave_failures:
  "leaves_failures pcm_bind (\<lambda>h. Inr (fst (pcm5102a_remove h))) (\<lambda>h. h = []) (\<lambda>e. \<forall>mem. pe_buf e = Some mem \<longrightarrow> length mem = 1024)"
  "leaves_failures (\<lambda>e. Inr (tty_init e)) (\<lambda>h. Inr (tty_exit h)) (\<lambda>h. h = []) (\<lambda>_. True)"
  "leaves_failures (\<lambda>(period_ms, setup, misc). Inr (mcp3008_probe period_ms setup misc)) (\<lambda>h. Inr (mcp3008_remove h)) (\<lambda>h. h = []) (\<lambda>_. True)"
  "leaves_failures (\<lambda>oks. Inr (jiq_init oks)) (\<lambda>h. Inr (jiq_exit h)) (\<lambda>h. h = []) (\<lambda>_. True)"
  "leaves_failures (\<lambda>(dir, oks). Inr (jit_init dir oks)) (\<lambda>h. Inr (jit_exit h)) (\<lambda>h. h = []) (\<lambda>_. True)"
  by (rule dac_mod.leaves_only_failures echo_mod.leaves_only_failures adc_mod.leaves_only_failures jiq_mod.leaves_only_failures
      jit_mod.leaves_only_failures)+

end
